(* ===== verification/Prelude.thy ===== *)
theory Prelude
  imports Main "HOL-Library.Word" "HOL-Library.Multiset"
begin

text \<open>
  The shared vocabulary of the development: Rust's \<^verbatim>\<open>std::cmp::Ordering\<close> and the laws of
  a comparison function, the standard library's ordered map as a key-sorted association list,
  stable sorting by a comparison function, the string functions of \<^verbatim>\<open>str\<close> that the sources
  use, machine integers, and the generic lemmas about lists that several components need.

  Rust strings are modelled as \<^typ>\<open>string\<close>, read as the sequence of their UTF-8 bytes: length is
  \<^verbatim>\<open>str::len\<close>, and the lexicographic order on bytes is \<^verbatim>\<open>str\<close>'s order.
\<close>


type_synonym u8 = "8 word"
type_synonym u32 = "32 word"
type_synonym u64 = "64 word"

type_synonym ('e, 'a) result = "'e + 'a"

abbreviation Err :: "'e \<Rightarrow> ('e, 'a) result" where "Err \<equiv> Inl"
abbreviation Ok :: "'a \<Rightarrow> ('e, 'a) result" where "Ok \<equiv> Inr"

section \<open>Orderings\<close>

datatype ordering = Less | Equal | Greater

fun rev_ord :: "ordering \<Rightarrow> ordering" where
  "rev_ord Less = Greater"
| "rev_ord Equal = Equal"
| "rev_ord Greater = Less"

fun then_ord :: "ordering \<Rightarrow> ordering \<Rightarrow> ordering" where
  "then_ord Equal o2 = o2"
| "then_ord Less o2 = Less"
| "then_ord Greater o2 = Greater"

definition cmp_lin :: "'a::linorder \<Rightarrow> 'a \<Rightarrow> ordering" where
  "cmp_lin a b = (if a < b then Less else if a = b then Equal else Greater)"

text \<open>The order of two sequences: the first unequal pair decides, then the lengths.\<close>

fun cmp_list :: "('a \<Rightarrow> 'b \<Rightarrow> ordering) \<Rightarrow> 'a list \<Rightarrow> 'b list \<Rightarrow> ordering" where
  "cmp_list c (x # xs) (y # ys) = then_ord (c x y) (cmp_list c xs ys)"
| "cmp_list c xs ys = cmp_lin (length xs) (length ys)"

definition cmp_char :: "char \<Rightarrow> char \<Rightarrow> ordering" where
  "cmp_char a b = cmp_lin (of_char a :: nat) (of_char b)"

definition str_cmp :: "string \<Rightarrow> string \<Rightarrow> ordering" where
  "str_cmp = cmp_list cmp_char"

lemma rev_rev_ord [simp]: "rev_ord (rev_ord c) = c"
  by (cases c) auto

lemma rev_ord_eq_simps [simp]:
  "rev_ord c = Equal \<longleftrightarrow> c = Equal"
  "rev_ord c = Less \<longleftrightarrow> c = Greater"
  "rev_ord c = Greater \<longleftrightarrow> c = Less"
  by (cases c; simp)+

lemma then_ord_Equal_right [simp]: "then_ord c Equal = c"
  by (cases c) auto

lemma then_ord_eq_Equal [simp]: "then_ord c d = Equal \<longleftrightarrow> c = Equal \<and> d = Equal"
  by (cases c) auto

lemma rev_then_ord: "rev_ord (then_ord c d) = then_ord (rev_ord c) (rev_ord d)"
  by (cases c) auto

lemma then_ord_not_Greater:
  "then_ord c d \<noteq> Greater \<longleftrightarrow> c = Less \<or> c = Equal \<and> d \<noteq> Greater"
  by (cases c) auto

lemma cmp_lin_simps [simp]:
  "cmp_lin a b = Less \<longleftrightarrow> a < b"
  "cmp_lin a b = Equal \<longleftrightarrow> a = b"
  "cmp_lin a b = Greater \<longleftrightarrow> b < a"
  by (auto simp: cmp_lin_def)

lemma rev_cmp_lin: "rev_ord (cmp_lin a b) = cmp_lin b a"
  by (auto simp: cmp_lin_def)

lemma cmp_list_cong [fundef_cong]:
  assumes "xs = xs'" "ys = ys'" "\<And>x y. x \<in> set xs' \<Longrightarrow> y \<in> set ys' \<Longrightarrow> c x y = d x y"
  shows "cmp_list c xs ys = cmp_list d xs' ys'"
  unfolding assms(1,2) using assms(3)
  by (induction d xs' ys' rule: cmp_list.induct) auto

lemma cmp_list_refl: "(\<And>x. x \<in> set xs \<Longrightarrow> c x x = Equal) \<Longrightarrow> cmp_list c xs xs = Equal"
  by (induction xs) auto

lemma cmp_list_rev:
  "(\<And>x y. x \<in> set xs \<Longrightarrow> y \<in> set ys \<Longrightarrow> d y x = rev_ord (c x y)) \<Longrightarrow>
   cmp_list d ys xs = rev_ord (cmp_list c xs ys)"
proof (induction c xs ys rule: cmp_list.induct)
  case (1 c x xs y ys)
  then show ?case by (auto simp: rev_then_ord)
qed (auto simp: rev_cmp_lin)

lemma cmp_list_eq_Equal:
  "cmp_list c xs ys = Equal \<longleftrightarrow> list_all2 (\<lambda>x y. c x y = Equal) xs ys"
  by (induction c xs ys rule: cmp_list.induct) auto

section \<open>Comparison functions as an interface\<close>

text \<open>
  What a caller of a comparison function relies on: it is reflexive, reversing the arguments
  reverses the answer, and \<open>\<le>\<close> is transitive. This is what Rust's \<^verbatim>\<open>Ord\<close> demands of a
  \<^verbatim>\<open>BTreeMap\<close> key and of the closure given to \<^verbatim>\<open>sort_by\<close>.
\<close>

locale cmp_preorder =
  fixes cmp :: "'a \<Rightarrow> 'a \<Rightarrow> ordering"
  assumes cmp_refl: "cmp a a = Equal"
    and cmp_rev: "cmp b a = rev_ord (cmp a b)"
    and cmp_trans: "cmp a b \<noteq> Greater \<Longrightarrow> cmp b c \<noteq> Greater \<Longrightarrow> cmp a c \<noteq> Greater"
begin

lemma cmp_Greater_iff: "cmp a b = Greater \<longleftrightarrow> cmp b a = Less"
  by (subst cmp_rev) simp

lemma cmp_Equal_sym: "cmp a b = Equal \<longleftrightarrow> cmp b a = Equal"
  by (subst cmp_rev) simp

lemma cmp_total: "cmp a b \<noteq> Greater \<or> cmp b a \<noteq> Greater"
  using cmp_rev [of b a] by (cases "cmp a b") auto

lemma cmp_le_less_trans: "cmp a b \<noteq> Greater \<Longrightarrow> cmp b c = Less \<Longrightarrow> cmp a c = Less"
  by (metis cmp_Greater_iff cmp_rev cmp_trans ordering.exhaust ordering.simps(6) rev_ord_eq_simps(1))

lemma cmp_less_le_trans: "cmp a b = Less \<Longrightarrow> cmp b c \<noteq> Greater \<Longrightarrow> cmp a c = Less"
  by (metis cmp_Greater_iff cmp_rev cmp_trans ordering.exhaust ordering.simps(6) rev_ord_eq_simps(1))

lemma cmp_less_trans: "cmp a b = Less \<Longrightarrow> cmp b c = Less \<Longrightarrow> cmp a c = Less"
  using cmp_less_le_trans by force

lemma cmp_eq_left: "cmp a b = Equal \<Longrightarrow> cmp a c = cmp b c"
  by (metis cmp_Equal_sym cmp_Greater_iff cmp_le_less_trans cmp_rev ordering.exhaust
      ordering.simps(2,6) rev_ord_eq_simps(2))

lemma cmp_eq_right: "cmp a b = Equal \<Longrightarrow> cmp c a = cmp c b"
  by (metis cmp_eq_left cmp_rev)

lemma cmp_Equal_trans: "cmp a b = Equal \<Longrightarrow> cmp b c = Equal \<Longrightarrow> cmp a c = Equal"
  using cmp_eq_left [of a b c] by simp

end

text \<open>A comparison in which only identical values tie.\<close>

locale cmp_order = cmp_preorder +
  assumes cmp_EqualD: "cmp a b = Equal \<Longrightarrow> a = b"
begin

lemma cmp_Equal_iff: "cmp a b = Equal \<longleftrightarrow> a = b"
  using cmp_EqualD cmp_refl by blast

end

text \<open>
  Transitivity at one left element, in the form that composes: \<open>\<le>\<close> twice is \<open>Equal\<close> only if both
  steps are, and \<open>Less\<close> otherwise. Lexicographic comparison inherits it from its elements.
\<close>

definition trans_at :: "('a \<Rightarrow> 'a \<Rightarrow> ordering) \<Rightarrow> 'a \<Rightarrow> bool" where
  "trans_at c x = (\<forall>y z. c x y \<noteq> Greater \<longrightarrow> c y z \<noteq> Greater \<longrightarrow>
     c x z = (if c x y = Equal \<and> c y z = Equal then Equal else Less))"

lemma trans_atD:
  "trans_at c x \<Longrightarrow> c x y \<noteq> Greater \<Longrightarrow> c y z \<noteq> Greater \<Longrightarrow>
   c x z = (if c x y = Equal \<and> c y z = Equal then Equal else Less)"
  by (simp add: trans_at_def)

context cmp_preorder
begin

lemma trans_at: "trans_at cmp x"
  unfolding trans_at_def
proof (intro allI impI)
  fix y z
  assume "cmp x y \<noteq> Greater" "cmp y z \<noteq> Greater"
  then show "cmp x z = (if cmp x y = Equal \<and> cmp y z = Equal then Equal else Less)"
    using cmp_Equal_trans [of x y z] cmp_le_less_trans [of x y z] cmp_less_le_trans [of x y z]
    by (cases "cmp x y"; cases "cmp y z") simp_all
qed

end

lemma cmp_preorderI:
  assumes "\<And>a. c a a = Equal" "\<And>a b. c b a = rev_ord (c a b)" "\<And>a. trans_at c a"
  shows "cmp_preorder c"
proof
  show "c a d \<noteq> Greater" if "c a b \<noteq> Greater" "c b d \<noteq> Greater" for a b d
    using trans_atD [OF assms(3) that] by simp
qed (rule assms(1,2))+

lemma trans_at_then:
  assumes "trans_at c (f x)" "trans_at d (g x)"
  shows "trans_at (\<lambda>x y. then_ord (c (f x) (f y)) (d (g x) (g y))) x"
  unfolding trans_at_def then_ord_not_Greater
proof (intro allI impI)
  fix y z
  assume "c (f x) (f y) = Less \<or> c (f x) (f y) = Equal \<and> d (g x) (g y) \<noteq> Greater"
    and "c (f y) (f z) = Less \<or> c (f y) (f z) = Equal \<and> d (g y) (g z) \<noteq> Greater"
  then show "then_ord (c (f x) (f z)) (d (g x) (g z)) =
      (if then_ord (c (f x) (f y)) (d (g x) (g y)) = Equal \<and>
          then_ord (c (f y) (f z)) (d (g y) (g z)) = Equal then Equal else Less)"
    using trans_atD [OF assms(1), of "f y" "f z"] trans_atD [OF assms(2), of "g y" "g z"]
    by auto
qed

lemma trans_at_list: "(\<And>x. x \<in> set xs \<Longrightarrow> trans_at c x) \<Longrightarrow> trans_at (cmp_list c) xs"
proof (induction xs)
  case Nil
  show ?case
    unfolding trans_at_def by (intro allI, rename_tac ys zs, case_tac ys; case_tac zs; simp)
next
  case (Cons x xs)
  have x: "trans_at c x" and xs: "trans_at (cmp_list c) xs"
    using Cons by simp_all
  show ?case
    unfolding trans_at_def
  proof (intro allI impI)
    fix ys zs
    assume le: "cmp_list c (x # xs) ys \<noteq> Greater" "cmp_list c ys zs \<noteq> Greater"
    from le(1) obtain y ys' where ys: "ys = y # ys'" by (cases ys) auto
    with le(2) obtain z zs' where zs: "zs = z # zs'" by (cases zs) auto
    show "cmp_list c (x # xs) zs =
        (if cmp_list c (x # xs) ys = Equal \<and> cmp_list c ys zs = Equal then Equal else Less)"
      using le trans_atD [OF x, of y z] trans_atD [OF xs, of ys' zs']
      unfolding ys zs by (auto simp: then_ord_not_Greater)
  qed
qed

lemma cmp_preorder_lin: "cmp_preorder (cmp_lin :: 'a::linorder \<Rightarrow> 'a \<Rightarrow> ordering)"
  by unfold_locales (auto simp: cmp_lin_def split: if_splits)

interpretation cmp_lin: cmp_order "cmp_lin :: 'a::linorder \<Rightarrow> 'a \<Rightarrow> ordering"
  by unfold_locales (auto simp: cmp_lin_def split: if_splits)

lemma cmp_preorder_list: "cmp_preorder c \<Longrightarrow> cmp_preorder (cmp_list c)"
  by (rule cmp_preorderI)
    (auto intro: cmp_list_refl cmp_list_rev trans_at_list cmp_preorder.cmp_refl
      cmp_preorder.cmp_rev cmp_preorder.trans_at)

lemma cmp_preorder_char: "cmp_preorder cmp_char"
  by unfold_locales (auto simp: cmp_char_def cmp_lin_def split: if_splits)

interpretation str_cmp: cmp_order str_cmp
proof -
  have "cmp_preorder str_cmp"
    unfolding str_cmp_def by (rule cmp_preorder_list [OF cmp_preorder_char])
  moreover have "a = b" if "str_cmp a b = Equal" for a b
    using that unfolding str_cmp_def cmp_list_eq_Equal
    by (simp add: cmp_char_def list.rel_eq)
  ultimately show "cmp_order str_cmp"
    by (simp add: cmp_order_def cmp_order_axioms_def)
qed

section \<open>The standard library's ordered map\<close>

text \<open>
  A \<^verbatim>\<open>BTreeMap\<close> is the list of its entries in ascending key order, for the key type's
  comparison function. Replacing the value of an existing key keeps the key already stored, as
  \<^verbatim>\<open>BTreeMap::insert\<close> does; the difference shows only for keys that tie without being identical.
\<close>

definition bm_sorted :: "('k \<Rightarrow> 'k \<Rightarrow> ordering) \<Rightarrow> ('k \<times> 'v) list \<Rightarrow> bool" where
  "bm_sorted cmp m = sorted_wrt (\<lambda>a b. cmp (fst a) (fst b) = Less) m"

fun bm_get :: "('k \<Rightarrow> 'k \<Rightarrow> ordering) \<Rightarrow> ('k \<times> 'v) list \<Rightarrow> 'k \<Rightarrow> 'v option" where
  "bm_get cmp [] k = None"
| "bm_get cmp ((k', v) # m) k = (if cmp k k' = Equal then Some v else bm_get cmp m k)"

fun bm_insert :: "('k \<Rightarrow> 'k \<Rightarrow> ordering) \<Rightarrow> 'k \<Rightarrow> 'v \<Rightarrow> ('k \<times> 'v) list \<Rightarrow> ('k \<times> 'v) list" where
  "bm_insert cmp k v [] = [(k, v)]"
| "bm_insert cmp k v ((k', v') # m) =
     (case cmp k k' of
        Less \<Rightarrow> (k, v) # (k', v') # m
      | Equal \<Rightarrow> (k', v) # m
      | Greater \<Rightarrow> (k', v') # bm_insert cmp k v m)"

definition bm_remove :: "('k \<Rightarrow> 'k \<Rightarrow> ordering) \<Rightarrow> 'k \<Rightarrow> ('k \<times> 'v) list \<Rightarrow> ('k \<times> 'v) list" where
  "bm_remove cmp k m = filter (\<lambda>e. cmp k (fst e) \<noteq> Equal) m"

lemma bm_sorted_simps [simp]:
  "bm_sorted cmp []"
  "bm_sorted cmp (e # m) \<longleftrightarrow> (\<forall>e'\<in>set m. cmp (fst e) (fst e') = Less) \<and> bm_sorted cmp m"
  by (auto simp: bm_sorted_def)

lemma bm_sorted_filter [intro]: "bm_sorted cmp m \<Longrightarrow> bm_sorted cmp (filter P m)"
  by (auto simp: bm_sorted_def intro: sorted_wrt_filter)

lemma bm_sorted_remove [intro]: "bm_sorted cmp m \<Longrightarrow> bm_sorted cmp (bm_remove cmp k m)"
  unfolding bm_remove_def by (rule bm_sorted_filter)

lemma set_bm_insert: "set (bm_insert cmp k v m) \<subseteq> insert (k, v) (set m) \<union> {(k', v) | k'. k' \<in> fst ` set m}"
  by (induction m) (force split: ordering.splits)+

lemma fst_set_bm_insert: "fst ` set (bm_insert cmp k v m) \<subseteq> insert k (fst ` set m)"
  using set_bm_insert [of cmp k v m] by force

lemma bm_get_Some_in: "bm_get cmp m k = Some v \<Longrightarrow> \<exists>k'. (k', v) \<in> set m \<and> cmp k k' = Equal"
  by (induction m) (auto split: if_splits)

context cmp_preorder
begin

lemma bm_sorted_insert: "bm_sorted cmp m \<Longrightarrow> bm_sorted cmp (bm_insert cmp k v m)"
proof (induction m)
  case (Cons e m)
  obtain k' v' where e: "e = (k', v')" by (cases e)
  show ?case
  proof (cases "cmp k k'")
    case Less
    then show ?thesis using Cons.prems by (auto simp: e intro: cmp_less_trans)
  next
    case Greater
    then have "cmp k' k = Less" by (simp add: cmp_Greater_iff)
    then have "\<forall>x\<in>insert k (fst ` set m). cmp k' x = Less"
      using Cons.prems by (auto simp: e)
    then have "\<forall>x\<in>fst ` set (bm_insert cmp k v m). cmp k' x = Less"
      using fst_set_bm_insert [of cmp k v m] by blast
    then show ?thesis using Greater Cons by (auto simp: e)
  qed (use Cons.prems in \<open>auto simp: e\<close>)
qed simp

lemma bm_get_insert_same: "bm_get cmp (bm_insert cmp k v m) k = Some v"
  by (induction m) (auto simp: cmp_refl split: ordering.splits)

lemma bm_get_cong: "cmp a b = Equal \<Longrightarrow> bm_get cmp m a = bm_get cmp m b"
  by (induction m) (auto simp: cmp_eq_left)

lemma bm_get_insert_other:
  "cmp a k \<noteq> Equal \<Longrightarrow> bm_get cmp (bm_insert cmp k v m) a = bm_get cmp m a"
proof (induction m)
  case (Cons e m)
  then show ?case
    using cmp_eq_right [of k "fst e" a] by (cases e) (auto split: ordering.splits)
qed simp

lemma bm_get_insert:
  "bm_get cmp (bm_insert cmp k v m) a = (if cmp a k = Equal then Some v else bm_get cmp m a)"
  using bm_get_cong [of a k "bm_insert cmp k v m"]
  by (simp add: bm_get_insert_same bm_get_insert_other)

lemma bm_get_remove:
  "bm_get cmp (bm_remove cmp k m) a = (if cmp a k = Equal then None else bm_get cmp m a)"
proof (induction m)
  case (Cons e m)
  then show ?case
    using cmp_eq_left [of a k "fst e"] cmp_eq_right [of k "fst e" a]
    by (cases e) (auto simp: bm_remove_def)
qed (simp add: bm_remove_def)

lemma bm_get_in:
  assumes "bm_sorted cmp m" "(k', v) \<in> set m" "cmp k k' = Equal"
  shows "bm_get cmp m k = Some v"
  using assms
proof (induction m)
  case (Cons e m)
  obtain k1 v1 where e: "e = (k1, v1)" by (cases e)
  show ?case
  proof (cases "e = (k', v)")
    case True
    with Cons.prems(3) show ?thesis by simp
  next
    case False
    with Cons.prems have m: "(k', v) \<in> set m" "bm_sorted cmp m" and "cmp k1 k' = Less"
      by (auto simp: e)
    then have "cmp k k1 = Greater"
      using cmp_eq_left [OF Cons.prems(3), of k1] by (simp add: cmp_Greater_iff)
    with Cons.IH m Cons.prems(3) show ?thesis by (simp add: e)
  qed
qed simp

lemma bm_get_iff:
  "bm_sorted cmp m \<Longrightarrow> bm_get cmp m k = Some v \<longleftrightarrow> (\<exists>k'. (k', v) \<in> set m \<and> cmp k k' = Equal)"
  using bm_get_in bm_get_Some_in by metis

end

text \<open>
  \<^verbatim>\<open>BTreeMap::range\<close>. It panics where the bounds are reversed, or equal and both excluded;
  \<open>range_panics\<close> is that condition and \<open>bm_range\<close> the entries visited otherwise. A \<^verbatim>\<open>BTreeSet\<close> is
  a map to \<open>unit\<close>, as in the standard library.
\<close>

datatype 'k bound = Included 'k | Excluded 'k | Unbounded

fun above :: "('k \<Rightarrow> 'k \<Rightarrow> ordering) \<Rightarrow> 'k bound \<Rightarrow> 'k \<Rightarrow> bool" where
  "above cmp (Included b) k = (cmp k b \<noteq> Less)"
| "above cmp (Excluded b) k = (cmp k b = Greater)"
| "above cmp Unbounded k = True"

fun below :: "('k \<Rightarrow> 'k \<Rightarrow> ordering) \<Rightarrow> 'k bound \<Rightarrow> 'k \<Rightarrow> bool" where
  "below cmp (Included b) k = (cmp k b \<noteq> Greater)"
| "below cmp (Excluded b) k = (cmp k b = Less)"
| "below cmp Unbounded k = True"

definition in_range :: "('k \<Rightarrow> 'k \<Rightarrow> ordering) \<Rightarrow> 'k bound \<Rightarrow> 'k bound \<Rightarrow> 'k \<Rightarrow> bool" where
  "in_range cmp lo hi k = (above cmp lo k \<and> below cmp hi k)"

fun range_panics :: "('k \<Rightarrow> 'k \<Rightarrow> ordering) \<Rightarrow> 'k bound \<Rightarrow> 'k bound \<Rightarrow> bool" where
  "range_panics cmp (Included a) (Included b) = (cmp a b = Greater)"
| "range_panics cmp (Included a) (Excluded b) = (cmp a b = Greater)"
| "range_panics cmp (Excluded a) (Included b) = (cmp a b = Greater)"
| "range_panics cmp (Excluded a) (Excluded b) = (cmp a b \<noteq> Less)"
| "range_panics cmp lo hi = False"

definition bm_range ::
  "('k \<Rightarrow> 'k \<Rightarrow> ordering) \<Rightarrow> 'k bound \<Rightarrow> 'k bound \<Rightarrow> ('k \<times> 'v) list \<Rightarrow> ('k \<times> 'v) list" where
  "bm_range cmp lo hi m = filter (\<lambda>e. in_range cmp lo hi (fst e)) m"

lemma bm_sorted_range [intro]: "bm_sorted cmp m \<Longrightarrow> bm_sorted cmp (bm_range cmp lo hi m)"
  unfolding bm_range_def by (rule bm_sorted_filter)

type_synonym 'k bset = "('k \<times> unit) list"

definition bs_insert :: "('k \<Rightarrow> 'k \<Rightarrow> ordering) \<Rightarrow> 'k \<Rightarrow> 'k bset \<Rightarrow> 'k bset" where
  "bs_insert cmp k s = bm_insert cmp k () s"

definition bs_of_list :: "('k \<Rightarrow> 'k \<Rightarrow> ordering) \<Rightarrow> 'k list \<Rightarrow> 'k bset" where
  "bs_of_list cmp ks = foldl (\<lambda>s k. bs_insert cmp k s) [] ks"

context cmp_preorder
begin

lemma in_range_cong: "cmp a b = Equal \<Longrightarrow> in_range cmp lo hi a = in_range cmp lo hi b"
  using cmp_eq_left [of a b] by (cases lo; cases hi) (simp_all add: in_range_def)

lemma bs_of_list_sorted: "bm_sorted cmp (bs_of_list cmp ks)"
proof -
  have "bm_sorted cmp s \<Longrightarrow> bm_sorted cmp (foldl (\<lambda>s k. bs_insert cmp k s) s ks)" for s
    by (induction ks arbitrary: s) (auto simp: bs_insert_def bm_sorted_insert)
  then show ?thesis by (simp add: bs_of_list_def)
qed

lemma bs_of_list_mem: "k \<in> set ks \<Longrightarrow> \<exists>k'\<in>fst ` set (bs_of_list cmp ks). cmp k k' = Equal"
proof -
  have "(k \<in> set ks \<or> bm_get cmp s k = Some ()) \<Longrightarrow>
      bm_get cmp (foldl (\<lambda>s k. bs_insert cmp k s) s ks) k = Some ()" for s
    by (induction ks arbitrary: s) (auto simp: bs_insert_def bm_get_insert cmp_refl)
  then show "k \<in> set ks \<Longrightarrow> \<exists>k'\<in>fst ` set (bs_of_list cmp ks). cmp k k' = Equal"
    using bm_get_Some_in [of cmp "bs_of_list cmp ks" k "()"] by (force simp: bs_of_list_def)
qed

end

lemma bs_of_list_subset: "fst ` set (bs_of_list cmp ks) \<subseteq> set ks"
proof -
  have "fst ` set (foldl (\<lambda>s k. bs_insert cmp k s) s ks) \<subseteq> set ks \<union> fst ` set s" for s
  proof (induction ks arbitrary: s)
    case (Cons k ks)
    show ?case
      using Cons [of "bs_insert cmp k s"] fst_set_bm_insert [of cmp k "()" s]
      by (auto simp: bs_insert_def)
  qed simp
  then show ?thesis by (force simp: bs_of_list_def)
qed

text \<open>Saturating arithmetic on \<^verbatim>\<open>usize\<close>, 64 bits wide.\<close>

definition usize_max :: nat where "usize_max = 2 ^ 64 - 1"

definition saturating_mul :: "nat \<Rightarrow> nat \<Rightarrow> nat" where
  "saturating_mul a b = min (a * b) usize_max"

section \<open>Stable sorting by a comparison function\<close>

fun insort_by :: "('a \<Rightarrow> 'a \<Rightarrow> ordering) \<Rightarrow> 'a \<Rightarrow> 'a list \<Rightarrow> 'a list" where
  "insort_by cmp x [] = [x]"
| "insort_by cmp x (y # ys) = (if cmp x y = Greater then y # insort_by cmp x ys else x # y # ys)"

text \<open>\<^verbatim>\<open>slice::sort_by\<close>: equal elements keep their order.\<close>

definition sort_by :: "('a \<Rightarrow> 'a \<Rightarrow> ordering) \<Rightarrow> 'a list \<Rightarrow> 'a list" where
  "sort_by cmp xs = foldr (insort_by cmp) xs []"

definition sorted_by :: "('a \<Rightarrow> 'a \<Rightarrow> ordering) \<Rightarrow> 'a list \<Rightarrow> bool" where
  "sorted_by cmp xs = sorted_wrt (\<lambda>a b. cmp a b \<noteq> Greater) xs"

lemma sort_by_simps [simp]:
  "sort_by cmp [] = []"
  "sort_by cmp (x # xs) = insort_by cmp x (sort_by cmp xs)"
  by (auto simp: sort_by_def)

lemma sorted_by_simps [simp]:
  "sorted_by cmp []"
  "sorted_by cmp (x # xs) \<longleftrightarrow> (\<forall>y\<in>set xs. cmp x y \<noteq> Greater) \<and> sorted_by cmp xs"
  by (auto simp: sorted_by_def)

lemma mset_insort_by [simp]: "mset (insort_by cmp x xs) = add_mset x (mset xs)"
  by (induction xs) auto

lemma mset_sort_by [simp]: "mset (sort_by cmp xs) = mset xs"
  by (induction xs) auto

lemma set_insort_by [simp]: "set (insort_by cmp x xs) = insert x (set xs)"
  by (metis mset_insort_by set_mset_add_mset_insert set_mset_mset)

lemma set_sort_by [simp]: "set (sort_by cmp xs) = set xs"
  by (metis mset_sort_by set_mset_mset)

lemma length_sort_by [simp]: "length (sort_by cmp xs) = length xs"
  by (metis mset_sort_by size_mset)

context cmp_preorder
begin

lemma sorted_insort_by: "sorted_by cmp xs \<Longrightarrow> sorted_by cmp (insort_by cmp x xs)"
proof (induction xs)
  case (Cons y ys)
  show ?case
  proof (cases "cmp x y = Greater")
    case True
    then have "cmp y x \<noteq> Greater" by (simp add: cmp_Greater_iff)
    with True Cons show ?thesis by auto
  next
    case False
    with Cons.prems show ?thesis using cmp_trans by fastforce
  qed
qed simp

lemma sorted_sort_by: "sorted_by cmp (sort_by cmp xs)"
  by (induction xs) (auto intro: sorted_insort_by)

text \<open>Sorting a prefix first changes nothing, and neither does then cutting it to the first \<open>k\<close>
  elements as far as the first \<open>k\<close> elements of the whole go: a top-\<open>k\<close> can be kept as rows arrive.\<close>

lemma insort_by_commute:
  assumes "cmp x s = Greater"
  shows "insort_by cmp s (insort_by cmp x ys) = insort_by cmp x (insort_by cmp s ys)"
proof (induction ys)
  case Nil
  show ?case using assms cmp_Greater_iff [of x s] by simp
next
  case (Cons y ys)
  have "cmp s y \<noteq> Greater" if "cmp x y \<noteq> Greater"
    using that assms cmp_less_le_trans [of s x y] by (simp add: cmp_Greater_iff)
  with Cons assms show ?case by (auto simp: cmp_Greater_iff)
qed

lemma foldr_insort_by: "foldr (insort_by cmp) (insort_by cmp x xs) ys = insort_by cmp x (foldr (insort_by cmp) xs ys)"
  by (induction xs) (auto intro: insort_by_commute)

lemma sort_by_append: "sort_by cmp (xs @ ys) = foldr (insort_by cmp) xs (sort_by cmp ys)"
  by (simp add: sort_by_def)

lemma sort_by_sorted_prefix: "sort_by cmp (sort_by cmp xs @ ys) = sort_by cmp (xs @ ys)"
  unfolding sort_by_append by (induction xs) (simp_all add: foldr_insort_by)

lemma insort_by_split: "\<exists>us vs. xs = us @ vs \<and> insort_by cmp x xs = us @ x # vs"
proof (induction xs)
  case (Cons y ys)
  then obtain us vs where "ys = us @ vs \<and> insort_by cmp x ys = us @ x # vs" by blast
  then have "y # ys = (if cmp x y = Greater then y # us else []) @ (if cmp x y = Greater then vs else y # ys) \<and>
      insort_by cmp x (y # ys) =
        (if cmp x y = Greater then y # us else []) @ x # (if cmp x y = Greater then vs else y # ys)"
    by auto
  then show ?case by blast
qed simp

lemma insort_by_before:
  assumes "cmp a b \<noteq> Greater" "sorted_by cmp (us @ b # vs)"
  shows "\<exists>us'. insort_by cmp a (us @ b # vs) = us' @ b # vs \<and> insort_by cmp a (us @ vs) = us' @ vs \<and>
    length us' = Suc (length us)"
  using assms(2)
proof (induction us)
  case Nil
  then have "\<forall>v\<in>set vs. cmp a v \<noteq> Greater" using assms(1) cmp_trans by auto
  then have "insort_by cmp a vs = a # vs" by (cases vs) auto
  with assms(1) show ?case by (intro exI [of _ "[a]"]) simp
next
  case (Cons u us)
  then obtain us' where "insort_by cmp a (us @ b # vs) = us' @ b # vs \<and> insort_by cmp a (us @ vs) = us' @ vs \<and>
    length us' = Suc (length us)" by auto
  then show ?case
    by (intro exI [of _ "if cmp a u = Greater then u # us' else a # u # us"]) simp
qed

lemma sort_by_drop_one:
  "\<forall>a\<in>set xs. cmp a b \<noteq> Greater \<Longrightarrow>
   \<exists>us vs. sort_by cmp (xs @ b # ys) = us @ b # vs \<and> sort_by cmp (xs @ ys) = us @ vs \<and> length xs \<le> length us"
proof (induction xs)
  case Nil
  show ?case using insort_by_split [of "sort_by cmp ys" b] by auto
next
  case (Cons a xs)
  then obtain us vs where uv: "sort_by cmp (xs @ b # ys) = us @ b # vs" "sort_by cmp (xs @ ys) = us @ vs"
    "length xs \<le> length us" by auto
  have "sorted_by cmp (us @ b # vs)" using sorted_sort_by [of "xs @ b # ys"] by (simp add: uv(1))
  with insort_by_before [of a b us vs] Cons.prems obtain us' where
    "insort_by cmp a (us @ b # vs) = us' @ b # vs" "insort_by cmp a (us @ vs) = us' @ vs"
    "length us' = Suc (length us)" by auto
  with uv show ?case by (intro exI [of _ us'] exI [of _ vs]) simp
qed

lemma take_sort_by_drop:
  assumes "k \<le> length xs" "\<forall>a\<in>set xs. \<forall>b\<in>set bs. cmp a b \<noteq> Greater"
  shows "take k (sort_by cmp (xs @ bs @ ys)) = take k (sort_by cmp (xs @ ys))"
  using assms(2)
proof (induction bs)
  case (Cons b bs)
  from sort_by_drop_one [of xs b "bs @ ys"] Cons.prems obtain us vs where
    "sort_by cmp (xs @ b # bs @ ys) = us @ b # vs" "sort_by cmp (xs @ bs @ ys) = us @ vs" "length xs \<le> length us"
    by auto
  with Cons assms(1) show ?case by simp
qed simp

lemma take_sort_by_prefix: "take k (sort_by cmp (take k (sort_by cmp xs) @ ys)) = take k (sort_by cmp (xs @ ys))"
proof -
  let ?s = "sort_by cmp xs"
  have "take k (sort_by cmp (take k ?s @ ys)) = take k (sort_by cmp (?s @ ys))"
  proof (cases "k \<le> length ?s")
    case True
    have "sorted_by cmp (take k ?s @ drop k ?s)" using sorted_sort_by [of xs] by simp
    then have "\<forall>a\<in>set (take k ?s). \<forall>b\<in>set (drop k ?s). cmp a b \<noteq> Greater"
      unfolding sorted_by_def sorted_wrt_append by blast
    with True have "take k (sort_by cmp (take k ?s @ drop k ?s @ ys)) = take k (sort_by cmp (take k ?s @ ys))"
      by (intro take_sort_by_drop) simp_all
    then show ?thesis by (metis append.assoc append_take_drop_id)
  qed simp
  then show ?thesis by (simp add: sort_by_sorted_prefix)
qed

end

section \<open>Strings\<close>

fun split_on :: "char \<Rightarrow> string \<Rightarrow> string list" where
  "split_on c [] = [[]]"
| "split_on c (x # xs) =
     (if x = c then [] # split_on c xs
      else (case split_on c xs of [] \<Rightarrow> [[x]] | p # ps \<Rightarrow> (x # p) # ps))"

fun join_with :: "string \<Rightarrow> string list \<Rightarrow> string" where
  "join_with sep [] = []"
| "join_with sep [p] = p"
| "join_with sep (p # q # ps) = p @ sep @ join_with sep (q # ps)"

fun split_once :: "char \<Rightarrow> string \<Rightarrow> (string \<times> string) option" where
  "split_once c [] = None"
| "split_once c (x # xs) =
     (if x = c then Some ([], xs) else map_option (\<lambda>(a, b). (x # a, b)) (split_once c xs))"

definition starts_with :: "string \<Rightarrow> string \<Rightarrow> bool" where
  "starts_with s p = (take (length p) s = p)"

definition ends_with :: "string \<Rightarrow> string \<Rightarrow> bool" where
  "ends_with s p = starts_with (rev s) (rev p)"

fun str_contains :: "string \<Rightarrow> string \<Rightarrow> bool" where
  "str_contains [] p = (p = [])"
| "str_contains (x # xs) p = (starts_with (x # xs) p \<or> str_contains xs p)"

definition ascii_upper :: "char \<Rightarrow> bool" where
  "ascii_upper c = (65 \<le> (of_char c :: nat) \<and> (of_char c :: nat) \<le> 90)"

definition ascii_lower :: "char \<Rightarrow> bool" where
  "ascii_lower c = (97 \<le> (of_char c :: nat) \<and> (of_char c :: nat) \<le> 122)"

definition ascii_digit :: "char \<Rightarrow> bool" where
  "ascii_digit c = (48 \<le> (of_char c :: nat) \<and> (of_char c :: nat) \<le> 57)"

definition lower_char :: "char \<Rightarrow> char" where
  "lower_char c = (if ascii_upper c then char_of (of_char c + 32 :: nat) else c)"

definition to_ascii_lowercase :: "string \<Rightarrow> string" where
  "to_ascii_lowercase s = map lower_char s"

definition eq_ignore_ascii_case :: "string \<Rightarrow> string \<Rightarrow> bool" where
  "eq_ignore_ascii_case a b = (to_ascii_lowercase a = to_ascii_lowercase b)"

text \<open>
  The characters with the Unicode property \<^verbatim>\<open>White_Space\<close>, by their UTF-8 encoding: these are
  what \<^verbatim>\<open>str::trim\<close> removes at both ends.
\<close>

definition white_space :: "string list" where
  "white_space =
     map (\<lambda>n. [char_of (n::nat)]) [9, 10, 11, 12, 13, 32] @
     map (map (char_of :: nat \<Rightarrow> char))
       ([[0xC2, 0x85], [0xC2, 0xA0], [0xE1, 0x9A, 0x80]] @
        map (\<lambda>n. [0xE2, 0x80, n]) ([0x80 ..< 0x8B] @ [0xA8, 0xA9, 0xAF]) @
        [[0xE2, 0x81, 0x9F], [0xE3, 0x80, 0x80]])"

definition ws_prefix :: "string list \<Rightarrow> string \<Rightarrow> string option" where
  "ws_prefix ws s = find (starts_with s) ws"

function strip_ws :: "string list \<Rightarrow> string \<Rightarrow> string" where
  "strip_ws ws s =
     (case ws_prefix ws s of
        None \<Rightarrow> s
      | Some w \<Rightarrow> (if w = [] \<or> s = [] then s else strip_ws ws (drop (length w) s)))"
  by pat_completeness auto
termination
  by (relation "measure (\<lambda>(ws, s). length s)") auto

declare strip_ws.simps [simp del]

definition trim :: "string \<Rightarrow> string" where
  "trim s = rev (strip_ws (map rev white_space) (rev (strip_ws white_space s)))"

text \<open>Graphic ASCII characters: none begins or ends a white space character.\<close>

definition graphic :: "char \<Rightarrow> bool" where
  "graphic c = (33 \<le> (of_char c :: nat) \<and> (of_char c :: nat) < 127)"

lemma white_space_not_graphic:
  "\<forall>w\<in>set white_space. w \<noteq> [] \<and> \<not> graphic (hd w) \<and> \<not> graphic (hd (rev w))"
  by (auto simp: white_space_def graphic_def)

lemma ws_prefix_SomeD: "ws_prefix ws s = Some w \<Longrightarrow> w \<in> set ws \<and> starts_with s w"
  by (auto simp: ws_prefix_def find_Some_iff)

lemma strip_ws_graphic:
  assumes "\<forall>w\<in>set ws. w \<noteq> [] \<and> \<not> graphic (hd w)" "s \<noteq> [] \<longrightarrow> graphic (hd s)"
  shows "strip_ws ws s = s"
proof (cases "ws_prefix ws s")
  case (Some w)
  with ws_prefix_SomeD [OF this] assms show ?thesis
    by (cases w; cases s) (auto simp: starts_with_def)
qed (simp add: strip_ws.simps)

lemma trim_graphic:
  assumes "\<forall>c\<in>set s. graphic c"
  shows "trim s = s"
proof -
  have "strip_ws white_space s = s"
    using white_space_not_graphic assms by (intro strip_ws_graphic) auto
  moreover have "strip_ws (map rev white_space) (rev s) = rev s"
    using white_space_not_graphic assms hd_in_set [of "rev s"] by (intro strip_ws_graphic) auto
  ultimately show ?thesis by (simp add: trim_def)
qed

lemma split_on_nonempty [simp]: "split_on c s \<noteq> []"
  by (induction s) (auto split: list.splits)

lemma starts_with_append [simp]: "starts_with (p @ s) p"
  by (simp add: starts_with_def)

lemma starts_withE: "starts_with s p \<Longrightarrow> \<exists>t. s = p @ t"
  by (metis append_take_drop_id starts_with_def)

lemma join_split_on: "join_with [c] (split_on c s) = s"
proof (induction s)
  case (Cons x xs)
  then show ?case by (cases "split_on c xs"; cases "tl (split_on c xs)") auto
qed simp

section \<open>Result lists\<close>

text \<open>Collecting an iterator of \<^verbatim>\<open>Result\<close>s: the first error, or all the values.\<close>

fun collect_results :: "('e, 'a) result list \<Rightarrow> ('e, 'a list) result" where
  "collect_results [] = Ok []"
| "collect_results (r # rs) =
     (case r of Err e \<Rightarrow> Err e
      | Ok x \<Rightarrow> (case collect_results rs of Err e \<Rightarrow> Err e | Ok xs \<Rightarrow> Ok (x # xs)))"

lemma collect_results_Ok:
  "collect_results rs = Ok xs \<longleftrightarrow> rs = map Ok xs"
proof (induction rs arbitrary: xs)
  case (Cons r rs)
  show ?case
    by (cases r; cases "collect_results rs"; cases xs) (simp_all add: Cons.IH [symmetric])
qed auto

end
