(* ===== verification/Json.thy ===== *)
theory Json
  imports Complex_Main Prelude
begin

text \<open>
  \<^verbatim>\<open>src/src/json.rs\<close>: JSON values, dotted paths, the cross-type comparison \<open>json_cmp\<close>, projection
  and merge patch.

  \<^verbatim>\<open>serde_json::Value\<close> is the datatype \<open>jvalue\<close>; an object is a \<^verbatim>\<open>BTreeMap\<close>, hence a list of
  members in key order. The representation of numbers belongs to \<^verbatim>\<open>serde_json\<close> and stays
  abstract: the type variable \<open>'n\<close>, with \<open>as_f64\<close> (\<^verbatim>\<open>Value::as_f64\<close>) as an argument of every
  definition that compares numbers. What the code relies on, that every number of the library is
  a finite double, is the hypothesis \<open>finite_numbers\<close>.
\<close>

section \<open>Values\<close>

datatype 'n jvalue =
    JNull
  | JBool bool
  | JNumber 'n
  | JString string
  | JArray "'n jvalue list"
  | JObject "(string \<times> 'n jvalue) list"

type_synonym 'n members = "(string \<times> 'n jvalue) list"

text \<open>A double: a finite one is the rational it denotes (the two zeros compare equal).\<close>

datatype f64 = NaN | NegInf | Fin rat | PosInf

fun f64_partial_cmp :: "f64 \<Rightarrow> f64 \<Rightarrow> ordering option" where
  "f64_partial_cmp NaN y = None"
| "f64_partial_cmp x NaN = None"
| "f64_partial_cmp (Fin x) (Fin y) = Some (cmp_lin x y)"
| "f64_partial_cmp NegInf NegInf = Some Equal"
| "f64_partial_cmp PosInf PosInf = Some Equal"
| "f64_partial_cmp NegInf y = Some Less"
| "f64_partial_cmp x NegInf = Some Greater"
| "f64_partial_cmp PosInf y = Some Greater"
| "f64_partial_cmp x PosInf = Some Less"

type_synonym 'n numbers = "'n \<Rightarrow> f64 option"

definition finite_numbers :: "'n numbers \<Rightarrow> bool" where
  "finite_numbers as_f64 = (\<forall>n. \<exists>r. as_f64 n = Some (Fin r))"

definition value_get :: "'n jvalue \<Rightarrow> string \<Rightarrow> 'n jvalue option" where
  "value_get v k = (case v of JObject m \<Rightarrow> bm_get str_cmp m k | _ \<Rightarrow> None)"

fun is_object :: "'n jvalue \<Rightarrow> bool" where
  "is_object (JObject m) = True"
| "is_object v = False"

fun as_str :: "'n jvalue \<Rightarrow> string option" where
  "as_str (JString s) = Some s"
| "as_str v = None"

fun as_array :: "'n jvalue \<Rightarrow> 'n jvalue list option" where
  "as_array (JArray xs) = Some xs"
| "as_array v = None"

fun as_object :: "'n jvalue \<Rightarrow> 'n members option" where
  "as_object (JObject m) = Some m"
| "as_object v = None"

fun as_bool :: "'n jvalue \<Rightarrow> bool option" where
  "as_bool (JBool b) = Some b"
| "as_bool v = None"

section \<open>Paths\<close>

fun path_get :: "'n jvalue \<Rightarrow> string list \<Rightarrow> 'n jvalue option" where
  "path_get cur [] = Some cur"
| "path_get cur (part # rest) =
     (case value_get cur part of None \<Rightarrow> None | Some v \<Rightarrow> path_get v rest)"

definition get_path_value :: "'n jvalue \<Rightarrow> string \<Rightarrow> 'n jvalue option" where
  "get_path_value doc path = path_get doc (split_on CHR ''.'' path)"

definition parse_fields :: "string option \<Rightarrow> string list" where
  "parse_fields s =
     (case s of
        Some s \<Rightarrow> filter (\<lambda>f. f \<noteq> []) (map trim (split_on CHR '','' s))
      | None \<Rightarrow> [])"

section \<open>Comparison\<close>

fun type_rank :: "'n jvalue \<Rightarrow> nat" where
  "type_rank JNull = 0"
| "type_rank (JBool b) = 1"
| "type_rank (JNumber n) = 2"
| "type_rank (JString s) = 3"
| "type_rank (JArray xs) = 4"
| "type_rank (JObject m) = 5"

definition num_cmp :: "'n numbers \<Rightarrow> 'n \<Rightarrow> 'n \<Rightarrow> ordering" where
  "num_cmp as_f64 a b =
     (let x = (case as_f64 a of Some f \<Rightarrow> f | None \<Rightarrow> NaN);
          y = (case as_f64 b of Some f \<Rightarrow> f | None \<Rightarrow> NaN)
      in case f64_partial_cmp x y of Some c \<Rightarrow> c | None \<Rightarrow> Equal)"

lemma size_member [termination_simp]:
  "(k, v) \<in> set m \<Longrightarrow> size v < Suc (size_list (size_prod (\<lambda>_. 0) size) m)"
  using size_list_estimation' [of "(k, v)" m "size v" "size_prod (\<lambda>_. 0) size"] by simp

lemma size_element [termination_simp]: "x \<in> set xs \<Longrightarrow> size x < Suc (size_list size xs)"
  using size_list_estimation' [of x xs "size x" size] by simp

text \<open>
  Arrays and objects compare element by element, the first difference deciding, then by length;
  that loop is \<^const>\<open>cmp_list\<close>. An object's elements are its members, the key before the value.
\<close>

function json_cmp :: "'n numbers \<Rightarrow> 'n jvalue \<Rightarrow> 'n jvalue \<Rightarrow> ordering" where
  "json_cmp as_f64 a b =
     (case (a, b) of
        (JNull, JNull) \<Rightarrow> Equal
      | (JBool x, JBool y) \<Rightarrow> cmp_lin x y
      | (JNumber x, JNumber y) \<Rightarrow> num_cmp as_f64 x y
      | (JString x, JString y) \<Rightarrow> str_cmp x y
      | (JArray x, JArray y) \<Rightarrow> cmp_list (\<lambda>ex ey. json_cmp as_f64 ex ey) x y
      | (JObject x, JObject y) \<Rightarrow>
          cmp_list (\<lambda>(kx, vx) (ky, vy). then_ord (str_cmp kx ky) (json_cmp as_f64 vx vy)) x y
      | _ \<Rightarrow> cmp_lin (type_rank a) (type_rank b))"
  by pat_completeness auto
termination
  by (relation "measure (\<lambda>(as_f64, a, b). size a)")
    (auto simp: size_member size_element)

declare json_cmp.simps [simp del]

section \<open>Projection\<close>

fun set_path :: "'n members \<Rightarrow> string list \<Rightarrow> 'n jvalue \<Rightarrow> 'n members" where
  "set_path m [] val = m"
| "set_path m [p] val = bm_insert str_cmp p val m"
| "set_path m (p # q # ps) val =
     (let entry = (case bm_get str_cmp m p of Some e \<Rightarrow> e | None \<Rightarrow> JObject []);
          entry = (if \<not> is_object entry then JObject [] else entry)
      in case entry of
           JObject inner \<Rightarrow> bm_insert str_cmp p (JObject (set_path inner (q # ps) val)) m
         | _ \<Rightarrow> bm_insert str_cmp p entry m)"

definition project_step :: "'n jvalue \<Rightarrow> 'n members \<Rightarrow> string \<Rightarrow> 'n members" where
  "project_step doc out path =
     (case get_path_value doc path of
        Some v \<Rightarrow> set_path out (split_on CHR ''.'' path) v
      | None \<Rightarrow> out)"

definition project :: "'n jvalue \<Rightarrow> string list \<Rightarrow> 'n jvalue" where
  "project doc fields = (if fields = [] then doc else JObject (foldl (project_step doc) [] fields))"

section \<open>Merge patch\<close>

fun merge_patch :: "'n jvalue \<Rightarrow> 'n jvalue \<Rightarrow> 'n jvalue"
  and merge_members :: "'n members \<Rightarrow> 'n members \<Rightarrow> 'n members" where
  "merge_patch target (JObject pmap) =
     JObject (merge_members (case target of JObject tmap \<Rightarrow> tmap | _ \<Rightarrow> []) pmap)"
| "merge_patch target other = other"
| "merge_members tmap [] = tmap"
| "merge_members tmap ((k, v) # pmap) =
     merge_members
       (if v = JNull then bm_remove str_cmp k tmap
        else (case bm_get str_cmp tmap k of
                Some existing \<Rightarrow> bm_insert str_cmp k (merge_patch existing v) tmap
              | None \<Rightarrow> bm_insert str_cmp k (merge_patch JNull v) tmap))
       pmap"

section \<open>Well-formed values\<close>

text \<open>Every object of a value is an ordered map: this is \<^verbatim>\<open>serde_json::Map\<close>'s own invariant.\<close>

fun wf_json :: "'n jvalue \<Rightarrow> bool" where
  "wf_json (JArray xs) = (\<forall>x\<in>set xs. wf_json x)"
| "wf_json (JObject m) = (bm_sorted str_cmp m \<and> (\<forall>e\<in>set m. wf_json (snd e)))"
| "wf_json v = True"

section \<open>The comparison is a total preorder\<close>

lemma json_cmp_simps [simp]:
  "json_cmp F JNull JNull = Equal"
  "json_cmp F (JBool x) (JBool y) = cmp_lin x y"
  "json_cmp F (JNumber n) (JNumber k) = num_cmp F n k"
  "json_cmp F (JString s) (JString t) = str_cmp s t"
  "json_cmp F (JArray xs) (JArray ys) = cmp_list (json_cmp F) xs ys"
  by (subst json_cmp.simps; simp)+

lemma json_cmp_object [simp]:
  "json_cmp F (JObject m) (JObject m') =
     cmp_list (\<lambda>x y. then_ord (str_cmp (fst x) (fst y)) (json_cmp F (snd x) (snd y))) m m'"
  by (subst json_cmp.simps) (simp add: case_prod_unfold)

lemma json_cmp_rank:
  "type_rank a \<noteq> type_rank b \<Longrightarrow> json_cmp F a b = cmp_lin (type_rank a) (type_rank b)"
  by (cases a; cases b) (simp_all add: json_cmp.simps)

lemma json_cmp_rank_le: "json_cmp F a b \<noteq> Greater \<Longrightarrow> type_rank a \<le> type_rank b"
  using json_cmp_rank [of a b F] by force

lemma json_cmp_Equal_rank: "json_cmp F a b = Equal \<Longrightarrow> type_rank a = type_rank b"
  using json_cmp_rank [of a b F] by fastforce

lemma type_rank_eq [simp]:
  "type_rank v = 0 \<longleftrightarrow> v = JNull"
  "type_rank v = Suc 0 \<longleftrightarrow> (\<exists>b. v = JBool b)"
  "type_rank v = 2 \<longleftrightarrow> (\<exists>n. v = JNumber n)"
  "type_rank v = 3 \<longleftrightarrow> (\<exists>s. v = JString s)"
  "type_rank v = 4 \<longleftrightarrow> (\<exists>xs. v = JArray xs)"
  "type_rank v = 5 \<longleftrightarrow> (\<exists>m. v = JObject m)"
  by (cases v; simp)+

definition num_rat :: "'n numbers \<Rightarrow> 'n \<Rightarrow> rat" where
  "num_rat as_f64 n = (case as_f64 n of Some (Fin r) \<Rightarrow> r | _ \<Rightarrow> 0)"

lemma num_cmp_rat: "finite_numbers F \<Longrightarrow> num_cmp F a b = cmp_lin (num_rat F a) (num_rat F b)"
proof -
  assume "finite_numbers F"
  then obtain r q where "F a = Some (Fin r)" "F b = Some (Fin q)"
    unfolding finite_numbers_def by meson
  then show ?thesis by (simp add: num_cmp_def num_rat_def)
qed

lemma json_cmp_refl: "finite_numbers F \<Longrightarrow> json_cmp F a a = Equal"
proof (induction a)
  case (JObject m)
  then show ?case
    by (auto intro!: cmp_list_refl simp: str_cmp.cmp_refl snds.simps)
qed (auto intro: cmp_list_refl simp: num_cmp_rat str_cmp.cmp_refl)

lemma json_rev_rank:
  assumes "type_rank b = type_rank a \<Longrightarrow> json_cmp F b a = rev_ord (json_cmp F a b)"
  shows "json_cmp F b a = rev_ord (json_cmp F a b)"
proof (cases "type_rank b = type_rank a")
  case True
  then show ?thesis by (rule assms)
qed (simp add: json_cmp_rank rev_cmp_lin)

lemma json_rev_shape:
  assumes "\<And>y. c y a = rev_ord (c a y)" "\<And>x y. json_cmp F (C x) (C y) = c x y"
    and "\<And>y. type_rank y = type_rank (C a) \<Longrightarrow> \<exists>b. y = C b"
  shows "json_cmp F b (C a) = rev_ord (json_cmp F (C a) b)"
proof (rule json_rev_rank)
  assume "type_rank b = type_rank (C a)"
  then obtain y where "b = C y" using assms(3) by blast
  then show "json_cmp F b (C a) = rev_ord (json_cmp F (C a) b)"
    by (simp only: assms(2)) (rule assms(1))
qed

lemma json_cmp_rev: "finite_numbers F \<Longrightarrow> json_cmp F b a = rev_ord (json_cmp F a b)"
proof (induction a arbitrary: b)
  case JNull
  show ?case by (rule json_rev_rank) auto
next
  case (JBool x)
  show ?case by (rule json_rev_shape [where C = JBool and c = cmp_lin]) (auto simp: rev_cmp_lin)
next
  case (JNumber n)
  then show ?case
    by (intro json_rev_shape [where C = JNumber and c = "num_cmp F"])
      (auto simp: num_cmp_rat rev_cmp_lin)
next
  case (JString s)
  show ?case
    by (rule json_rev_shape [where C = JString and c = str_cmp]) (rule str_cmp.cmp_rev, auto)
next
  case (JArray xs)
  have "cmp_list (json_cmp F) ys xs = rev_ord (cmp_list (json_cmp F) xs ys)" for ys
    by (rule cmp_list_rev) (rule JArray.IH [OF _ JArray.prems])
  then show ?case by (rule json_rev_shape [where C = JArray]) auto
next
  case (JObject m)
  let ?c = "\<lambda>x y. then_ord (str_cmp (fst x) (fst y)) (json_cmp F (snd x) (snd y))"
  have "?c y x = rev_ord (?c x y)" if "x \<in> set m" for x y
    unfolding rev_then_ord str_cmp.cmp_rev [symmetric]
    using JObject.IH [OF that _ JObject.prems, of "snd x" "snd y"] by (simp add: prod_set_defs)
  then have "cmp_list ?c m' m = rev_ord (cmp_list ?c m m')" for m'
    by (rule cmp_list_rev)
  then show ?case by (rule json_rev_shape [where C = JObject]) auto
qed

lemma json_trans_at_rank:
  assumes "\<And>y z. type_rank y = type_rank a \<Longrightarrow> type_rank z = type_rank a \<Longrightarrow>
      json_cmp F a y \<noteq> Greater \<Longrightarrow> json_cmp F y z \<noteq> Greater \<Longrightarrow>
      json_cmp F a z = (if json_cmp F a y = Equal \<and> json_cmp F y z = Equal then Equal else Less)"
  shows "trans_at (json_cmp F) a"
  unfolding trans_at_def
proof (intro allI impI)
  fix y z
  assume le: "json_cmp F a y \<noteq> Greater" "json_cmp F y z \<noteq> Greater"
  note rank = le [THEN json_cmp_rank_le]
  show "json_cmp F a z = (if json_cmp F a y = Equal \<and> json_cmp F y z = Equal then Equal else Less)"
  proof (cases "type_rank y = type_rank a \<and> type_rank z = type_rank a")
    case True
    then show ?thesis using assms le by blast
  next
    case False
    with rank have "type_rank a < type_rank z" by auto
    then have "json_cmp F a z = Less" by (simp add: json_cmp_rank)
    moreover have "\<not> (json_cmp F a y = Equal \<and> json_cmp F y z = Equal)"
      using False json_cmp_Equal_rank [of F a y] json_cmp_Equal_rank [of F y z] by auto
    ultimately show ?thesis by simp
  qed
qed

lemma json_trans_at_shape:
  assumes "trans_at c a" "\<And>x y. json_cmp F (C x) (C y) = c x y"
    and "\<And>y. type_rank y = type_rank (C a) \<Longrightarrow> \<exists>b. y = C b"
  shows "trans_at (json_cmp F) (C a)"
proof (rule json_trans_at_rank)
  fix y z
  assume "type_rank y = type_rank (C a)" "type_rank z = type_rank (C a)"
    and le: "json_cmp F (C a) y \<noteq> Greater" "json_cmp F y z \<noteq> Greater"
  then obtain b d where yz: "y = C b" "z = C d" using assms(3) by blast
  show "json_cmp F (C a) z = (if json_cmp F (C a) y = Equal \<and> json_cmp F y z = Equal then Equal else Less)"
    using trans_atD [OF assms(1), of b d] le by (simp add: yz assms(2))
qed

lemma json_trans_at: "finite_numbers F \<Longrightarrow> trans_at (json_cmp F) a"
proof (induction a)
  case JNull
  show ?case by (rule json_trans_at_rank) auto
next
  case (JBool x)
  show ?case by (rule json_trans_at_shape [where C = JBool, OF cmp_lin.trans_at]) auto
next
  case (JNumber n)
  have "cmp_preorder (num_cmp F)"
    using JNumber by (auto simp: cmp_preorder_def num_cmp_rat rev_cmp_lin)
  then show ?case
    by (intro json_trans_at_shape [where C = JNumber, OF cmp_preorder.trans_at]) auto
next
  case (JString s)
  show ?case by (rule json_trans_at_shape [where C = JString, OF str_cmp.trans_at]) auto
next
  case (JArray xs)
  then have "trans_at (cmp_list (json_cmp F)) xs" by (blast intro: trans_at_list)
  then show ?case by (rule json_trans_at_shape [where C = JArray]) auto
next
  case (JObject m)
  then have "trans_at (cmp_list (\<lambda>x y. then_ord (str_cmp (fst x) (fst y)) (json_cmp F (snd x) (snd y)))) m"
    by (intro trans_at_list trans_at_then str_cmp.trans_at) (auto simp: snds.simps)
  then show ?case by (rule json_trans_at_shape [where C = JObject]) auto
qed

lemma json_cmp_preorder: "finite_numbers F \<Longrightarrow> cmp_preorder (json_cmp F)"
  by (rule cmp_preorderI) (auto intro: json_cmp_refl json_cmp_rev json_trans_at)

text \<open>Two values tie exactly when they are equal once their numbers are read as doubles.\<close>

lemma list_all2_map_eq:
  "(\<And>x y. x \<in> set xs \<Longrightarrow> P x y \<longleftrightarrow> f x = f y) \<Longrightarrow> list_all2 P xs ys \<longleftrightarrow> map f xs = map f ys"
  by (auto simp: list_all2_conv_all_nth list_eq_iff_nth_eq)

lemma type_rank_map [simp]: "type_rank (map_jvalue f v) = type_rank v"
  by (cases v) auto

lemma json_Equal_rank:
  assumes "type_rank b = type_rank a \<Longrightarrow> json_cmp F a b = Equal \<longleftrightarrow> map_jvalue f a = map_jvalue f b"
  shows "json_cmp F a b = Equal \<longleftrightarrow> map_jvalue f a = map_jvalue f b"
  by (metis assms json_cmp_Equal_rank type_rank_map)

lemma json_cmp_Equal_iff:
  "finite_numbers F \<Longrightarrow>
   json_cmp F a b = Equal \<longleftrightarrow> map_jvalue (num_rat F) a = map_jvalue (num_rat F) b"
proof (induction a arbitrary: b)
  case (JArray xs)
  have "list_all2 (\<lambda>x y. json_cmp F x y = Equal) xs ys \<longleftrightarrow>
      map (map_jvalue (num_rat F)) xs = map (map_jvalue (num_rat F)) ys" for ys
    by (rule list_all2_map_eq) (rule JArray.IH [OF _ JArray.prems])
  then show ?case
    using json_cmp_Equal_rank [of F "JArray xs" b]
    by (cases b) (auto simp: cmp_list_eq_Equal)
next
  case (JObject m)
  have "list_all2 (\<lambda>x y. then_ord (str_cmp (fst x) (fst y)) (json_cmp F (snd x) (snd y)) = Equal) m m' \<longleftrightarrow>
      map (map_prod id (map_jvalue (num_rat F))) m = map (map_prod id (map_jvalue (num_rat F))) m'" for m'
  proof (rule list_all2_map_eq)
    fix x y assume "x \<in> set m"
    then have "json_cmp F (snd x) b = Equal \<longleftrightarrow> map_jvalue (num_rat F) (snd x) = map_jvalue (num_rat F) b" for b
      by (intro JObject.IH [OF _ _ JObject.prems]) (auto simp: snds.simps)
    then show "then_ord (str_cmp (fst x) (fst y)) (json_cmp F (snd x) (snd y)) = Equal \<longleftrightarrow>
        map_prod id (map_jvalue (num_rat F)) x = map_prod id (map_jvalue (num_rat F)) y"
      by (cases x; cases y) (auto simp: str_cmp.cmp_Equal_iff)
  qed
  then show ?case
    using json_cmp_Equal_rank [of F "JObject m" b]
    by (cases b) (auto simp: cmp_list_eq_Equal)
qed (rule json_Equal_rank; auto simp: num_cmp_rat str_cmp.cmp_Equal_iff)+

section \<open>String-keyed maps\<close>

lemma bm_get_str [simp]: "bm_get str_cmp m k = map_of m k"
  by (induction m) (auto simp: str_cmp.cmp_Equal_iff)

lemma map_of_bm_insert [simp]: "map_of (bm_insert str_cmp k v m) = (map_of m)(k \<mapsto> v)"
  using str_cmp.bm_get_insert [of k v m] by (auto simp: str_cmp.cmp_Equal_iff fun_eq_iff)

lemma map_of_bm_remove [simp]: "map_of (bm_remove str_cmp k m) = (map_of m)(k := None)"
  using str_cmp.bm_get_remove [of k m] by (auto simp: str_cmp.cmp_Equal_iff fun_eq_iff)

lemma bm_sorted_distinct: "bm_sorted str_cmp m \<Longrightarrow> distinct (map fst m)"
  by (induction m) (auto simp: str_cmp.cmp_refl image_iff)

text \<open>Ordered maps with the same lookups are the same map.\<close>

lemma sorted_wrt_set_unique:
  assumes "\<And>x y. R x y \<Longrightarrow> \<not> R y x" "sorted_wrt R xs" "sorted_wrt R ys" "set xs = set ys"
  shows "xs = ys"
  using assms(2-4)
proof (induction xs arbitrary: ys)
  case (Cons x xs)
  then obtain y ys' where ys: "ys = y # ys'" by (cases ys) auto
  have "x = y"
  proof (rule ccontr)
    assume "x \<noteq> y"
    with Cons.prems(3) have "x \<in> set ys'" "y \<in> set xs" by (auto simp: ys)
    with Cons.prems(1,2) assms(1) show False by (auto simp: ys)
  qed
  moreover have "x \<notin> set xs" "y \<notin> set ys'"
    using Cons.prems(1,2) assms(1) [of x x] assms(1) [of y y] by (auto simp: ys)
  ultimately have "set xs = set ys'" using Cons.prems(3) by (auto simp: ys)
  with Cons \<open>x = y\<close> show ?case by (auto simp: ys)
qed simp

lemma bm_sorted_eqI:
  assumes "bm_sorted str_cmp m" "bm_sorted str_cmp m'" "map_of m = map_of m'"
  shows "m = m'"
proof (rule sorted_wrt_set_unique [where R = "\<lambda>a b. str_cmp (fst a) (fst b) = Less"])
  show "set m = set m'"
    using assms(3) map_of_inject_set [OF assms(1,2) [THEN bm_sorted_distinct]] by simp
  show "\<not> str_cmp (fst y) (fst x) = Less" if "str_cmp (fst x) (fst y) = Less" for x y
    using that str_cmp.cmp_rev [of "fst y" "fst x"] by simp
qed (use assms in \<open>simp_all add: bm_sorted_def\<close>)

lemma bm_insert_same: "bm_sorted str_cmp m \<Longrightarrow> map_of m k = Some v \<Longrightarrow> bm_insert str_cmp k v m = m"
  by (rule bm_sorted_eqI) (auto simp: str_cmp.bm_sorted_insert)

lemma wf_json_object:
  "wf_json (JObject m) \<longleftrightarrow> bm_sorted str_cmp m \<and> (\<forall>k v. map_of m k = Some v \<longrightarrow> wf_json v)"
  using map_of_is_SomeI [OF bm_sorted_distinct, of m] by (fastforce dest: map_of_SomeD)

section \<open>Merge patch meets RFC 7386\<close>

lemma map_of_merge_members:
  "distinct (map fst pmap) \<Longrightarrow>
   map_of (merge_members tmap pmap) k =
     (case map_of pmap k of
        None \<Rightarrow> map_of tmap k
      | Some v \<Rightarrow> if v = JNull then None
                  else Some (merge_patch (case map_of tmap k of Some e \<Rightarrow> e | None \<Rightarrow> JNull) v))"
proof (induction pmap arbitrary: tmap)
  case (Cons e pmap)
  obtain p v where e: "e = (p, v)" by (cases e)
  show ?case
  proof (cases "k = p")
    case True
    then have "map_of pmap k = None" using Cons.prems by (auto simp: e map_of_eq_None_iff)
    with True Cons show ?thesis by (auto simp: e split: option.splits)
  next
    case False
    with Cons show ?thesis by (auto simp: e split: option.splits)
  qed
qed simp

lemma bm_sorted_merge_members:
  "bm_sorted str_cmp tmap \<Longrightarrow> bm_sorted str_cmp (merge_members tmap pmap)"
proof (induction pmap arbitrary: tmap)
  case (Cons e pmap)
  obtain p v where e: "e = (p, v)" by (cases e)
  show ?case unfolding e merge_members.simps
    by (rule Cons.IH) (use Cons.prems in \<open>auto split: option.splits intro: str_cmp.bm_sorted_insert\<close>)
qed simp

lemma wf_merge_patch: "wf_json patch \<Longrightarrow> wf_json target \<Longrightarrow> wf_json (merge_patch target patch)"
proof (induction patch arbitrary: target)
  case (JObject pmap)
  let ?t = "case target of JObject tmap \<Rightarrow> tmap | _ \<Rightarrow> []"
  have t: "bm_sorted str_cmp ?t" "map_of ?t k = Some v \<Longrightarrow> wf_json v" for k v
    using JObject.prems(2) wf_json_object by (cases target; auto dest: map_of_SomeD)+
  have p: "distinct (map fst pmap)" using JObject.prems(1) by (simp add: bm_sorted_distinct)
  have IH: "wf_json (merge_patch u x)" if "map_of pmap k = Some x" "wf_json u" for k x u
    using that JObject.prems(1) by (intro JObject.IH [of "(k, x)"]) (force dest: map_of_SomeD)+
  show ?case
    unfolding merge_patch.simps wf_json_object map_of_merge_members [OF p]
    using t IH by (auto simp: bm_sorted_merge_members split: option.splits if_splits)
qed (auto)

lemma merge_patch_idem:
  "wf_json patch \<Longrightarrow> wf_json target \<Longrightarrow>
   merge_patch (merge_patch target patch) patch = merge_patch target patch"
proof (induction patch arbitrary: target)
  case (JObject pmap)
  let ?t = "case target of JObject tmap \<Rightarrow> tmap | _ \<Rightarrow> []"
  have t: "bm_sorted str_cmp ?t" "map_of ?t k = Some v \<Longrightarrow> wf_json v" for k v
    using JObject.prems(2) wf_json_object by (cases target; auto dest: map_of_SomeD)+
  have p: "distinct (map fst pmap)" using JObject.prems(1) by (simp add: bm_sorted_distinct)
  have IH: "merge_patch (merge_patch u x) x = merge_patch u x"
    if "map_of pmap k = Some x" "wf_json u" for k x u
    using that JObject.prems(1) by (intro JObject.IH [of "(k, x)"]) (force dest: map_of_SomeD)+
  have "merge_members (merge_members ?t pmap) pmap = merge_members ?t pmap"
    using t IH by (intro bm_sorted_eqI bm_sorted_merge_members)
      (auto simp: fun_eq_iff map_of_merge_members [OF p] split: option.splits)
  then show ?case by simp
qed auto

text \<open>No member of an object, at any depth of objects, is \<^verbatim>\<open>null\<close>.\<close>

fun no_null_members :: "'n jvalue \<Rightarrow> bool" where
  "no_null_members (JObject m) = (\<forall>e\<in>set m. snd e \<noteq> JNull \<and> no_null_members (snd e))"
| "no_null_members v = True"

lemma merge_patch_not_null: "v \<noteq> JNull \<Longrightarrow> merge_patch t v \<noteq> JNull"
  by (cases v) auto

lemma merge_no_null:
  fixes target patch :: "'n jvalue" and tmap pmap :: "'n members"
  shows "no_null_members target \<Longrightarrow> no_null_members (merge_patch target patch)"
    and "\<forall>e\<in>set tmap. snd e \<noteq> JNull \<and> no_null_members (snd e) \<Longrightarrow>
   \<forall>e\<in>set (merge_members tmap pmap). snd e \<noteq> JNull \<and> no_null_members (snd e)"
proof (induction target patch and tmap pmap rule: merge_patch_merge_members.induct)
  case (1 target pmap)
  then show ?case by (cases target) auto
next
  case (4 tmap k v pmap)
  let ?next = "if v = JNull then bm_remove str_cmp k tmap
        else (case bm_get str_cmp tmap k of
                Some existing \<Rightarrow> bm_insert str_cmp k (merge_patch existing v) tmap
              | None \<Rightarrow> bm_insert str_cmp k (merge_patch JNull v) tmap)"
  have "\<forall>e\<in>set ?next. snd e \<noteq> JNull \<and> no_null_members (snd e)"
  proof (cases "v = JNull")
    case True
    then show ?thesis using "4.prems" by (auto simp: bm_remove_def)
  next
    case False
    let ?e = "case map_of tmap k of Some e \<Rightarrow> e | None \<Rightarrow> JNull"
    have "no_null_members (merge_patch ?e v)"
      using "4.IH"(1,2) "4.prems" False
      by (cases "map_of tmap k") (simp, force dest: map_of_SomeD)
    then show ?thesis
      using False "4.prems" set_bm_insert [of str_cmp k "merge_patch ?e v" tmap]
      by (auto simp: merge_patch_not_null split: option.splits)
  qed
  then show ?case by (simp only: merge_members.simps) (rule "4.IH"(3))
qed auto

section \<open>Projection keeps the requested paths and nothing else\<close>

text \<open>\<open>sub_json u v\<close>: \<open>u\<close> is \<open>v\<close> with some members of some of its objects left out.\<close>

inductive sub_json :: "'n jvalue \<Rightarrow> 'n jvalue \<Rightarrow> bool" where
  sub_same: "sub_json v v"
| sub_members: "(\<And>k x. map_of m k = Some x \<Longrightarrow> \<exists>y. map_of m' k = Some y \<and> sub_json x y) \<Longrightarrow>
    sub_json (JObject m) (JObject m')"

inductive_simps sub_json_object: "sub_json (JObject m) v"

lemma sub_json_memberD:
  "sub_json (JObject m) (JObject m') \<Longrightarrow> map_of m k = Some x \<Longrightarrow>
   \<exists>y. map_of m' k = Some y \<and> sub_json x y"
  by (auto simp: sub_json_object intro: sub_same)

lemma sub_json_is_object: "sub_json u (JObject m) \<Longrightarrow> \<exists>m'. u = JObject m'"
  by (auto elim: sub_json.cases)

lemma path_get_Cons_Some [simp]:
  "path_get v (p # ps) = Some x \<longleftrightarrow> (\<exists>m y. v = JObject m \<and> map_of m p = Some y \<and> path_get y ps = Some x)"
  by (auto simp: value_get_def split: option.splits jvalue.splits)

declare path_get.simps(2) [simp del]

lemma sub_json_path:
  "sub_json u v \<Longrightarrow> path_get u ps = Some x \<Longrightarrow> \<exists>y. path_get v ps = Some y \<and> sub_json x y"
proof (induction ps arbitrary: u v)
  case (Cons p ps)
  then obtain m y where u: "u = JObject m" "map_of m p = Some y" "path_get y ps = Some x"
    by (auto simp: path_get_Cons_Some)
  then obtain m' where v: "v = JObject m'"
    using Cons.prems(1) by (auto elim: sub_json.cases)
  obtain y' where "map_of m' p = Some y'" "sub_json y y'"
    using sub_json_memberD Cons.prems(1) u(1,2) v by blast
  with Cons.IH u(3) v show ?case by auto
qed simp

text \<open>
  The step of the loop: writing the document's own value at a path keeps the output inside the
  document, makes that path agree with it, and leaves every path that agreed in agreement.
\<close>

lemma set_path_deep:
  "set_path m (p # q # ps) v =
     bm_insert str_cmp p (JObject (set_path
       (case map_of m p of Some (JObject inner) \<Rightarrow> inner | _ \<Rightarrow> []) (q # ps) v)) m"
  by (auto simp: Let_def split: option.splits jvalue.splits)

declare set_path.simps(3) [simp del]

lemma path_induct [case_names Nil Single Deep]:
  assumes "P []" "\<And>p. P [p]" "\<And>p q ps. P (q # ps) \<Longrightarrow> P (p # q # ps)"
  shows "P ps"
  by (induction ps rule: induct_list012) (auto intro: assms)

lemma sub_json_insert:
  assumes "sub_json (JObject out) (JObject d)" "map_of d p = Some y" "sub_json x y"
  shows "sub_json (JObject (bm_insert str_cmp p x out)) (JObject d)"
  using assms sub_json_memberD [OF assms(1)] by (intro sub_members) (auto split: if_splits)

lemma sub_inner:
  assumes "sub_json (JObject out) (JObject d)" "map_of d p = Some (JObject e)"
  shows "sub_json (JObject (case map_of out p of Some (JObject inner) \<Rightarrow> inner | _ \<Rightarrow> [])) (JObject e)"
proof (cases "map_of out p")
  case None
  then show ?thesis by (auto intro: sub_members)
next
  case (Some x)
  then have "sub_json x (JObject e)" using sub_json_memberD [OF assms(1)] assms(2) by fastforce
  then show ?thesis using Some sub_json_is_object by fastforce
qed

lemma set_path_sub:
  "sub_json (JObject out) doc \<Longrightarrow> path_get doc ps = Some v \<Longrightarrow> ps \<noteq> [] \<Longrightarrow>
   sub_json (JObject (set_path out ps v)) doc \<and> path_get (JObject (set_path out ps v)) ps = Some v"
proof (induction ps arbitrary: out doc rule: path_induct)
  case (Single p)
  then show ?case by (auto simp: path_get_Cons_Some intro: sub_json_insert sub_same)
next
  case (Deep p q ps)
  from Deep.prems(2) obtain d e where doc: "doc = JObject d" "map_of d p = Some (JObject e)"
    "path_get (JObject e) (q # ps) = Some v"
    by (auto simp: path_get_Cons_Some)
  let ?in = "case map_of out p of Some (JObject inner) \<Rightarrow> inner | _ \<Rightarrow> []"
  have "sub_json (JObject (set_path ?in (q # ps) v)) (JObject e) \<and>
      path_get (JObject (set_path ?in (q # ps) v)) (q # ps) = Some v"
    by (rule Deep.IH) (use sub_inner Deep.prems(1) doc in simp_all)
  then show ?case
    using Deep.prems(1) doc by (auto simp: set_path_deep intro: sub_json_insert)
qed simp

lemma set_path_same:
  "wf_json (JObject m) \<Longrightarrow> path_get (JObject m) ps = Some v \<Longrightarrow> set_path m ps v = m"
proof (induction ps arbitrary: m rule: path_induct)
  case (Single p)
  then show ?case by (auto simp: path_get_Cons_Some intro: bm_insert_same)
next
  case (Deep p q ps)
  then obtain e where e: "map_of m p = Some (JObject e)" "path_get (JObject e) (q # ps) = Some v"
    by (auto simp: path_get_Cons_Some)
  have "wf_json (JObject e)" using Deep.prems(1) e(1) wf_json_object by blast
  with e Deep.IH have "set_path e (q # ps) v = e" by simp
  with e Deep.prems(1) show ?case by (simp add: set_path_deep bm_insert_same)
qed simp

lemma set_path_keeps:
  assumes "wf_json doc" "sub_json (JObject out) doc" "path_get doc ps = Some v" "ps \<noteq> []"
    and "path_get (JObject out) qs = Some w" "path_get doc qs = Some w" "qs \<noteq> []"
  shows "path_get (JObject (set_path out ps v)) qs = Some w"
  using assms
proof (induction ps arbitrary: out doc qs rule: path_induct)
  case (Single p)
  then show ?case by (cases qs) (auto simp: path_get_Cons_Some)
next
  case (Deep p q ps)
  from Deep.prems(3) obtain d e where doc: "doc = JObject d" "map_of d p = Some (JObject e)"
    "path_get (JObject e) (q # ps) = Some v"
    by (auto simp: path_get_Cons_Some)
  obtain r rs where qs: "qs = r # rs" using Deep.prems(7) by (cases qs) auto
  show ?case
  proof (cases "r = p")
    case False
    then show ?thesis using Deep.prems(5) by (simp add: qs set_path_deep)
  next
    case True
    from Deep.prems(5) True obtain x where x: "map_of out p = Some x" "path_get x rs = Some w"
      by (auto simp: qs path_get_Cons_Some)
    have "sub_json x (JObject e)"
      using sub_json_memberD Deep.prems(2) doc x(1) by fastforce
    then obtain i where i: "x = JObject i" using sub_json_is_object by blast
    have e: "wf_json (JObject e)" "path_get (JObject e) rs = Some w"
      using Deep.prems(1,6) doc True wf_json_object [of d] by (auto simp: qs simp del: wf_json.simps)
    have "path_get (JObject (set_path i (q # ps) v)) rs = Some w"
    proof (cases "rs = []")
      case True
      with x i e have "i = e" "w = JObject e" by auto
      with True set_path_same [OF e(1) doc(3)] show ?thesis by simp
    next
      case False
      then show ?thesis
        using Deep.IH [of "JObject e" i rs] x i e doc(3) \<open>sub_json x (JObject e)\<close> by auto
    qed
    then show ?thesis using True x i by (simp add: qs set_path_deep)
  qed
qed simp

lemma project_fold:
  assumes "wf_json doc" "sub_json (JObject out) doc"
    and "\<And>p. p \<in> S \<Longrightarrow> path_get (JObject out) (split_on CHR ''.'' p) = get_path_value doc p"
  shows "sub_json (JObject (foldl (project_step doc) out fields)) doc \<and>
    (\<forall>p\<in>S \<union> set fields. path_get (JObject (foldl (project_step doc) out fields)) (split_on CHR ''.'' p)
       = get_path_value doc p)"
  using assms
proof (induction fields arbitrary: out S)
  case (Cons f fields)
  let ?out = "project_step doc out f"
  have sub: "sub_json (JObject ?out) doc"
    using Cons.prems(2) set_path_sub [of out doc "split_on CHR ''.'' f"]
    by (auto simp: project_step_def get_path_value_def split: option.splits)
  have "path_get (JObject ?out) (split_on CHR ''.'' p) = get_path_value doc p" if "p \<in> insert f S" for p
  proof (cases "get_path_value doc p")
    case None
    then show ?thesis
      using sub_json_path [OF sub, of "split_on CHR ''.'' p"]
      by (cases "path_get (JObject ?out) (split_on CHR ''.'' p)") (auto simp: get_path_value_def)
  next
    case (Some w)
    show ?thesis
    proof (cases "p = f")
      case True
      with Some Cons.prems(2) set_path_sub show ?thesis
        by (fastforce simp: project_step_def get_path_value_def)
    next
      case False
      with that Cons.prems(3) Some have "path_get (JObject out) (split_on CHR ''.'' p) = Some w" by simp
      with Some Cons.prems(1,2) show ?thesis
        using set_path_keeps [of doc out "split_on CHR ''.'' f" _ "split_on CHR ''.'' p" w]
        by (auto simp: project_step_def get_path_value_def split: option.splits)
    qed
  qed
  from Cons.IH [OF Cons.prems(1) sub, of "insert f S"] this show ?case by simp
qed simp

section \<open>Properties\<close>

text \<open>
  C36. \<open>json_cmp\<close> is one total order over all JSON values, whatever their types: reversing the
  arguments reverses the answer, \<open>\<le>\<close> is transitive, and two values tie exactly when they become
  the same value once every number in them is read as a double.
\<close>

theorem json_cmp_total_order:
  assumes "finite_numbers as_f64"
  shows "json_cmp as_f64 b a = rev_ord (json_cmp as_f64 a b) \<and>
    (json_cmp as_f64 a b \<noteq> Greater \<and> json_cmp as_f64 b c \<noteq> Greater \<longrightarrow> json_cmp as_f64 a c \<noteq> Greater) \<and>
    (json_cmp as_f64 a b = Equal \<longleftrightarrow> map_jvalue (num_rat as_f64) a = map_jvalue (num_rat as_f64) b)"
  using json_cmp_rev [OF assms, of b a] cmp_preorder.cmp_trans [OF json_cmp_preorder [OF assms], of a b c]
    json_cmp_Equal_iff [OF assms, of a b] by blast

text \<open>
  C37. Merge patch is RFC 7386, member by member: a member the patch does not name is kept, one it
  sets to \<^verbatim>\<open>null\<close> is gone, and any other is the recursive merge into what was there.
\<close>

theorem merge_patch_rfc7386:
  assumes "wf_json (JObject pmap)"
  shows "value_get (merge_patch target (JObject pmap)) k =
    (case value_get (JObject pmap) k of
       None \<Rightarrow> value_get target k
     | Some v \<Rightarrow> if v = JNull then None
                 else Some (merge_patch (case value_get target k of Some e \<Rightarrow> e | None \<Rightarrow> JNull) v))"
  using assms map_of_merge_members [of pmap _ k]
  by (cases target) (auto simp: value_get_def bm_sorted_distinct split: option.splits)

text \<open>
  Applying a patch twice is applying it once, and the merge of two ordered documents is an
  ordered document that holds a \<^verbatim>\<open>null\<close> member only where the target already did.
\<close>

theorem merge_patch_idempotent:
  assumes "wf_json target" "wf_json patch"
  shows "merge_patch (merge_patch target patch) patch = merge_patch target patch \<and>
    wf_json (merge_patch target patch) \<and>
    (no_null_members target \<longrightarrow> no_null_members (merge_patch target patch))"
  using assms by (simp_all add: merge_patch_idem wf_merge_patch merge_no_null)

text \<open>
  A projection agrees with the document on every requested path, present or absent, in
  whatever order and however nested the paths are, and holds nothing the document does not.
\<close>

theorem project_agrees:
  assumes "wf_json doc" "is_object doc"
  shows "(path \<in> set fields \<longrightarrow> get_path_value (project doc fields) path = get_path_value doc path) \<and>
    sub_json (project doc fields) doc"
proof -
  have "sub_json (JObject []) doc" using assms(2) by (cases doc) (auto intro: sub_members)
  from project_fold [OF assms(1) this, of "{}" fields]
  show ?thesis
    by (auto simp: project_def get_path_value_def intro: sub_same)
qed

section \<open>Witnesses\<close>

text \<open>Numbers as integers below \<open>2\<^sup>5\<^sup>3\<close>, which doubles hold exactly: an instance of the parameter.\<close>

definition int_f64 :: "int numbers" where
  "int_f64 n = Some (Fin (of_int n))"

lemma finite_int_f64 [simp]: "finite_numbers int_f64"
  by (simp add: finite_numbers_def int_f64_def)

lemma num_cmp_int [simp]: "num_cmp int_f64 a b = cmp_lin a b"
  by (simp add: num_cmp_rat num_rat_def int_f64_def cmp_lin_def)

theorem json_cmp_total_order_witness:
  "json_cmp int_f64 (JArray [JNumber 2]) (JArray [JNumber 1, JNull])
     = rev_ord (json_cmp int_f64 (JArray [JNumber 1, JNull]) (JArray [JNumber 2]))"
  using json_cmp_total_order [OF finite_int_f64] by blast

lemma str_cmp_ab: "str_cmp ''a'' ''b'' = Less" "str_cmp ''b'' ''a'' = Greater" "str_cmp ''b'' ''b'' = Equal"
  by (simp_all add: str_cmp_def cmp_char_def cmp_lin_def)

theorem merge_patch_rfc7386_witness:
  "value_get (merge_patch (JObject [(''a'', JNumber (1::int)), (''b'', JBool True)])
     (JObject [(''a'', JNull)])) ''a'' = None"
  using merge_patch_rfc7386 [of "[(''a'', JNull)]"
      "JObject [(''a'', JNumber (1::int)), (''b'', JBool True)]" "''a''"]
  by (simp add: value_get_def)

theorem merge_patch_idempotent_witness:
  "merge_patch (merge_patch (JObject [(''a'', JNumber (1::int))]) (JObject [(''a'', JNull), (''b'', JBool True)]))
     (JObject [(''a'', JNull), (''b'', JBool True)])
   = merge_patch (JObject [(''a'', JNumber 1)]) (JObject [(''a'', JNull), (''b'', JBool True)])"
  using merge_patch_idempotent [of "JObject [(''a'', JNumber (1::int))]"
      "JObject [(''a'', JNull), (''b'', JBool True)]"]
  by (simp only: wf_json.simps) (simp add: str_cmp_ab)

theorem project_agrees_witness:
  "get_path_value (project (JObject [(''a'', JObject [(''b'', JNumber (2::int))])]) [''a.b'', ''c'']) ''a.b''
   = Some (JNumber 2)"
proof -
  have "get_path_value (project (JObject [(''a'', JObject [(''b'', JNumber (2::int))])]) [''a.b'', ''c'']) ''a.b''
    = get_path_value (JObject [(''a'', JObject [(''b'', JNumber (2::int))])]) ''a.b''"
    using project_agrees [of "JObject [(''a'', JObject [(''b'', JNumber (2::int))])]" "''a.b''"
        "[''a.b'', ''c'']"] by simp
  then show ?thesis by (simp add: get_path_value_def)
qed

end
