(* ===== verification/Query.thy ===== *)
theory Query
  imports Json
begin

text \<open>
  \<^verbatim>\<open>src/src/query.rs\<close>: sort orders, the cross-shard merge, cursors, and filter documents (parsing
  and evaluation). The JSON reader \<^verbatim>\<open>serde_json::from_str\<close> and the number accessors \<open>as_f64\<close> and
  \<open>as_u64\<close> are arguments. Error messages are values of \<open>sort_error\<close> and \<open>filter_error\<close>, one
  constructor per message.
\<close>

definition MAX_FILTER_DEPTH :: nat where "MAX_FILTER_DEPTH = 16"
definition MAX_SORT_KEYS :: nat where "MAX_SORT_KEYS = 8"
definition MAX_QUERY_LIMIT :: nat where "MAX_QUERY_LIMIT = 10000"

section \<open>Sort orders\<close>

record sort_key =
  sk_field :: string
  sk_desc :: bool

type_synonym sort_order = "sort_key list"

record 'n sort_cursor =
  sc_values :: "'n jvalue list"
  sc_value :: "'n jvalue option"
  sc_key :: string

record 'n sorted_row =
  row_key :: string
  row_value :: "'n jvalue"

definition cursor_at :: "'n jvalue list \<Rightarrow> string \<Rightarrow> 'n sort_cursor" where
  "cursor_at values key = \<lparr>sc_values = values, sc_value = None, sc_key = key\<rparr>"

definition positions :: "'n sort_cursor \<Rightarrow> 'n jvalue list" where
  "positions c =
     (case sc_value c of
        Some v \<Rightarrow> if sc_values c = [] then [v] else sc_values c
      | None \<Rightarrow> sc_values c)"

datatype sort_error =
    SortNamesNoField string
  | SortManyDirections string
  | SortUnknownDirection string string
  | SortFieldTwice string
  | SortTooManyKeys nat

fun parse_sort_parts :: "sort_key list \<Rightarrow> string list \<Rightarrow> (sort_error, sort_key list) result" where
  "parse_sort_parts keys [] = Ok keys"
| "parse_sort_parts keys (p # ps) =
     (let part = trim p;
          (field, dir) = (case split_once CHR '':'' part of
              Some (f, d) \<Rightarrow> (f, d)
            | None \<Rightarrow> (part, ''asc''))
      in if field = [] then Err (SortNamesNoField part)
         else if CHR '':'' \<in> set dir then Err (SortManyDirections part)
         else (case (if eq_ignore_ascii_case dir ''asc'' then Some False
                     else if eq_ignore_ascii_case dir ''desc'' then Some True else None) of
                 None \<Rightarrow> Err (SortUnknownDirection dir field)
               | Some desc \<Rightarrow>
                   if list_ex (\<lambda>k. sk_field k = field) keys then Err (SortFieldTwice field)
                   else parse_sort_parts (keys @ [\<lparr>sk_field = field, sk_desc = desc\<rparr>]) ps))"

definition parse_sort :: "string option \<Rightarrow> (sort_error, sort_order option) result" where
  "parse_sort s =
     (case s of
        None \<Rightarrow> Ok None
      | Some s \<Rightarrow>
          (case parse_sort_parts [] (split_on CHR '','' s) of
             Err e \<Rightarrow> Err e
           | Ok keys \<Rightarrow>
               if length keys > MAX_SORT_KEYS then Err (SortTooManyKeys (length keys))
               else Ok (Some keys)))"

definition check_key_range :: "string option \<Rightarrow> string option \<Rightarrow> (string \<times> string, unit) result" where
  "check_key_range lo hi =
     (case (lo, hi) of
        (Some s, Some e) \<Rightarrow> if str_cmp s e = Greater then Err (s, e) else Ok ()
      | _ \<Rightarrow> Ok ())"

definition key_value :: "'n jvalue \<Rightarrow> sort_key \<Rightarrow> 'n jvalue" where
  "key_value doc key =
     (case get_path_value doc (sk_field key) of Some v \<Rightarrow> v | None \<Rightarrow> JNull)"

definition sort_position :: "'n jvalue \<Rightarrow> sort_order \<Rightarrow> 'n jvalue list" where
  "sort_position doc order = map (key_value doc) order"

definition directed :: "sort_key \<Rightarrow> ordering \<Rightarrow> ordering" where
  "directed key ord = (if sk_desc key then rev_ord ord else ord)"

text \<open>The loop over the sort keys stops early where either position list is exhausted.\<close>

fun position_ord :: "'n numbers \<Rightarrow> 'n jvalue list \<Rightarrow> 'n jvalue list \<Rightarrow> sort_order \<Rightarrow> ordering" where
  "position_ord as_f64 (x # xs) (y # ys) (key # order) =
     then_ord (directed key (json_cmp as_f64 x y)) (position_ord as_f64 xs ys order)"
| "position_ord as_f64 xs ys order = Equal"

definition compare_positions ::
  "'n numbers \<Rightarrow> 'n jvalue list \<times> string \<Rightarrow> 'n jvalue list \<times> string \<Rightarrow> sort_order \<Rightarrow> ordering" where
  "compare_positions as_f64 a b order =
     then_ord (position_ord as_f64 (fst a) (fst b) order) (str_cmp (snd a) (snd b))"

fun key_ord :: "'n numbers \<Rightarrow> 'n jvalue \<Rightarrow> 'n jvalue \<Rightarrow> sort_order \<Rightarrow> ordering" where
  "key_ord as_f64 a b [] = Equal"
| "key_ord as_f64 a b (key # order) =
     then_ord (directed key (json_cmp as_f64 (key_value a key) (key_value b key)))
       (key_ord as_f64 a b order)"

definition compare_rows :: "'n numbers \<Rightarrow> sort_order \<Rightarrow> 'n sorted_row \<Rightarrow> 'n sorted_row \<Rightarrow> ordering" where
  "compare_rows as_f64 order a b =
     then_ord (key_ord as_f64 (row_value a) (row_value b) order) (str_cmp (row_key a) (row_key b))"

definition is_after :: "'n numbers \<Rightarrow> 'n sorted_row \<Rightarrow> 'n sort_cursor \<Rightarrow> sort_order \<Rightarrow> bool" where
  "is_after as_f64 row cursor order =
     (compare_positions as_f64 (sort_position (row_value row) order, row_key row)
        (positions cursor, sc_key cursor) order = Greater)"

section \<open>The merge of the shards' pages\<close>

text \<open>One pass over the lists' heads: the first list whose head no other head is below.\<close>

definition kway_pick ::
  "('r \<Rightarrow> 'r \<Rightarrow> ordering) \<Rightarrow> 'r list list \<Rightarrow> nat list \<Rightarrow> nat option" where
  "kway_pick cmp ls heads =
     foldl (\<lambda>best i.
        if heads ! i < length (ls ! i)
        then (case best of
                None \<Rightarrow> Some i
              | Some b \<Rightarrow>
                  if cmp (ls ! i ! (heads ! i)) (ls ! b ! (heads ! b)) = Less then Some i
                  else Some b)
        else best) None [0..<length ls]"

text \<open>The outer loop; its first argument is \<open>limit - out.len()\<close>.\<close>

fun kway_loop ::
  "nat \<Rightarrow> ('r \<Rightarrow> 'r \<Rightarrow> ordering) \<Rightarrow> 'r list list \<Rightarrow> nat list \<Rightarrow> 'r list \<Rightarrow> 'r list" where
  "kway_loop 0 cmp ls heads out = out"
| "kway_loop (Suc left) cmp ls heads out =
     (case kway_pick cmp ls heads of
        None \<Rightarrow> out
      | Some i \<Rightarrow>
          kway_loop left cmp ls (heads[i := heads ! i + 1]) (out @ [ls ! i ! (heads ! i)]))"

definition kway_merge ::
  "'n numbers \<Rightarrow> 'n sorted_row list list \<Rightarrow> sort_order \<Rightarrow> nat \<Rightarrow> 'n sorted_row list" where
  "kway_merge as_f64 ls order limit =
     kway_loop limit (compare_rows as_f64 order) ls (replicate (length ls) 0) []"

section \<open>Filters\<close>

datatype json_kind = KNull | KBool | KNumber | KString | KArray | KObject

fun kind_of :: "'n jvalue \<Rightarrow> json_kind" where
  "kind_of JNull = KNull"
| "kind_of (JBool b) = KBool"
| "kind_of (JNumber n) = KNumber"
| "kind_of (JString s) = KString"
| "kind_of (JArray xs) = KArray"
| "kind_of (JObject m) = KObject"

definition kind_parse :: "string \<Rightarrow> json_kind option" where
  "kind_parse name =
     (if name = ''null'' then Some KNull
      else if name = ''bool'' then Some KBool
      else if name = ''number'' then Some KNumber
      else if name = ''string'' then Some KString
      else if name = ''array'' then Some KArray
      else if name = ''object'' then Some KObject
      else None)"

datatype 'n op =
    Eq "'n jvalue"
  | Ne "'n jvalue"
  | In "'n jvalue list"
  | Nin "'n jvalue list"
  | Gt "'n jvalue"
  | Gte "'n jvalue"
  | Lt "'n jvalue"
  | Lte "'n jvalue"
  | Exists bool
  | OfType "json_kind list"
  | Prefix string
  | Suffix string
  | Contains string
  | AllOf "'n jvalue list"
  | Size nat
  | ElemMatch "'n elem_predicate"
  | Not "'n condition"
and 'n elem_predicate = Ops "'n condition" | Doc "'n filter"
and 'n condition = Condition "'n op list"
and 'n expr =
    EAll "'n expr list"
  | EAny "'n expr list"
  | ENor "'n expr list"
  | EField string "'n condition"
and 'n filter = Filter "'n expr"

fun cond_ops :: "'n condition \<Rightarrow> 'n op list" where
  "cond_ops (Condition ops) = ops"

definition same_type_cmp :: "'n numbers \<Rightarrow> 'n jvalue \<Rightarrow> 'n jvalue \<Rightarrow> ordering option" where
  "same_type_cmp as_f64 v operand =
     (if kind_of v = kind_of operand then Some (json_cmp as_f64 v operand) else None)"

text \<open>
  Evaluation. \<open>present_op_matches\<close> is only reached for operators other than \<open>Exists\<close> and \<open>Not\<close>,
  whose branches stand for the source's \<^verbatim>\<open>unreachable!\<close>.
\<close>

function cond_matches :: "'n numbers \<Rightarrow> 'n condition \<Rightarrow> 'n jvalue option \<Rightarrow> bool"
  and op_matches :: "'n numbers \<Rightarrow> 'n op \<Rightarrow> 'n jvalue option \<Rightarrow> bool"
  and present_op_matches :: "'n numbers \<Rightarrow> 'n op \<Rightarrow> 'n jvalue \<Rightarrow> bool"
  and elem_matches :: "'n numbers \<Rightarrow> 'n elem_predicate \<Rightarrow> 'n jvalue \<Rightarrow> bool"
  and filter_matches :: "'n numbers \<Rightarrow> 'n filter \<Rightarrow> 'n jvalue \<Rightarrow> bool"
  and eval_expr :: "'n numbers \<Rightarrow> 'n expr \<Rightarrow> 'n jvalue \<Rightarrow> bool" where
  "cond_matches as_f64 cond val =
     (case cond of Condition ops \<Rightarrow> list_all (\<lambda>op. op_matches as_f64 op val) ops)"
| "op_matches as_f64 op val =
     (case op of
        Exists want \<Rightarrow> (val \<noteq> None) = want
      | Not inner \<Rightarrow> \<not> cond_matches as_f64 inner val
      | _ \<Rightarrow> (case val of None \<Rightarrow> False | Some v \<Rightarrow> present_op_matches as_f64 op v))"
| "present_op_matches as_f64 op v =
     (case op of
        Eq want \<Rightarrow> v = want
      | Ne want \<Rightarrow> v \<noteq> want
      | In xs \<Rightarrow> v \<in> set xs
      | Nin xs \<Rightarrow> v \<notin> set xs
      | Gt b \<Rightarrow> same_type_cmp as_f64 v b = Some Greater
      | Gte b \<Rightarrow> same_type_cmp as_f64 v b = Some Greater \<or> same_type_cmp as_f64 v b = Some Equal
      | Lt b \<Rightarrow> same_type_cmp as_f64 v b = Some Less
      | Lte b \<Rightarrow> same_type_cmp as_f64 v b = Some Less \<or> same_type_cmp as_f64 v b = Some Equal
      | OfType kinds \<Rightarrow> kind_of v \<in> set kinds
      | Prefix p \<Rightarrow> (case as_str v of Some s \<Rightarrow> starts_with s p | None \<Rightarrow> False)
      | Suffix p \<Rightarrow> (case as_str v of Some s \<Rightarrow> ends_with s p | None \<Rightarrow> False)
      | Contains p \<Rightarrow> (case as_str v of Some s \<Rightarrow> str_contains s p | None \<Rightarrow> False)
      | AllOf want \<Rightarrow> (case as_array v of Some a \<Rightarrow> list_all (\<lambda>w. w \<in> set a) want | None \<Rightarrow> False)
      | Size n \<Rightarrow> (case as_array v of Some a \<Rightarrow> length a = n | None \<Rightarrow> False)
      | ElemMatch pred \<Rightarrow>
          (case as_array v of Some a \<Rightarrow> list_ex (\<lambda>e. elem_matches as_f64 pred e) a | None \<Rightarrow> False)
      | Exists b \<Rightarrow> False
      | Not c \<Rightarrow> False)"
| "elem_matches as_f64 pred e =
     (case pred of
        Ops cond \<Rightarrow> cond_matches as_f64 cond (Some e)
      | Doc flt \<Rightarrow> filter_matches as_f64 flt e)"
| "filter_matches as_f64 flt doc = (case flt of Filter tree \<Rightarrow> eval_expr as_f64 tree doc)"
| "eval_expr as_f64 expr doc =
     (case expr of
        EField path cond \<Rightarrow> cond_matches as_f64 cond (get_path_value doc path)
      | EAll parts \<Rightarrow> list_all (\<lambda>p. eval_expr as_f64 p doc) parts
      | EAny parts \<Rightarrow> list_ex (\<lambda>p. eval_expr as_f64 p doc) parts
      | ENor parts \<Rightarrow> \<not> list_ex (\<lambda>p. eval_expr as_f64 p doc) parts)"
  by pat_completeness auto
termination
  by (relation "measure (\<lambda>x. case x of
        Inl (Inl (_, c, _)) \<Rightarrow> 2 * size c
      | Inl (Inr (Inl (_, op, _))) \<Rightarrow> 2 * size op + 1
      | Inl (Inr (Inr (_, op, _))) \<Rightarrow> 2 * size op
      | Inr (Inl (_, pred, _)) \<Rightarrow> 2 * size pred
      | Inr (Inr (Inl (_, flt, _))) \<Rightarrow> 2 * size flt
      | Inr (Inr (Inr (_, e, _))) \<Rightarrow> 2 * size e)")
    (auto dest: size_element)

declare cond_matches.simps [simp del] op_matches.simps [simp del] present_op_matches.simps [simp del]
  elem_matches.simps [simp del] filter_matches.simps [simp del] eval_expr.simps [simp del]

definition matches_filter :: "'n numbers \<Rightarrow> 'n jvalue \<Rightarrow> 'n filter \<Rightarrow> bool" where
  "matches_filter as_f64 doc flt = filter_matches as_f64 flt doc"

fun collect_conjuncts :: "'n expr \<Rightarrow> (string \<times> 'n condition) list" where
  "collect_conjuncts (EField path cond) = [(path, cond)]"
| "collect_conjuncts (EAll parts) = concat (map collect_conjuncts parts)"
| "collect_conjuncts (EAny parts) = []"
| "collect_conjuncts (ENor parts) = []"

fun conjuncts :: "'n filter \<Rightarrow> (string \<times> 'n condition) list" where
  "conjuncts (Filter tree) = collect_conjuncts tree"

section \<open>Parsing a filter document\<close>

datatype filter_error =
    NotJson
  | NestsTooDeep
  | NotAnObject
  | UnsupportedDocumentOp string
  | NeedsBranches string
  | MixesLiteralKeys string
  | NeedsArray string string
  | NeedsString string string
  | NeedsBound string string
  | NeedsBool string
  | NeedsTypeName string
  | NeedsTypeNames string
  | NamesNoType string
  | UnknownType string string
  | NeedsSize string
  | NeedsElemObject string
  | NeedsOperatorObject string
  | UnsupportedOp string string
  | MixedRangeTypes string

definition is_op_key :: "string \<Rightarrow> bool" where
  "is_op_key k = starts_with k ''$''"

fun range_operand :: "'n op \<Rightarrow> 'n jvalue option" where
  "range_operand (Gt v) = Some v"
| "range_operand (Gte v) = Some v"
| "range_operand (Lt v) = Some v"
| "range_operand (Lte v) = Some v"
| "range_operand _ = None"

fun range_agreement :: "string \<Rightarrow> json_kind option \<Rightarrow> 'n op list \<Rightarrow> (filter_error, unit) result" where
  "range_agreement field kind [] = Ok ()"
| "range_agreement field kind (op # ops) =
     (case range_operand op of
        None \<Rightarrow> range_agreement field kind ops
      | Some operand \<Rightarrow>
          (let this = kind_of operand
           in case kind of
                Some seen \<Rightarrow> if seen \<noteq> this then Err (MixedRangeTypes field)
                             else range_agreement field (Some this) ops
              | None \<Rightarrow> range_agreement field (Some this) ops))"

definition check_range_agreement :: "string \<Rightarrow> 'n op list \<Rightarrow> (filter_error, unit) result" where
  "check_range_agreement field ops = range_agreement field None ops"

definition parse_types :: "string \<Rightarrow> 'n jvalue \<Rightarrow> (filter_error, json_kind list) result" where
  "parse_types field operand =
     (case (case operand of
              JString s \<Rightarrow> Ok [s]
            | JArray a \<Rightarrow>
                collect_results (map (\<lambda>v. case as_str v of Some s \<Rightarrow> Ok s | None \<Rightarrow> Err (NeedsTypeNames field)) a)
            | _ \<Rightarrow> Err (NeedsTypeName field)) of
        Err e \<Rightarrow> Err e
      | Ok names \<Rightarrow>
          if names = [] then Err (NamesNoType field)
          else collect_results
            (map (\<lambda>n. case kind_parse n of Some k \<Rightarrow> Ok k | None \<Rightarrow> Err (UnknownType n field)) names))"

definition need :: "'e \<Rightarrow> 'a option \<Rightarrow> ('e, 'a) result" where
  "need e opt = (case opt of Some x \<Rightarrow> Ok x | None \<Rightarrow> Err e)"

definition bound_operand :: "'n jvalue \<Rightarrow> 'n jvalue option" where
  "bound_operand v = (case v of JNumber n \<Rightarrow> Some v | JString s \<Rightarrow> Some v | _ \<Rightarrow> None)"

definition map_ok :: "('a \<Rightarrow> 'b) \<Rightarrow> ('e, 'a) result \<Rightarrow> ('e, 'b) result" where
  "map_ok f r = map_sum id f r"

lemma map_ok_simps [simp]: "map_ok f (Ok x) = Ok (f x)" "map_ok f (Err e) = Err e"
  by (simp_all add: map_ok_def)

text \<open>
  The operators without a nested filter. \<open>as_u64\<close> reads a number as an unsigned integer; on the
  64-bit targets the code is built for, \<^verbatim>\<open>usize::try_from\<close> of it always succeeds.
\<close>

definition parse_flat_op ::
  "('n \<Rightarrow> nat option) \<Rightarrow> string \<Rightarrow> string \<Rightarrow> 'n jvalue \<Rightarrow> (filter_error, 'n op) result" where
  "parse_flat_op as_u64 field op operand =
     (let list = need (NeedsArray op field) (as_array operand);
          text = need (NeedsString op field) (as_str operand);
          bound = need (NeedsBound op field) (bound_operand operand)
      in if op = ''$eq'' then Ok (Eq operand)
         else if op = ''$ne'' then Ok (Ne operand)
         else if op = ''$in'' then map_ok In list
         else if op = ''$nin'' then map_ok Nin list
         else if op = ''$gt'' then map_ok Gt bound
         else if op = ''$gte'' then map_ok Gte bound
         else if op = ''$lt'' then map_ok Lt bound
         else if op = ''$lte'' then map_ok Lte bound
         else if op = ''$exists'' then map_ok Exists (need (NeedsBool field) (as_bool operand))
         else if op = ''$type'' then map_ok OfType (parse_types field operand)
         else if op = ''$prefix'' then map_ok Prefix text
         else if op = ''$suffix'' then map_ok Suffix text
         else if op = ''$contains'' then map_ok Contains text
         else if op = ''$all'' then map_ok AllOf list
         else if op = ''$size''
           then map_ok Size (need (NeedsSize field)
             (case operand of JNumber n \<Rightarrow> as_u64 n | _ \<Rightarrow> None))
         else Err (UnsupportedOp op field))"

function parse_expr :: "('n \<Rightarrow> nat option) \<Rightarrow> 'n jvalue \<Rightarrow> nat \<Rightarrow> (filter_error, 'n expr) result"
  and parse_branches :: "('n \<Rightarrow> nat option) \<Rightarrow> string \<Rightarrow> 'n jvalue \<Rightarrow> nat \<Rightarrow> (filter_error, 'n expr list) result"
  and parse_condition :: "('n \<Rightarrow> nat option) \<Rightarrow> string \<Rightarrow> 'n jvalue \<Rightarrow> nat \<Rightarrow> (filter_error, 'n condition) result"
  and parse_op :: "('n \<Rightarrow> nat option) \<Rightarrow> string \<Rightarrow> string \<Rightarrow> 'n jvalue \<Rightarrow> nat \<Rightarrow> (filter_error, 'n op) result"
  and parse_elem_match :: "('n \<Rightarrow> nat option) \<Rightarrow> string \<Rightarrow> 'n jvalue \<Rightarrow> nat \<Rightarrow> (filter_error, 'n elem_predicate) result" where
  "parse_expr as_u64 value depth =
     (if depth > MAX_FILTER_DEPTH then Err NestsTooDeep
      else (case value of
              JObject m \<Rightarrow>
                map_ok EAll (collect_results (map (\<lambda>(key, operand).
                  if key = ''$and'' then map_ok EAll (parse_branches as_u64 key operand depth)
                  else if key = ''$or'' then map_ok EAny (parse_branches as_u64 key operand depth)
                  else if key = ''$nor'' then map_ok ENor (parse_branches as_u64 key operand depth)
                  else if is_op_key key then Err (UnsupportedDocumentOp key)
                  else map_ok (EField key) (parse_condition as_u64 key operand depth)) m))
            | _ \<Rightarrow> Err NotAnObject))"
| "parse_branches as_u64 op operand depth =
     (case operand of
        JArray a \<Rightarrow>
          if a = [] then Err (NeedsBranches op)
          else collect_results (map (\<lambda>b. parse_expr as_u64 b (depth + 1)) a)
      | _ \<Rightarrow> Err (NeedsBranches op))"
| "parse_condition as_u64 field cond depth =
     (if depth > MAX_FILTER_DEPTH then Err NestsTooDeep
      else (case cond of
              JObject m \<Rightarrow>
                (let ops = length (filter (\<lambda>e. is_op_key (fst e)) m)
                 in if ops = 0 then Ok (Condition [Eq cond])
                    else if ops \<noteq> length m then Err (MixesLiteralKeys field)
                    else (case collect_results (map (\<lambda>(op, operand). parse_op as_u64 field op operand depth) m) of
                            Err e \<Rightarrow> Err e
                          | Ok parsed \<Rightarrow>
                              map_ok (\<lambda>_. Condition parsed) (check_range_agreement field parsed)))
            | _ \<Rightarrow> Ok (Condition [Eq cond])))"
| "parse_op as_u64 field op operand depth =
     (if op = ''$elemMatch'' then map_ok ElemMatch (parse_elem_match as_u64 field operand depth)
      else if op = ''$not'' then
        (case operand of
           JObject inner \<Rightarrow>
             if list_all (\<lambda>e. is_op_key (fst e)) inner \<and> inner \<noteq> []
             then map_ok Not (parse_condition as_u64 field operand (depth + 1))
             else Err (NeedsOperatorObject field)
         | _ \<Rightarrow> Err (NeedsOperatorObject field))
      else parse_flat_op as_u64 field op operand)"
| "parse_elem_match as_u64 field operand depth =
     (case operand of
        JObject m \<Rightarrow>
          if list_ex (\<lambda>e. is_op_key (fst e)) m
          then map_ok Ops (parse_condition as_u64 field operand (depth + 1))
          else map_ok (\<lambda>e. Doc (Filter e)) (parse_expr as_u64 operand (depth + 1))
      | _ \<Rightarrow> Err (NeedsElemObject field))"
  by pat_completeness auto
termination
  by (relation "measure (\<lambda>x. case x of
        Inl (Inl (_, v, _)) \<Rightarrow> 4 * size v
      | Inl (Inr (_, _, v, _)) \<Rightarrow> 4 * size v + 1
      | Inr (Inl (_, _, v, _)) \<Rightarrow> 4 * size v
      | Inr (Inr (Inl (_, _, _, v, _))) \<Rightarrow> 4 * size v + 2
      | Inr (Inr (Inr (_, _, v, _))) \<Rightarrow> 4 * size v + 1)")
    (auto dest: size_member size_element)

declare parse_expr.simps [simp del] parse_branches.simps [simp del] parse_condition.simps [simp del]
  parse_op.simps [simp del] parse_elem_match.simps [simp del]

definition parse_filter ::
  "(string \<Rightarrow> 'n jvalue option) \<Rightarrow> ('n \<Rightarrow> nat option) \<Rightarrow> string \<Rightarrow> (filter_error, 'n filter) result" where
  "parse_filter from_str as_u64 s =
     (case from_str s of
        None \<Rightarrow> Err NotJson
      | Some value \<Rightarrow> map_ok Filter (parse_expr as_u64 value 0))"

section \<open>The row order\<close>

lemma cmp_preorder_rev:
  assumes "cmp_preorder c"
  shows "cmp_preorder (\<lambda>x y. rev_ord (c x y))"
proof -
  have rev: "rev_ord (c x y) = c y x" for x y
    by (rule cmp_preorder.cmp_rev [OF assms, symmetric])
  show ?thesis
    unfolding rev
    by (rule cmp_preorder.intro) (rule cmp_preorder.cmp_refl [OF assms],
        rule cmp_preorder.cmp_rev [OF assms], rule cmp_preorder.cmp_trans [OF assms])
qed

lemma directed_preorder:
  "finite_numbers F \<Longrightarrow> cmp_preorder (\<lambda>x y. directed key (json_cmp F x y))"
  by (cases "sk_desc key")
    (simp_all add: directed_def json_cmp_preorder cmp_preorder_rev [OF json_cmp_preorder])

lemma key_ord_refl: "finite_numbers F \<Longrightarrow> key_ord F a a order = Equal"
  by (induction order) (simp_all add: directed_def json_cmp_refl)

lemma key_ord_rev: "finite_numbers F \<Longrightarrow> key_ord F b a order = rev_ord (key_ord F a b order)"
proof (induction order)
  case (Cons key order)
  have d: "directed key (json_cmp F (key_value b key) (key_value a key)) =
      rev_ord (directed key (json_cmp F (key_value a key) (key_value b key)))"
    by (rule cmp_preorder.cmp_rev [OF directed_preorder [OF Cons.prems]])
  show ?case
    by (simp only: key_ord.simps rev_then_ord d Cons.IH [OF Cons.prems])
qed simp

lemma key_ord_trans_at: "finite_numbers F \<Longrightarrow> trans_at (\<lambda>a b. key_ord F a b order) a"
proof (induction order)
  case Nil
  show ?case by (simp add: trans_at_def)
next
  case (Cons key order)
  have "trans_at (\<lambda>x y. directed key (json_cmp F x y)) (key_value a key)"
    using Cons.prems by (intro cmp_preorder.trans_at directed_preorder)
  from trans_at_then [where f = "\<lambda>d. key_value d key" and g = "\<lambda>d. d", OF this Cons.IH [OF Cons.prems]]
  show ?case by simp
qed

lemma compare_rows_preorder:
  assumes "finite_numbers F"
  shows "cmp_preorder (compare_rows F order)"
proof (rule cmp_preorderI)
  show "compare_rows F order a a = Equal" for a
    using assms by (simp add: compare_rows_def key_ord_refl str_cmp.cmp_refl)
  show "compare_rows F order b a = rev_ord (compare_rows F order a b)" for a b
    unfolding compare_rows_def rev_then_ord
    by (simp only: key_ord_rev [OF assms, of "row_value b" "row_value a"]
        str_cmp.cmp_rev [of "row_key b" "row_key a"])
  show "trans_at (compare_rows F order) a" for a
    using trans_at_then [where f = row_value and g = row_key,
        OF key_ord_trans_at [OF assms, of order "row_value a"] str_cmp.trans_at]
    by (simp add: compare_rows_def [abs_def])
qed

lemma compare_rows_EqualD: "compare_rows F order a b = Equal \<Longrightarrow> row_key a = row_key b"
  by (auto simp: compare_rows_def dest: str_cmp.cmp_EqualD)

lemma position_ord_rows:
  "position_ord F (sort_position a order) (sort_position b order) order = key_ord F a b order"
  by (induction order) (simp_all add: sort_position_def)

lemma is_after_row:
  "is_after F row (cursor_at (sort_position (row_value r) order) (row_key r)) order \<longleftrightarrow>
   compare_rows F order row r = Greater"
  by (simp add: is_after_def compare_positions_def cursor_at_def positions_def position_ord_rows
      compare_rows_def)

section \<open>The merge is the stable sort of all rows, cut at the limit\<close>

lemma sort_by_extract:
  assumes "cmp_preorder cmp" "\<forall>a\<in>set as. cmp x a = Less" "\<forall>b\<in>set bs. cmp x b \<noteq> Greater"
  shows "sort_by cmp (as @ x # bs) = x # sort_by cmp (as @ bs)"
  using assms(2)
proof (induction as)
  case Nil
  have "insort_by cmp x (sort_by cmp bs) = x # sort_by cmp bs"
    using assms(3) by (cases "sort_by cmp bs") (auto simp flip: set_sort_by [of cmp bs])
  then show ?case by simp
next
  case (Cons a as)
  then have "cmp a x = Greater"
    using cmp_preorder.cmp_Greater_iff [OF assms(1)] by simp
  with Cons show ?case by simp
qed

definition remaining :: "'r list list \<Rightarrow> nat list \<Rightarrow> 'r list" where
  "remaining ls heads = concat (map (\<lambda>i. drop (heads ! i) (ls ! i)) [0..<length ls])"

text \<open>What one pass over the heads establishes, as an invariant of the pass up to list \<open>n\<close>.\<close>

definition picked :: "('r \<Rightarrow> 'r \<Rightarrow> ordering) \<Rightarrow> 'r list list \<Rightarrow> nat list \<Rightarrow> nat \<Rightarrow> nat option \<Rightarrow> bool" where
  "picked cmp ls heads n best =
     (case best of
        None \<Rightarrow> \<forall>i<n. length (ls ! i) \<le> heads ! i
      | Some b \<Rightarrow> b < n \<and> heads ! b < length (ls ! b) \<and>
          (\<forall>i<n. heads ! i < length (ls ! i) \<longrightarrow>
             (if i < b then cmp (ls ! b ! (heads ! b)) (ls ! i ! (heads ! i)) = Less
              else cmp (ls ! b ! (heads ! b)) (ls ! i ! (heads ! i)) \<noteq> Greater)))"

lemma kway_pick_picked:
  assumes "cmp_preorder cmp"
  shows "picked cmp ls heads (length ls) (kway_pick cmp ls heads)"
proof -
  let ?step = "\<lambda>best i. if heads ! i < length (ls ! i)
        then (case best of
                None \<Rightarrow> Some i
              | Some b \<Rightarrow> if cmp (ls ! i ! (heads ! i)) (ls ! b ! (heads ! b)) = Less then Some i else Some b)
        else best"
  have "picked cmp ls heads n (foldl ?step None [0..<n])" for n
  proof (induction n)
    case 0
    show ?case by (simp add: picked_def)
  next
    case (Suc n)
    note laws = cmp_preorder.cmp_refl [OF assms] cmp_preorder.cmp_Greater_iff [OF assms]
      cmp_preorder.cmp_less_trans [OF assms] cmp_preorder.cmp_less_le_trans [OF assms]
    show ?case
    proof (cases "foldl ?step None [0..<n]")
      case None
      with Suc show ?thesis by (auto simp: picked_def less_Suc_eq laws(1))
    next
      case (Some b)
      show ?thesis
      proof (cases "heads ! n < length (ls ! n) \<and> cmp (ls ! n ! (heads ! n)) (ls ! b ! (heads ! b)) = Less")
        case True
        have "cmp (ls ! n ! (heads ! n)) (ls ! i ! (heads ! i)) = Less"
          if "i < n" "heads ! i < length (ls ! i)" for i
        proof -
          have "cmp (ls ! b ! (heads ! b)) (ls ! i ! (heads ! i)) \<noteq> Greater"
            using Suc Some that by (auto simp: picked_def split: if_splits)
          with True show ?thesis using laws(4) by blast
        qed
        with True Some show ?thesis by (auto simp: picked_def less_Suc_eq laws(1))
      next
        case False
        then have "heads ! n < length (ls ! n) \<Longrightarrow> cmp (ls ! b ! (heads ! b)) (ls ! n ! (heads ! n)) \<noteq> Greater"
          unfolding laws(2) by blast
        with False Suc Some show ?thesis by (auto simp: picked_def less_Suc_eq)
      qed
    qed
  qed
  then show ?thesis by (simp add: kway_pick_def)
qed

lemma upt_split: "i < n \<Longrightarrow> [0..<n] = [0..<i] @ i # [Suc i..<n]"
  using upt_add_eq_append [of 0 i "n - i"] by (simp add: upt_conv_Cons)

lemma sorted_drop_head:
  "sorted_by cmp xs \<Longrightarrow> h < length xs \<Longrightarrow> y \<in> set (drop (Suc h) xs) \<Longrightarrow> cmp (xs ! h) y \<noteq> Greater"
  by (auto simp: sorted_by_def sorted_wrt_iff_nth_less in_set_conv_nth)

lemma remaining_pick:
  assumes "cmp_preorder cmp" "\<forall>l\<in>set ls. sorted_by cmp l" "length heads = length ls"
    and "picked cmp ls heads (length ls) (Some b)"
  shows "sort_by cmp (remaining ls heads) =
    ls ! b ! (heads ! b) # sort_by cmp (remaining ls (heads[b := heads ! b + 1]))"
proof -
  let ?x = "ls ! b ! (heads ! b)"
  let ?l = "\<lambda>hs i. drop (hs ! i) (ls ! i)"
  let ?hs = "heads[b := Suc (heads ! b)]"
  have b: "b < length ls" "heads ! b < length (ls ! b)"
    using assms(4) by (auto simp: picked_def)
  define A where "A = concat (map (?l heads) [0..<b])"
  define B where "B = concat (map (?l heads) [Suc b..<length ls])"
  have split: "remaining ls heads = A @ ?l heads b @ B"
    by (simp add: remaining_def A_def B_def upt_split [OF b(1)])
  have "concat (map (?l ?hs) [0..<b]) = A" "concat (map (?l ?hs) [Suc b..<length ls]) = B"
    unfolding A_def B_def by (intro arg_cong [of _ _ concat] map_cong; auto)+
  then have split': "remaining ls ?hs = A @ drop (Suc (heads ! b)) (ls ! b) @ B"
    using b assms(3) by (simp add: remaining_def upt_split [OF b(1)])
  have head: "?l heads b = ?x # drop (Suc (heads ! b)) (ls ! b)"
    using b(2) by (simp add: Cons_nth_drop_Suc)
  have le_tail: "cmp (ls ! i ! (heads ! i)) y \<noteq> Greater"
    if "i < length ls" "y \<in> set (?l heads i)" "heads ! i < length (ls ! i)" for i y
  proof -
    have "sorted_by cmp (ls ! i)" using assms(2) that(1) by simp
    then show ?thesis
      using that sorted_drop_head [of cmp "ls ! i" "heads ! i" y] cmp_preorder.cmp_refl [OF assms(1)]
      by (auto simp: Cons_nth_drop_Suc [OF that(3), symmetric])
  qed
  have nonempty: "heads ! i < length (ls ! i)" if "y \<in> set (?l heads i)" for i y
    using that by (cases "heads ! i < length (ls ! i)") auto
  have less: "cmp ?x y = Less" if "y \<in> set A" for y
  proof -
    from that obtain i where i: "i < b" "y \<in> set (?l heads i)" by (auto simp: A_def)
    then have "cmp ?x (ls ! i ! (heads ! i)) = Less"
      using assms(4) b(1) nonempty by (auto simp: picked_def)
    then show ?thesis
      using cmp_preorder.cmp_less_le_trans [OF assms(1)] le_tail i b(1) nonempty
      by (meson less_trans)
  qed
  have le: "cmp ?x y \<noteq> Greater" if "y \<in> set (drop (Suc (heads ! b)) (ls ! b) @ B)" for y
  proof -
    from that consider "y \<in> set (?l heads b)" | i where "b < i" "i < length ls" "y \<in> set (?l heads i)"
      using head by (auto simp: B_def Suc_le_eq)
    then show ?thesis
    proof cases
      case 1
      then show ?thesis using le_tail b by blast
    next
      case 2
      then have "cmp ?x (ls ! i ! (heads ! i)) \<noteq> Greater"
        using assms(4) nonempty by (auto simp: picked_def split: if_splits)
      then show ?thesis
        using cmp_preorder.cmp_trans [OF assms(1)] le_tail 2 nonempty by blast
    qed
  qed
  show ?thesis
    using sort_by_extract [OF assms(1), of A ?x "drop (Suc (heads ! b)) (ls ! b) @ B"] less le
    by (simp add: split split' head)
qed

lemma kway_loop_sorted:
  assumes "cmp_preorder cmp" "\<forall>l\<in>set ls. sorted_by cmp l"
  shows "length heads = length ls \<Longrightarrow>
    kway_loop left cmp ls heads out = out @ take left (sort_by cmp (remaining ls heads))"
proof (induction left arbitrary: heads out)
  case (Suc left)
  show ?case
  proof (cases "kway_pick cmp ls heads")
    case None
    with kway_pick_picked [OF assms(1), of ls heads]
    have "\<forall>i<length ls. length (ls ! i) \<le> heads ! i" by (simp add: picked_def)
    then have "remaining ls heads = []" by (auto simp: remaining_def)
    with None show ?thesis by simp
  next
    case (Some b)
    with remaining_pick [OF assms Suc.prems, of b] kway_pick_picked [OF assms(1), of ls heads]
    show ?thesis using Suc by simp
  qed
qed simp

text \<open>
  C28. The router's merge of sorted shard pages is the stable sort of all their rows, cut at the
  limit: no row is lost, repeated or out of order, and ties keep the order of the shards.
\<close>

theorem kway_merge_is_sorted_prefix:
  assumes "finite_numbers as_f64" "\<forall>page\<in>set pages. sorted_by (compare_rows as_f64 order) page"
  shows "kway_merge as_f64 pages order limit =
    take limit (sort_by (compare_rows as_f64 order) (concat pages))"
proof -
  have "remaining pages (replicate (length pages) 0) = concat pages"
    unfolding remaining_def by (rule arg_cong [of _ _ concat]) (auto intro: nth_equalityI)
  then show ?thesis
    using kway_loop_sorted [OF compare_rows_preorder [OF assms(1)] assms(2)]
    by (simp add: kway_merge_def)
qed

section \<open>Cursors\<close>

lemma filter_after_suffix:
  assumes "cmp_preorder cmp" "sorted_by cmp (front @ r # back)"
    and "\<forall>x\<in>set back. cmp x r \<noteq> Equal"
  shows "filter (\<lambda>x. cmp x r = Greater) (front @ r # back) = back"
proof -
  note greater = cmp_preorder.cmp_Greater_iff [OF assms(1)]
  have "cmp x r \<noteq> Greater" if "x \<in> set front" for x
    using assms(2) that by (auto simp: sorted_by_def sorted_wrt_append)
  moreover have "cmp x r = Greater" if "x \<in> set back" for x
  proof -
    have "cmp r x \<noteq> Greater" using assms(2) that by (auto simp: sorted_by_def sorted_wrt_append)
    then show ?thesis using assms(3) that by (cases "cmp x r") (auto simp: greater)
  qed
  ultimately show ?thesis
    using cmp_preorder.cmp_refl [OF assms(1), of r] by (auto simp: filter_empty_conv)
qed

text \<open>
  Resuming a sorted scan: over rows in sort order whose keys are distinct, the rows a cursor
  built from row \<open>r\<close> admits are exactly those that follow \<open>r\<close>, so consecutive pages neither
  repeat a row nor skip one, ties on the sort fields included.
\<close>

theorem cursor_resumes_after_row:
  assumes "finite_numbers as_f64" "sorted_by (compare_rows as_f64 order) (front @ r # back)"
    and "distinct (map row_key (front @ r # back))"
  shows "filter (\<lambda>row. is_after as_f64 row
      (cursor_at (sort_position (row_value r) order) (row_key r)) order) (front @ r # back) = back"
proof -
  have "compare_rows as_f64 order x r \<noteq> Equal" if "x \<in> set back" for x
    using assms(3) that compare_rows_EqualD [of as_f64 order x r] by (auto simp: image_iff)
  then show ?thesis
    unfolding is_after_row
    by (intro filter_after_suffix compare_rows_preorder assms) auto
qed

section \<open>Sort parameters\<close>

lemma parse_sort_parts_inv:
  assumes "parse_sort_parts keys ps = Ok ks"
    and "distinct (map sk_field keys)" "\<forall>k\<in>set keys. sk_field k \<noteq> []"
  shows "distinct (map sk_field ks) \<and> (\<forall>k\<in>set ks. sk_field k \<noteq> []) \<and> length ks = length keys + length ps"
  using assms
proof (induction keys ps rule: parse_sort_parts.induct)
  case (2 keys p ps)
  obtain field dir where fd: "(case split_once CHR '':'' (trim p) of
      Some (f, d) \<Rightarrow> (f, d) | None \<Rightarrow> (trim p, ''asc'')) = (field, dir)" by fastforce
  note eq = "2.prems"(1) [unfolded parse_sort_parts.simps Let_def fd prod.case]
  from eq have "field \<noteq> []" by (auto split: if_splits)
  moreover from eq have "CHR '':'' \<notin> set dir" by (auto split: if_splits)
  moreover from eq obtain desc where "(if eq_ignore_ascii_case dir ''asc'' then Some False
      else if eq_ignore_ascii_case dir ''desc'' then Some True else None) = Some desc"
    by (auto split: if_splits)
  moreover from this eq have fresh: "\<not> list_ex (\<lambda>k. sk_field k = field) keys"
    by (auto split: if_splits)
  moreover from calculation eq
  have "parse_sort_parts (keys @ [\<lparr>sk_field = field, sk_desc = desc\<rparr>]) ps = Ok ks" by simp
  moreover have "distinct (map sk_field (keys @ [\<lparr>sk_field = field, sk_desc = desc\<rparr>]))"
    using "2.prems"(2) fresh by (auto simp: list_ex_iff)
  ultimately show ?case
    using "2.IH" [OF refl _ refl] "2.prems"(3) fd by (fastforce split: if_splits)
qed auto

text \<open>
  An accepted \<^verbatim>\<open>?sort=\<close> names between one and eight fields, none of them empty and none
  twice, one per comma-separated part of the text: nothing is dropped or reinterpreted.
\<close>

theorem parse_sort_accepts:
  assumes "parse_sort (Some s) = Ok (Some keys)"
  shows "distinct (map sk_field keys) \<and> (\<forall>k\<in>set keys. sk_field k \<noteq> []) \<and>
    length keys = length (split_on CHR '','' s) \<and> 1 \<le> length keys \<and> length keys \<le> MAX_SORT_KEYS"
proof -
  from assms have "parse_sort_parts [] (split_on CHR '','' s) = Ok keys" "length keys \<le> MAX_SORT_KEYS"
    by (auto simp: parse_sort_def split: sum.splits if_splits)
  with parse_sort_parts_inv [of "[]" "split_on CHR '','' s" keys] show ?thesis
    by (auto simp: Suc_le_eq)
qed

section \<open>Filters\<close>

lemma cond_matches_simps [simp]:
  "cond_matches F (Condition ops) val \<longleftrightarrow> (\<forall>op\<in>set ops. op_matches F op val)"
  by (simp add: cond_matches.simps list_all_iff)

lemma eval_expr_simps [simp]:
  "eval_expr F (EField path cond) doc = cond_matches F cond (get_path_value doc path)"
  "eval_expr F (EAll parts) doc = (\<forall>p\<in>set parts. eval_expr F p doc)"
  "eval_expr F (EAny parts) doc = (\<exists>p\<in>set parts. eval_expr F p doc)"
  "eval_expr F (ENor parts) doc = (\<not> (\<exists>p\<in>set parts. eval_expr F p doc))"
  by (simp_all add: eval_expr.simps list_all_iff list_ex_iff)

lemma filter_matches_simps [simp]: "filter_matches F (Filter e) doc = eval_expr F e doc"
  by (simp add: filter_matches.simps)

lemma collect_conjuncts_sound:
  "eval_expr F e doc \<Longrightarrow> (path, cond) \<in> set (collect_conjuncts e) \<Longrightarrow>
   cond_matches F cond (get_path_value doc path)"
  by (induction e rule: collect_conjuncts.induct) auto

text \<open>
  Every condition reported as a conjunct constrains every matching document, so planning on
  one can drop no row: conditions under \<^verbatim>\<open>$or\<close> and \<^verbatim>\<open>$nor\<close> are never reported.
\<close>

theorem conjuncts_sound:
  assumes "matches_filter as_f64 doc flt" "(path, cond) \<in> set (conjuncts flt)"
  shows "cond_matches as_f64 cond (get_path_value doc path)"
  using assms by (cases flt) (auto simp: matches_filter_def intro: collect_conjuncts_sound)

section \<open>Accepted filters evaluate in bounded stack\<close>

text \<open>\<open>expr_within n e\<close>: evaluating \<open>e\<close> recurses through at most \<open>n\<close> nested calls.\<close>

fun expr_within :: "nat \<Rightarrow> 'n expr \<Rightarrow> bool"
  and cond_within :: "nat \<Rightarrow> 'n condition \<Rightarrow> bool"
  and op_within :: "nat \<Rightarrow> 'n op \<Rightarrow> bool" where
  "expr_within 0 e = False"
| "expr_within (Suc n) e =
     (case e of
        EField path cond \<Rightarrow> cond_within n cond
      | EAll parts \<Rightarrow> list_all (\<lambda>p. expr_within n p) parts
      | EAny parts \<Rightarrow> list_all (\<lambda>p. expr_within n p) parts
      | ENor parts \<Rightarrow> list_all (\<lambda>p. expr_within n p) parts)"
| "cond_within 0 c = False"
| "cond_within (Suc n) c = (case c of Condition ops \<Rightarrow> list_all (\<lambda>op. op_within n op) ops)"
| "op_within 0 op = False"
| "op_within (Suc n) op =
     (case op of
        Not c \<Rightarrow> cond_within n c
      | ElemMatch (Ops c) \<Rightarrow> cond_within n c
      | ElemMatch (Doc (Filter e)) \<Rightarrow> expr_within n e
      | _ \<Rightarrow> True)"

lemma within_simps [simp]:
  "expr_within n (EAll parts) \<longleftrightarrow> 0 < n \<and> (\<forall>p\<in>set parts. expr_within (n - 1) p)"
  "expr_within n (EAny parts) \<longleftrightarrow> 0 < n \<and> (\<forall>p\<in>set parts. expr_within (n - 1) p)"
  "expr_within n (ENor parts) \<longleftrightarrow> 0 < n \<and> (\<forall>p\<in>set parts. expr_within (n - 1) p)"
  "expr_within n (EField path c) \<longleftrightarrow> 0 < n \<and> cond_within (n - 1) c"
  "cond_within n (Condition ops) \<longleftrightarrow> 0 < n \<and> (\<forall>op\<in>set ops. op_within (n - 1) op)"
  "op_within n (Not c) \<longleftrightarrow> 0 < n \<and> cond_within (n - 1) c"
  "op_within n (ElemMatch (Ops c)) \<longleftrightarrow> 0 < n \<and> cond_within (n - 1) c"
  "op_within n (ElemMatch (Doc (Filter e))) \<longleftrightarrow> 0 < n \<and> expr_within (n - 1) e"
  by (cases n; simp add: list_all_iff)+

declare expr_within.simps(2) [simp del] cond_within.simps(2) [simp del] op_within.simps(2) [simp del]

lemma op_within_flat:
  "\<forall>c. op \<noteq> Not c \<Longrightarrow> \<forall>pr. op \<noteq> ElemMatch pr \<Longrightarrow> op_within n op \<longleftrightarrow> 0 < n"
  by (cases n) (auto simp: op_within.simps split: op.splits)

lemma op_shape:
  obtains c where "op = Not c" | c where "op = ElemMatch (Ops c)" | e where "op = ElemMatch (Doc (Filter e))"
  | "\<forall>c. op \<noteq> Not c" "\<forall>pr. op \<noteq> ElemMatch pr"
  by (metis elem_predicate.exhaust filter.exhaust)

lemma within_mono_all:
  fixes e :: "'n expr" and c :: "'n condition" and op :: "'n op"
  shows "(expr_within n e \<longrightarrow> n \<le> m \<longrightarrow> expr_within m e) \<and>
    (cond_within n c \<longrightarrow> n \<le> m \<longrightarrow> cond_within m c) \<and> (op_within n op \<longrightarrow> n \<le> m \<longrightarrow> op_within m op)"
proof (induction n arbitrary: m e c op)
  case (Suc n)
  have IH: "expr_within n e \<Longrightarrow> Suc n \<le> m \<Longrightarrow> expr_within (m - Suc 0) e"
    "cond_within n c \<Longrightarrow> Suc n \<le> m \<Longrightarrow> cond_within (m - Suc 0) c"
    "op_within n op \<Longrightarrow> Suc n \<le> m \<Longrightarrow> op_within (m - Suc 0) op" for e :: "'n expr" and c :: "'n condition" and op :: "'n op"
    using Suc.IH by simp_all
  have "expr_within (Suc n) e \<longrightarrow> Suc n \<le> m \<longrightarrow> expr_within m e"
    using IH by (cases e) auto
  moreover have "cond_within (Suc n) c \<longrightarrow> Suc n \<le> m \<longrightarrow> cond_within m c"
    using IH by (cases c) auto
  moreover have "op_within (Suc n) op \<longrightarrow> Suc n \<le> m \<longrightarrow> op_within m op"
    using IH by (cases rule: op_shape [of op]) (auto simp: op_within_flat)
  ultimately show ?case by blast
qed simp

lemma within_mono:
  "expr_within n e \<Longrightarrow> n \<le> m \<Longrightarrow> expr_within m e"
  "cond_within n c \<Longrightarrow> n \<le> m \<Longrightarrow> cond_within m c"
  using within_mono_all by blast+

lemma map_ok_eq_Ok [simp]: "map_ok f r = Ok y \<longleftrightarrow> (\<exists>x. r = Ok x \<and> y = f x)"
  by (cases r) auto

lemma need_eq_Ok [simp]: "need e opt = Ok x \<longleftrightarrow> opt = Some x"
  by (auto simp: need_def split: option.splits)

lemma parse_flat_op_within: "parse_flat_op as_u64 field op operand = Ok r \<Longrightarrow> op_within (Suc n) r"
  unfolding parse_flat_op_def Let_def by (auto simp: op_within_flat split: if_splits)

lemma collect_results_map_Ok:
  "collect_results (map f xs) = Ok ys \<Longrightarrow> y \<in> set ys \<Longrightarrow> \<exists>x\<in>set xs. f x = Ok y"
  by (force simp: collect_results_Ok map_eq_conv list_eq_iff_nth_eq in_set_conv_nth)

lemma parse_within:
  fixes as_u64 :: "'n \<Rightarrow> nat option"
  shows "parse_expr as_u64 v d = Ok e \<Longrightarrow> expr_within (4 * (17 - d)) e"
    and "parse_branches as_u64 opn v2 d2 = Ok es \<Longrightarrow> \<forall>e\<in>set es. expr_within (4 * (17 - Suc d2)) e"
    and "parse_condition as_u64 f3 v3 d3 = Ok c \<Longrightarrow> cond_within (4 * (17 - d3) - 2) c"
    and "parse_op as_u64 f4 o4 v4 d4 = Ok r \<Longrightarrow> d4 \<le> 16 \<Longrightarrow> op_within (4 * (17 - d4) - 3) r"
    and "parse_elem_match as_u64 f5 v5 d5 = Ok pr \<Longrightarrow> d5 \<le> 16 \<Longrightarrow>
      (case pr of Ops c \<Rightarrow> cond_within (4 * (17 - d5) - 4) c
       | Doc (Filter e) \<Rightarrow> expr_within (4 * (17 - d5) - 4) e)"
proof (induction as_u64 v d and as_u64 opn v2 d2 and as_u64 f3 v3 d3 and as_u64 f4 o4 v4 d4
    and as_u64 f5 v5 d5 arbitrary: e and es and c and r and pr
    rule: parse_expr_parse_branches_parse_condition_parse_op_parse_elem_match.induct)
  case (1 as_u64 v d)
  from "1.prems" have d: "d \<le> 16"
    by (auto simp: parse_expr.simps MAX_FILTER_DEPTH_def split: if_splits)
  then obtain k where k: "4 * (17 - d) = Suc (Suc k)" "4 * (17 - Suc d) \<le> k" "k = 4 * (17 - d) - 2"
    by (intro that [of "4 * (17 - d) - 2"]) auto
  from "1.prems" d obtain m ps where v: "v = JObject m" "e = EAll ps"
    and ps: "collect_results (map (\<lambda>(key, operand).
                  if key = ''$and'' then map_ok EAll (parse_branches as_u64 key operand d)
                  else if key = ''$or'' then map_ok EAny (parse_branches as_u64 key operand d)
                  else if key = ''$nor'' then map_ok ENor (parse_branches as_u64 key operand d)
                  else if is_op_key key then Err (UnsupportedDocumentOp key)
                  else map_ok (EField key) (parse_condition as_u64 key operand d)) m) = Ok ps"
    by (auto simp: parse_expr.simps MAX_FILTER_DEPTH_def split: jvalue.splits if_splits)
  have "expr_within (Suc k) p" if "p \<in> set ps" for p
  proof -
    from collect_results_map_Ok [OF ps that] obtain key operand where
      mem: "(key, operand) \<in> set m" and
      res: "(if key = ''$and'' then map_ok EAll (parse_branches as_u64 key operand d)
             else if key = ''$or'' then map_ok EAny (parse_branches as_u64 key operand d)
             else if key = ''$nor'' then map_ok ENor (parse_branches as_u64 key operand d)
             else if is_op_key key then Err (UnsupportedDocumentOp key)
             else map_ok (EField key) (parse_condition as_u64 key operand d)) = Ok p"
      by auto
    have depth: "\<not> d > MAX_FILTER_DEPTH" using d by (simp add: MAX_FILTER_DEPTH_def)
    note IH = "1.IH" [OF depth v(1) mem refl]
    consider (branches) bs where "parse_branches as_u64 key operand d = Ok bs"
        "key = ''$and'' \<or> key = ''$or'' \<or> key = ''$nor''" "p = EAll bs \<or> p = EAny bs \<or> p = ENor bs"
      | (field) c where "\<not> is_op_key key" "key \<noteq> ''$and''" "key \<noteq> ''$or''" "key \<noteq> ''$nor''"
        "parse_condition as_u64 key operand d = Ok c" "p = EField key c"
      using res by (auto split: if_splits)
    then show ?thesis
    proof cases
      case branches
      then have "\<forall>b\<in>set bs. expr_within (4 * (17 - Suc d)) b" using IH(1,2,3) by auto
      then have "\<forall>b\<in>set bs. expr_within k b" using within_mono(1) k(2) by blast
      with branches(3) show ?thesis by auto
    next
      case field
      then have "cond_within (4 * (17 - d) - 2) c" using IH(4) by simp
      then show ?thesis using field(6) k(3) by simp
    qed
  qed
  then show ?case by (simp add: v k(1) list_all_iff)
next
  case (2 as_u64 opn v d)
  then show ?case
    by (auto simp: parse_branches.simps split: jvalue.splits if_splits dest!: collect_results_map_Ok)
next
  case (3 as_u64 f v d)
  from "3.prems" have d: "d \<le> 16"
    by (auto simp: parse_condition.simps MAX_FILTER_DEPTH_def split: if_splits)
  then obtain k where k: "4 * (17 - d) - 2 = Suc (Suc k)" "4 * (17 - d) - 3 = Suc k"
    by (intro that [of "4 * (17 - d) - 4"]) auto
  show ?case
  proof (cases "c = Condition [Eq v]")
    case True
    then show ?thesis by (simp add: k(1) op_within_flat)
  next
    case False
    with "3.prems" d obtain m parsed where v: "v = JObject m" "c = Condition parsed"
      and parsed: "collect_results (map (\<lambda>(op, operand). parse_op as_u64 f op operand d) m) = Ok parsed"
      and m: "length (filter (\<lambda>e. is_op_key (fst e)) m) \<noteq> 0"
        "length (filter (\<lambda>e. is_op_key (fst e)) m) = length m"
      by (force simp: parse_condition.simps MAX_FILTER_DEPTH_def Let_def
          split: jvalue.splits if_splits sum.splits)
    have "op_within (Suc k) r" if "r \<in> set parsed" for r
    proof -
      from collect_results_map_Ok [OF parsed that] obtain op operand where
        "(op, operand) \<in> set m" "parse_op as_u64 f op operand d = Ok r" by fastforce
      then show ?thesis
        using "3.IH" [OF _ v(1) refl _ _ _ refl] d m k(2)
        by (auto simp: MAX_FILTER_DEPTH_def simp del: op_within.simps)
    qed
    then show ?thesis by (simp add: v k(1) list_all_iff)
  qed
next
  case (4 as_u64 f o4 v d)
  then obtain k where k: "4 * (17 - d) - 3 = Suc k" "4 * (17 - d) - 4 = k" "4 * (17 - Suc d) - 2 \<le> k"
    by (intro that [of "4 * (17 - d) - 4"]) auto
  show ?case
  proof (cases "o4 = ''$elemMatch''")
    case True
    with 4 k show ?thesis
      by (auto simp: parse_op.simps split: elem_predicate.splits filter.splits)
  next
    case False
    show ?thesis
    proof (cases "o4 = ''$not''")
      case True
      with "4.prems"(1) False obtain inner c where
        "v = JObject inner" "list_all (\<lambda>e. is_op_key (fst e)) inner \<and> inner \<noteq> []"
        "parse_condition as_u64 f v (d + 1) = Ok c" "r = Not c"
        by (auto simp: parse_op.simps split: jvalue.splits if_splits)
      moreover from this "4.IH"(2) False True have "cond_within (4 * (17 - Suc d) - 2) c" by simp
      ultimately show ?thesis using within_mono(2) k by auto
    next
      case False
      with \<open>o4 \<noteq> ''$elemMatch''\<close> "4.prems"(1) show ?thesis
        unfolding k(1) by (intro parse_flat_op_within) (simp add: parse_op.simps)
    qed
  qed
next
  case (5 as_u64 f v d)
  have eq: "4 * (17 - d) - 4 = 4 * (17 - (d + 1))" by simp
  from "5.prems" obtain m where v: "v = JObject m"
    by (auto simp: parse_elem_match.simps split: jvalue.splits)
  show ?case
  proof (cases "list_ex (\<lambda>e. is_op_key (fst e)) m")
    case True
    with "5.prems" v obtain c where c: "pr = Ops c" "parse_condition as_u64 f v (d + 1) = Ok c"
      by (auto simp: parse_elem_match.simps)
    with "5.IH"(1) [OF v True] show ?thesis
      unfolding eq by (auto intro: within_mono(2))
  next
    case False
    with "5.prems" v obtain e where "pr = Doc (Filter e)" "parse_expr as_u64 v (d + 1) = Ok e"
      by (auto simp: parse_elem_match.simps)
    with "5.IH"(2) [OF v False] show ?thesis unfolding eq by simp
  qed
qed


section \<open>The properties at concrete inputs\<close>

definition by_a :: sort_order where "by_a = [\<lparr>sk_field = ''a'', sk_desc = True\<rparr>]"

definition row_a :: "string \<Rightarrow> int \<Rightarrow> int sorted_row" where
  "row_a k n = \<lparr>row_key = k, row_value = JObject [(''a'', JNumber n)]\<rparr>"

lemma compare_row_a: "compare_rows int_f64 by_a (row_a k n) (row_a k' n') =
  then_ord (rev_ord (cmp_lin n n')) (str_cmp k k')"
proof -
  have "key_value (row_value (row_a k n)) \<lparr>sk_field = ''a'', sk_desc = True\<rparr> = JNumber n" for k n
    by (simp add: row_a_def key_value_def get_path_value_def path_get.simps value_get_def
        str_cmp.cmp_refl)
  then show ?thesis
    by (simp add: compare_rows_def by_a_def directed_def json_cmp.simps) (simp add: row_a_def)
qed

theorem kway_merge_is_sorted_prefix_witness:
  "kway_merge int_f64 [[row_a ''k'' 5, row_a ''a'' 1], [row_a ''b'' 5]] by_a 2 = [row_a ''b'' 5, row_a ''k'' 5]"
  using kway_merge_is_sorted_prefix [OF finite_int_f64, of "[[row_a ''k'' 5, row_a ''a'' 1], [row_a ''b'' 5]]" by_a 2]
  by (simp add: sorted_by_def sort_by_def compare_row_a cmp_lin_def str_cmp_def cmp_char_def)

theorem cursor_resumes_after_row_witness:
  "filter (\<lambda>row. is_after int_f64 row
      (cursor_at (sort_position (row_value (row_a ''b'' 5)) by_a) (row_key (row_a ''b'' 5))) by_a)
      [row_a ''b'' 5, row_a ''k'' 5, row_a ''a'' 1] = [row_a ''k'' 5, row_a ''a'' 1]"
proof -
  have "sorted_by (compare_rows int_f64 by_a) ([] @ row_a ''b'' 5 # [row_a ''k'' 5, row_a ''a'' 1])"
    by (simp add: sorted_by_def compare_row_a cmp_lin_def str_cmp_def cmp_char_def)
  moreover have "distinct (map row_key ([] @ row_a ''b'' 5 # [row_a ''k'' 5, row_a ''a'' 1]))"
    by (simp add: row_a_def)
  ultimately show ?thesis
    using cursor_resumes_after_row [OF finite_int_f64] by fastforce
qed

theorem parse_sort_accepts_witness:
  "length [\<lparr>sk_field = ''a'', sk_desc = True\<rparr>, \<lparr>sk_field = ''b'', sk_desc = False\<rparr>] =
    length (split_on CHR '','' ''a:desc,b'')"
proof -
  have "parse_sort (Some ''a:desc,b'') =
      Ok (Some [\<lparr>sk_field = ''a'', sk_desc = True\<rparr>, \<lparr>sk_field = ''b'', sk_desc = False\<rparr>])"
    by (simp add: parse_sort_def trim_graphic graphic_def eq_ignore_ascii_case_def MAX_SORT_KEYS_def
        to_ascii_lowercase_def lower_char_def ascii_upper_def)
  from parse_sort_accepts [OF this] show ?thesis by blast
qed

theorem conjuncts_sound_witness:
  "cond_matches int_f64 (Condition [Gt (JNumber 3)])
     (get_path_value (JObject [(''a'', JNumber (5::int)), (''b'', JNull)]) ''a'')"
proof (rule conjuncts_sound)
  let ?e = "EAll [EField ''a'' (Condition [Gt (JNumber (3::int))]), EAny [EField ''b'' (Condition [Exists True])]]"
  show "matches_filter int_f64 (JObject [(''a'', JNumber 5), (''b'', JNull)]) (Filter ?e)" by code_simp
  show "(''a'', Condition [Gt (JNumber 3)]) \<in> set (conjuncts (Filter ?e))" by code_simp
qed


end
