(* ===== verification/Utf8.thy ===== *)
theory Utf8
  imports Prelude
begin

text \<open>
  Rust strings are UTF-8 byte sequences; the model's \<open>string\<close> is that byte sequence. This theory
  holds \<^verbatim>\<open>str::chars\<close> (decoding to code points), collecting code points back into a string,
  \<^verbatim>\<open>char::from_u32\<close>, and the fact the index planner rests on: byte order is code point order.
\<close>

definition scalar :: "nat \<Rightarrow> bool" where
  "scalar n = (n < 0xD800 \<or> (0xE000 \<le> n \<and> n \<le> 0x10FFFF))"

definition char_from_u32 :: "nat \<Rightarrow> nat option" where
  "char_from_u32 n = (if scalar n then Some n else None)"

definition encode_bytes :: "nat \<Rightarrow> nat list" where
  "encode_bytes n =
     (if n < 0x80 then [n]
      else if n < 0x800 then [0xC0 + n div 0x40, 0x80 + n mod 0x40]
      else if n < 0x10000 then [0xE0 + n div 0x1000, 0x80 + (n div 0x40) mod 0x40, 0x80 + n mod 0x40]
      else [0xF0 + n div 0x40000, 0x80 + (n div 0x1000) mod 0x40, 0x80 + (n div 0x40) mod 0x40,
            0x80 + n mod 0x40])"

definition encode_char :: "nat \<Rightarrow> string" where
  "encode_char n = map char_of (encode_bytes n)"

definition encode_str :: "nat list \<Rightarrow> string" where
  "encode_str cs = concat (map encode_char cs)"

fun chars_bytes :: "nat list \<Rightarrow> nat list" where
  "chars_bytes [] = []"
| "chars_bytes (a # bs) =
     (if a < 0x80 then a # chars_bytes bs
      else if a < 0xE0 then
        (case bs of b # r \<Rightarrow> ((a mod 0x20) * 0x40 + b mod 0x40) # chars_bytes r | _ \<Rightarrow> [])
      else if a < 0xF0 then
        (case bs of b # c # r \<Rightarrow>
           ((a mod 0x10) * 0x1000 + (b mod 0x40) * 0x40 + c mod 0x40) # chars_bytes r | _ \<Rightarrow> [])
      else
        (case bs of b # c # d # r \<Rightarrow>
           ((a mod 8) * 0x40000 + (b mod 0x40) * 0x1000 + (c mod 0x40) * 0x40 + d mod 0x40) # chars_bytes r
         | _ \<Rightarrow> []))"

definition chars :: "string \<Rightarrow> nat list" where
  "chars s = chars_bytes (map of_char s)"

text \<open>A value of type \<^verbatim>\<open>str\<close>.\<close>

definition utf8 :: "string \<Rightarrow> bool" where
  "utf8 s = (list_all scalar (chars s) \<and> encode_str (chars s) = s)"

lemma scalar_bound: "scalar n \<Longrightarrow> n < 0x110000"
  by (auto simp: scalar_def)

lemma encode_bytes_256: "n < 0x110000 \<Longrightarrow> b \<in> set (encode_bytes n) \<Longrightarrow> b < 256"
  unfolding encode_bytes_def by (auto split: if_splits)

lemma encode_char_bytes: "n < 0x110000 \<Longrightarrow> map of_char (encode_char n) = encode_bytes n"
  using encode_bytes_256 [of n] by (auto simp: encode_char_def intro: map_idI)

lemma continuation_mod [simp]: "(128 + (n::nat) mod 64) mod 64 = n mod 64"
  by (subst mod_add_left_eq [symmetric, of 128]) simp

lemma div_64s: "(n::nat) div 4096 = n div 64 div 64" "(n::nat) div 262144 = n div 64 div 64 div 64"
  by (simp_all add: div_mult2_eq [symmetric])

lemma split_64s:
  "(n::nat) div 64 * 64 + n mod 64 = n"
  "(n::nat) div 4096 * 4096 + n div 64 mod 64 * 64 + n mod 64 = n"
  "(n::nat) div 262144 * 262144 + n div 4096 mod 64 * 4096 + n div 64 mod 64 * 64 + n mod 64 = n"
  using div_mult_mod_eq [of n 64] div_mult_mod_eq [of "n div 64" 64] div_mult_mod_eq [of "n div 64 div 64" 64]
  unfolding div_64s by linarith+

lemma lead_mod:
  "n < 2048 \<Longrightarrow> (192 + (n::nat) div 64) mod 32 = n div 64"
  "n < 65536 \<Longrightarrow> (224 + (n::nat) div 4096) mod 16 = n div 4096"
  "n < 1114112 \<Longrightarrow> (240 + (n::nat) div 262144) mod 8 = n div 262144"
  by (simp_all add: mod_add_left_eq [symmetric])

lemma chars_bytes_encode:
  assumes "n < 0x110000"
  shows "chars_bytes (encode_bytes n @ bs) = n # chars_bytes bs"
proof -
  consider "n < 0x80" | "0x80 \<le> n" "n < 0x800" | "0x800 \<le> n" "n < 0x10000" | "0x10000 \<le> n" by linarith
  then show ?thesis
  proof cases
    case 2
    have "0xC0 + n div 64 < 0xE0" using 2 by auto
    then show ?thesis using 2 by (simp add: encode_bytes_def lead_mod split_64s)
  next
    case 3
    have "0xE0 + n div 4096 < 0xF0" using 3 by auto
    then show ?thesis using 3 by (simp add: encode_bytes_def lead_mod split_64s)
  next
    case 4
    then show ?thesis using assms by (simp add: encode_bytes_def lead_mod split_64s)
  qed (simp add: encode_bytes_def)
qed

lemma encode_str_simps [simp]:
  "encode_str [] = []" "encode_str (c # cs) = encode_char c @ encode_str cs"
  "encode_str (cs @ ds) = encode_str cs @ encode_str ds"
  by (simp_all add: encode_str_def)

lemma chars_encode_str: "list_all scalar cs \<Longrightarrow> chars (encode_str cs) = cs"
  by (induction cs) (auto simp: chars_def encode_char_bytes chars_bytes_encode dest: scalar_bound)

lemma utf8_iff: "utf8 s \<longleftrightarrow> (\<exists>cs. list_all scalar cs \<and> s = encode_str cs)"
  by (auto simp: utf8_def chars_encode_str)

lemma utf8D: "utf8 s \<Longrightarrow> list_all scalar (chars s) \<and> s = encode_str (chars s)"
  by (simp add: utf8_def)

lemma str_cmp_bytes:
  "str_cmp (map char_of xs @ s) (map char_of ys @ t) =
   cmp_list cmp_lin (map (\<lambda>b. b mod 256) xs @ map of_char s) (map (\<lambda>b. b mod 256) ys @ map of_char t)"
  if "list_all (\<lambda>b. b < 256) xs" "list_all (\<lambda>b. b < 256) ys" for xs ys :: "nat list"
proof -
  have "str_cmp u v = cmp_list cmp_lin (map of_char u :: nat list) (map of_char v)" for u v
    unfolding str_cmp_def by (induction cmp_char u v rule: cmp_list.induct) (auto simp: cmp_char_def)
  then show ?thesis by (simp add: comp_def)
qed

lemma cmp_list_append_same: "(\<And>x. c x x = Equal) \<Longrightarrow> cmp_list c (xs @ ys) (xs @ zs) = cmp_list c ys zs"
  by (induction xs) auto

lemma str_cmp_append_same [simp]: "str_cmp (p @ s) (p @ t) = str_cmp s t"
  unfolding str_cmp_def by (rule cmp_list_append_same) (simp add: cmp_char_def)

lemma less_div_64: "(a::nat) < b \<Longrightarrow> a div 64 < b div 64 \<or> a div 64 = b div 64 \<and> a mod 64 < b mod 64"
  using div_mult_mod_eq [of a 64] div_mult_mod_eq [of b 64] div_le_mono [of a b 64] by linarith

lemma encode_bytes_less:
  assumes "a < b" "b < 0x110000"
  shows "cmp_list cmp_lin (encode_bytes a @ s) (encode_bytes b @ t) = Less"
proof -
  note lex = less_div_64 [OF assms(1)] less_div_64 [of "a div 64" "b div 64"]
    less_div_64 [of "a div 64 div 64" "b div 64 div 64"]
  have step: "then_ord (cmp_lin x y) c = Less \<longleftrightarrow> x < y \<or> x = y \<and> c = Less" for x y :: nat and c
    by (simp add: cmp_lin_def)
  consider "a < 0x80" | "0x80 \<le> a" "a < 0x800" | "0x800 \<le> a" "a < 0x10000" | "0x10000 \<le> a" by linarith
  then show ?thesis
  proof cases
    case 1
    then show ?thesis using assms by (simp add: encode_bytes_def step)
  next
    case 2
    then have "a div 64 < 32" by auto
    then show ?thesis using 2 assms lex(1) by (auto simp: encode_bytes_def step)
  next
    case 3
    then have "a div 64 div 64 < 16" by auto
    then show ?thesis using 3 assms lex(1,2) by (auto simp: encode_bytes_def step div_64s)
  next
    case 4
    then show ?thesis using assms lex by (auto simp: encode_bytes_def step div_64s)
  qed
qed

lemma encode_char_less:
  assumes "a < b" "scalar b"
  shows "str_cmp (encode_char a @ s) (encode_char b @ t) = Less"
proof -
  have "a < 0x110000" "b < 0x110000" using assms scalar_bound by force+
  then have "list_all (\<lambda>x. x < 256) (encode_bytes a)" "list_all (\<lambda>x. x < 256) (encode_bytes b)"
    "map (\<lambda>x. x mod 256) (encode_bytes a) = encode_bytes a"
    "map (\<lambda>x. x mod 256) (encode_bytes b) = encode_bytes b"
    using encode_bytes_256 by (auto simp: list_all_iff intro!: map_idI)
  then show ?thesis
    using encode_bytes_less [OF assms(1)] scalar_bound [OF assms(2)]
    by (simp add: encode_char_def str_cmp_bytes)
qed

end
