(* ===== verification/Secondary.thy ===== *)
theory Secondary
  imports Query Utf8
begin

text \<open>
  \<^verbatim>\<open>src/src/storage/secondary.rs\<close>: the definitions that travel in the log, the postings of one
  index and their maintenance, the build that fills a new index beside live writes, and the planner
  that answers a filter from postings. An \<^verbatim>\<open>IndexKey\<close> is a JSON value compared by \<open>json_cmp\<close>.
\<close>

definition MAX_INDEX_NAME_LEN :: nat where "MAX_INDEX_NAME_LEN = 64"
definition MAX_FIELD_PATH_LEN :: nat where "MAX_FIELD_PATH_LEN = 256"
definition MAX_FIELD_PATH_SEGMENTS :: nat where "MAX_FIELD_PATH_SEGMENTS = 16"
definition ALWAYS_WORTH_IT :: nat where "ALWAYS_WORTH_IT = 64"
definition BUILD_CHUNK :: nat where "BUILD_CHUNK = 256"

section \<open>Definitions\<close>

record index_spec =
  is_name :: string
  is_field :: string

datatype index_change = CreateIndex index_spec | DropIndex string

fun replace_spec :: "index_spec \<Rightarrow> index_spec list \<Rightarrow> index_spec list" where
  "replace_spec spec [] = [spec]"
| "replace_spec spec (s # ss) = (if is_name s = is_name spec then spec # ss else s # replace_spec spec ss)"

fun change_apply_to :: "index_change \<Rightarrow> index_spec list \<Rightarrow> index_spec list" where
  "change_apply_to (CreateIndex spec) specs = replace_spec spec specs"
| "change_apply_to (DropIndex name) specs = filter (\<lambda>s. is_name s \<noteq> name) specs"

definition name_byte :: "char \<Rightarrow> bool" where
  "name_byte b = (ascii_upper b \<or> ascii_lower b \<or> ascii_digit b \<or> b = CHR ''_'' \<or> b = CHR ''-'')"

definition valid_index_name :: "string \<Rightarrow> bool" where
  "valid_index_name name =
     (name \<noteq> [] \<and> length name \<le> MAX_INDEX_NAME_LEN \<and> list_all name_byte name)"

definition valid_field_path :: "string \<Rightarrow> bool" where
  "valid_field_path field =
     (field \<noteq> [] \<and> length field \<le> MAX_FIELD_PATH_LEN \<and>
      length (split_on CHR ''.'' field) \<le> MAX_FIELD_PATH_SEGMENTS \<and>
      list_all (\<lambda>part. part \<noteq> [] \<and> \<not> starts_with part ''$'') (split_on CHR ''.'' field))"

definition index_values :: "index_spec list \<Rightarrow> 'n jvalue \<Rightarrow> (string \<times> 'n jvalue) list" where
  "index_values specs doc =
     List.map_filter (\<lambda>s. map_option (\<lambda>v. (is_name s, v)) (get_path_value doc (is_field s))) specs"

section \<open>One index\<close>

datatype build_state = Building "string set" | Ready

record 'n secondary_index =
  si_field :: string
  si_postings :: "('n jvalue \<times> string bset) list"
  si_keys :: "(string \<times> 'n jvalue) list"
  si_state :: build_state

definition si_building :: "string \<Rightarrow> 'n secondary_index" where
  "si_building field = \<lparr>si_field = field, si_postings = [], si_keys = [], si_state = Building {}\<rparr>"

definition is_ready :: "'n secondary_index \<Rightarrow> bool" where
  "is_ready si = (case si_state si of Ready \<Rightarrow> True | Building _ \<Rightarrow> False)"

definition note_touched :: "string \<Rightarrow> 'n secondary_index \<Rightarrow> 'n secondary_index" where
  "note_touched key si =
     (case si_state si of
        Building touched \<Rightarrow> si\<lparr>si_state := Building (insert key touched)\<rparr>
      | Ready \<Rightarrow> si)"

definition si_unfile :: "'n numbers \<Rightarrow> string \<Rightarrow> 'n secondary_index \<Rightarrow> 'n secondary_index" where
  "si_unfile as_f64 key si =
     (case bm_get str_cmp (si_keys si) key of
        None \<Rightarrow> si
      | Some old \<Rightarrow>
          let si = si\<lparr>si_keys := bm_remove str_cmp key (si_keys si)\<rparr>
          in (case bm_get (json_cmp as_f64) (si_postings si) old of
                None \<Rightarrow> si
              | Some holders \<Rightarrow>
                  let holders = bm_remove str_cmp key holders
                  in if holders = []
                     then si\<lparr>si_postings := bm_remove (json_cmp as_f64) old (si_postings si)\<rparr>
                     else si\<lparr>si_postings := bm_insert (json_cmp as_f64) old holders (si_postings si)\<rparr>))"

definition si_file :: "'n numbers \<Rightarrow> string \<Rightarrow> 'n jvalue \<Rightarrow> 'n secondary_index \<Rightarrow> 'n secondary_index" where
  "si_file as_f64 key val si =
     (let si = si_unfile as_f64 key si;
          holders = (case bm_get (json_cmp as_f64) (si_postings si) val of Some h \<Rightarrow> h | None \<Rightarrow> [])
      in si\<lparr>si_postings := bm_insert (json_cmp as_f64) val (bs_insert str_cmp key holders) (si_postings si),
            si_keys := bm_insert str_cmp key val (si_keys si)\<rparr>)"

section \<open>Probes\<close>

datatype 'n probe = Exact "'n jvalue list" | Range "'n jvalue bound" "'n jvalue bound"

fun band :: "json_kind \<Rightarrow> 'n jvalue bound \<times> 'n jvalue bound" where
  "band KNull = (Included JNull, Included JNull)"
| "band KBool = (Included (JBool False), Included (JBool True))"
| "band KNumber = (Excluded (JBool True), Excluded (JString []))"
| "band KString = (Included (JString []), Excluded (JArray []))"
| "band KArray = (Included (JArray []), Excluded (JObject []))"
| "band KObject = (Included (JObject []), Unbounded)"

text \<open>The stack of characters still to try, its top first.\<close>

fun successor_loop :: "nat list \<Rightarrow> nat list option" where
  "successor_loop [] = None"
| "successor_loop (l # rest) =
     (let next = (if l + 1 = 0xD800 then 0xE000 else l + 1)
      in case char_from_u32 next of
           Some c \<Rightarrow> Some (rev (c # rest))
         | None \<Rightarrow> successor_loop rest)"

definition prefix_successor :: "string \<Rightarrow> string option" where
  "prefix_successor prefix = map_option encode_str (successor_loop (rev (chars prefix)))"

fun find_map :: "('a \<Rightarrow> 'b option) \<Rightarrow> 'a list \<Rightarrow> 'b option" where
  "find_map f [] = None"
| "find_map f (x # xs) = (case f x of Some y \<Rightarrow> Some y | None \<Rightarrow> find_map f xs)"

fun op_eq :: "'n op \<Rightarrow> 'n jvalue option" where
  "op_eq (Eq v) = Some v"
| "op_eq _ = None"

fun op_in :: "'n op \<Rightarrow> 'n jvalue list option" where
  "op_in (In vs) = Some vs"
| "op_in _ = None"

fun op_lower :: "'n op \<Rightarrow> ('n jvalue \<times> bool) option" where
  "op_lower (Gt v) = Some (v, False)"
| "op_lower (Gte v) = Some (v, True)"
| "op_lower _ = None"

fun op_upper :: "'n op \<Rightarrow> ('n jvalue \<times> bool) option" where
  "op_upper (Lt v) = Some (v, False)"
| "op_upper (Lte v) = Some (v, True)"
| "op_upper _ = None"

fun op_prefix :: "'n op \<Rightarrow> string option" where
  "op_prefix (Prefix p) = Some p"
| "op_prefix _ = None"

fun op_type :: "'n op \<Rightarrow> json_kind list option" where
  "op_type (OfType kinds) = Some kinds"
| "op_type _ = None"

fun op_exists :: "'n op \<Rightarrow> bool" where
  "op_exists (Exists b) = b"
| "op_exists _ = False"

fun edge :: "('n jvalue \<times> bool) option \<Rightarrow> 'n jvalue bound \<Rightarrow> 'n jvalue bound" where
  "edge (Some (v, True)) fallback = Included v"
| "edge (Some (v, False)) fallback = Excluded v"
| "edge None fallback = fallback"

definition or_else :: "'a option \<Rightarrow> 'a option \<Rightarrow> 'a option" where
  "or_else a b = (case a of Some x \<Rightarrow> Some x | None \<Rightarrow> b)"

text \<open>The tail of \<^verbatim>\<open>probe_for\<close>, from the type test on.\<close>

definition probe_rest :: "'n op list \<Rightarrow> 'n probe option" where
  "probe_rest ops =
     (case find_map op_type ops of
        Some [kind] \<Rightarrow> (case band kind of (lower, upper) \<Rightarrow> Some (Range lower upper))
      | _ \<Rightarrow> if list_ex op_exists ops then Some (Range Unbounded Unbounded) else None)"

definition probe_for :: "'n condition \<Rightarrow> 'n probe option" where
  "probe_for cond =
     (let ops = cond_ops cond
      in case find_map op_eq ops of
           Some v \<Rightarrow> Some (Exact [v])
         | None \<Rightarrow>
       (case find_map op_in ops of
           Some vs \<Rightarrow> Some (Exact vs)
         | None \<Rightarrow>
       (let lower = find_map op_lower ops; upper = find_map op_upper ops
        in case or_else lower upper of
             Some (v, _) \<Rightarrow>
               (case band (kind_of v) of
                  (band_low, band_high) \<Rightarrow> Some (Range (edge lower band_low) (edge upper band_high)))
           | None \<Rightarrow>
       (case find_map op_prefix ops of
           Some p \<Rightarrow>
             Some (Range (Included (JString p))
                    (case prefix_successor p of
                       Some next \<Rightarrow> Excluded (JString next)
                     | None \<Rightarrow> snd (band KString)))
         | None \<Rightarrow> probe_rest ops))))"

fun bound_key :: "'k bound \<Rightarrow> 'k option \<times> bool" where
  "bound_key (Included k) = (Some k, False)"
| "bound_key (Excluded k) = (Some k, True)"
| "bound_key Unbounded = (None, False)"

definition range_is_empty :: "'n numbers \<Rightarrow> 'n jvalue bound \<Rightarrow> 'n jvalue bound \<Rightarrow> bool" where
  "range_is_empty as_f64 lower upper =
     (case (bound_key lower, bound_key upper) of
        ((Some a, low_open), (Some b, high_open)) \<Rightarrow>
          (case json_cmp as_f64 a b of
             Greater \<Rightarrow> True
           | Equal \<Rightarrow> low_open \<or> high_open
           | Less \<Rightarrow> False)
      | _ \<Rightarrow> False)"

section \<open>The collection's indexes\<close>

type_synonym 'n indexes = "(string \<times> 'n secondary_index) list"

definition ix_seed :: "index_spec list \<Rightarrow> 'n indexes" where
  "ix_seed specs = foldl (\<lambda>m spec. bm_insert str_cmp (is_name spec) (si_building (is_field spec)) m) [] specs"

fun ix_apply_change :: "index_change \<Rightarrow> 'n indexes \<Rightarrow> 'n indexes" where
  "ix_apply_change (CreateIndex spec) m = bm_insert str_cmp (is_name spec) (si_building (is_field spec)) m"
| "ix_apply_change (DropIndex name) m = bm_remove str_cmp name m"

definition ix_clear_all :: "'n indexes \<Rightarrow> 'n indexes" where
  "ix_clear_all m = []"

definition ix_put :: "'n numbers \<Rightarrow> string \<Rightarrow> (string \<times> 'n jvalue) list \<Rightarrow> 'n indexes \<Rightarrow> 'n indexes" where
  "ix_put as_f64 key vals m =
     map (\<lambda>(name, si).
       let si = note_touched key si
       in (name, case find (\<lambda>v. fst v = name) vals of
                   Some (_, val) \<Rightarrow> si_file as_f64 key val si
                 | None \<Rightarrow> si_unfile as_f64 key si)) m"

definition ix_remove :: "'n numbers \<Rightarrow> string \<Rightarrow> 'n indexes \<Rightarrow> 'n indexes" where
  "ix_remove as_f64 key m = map (\<lambda>(name, si). (name, si_unfile as_f64 key (note_touched key si))) m"

definition ix_clear_entries :: "'n indexes \<Rightarrow> 'n indexes" where
  "ix_clear_entries m =
     foldl (\<lambda>m (name, field). bm_insert str_cmp name (si_building field) m) []
       (map (\<lambda>(name, si). (name, si_field si)) m)"

definition has_building :: "'n indexes \<Rightarrow> bool" where
  "has_building m = list_ex (\<lambda>(name, si). \<not> is_ready si) m"

definition next_building :: "'n indexes \<Rightarrow> (string \<times> string) option" where
  "next_building m = map_option (\<lambda>(name, si). (name, si_field si)) (find (\<lambda>(name, si). \<not> is_ready si) m)"

definition absorb_row ::
  "'n numbers \<Rightarrow> string \<Rightarrow> string set \<Rightarrow> 'n secondary_index \<Rightarrow> string \<times> 'n jvalue \<Rightarrow> 'n secondary_index" where
  "absorb_row as_f64 field touched si row =
     (case row of (key, doc) \<Rightarrow>
        if key \<in> touched then si
        else (case get_path_value doc field of
                Some val \<Rightarrow> si_file as_f64 key val si
              | None \<Rightarrow> si))"

definition absorb_build ::
  "'n numbers \<Rightarrow> string \<Rightarrow> string \<Rightarrow> (string \<times> 'n jvalue) list \<Rightarrow> 'n indexes \<Rightarrow> bool \<times> 'n indexes" where
  "absorb_build as_f64 name field rows m =
     (case bm_get str_cmp m name of
        None \<Rightarrow> (False, m)
      | Some si \<Rightarrow>
          if si_field si \<noteq> field then (False, m)
          else (case si_state si of
                  Ready \<Rightarrow> (False, m)
                | Building touched \<Rightarrow>
                    (True, bm_insert str_cmp name (foldl (absorb_row as_f64 field touched) si rows) m)))"

definition finish_build :: "string \<Rightarrow> string \<Rightarrow> 'n indexes \<Rightarrow> 'n indexes" where
  "finish_build name field m =
     (case bm_get str_cmp m name of
        None \<Rightarrow> m
      | Some si \<Rightarrow>
          if si_field si = field \<and> \<not> is_ready si
          then bm_insert str_cmp name (si\<lparr>si_state := Ready\<rparr>) m else m)"

record index_status =
  st_name :: string
  st_field :: string
  st_state :: string
  st_documents :: nat
  st_values :: nat

definition ix_status :: "'n indexes \<Rightarrow> index_status list" where
  "ix_status m = map (\<lambda>(name, si).
     \<lparr>st_name = name, st_field = si_field si,
      st_state = (if is_ready si then ''ready'' else ''building''),
      st_documents = length (si_keys si), st_values = length (si_postings si)\<rparr>) m"

section \<open>The planner\<close>

record selection =
  sel_index :: string
  sel_field :: string
  sel_keys :: "string list"

text \<open>\<open>walk\<close> lists the holder sets the visitor is called with, in order.\<close>

fun walk :: "'n numbers \<Rightarrow> 'n secondary_index \<Rightarrow> 'n probe \<Rightarrow> string bset list" where
  "walk as_f64 si (Exact vals) =
     List.map_filter (\<lambda>(val, _). bm_get (json_cmp as_f64) (si_postings si) val)
       (bs_of_list (json_cmp as_f64) vals)"
| "walk as_f64 si (Range lower upper) =
     (if range_is_empty as_f64 lower upper then []
      else map snd (bm_range (json_cmp as_f64) lower upper (si_postings si)))"

definition count :: "'n numbers \<Rightarrow> 'n secondary_index \<Rightarrow> 'n probe \<Rightarrow> nat" where
  "count as_f64 si pr = sum_list (map length (walk as_f64 si pr))"

type_synonym 'n plan = "nat \<times> string \<times> 'n secondary_index \<times> 'n probe"

definition consider_index ::
  "'n numbers \<Rightarrow> string \<Rightarrow> 'n condition \<Rightarrow> 'n plan option \<Rightarrow> string \<times> 'n secondary_index \<Rightarrow> 'n plan option" where
  "consider_index as_f64 field cond best entry =
     (case entry of (name, si) \<Rightarrow>
        if \<not> is_ready si \<or> si_field si \<noteq> field then best
        else (case probe_for cond of
                None \<Rightarrow> best
              | Some pr \<Rightarrow>
                  let n = count as_f64 si pr
                  in if (case best of None \<Rightarrow> True | Some (seen, _, _, _) \<Rightarrow> n < seen)
                     then Some (n, name, si, pr) else best))"

definition best_plan :: "'n numbers \<Rightarrow> 'n indexes \<Rightarrow> (string \<times> 'n condition) list \<Rightarrow> 'n plan option" where
  "best_plan as_f64 m conds =
     foldl (\<lambda>best (field, cond). foldl (consider_index as_f64 field cond) best m) None conds"

definition select :: "'n numbers \<Rightarrow> 'n indexes \<Rightarrow> 'n filter \<Rightarrow> nat \<Rightarrow> selection option" where
  "select as_f64 m flt total_docs =
     (case best_plan as_f64 m (sort_by (\<lambda>a b. str_cmp (fst a) (fst b)) (conjuncts flt)) of
        None \<Rightarrow> None
      | Some (n, name, si, pr) \<Rightarrow>
          if n > ALWAYS_WORTH_IT \<and> saturating_mul n 2 > total_docs then None
          else Some \<lparr>sel_index = name, sel_field = si_field si,
                     sel_keys = map fst (bs_of_list str_cmp (concat (map (map fst) (walk as_f64 si pr))))\<rparr>)"

section \<open>Exact maintenance\<close>

text \<open>The value a key is filed under, and the keys posted at a value.\<close>

abbreviation filed :: "'n secondary_index \<Rightarrow> string \<Rightarrow> 'n jvalue option" where
  "filed si \<equiv> map_of (si_keys si)"

definition posted :: "'n numbers \<Rightarrow> 'n secondary_index \<Rightarrow> 'n jvalue \<Rightarrow> string set" where
  "posted F si v = (case bm_get (json_cmp F) (si_postings si) v of None \<Rightarrow> {} | Some hs \<Rightarrow> fst ` set hs)"

text \<open>
  The representation invariant: both maps are in key order, no holder set is empty, and a key is
  posted exactly at the values that tie with the one it is filed under.
\<close>

definition si_inv :: "'n numbers \<Rightarrow> 'n secondary_index \<Rightarrow> bool" where
  "si_inv F si =
     (bm_sorted str_cmp (si_keys si) \<and> bm_sorted (json_cmp F) (si_postings si) \<and>
      (\<forall>(v, hs)\<in>set (si_postings si). hs \<noteq> [] \<and> bm_sorted str_cmp hs) \<and>
      (\<forall>v k. k \<in> posted F si v \<longleftrightarrow> (\<exists>w. filed si k = Some w \<and> json_cmp F v w = Equal)))"

lemma si_invD:
  assumes "si_inv F si"
  shows "bm_sorted str_cmp (si_keys si)" "bm_sorted (json_cmp F) (si_postings si)"
    "(v, hs) \<in> set (si_postings si) \<Longrightarrow> hs \<noteq> []" "(v, hs) \<in> set (si_postings si) \<Longrightarrow> bm_sorted str_cmp hs"
    "k \<in> posted F si v \<longleftrightarrow> (\<exists>w. filed si k = Some w \<and> json_cmp F v w = Equal)"
  using assms by (auto simp: si_inv_def)

lemma si_unfile_field [simp]: "si_field (si_unfile F k si) = si_field si" "si_state (si_unfile F k si) = si_state si"
  by (auto simp: si_unfile_def Let_def split: option.splits)

lemma si_file_field [simp]: "si_field (si_file F k v si) = si_field si" "si_state (si_file F k v si) = si_state si"
  by (auto simp: si_file_def Let_def)

lemma note_touched_simps [simp]:
  "si_field (note_touched k si) = si_field si" "si_keys (note_touched k si) = si_keys si"
  "si_postings (note_touched k si) = si_postings si" "is_ready (note_touched k si) = is_ready si"
  by (auto simp: note_touched_def is_ready_def split: build_state.splits)

lemma is_ready_simps [simp]:
  "is_ready (si_unfile F k si) = is_ready si" "is_ready (si_file F k v si) = is_ready si"
  by (simp_all add: is_ready_def)

lemma si_inv_cong: "si_keys a = si_keys b \<Longrightarrow> si_postings a = si_postings b \<Longrightarrow> si_inv F a = si_inv F b"
  by (simp add: si_inv_def posted_def)

lemma si_inv_touched [simp]: "si_inv F (note_touched k si) = si_inv F si"
  by (rule si_inv_cong) simp_all

lemma si_inv_building [simp]: "si_inv F (si_building field)"
  by (simp add: si_inv_def si_building_def posted_def)

lemma filed_unfile [simp]: "filed (si_unfile F k si) = (filed si)(k := None)"
  by (auto simp: si_unfile_def Let_def split: option.splits)

lemma filed_file [simp]: "filed (si_file F k v si) = (filed si)(k \<mapsto> v)"
  by (simp add: si_file_def Let_def)

lemma bset_mem_remove [simp]: "fst ` set (bm_remove str_cmp k hs) = fst ` set hs - {k}"
  by (auto simp: bm_remove_def str_cmp.cmp_Equal_iff image_iff)

lemma bset_mem_insert [simp]: "fst ` set (bs_insert str_cmp k hs) = insert k (fst ` set hs)"
  unfolding bs_insert_def dom_map_of_conv_image_fst [symmetric] by simp

lemma bm_remove_Nil_iff: "bm_remove str_cmp k hs = [] \<longleftrightarrow> fst ` set hs \<subseteq> {k}"
  by (auto simp: bm_remove_def filter_empty_conv str_cmp.cmp_Equal_iff)

lemma posted_unfile:
  assumes "finite_numbers F" "si_inv F si"
  shows "posted F (si_unfile F k si) v = posted F si v - {k}"
proof (cases "filed si k")
  case None
  then show ?thesis using si_invD(5) [OF assms(2)] by (auto simp: si_unfile_def)
next
  case (Some old)
  note laws = json_cmp_preorder [OF assms(1)]
  have "k \<in> posted F si old"
    using Some si_invD(5) [OF assms(2)] cmp_preorder.cmp_refl [OF laws] by auto
  then obtain hs where hs: "bm_get (json_cmp F) (si_postings si) old = Some hs"
    by (auto simp: posted_def split: option.splits)
  have "posted F (si_unfile F k si) v =
      (if json_cmp F v old = Equal then fst ` set hs - {k} else posted F si v)"
    using Some hs
    by (auto simp: si_unfile_def Let_def posted_def cmp_preorder.bm_get_remove [OF laws]
        cmp_preorder.bm_get_insert [OF laws] bm_remove_Nil_iff)
  moreover have "posted F si v = fst ` set hs" if "json_cmp F v old = Equal"
    using cmp_preorder.bm_get_cong [OF laws that, of "si_postings si"] hs by (simp add: posted_def)
  moreover have "k \<notin> posted F si v" if "json_cmp F v old \<noteq> Equal"
    using that Some si_invD(5) [OF assms(2)] by auto
  ultimately show ?thesis by auto
qed

lemma bm_get_set_or_Nil:
  assumes "\<forall>(v, hs)\<in>set m. P hs" "P []"
  shows "P (case bm_get c m k of Some h \<Rightarrow> h | None \<Rightarrow> [])"
  using assms bm_get_Some_in [of c m k] by (fastforce split: option.splits)

lemma posted_file:
  assumes "finite_numbers F" "si_inv F si"
  shows "posted F (si_file F k val si) v =
    (if json_cmp F v val = Equal then insert k (posted F si v) else posted F si v - {k})"
proof -
  note laws = json_cmp_preorder [OF assms(1)]
  let ?si = "si_unfile F k si"
  have "posted F (si_file F k val si) v =
      (if json_cmp F v val = Equal then insert k (posted F ?si val) else posted F ?si v)"
    by (auto simp: si_file_def Let_def posted_def cmp_preorder.bm_get_insert [OF laws] split: option.splits)
  moreover have "posted F ?si v = posted F ?si val" if "json_cmp F v val = Equal"
    using cmp_preorder.bm_get_cong [OF laws that, of "si_postings ?si"] by (simp add: posted_def)
  ultimately show ?thesis using posted_unfile [OF assms, of k] by auto
qed

lemma bm_insert_values: "(k', v') \<in> set (bm_insert c k v m) \<Longrightarrow> v' = v \<or> v' \<in> snd ` set m"
  using set_bm_insert [of c k v m] by force

lemma postings_unfile:
  assumes "finite_numbers F" "si_inv F si"
  shows "bm_sorted (json_cmp F) (si_postings (si_unfile F k si)) \<and>
    (\<forall>(v, hs)\<in>set (si_postings (si_unfile F k si)). hs \<noteq> [] \<and> bm_sorted str_cmp hs)"
proof -
  note laws = json_cmp_preorder [OF assms(1)]
  have hs: "bm_sorted str_cmp hs" if "bm_get (json_cmp F) (si_postings si) w = Some hs" for w hs
    using bm_get_Some_in [OF that] si_invD(4) [OF assms(2)] by blast
  show ?thesis
    using si_invD(2) [OF assms(2)] si_invD(3,4) [OF assms(2)] hs
    by (auto simp: si_unfile_def Let_def bm_remove_def [of "json_cmp F"] split: option.splits
        intro!: cmp_preorder.bm_sorted_insert [OF laws] bm_sorted_filter
        dest!: bm_insert_values)
qed

lemma si_inv_unfile:
  assumes "finite_numbers F" "si_inv F si"
  shows "si_inv F (si_unfile F k si)"
proof -
  have "bm_sorted str_cmp (si_keys (si_unfile F k si))"
    using si_invD(1) [OF assms(2)] by (auto simp: si_unfile_def Let_def split: option.splits)
  then show ?thesis
    using postings_unfile [OF assms, of k] posted_unfile [OF assms, of k] si_invD(5) [OF assms(2)]
    unfolding si_inv_def by auto
qed

lemma si_inv_file:
  assumes "finite_numbers F" "si_inv F si"
  shows "si_inv F (si_file F k val si)"
proof -
  note laws = json_cmp_preorder [OF assms(1)]
  let ?si = "si_unfile F k si"
  let ?hs = "case bm_get (json_cmp F) (si_postings ?si) val of Some h \<Rightarrow> h | None \<Rightarrow> []"
  note inv = si_inv_unfile [OF assms, of k]
  have "bm_sorted str_cmp ?hs"
    using si_invD(4) [OF inv] by (intro bm_get_set_or_Nil [where P = "bm_sorted str_cmp"]) auto
  then have new: "bs_insert str_cmp k ?hs \<noteq> [] \<and> bm_sorted str_cmp (bs_insert str_cmp k ?hs)"
    using bset_mem_insert [of k ?hs] unfolding bs_insert_def
    by (metis empty_set image_empty insert_not_empty str_cmp.bm_sorted_insert)
  have "bm_sorted str_cmp (si_keys (si_file F k val si))"
    using si_invD(1) [OF inv] by (simp add: si_file_def Let_def str_cmp.bm_sorted_insert)
  moreover have "bm_sorted (json_cmp F) (si_postings (si_file F k val si))"
    using si_invD(2) [OF inv] by (simp add: si_file_def Let_def cmp_preorder.bm_sorted_insert [OF laws])
  moreover have "hs \<noteq> [] \<and> bm_sorted str_cmp hs" if "(v, hs) \<in> set (si_postings (si_file F k val si))" for v hs
    using that new si_invD(3,4) [OF inv] by (auto simp: si_file_def Let_def dest!: bm_insert_values)
  ultimately show ?thesis
    using posted_file [OF assms, of k val] si_invD(5) [OF assms(2)]
    unfolding si_inv_def by auto
qed

section \<open>What a probe covers\<close>

fun probe_covers :: "'n numbers \<Rightarrow> 'n probe \<Rightarrow> 'n jvalue \<Rightarrow> bool" where
  "probe_covers F (Exact vals) v = (\<exists>w\<in>set vals. json_cmp F v w = Equal)"
| "probe_covers F (Range lo hi) v = in_range (json_cmp F) lo hi v"

lemma find_map_SomeD: "find_map f xs = Some y \<Longrightarrow> \<exists>x\<in>set xs. f x = Some y"
  by (induction xs) (auto split: option.splits)

lemma op_shapes:
  "op_eq op = Some v \<longleftrightarrow> op = Eq v"
  "op_in op = Some vs \<longleftrightarrow> op = In vs"
  "op_lower op = Some (v, b) \<longleftrightarrow> op = (if b then Gte v else Gt v)"
  "op_upper op = Some (v, b) \<longleftrightarrow> op = (if b then Lte v else Lt v)"
  "op_prefix op = Some p \<longleftrightarrow> op = Prefix p"
  "op_type op = Some ks \<longleftrightarrow> op = OfType ks"
  "op_exists op \<longleftrightarrow> op = Exists True"
  by (cases op; simp)+

lemma op_matches_present:
  "op_matches F (Eq w) val \<longleftrightarrow> val = Some w"
  "op_matches F (In ws) val \<longleftrightarrow> (\<exists>v\<in>set ws. val = Some v)"
  "op_matches F (Gt w) val \<longleftrightarrow> (\<exists>v. val = Some v \<and> kind_of v = kind_of w \<and> json_cmp F v w = Greater)"
  "op_matches F (Gte w) val \<longleftrightarrow> (\<exists>v. val = Some v \<and> kind_of v = kind_of w \<and> json_cmp F v w \<noteq> Less)"
  "op_matches F (Lt w) val \<longleftrightarrow> (\<exists>v. val = Some v \<and> kind_of v = kind_of w \<and> json_cmp F v w = Less)"
  "op_matches F (Lte w) val \<longleftrightarrow> (\<exists>v. val = Some v \<and> kind_of v = kind_of w \<and> json_cmp F v w \<noteq> Greater)"
  "op_matches F (Prefix p) val \<longleftrightarrow> (\<exists>s. val = Some (JString s) \<and> starts_with s p)"
  "op_matches F (OfType ks) val \<longleftrightarrow> (\<exists>v. val = Some v \<and> kind_of v \<in> set ks)"
  "op_matches F (Exists True) val \<longleftrightarrow> (\<exists>v. val = Some v)"
proof -
  have as_str: "as_str v = Some s \<longleftrightarrow> v = JString s" for v :: "'a jvalue" and s by (cases v) auto
  have not: "c \<noteq> Less \<longleftrightarrow> c = Greater \<or> c = Equal" "c \<noteq> Greater \<longleftrightarrow> c = Less \<or> c = Equal" for c
    by (cases c; simp)+
  show "op_matches F (Eq w) val \<longleftrightarrow> val = Some w"
    "op_matches F (In ws) val \<longleftrightarrow> (\<exists>v\<in>set ws. val = Some v)"
    "op_matches F (Gt w) val \<longleftrightarrow> (\<exists>v. val = Some v \<and> kind_of v = kind_of w \<and> json_cmp F v w = Greater)"
    "op_matches F (Gte w) val \<longleftrightarrow> (\<exists>v. val = Some v \<and> kind_of v = kind_of w \<and> json_cmp F v w \<noteq> Less)"
    "op_matches F (Lt w) val \<longleftrightarrow> (\<exists>v. val = Some v \<and> kind_of v = kind_of w \<and> json_cmp F v w = Less)"
    "op_matches F (Lte w) val \<longleftrightarrow> (\<exists>v. val = Some v \<and> kind_of v = kind_of w \<and> json_cmp F v w \<noteq> Greater)"
    "op_matches F (Prefix p) val \<longleftrightarrow> (\<exists>s. val = Some (JString s) \<and> starts_with s p)"
    "op_matches F (OfType ks) val \<longleftrightarrow> (\<exists>v. val = Some v \<and> kind_of v \<in> set ks)"
    "op_matches F (Exists True) val \<longleftrightarrow> (\<exists>v. val = Some v)"
    by (auto simp: op_matches.simps present_op_matches.simps same_type_cmp_def as_str not
        split: option.splits)
qed

text \<open>Every value of a kind lies within its band.\<close>

lemma band_covers: "above (json_cmp F) (fst (band (kind_of v))) v \<and> below (json_cmp F) (snd (band (kind_of v))) v"
proof (cases v)
  case (JArray xs)
  then show ?thesis by (cases xs) (auto simp: json_cmp.simps cmp_lin_def)
next
  case (JObject m)
  then show ?thesis by (cases m) (auto simp: json_cmp.simps cmp_lin_def)
next
  case (JString s)
  then show ?thesis by (cases s) (auto simp: json_cmp.simps cmp_lin_def str_cmp_def)
qed (auto simp: json_cmp.simps cmp_lin_def)

lemma edge_above:
  "(\<And>w b. bnd = Some (w, b) \<Longrightarrow> if b then json_cmp F v w \<noteq> Less else json_cmp F v w = Greater) \<Longrightarrow>
   (bnd = None \<Longrightarrow> above (json_cmp F) fb v) \<Longrightarrow> above (json_cmp F) (edge bnd fb) v"
  by (cases "(bnd, fb)" rule: edge.cases) auto

lemma edge_below:
  "(\<And>w b. bnd = Some (w, b) \<Longrightarrow> if b then json_cmp F v w \<noteq> Greater else json_cmp F v w = Less) \<Longrightarrow>
   (bnd = None \<Longrightarrow> below (json_cmp F) fb v) \<Longrightarrow> below (json_cmp F) (edge bnd fb) v"
  by (cases "(bnd, fb)" rule: edge.cases) auto

lemma successor_loop_greater:
  assumes "successor_loop cs = Some ds" "list_all scalar cs"
  shows "\<exists>rest b c qs. cs = qs @ b # rest \<and> ds = rev rest @ [c] \<and> b < c \<and> scalar c"
  using assms
proof (induction cs)
  case (Cons b rest)
  let ?n = "if b + 1 = 0xD800 then 0xE000 else b + 1"
  show ?case
  proof (cases "scalar ?n")
    case True
    with Cons.prems have "b # rest = [] @ b # rest \<and> ds = rev rest @ [?n] \<and> b < ?n \<and> scalar ?n"
      by (auto simp: char_from_u32_def)
    then show ?thesis by blast
  next
    case False
    with Cons obtain r b' c qs where "rest = qs @ b' # r \<and> ds = rev r @ [c] \<and> b' < c \<and> scalar c"
      by (auto simp: char_from_u32_def split: if_splits)
    then have "b # rest = (b # qs) @ b' # r \<and> ds = rev r @ [c] \<and> b' < c \<and> scalar c" by simp
    then show ?thesis by blast
  qed
qed simp

lemma prefix_successor_above:
  assumes "prefix_successor p = Some q" "utf8 p" "starts_with s p"
  shows "str_cmp s q = Less"
proof -
  from assms(3) obtain t where s: "s = p @ t" using starts_withE by blast
  from assms(1) obtain ds where ds: "successor_loop (rev (chars p)) = Some ds" "q = encode_str ds"
    by (auto simp: prefix_successor_def)
  have "list_all scalar (rev (chars p))" using utf8D [OF assms(2)] by (simp add: list_all_iff)
  from successor_loop_greater [OF ds(1) this] obtain rest b c qs where
    cs: "rev (chars p) = qs @ b # rest" "ds = rev rest @ [c]" and c: "b < c" "scalar c" by blast
  from cs(1) have "chars p = rev rest @ b # rev qs" by (simp add: rev_swap)
  then have "p = encode_str (rev rest) @ encode_char b @ encode_str (rev qs)"
    using utf8D [OF assms(2)] by simp
  then show ?thesis
    using encode_char_less [OF c, of "encode_str (rev qs) @ t" "[]"] by (simp add: s ds(2) cs(2))
qed

definition cond_utf8 :: "'n condition \<Rightarrow> bool" where
  "cond_utf8 cond = (\<forall>p. Prefix p \<in> set (cond_ops cond) \<longrightarrow> utf8 p)"

lemma cond_matches_op:
  "cond_matches F cond val \<Longrightarrow> op \<in> set (cond_ops cond) \<Longrightarrow> op_matches F op val"
  by (cases cond) auto

lemma find_map_op:
  assumes "find_map f (cond_ops cond) = Some y" "cond_matches F cond val"
  shows "\<exists>op. f op = Some y \<and> op \<in> set (cond_ops cond) \<and> op_matches F op val"
  using find_map_SomeD [OF assms(1)] cond_matches_op [OF assms(2)] by blast

lemma range_probe_sound:
  assumes m: "cond_matches F cond val"
    and "or_else (find_map op_lower (cond_ops cond)) (find_map op_upper (cond_ops cond)) = Some (w, b)"
  shows "\<exists>v. val = Some v \<and> in_range (json_cmp F)
    (edge (find_map op_lower (cond_ops cond)) (fst (band (kind_of w))))
    (edge (find_map op_upper (cond_ops cond)) (snd (band (kind_of w)))) v"
proof -
  let ?lo = "find_map op_lower (cond_ops cond)" and ?hi = "find_map op_upper (cond_ops cond)"
  have lo: "\<exists>v. val = Some v \<and> kind_of v = kind_of x \<and>
      (if c then json_cmp F v x \<noteq> Less else json_cmp F v x = Greater)" if "?lo = Some (x, c)" for x c
    using find_map_op [OF that m] by (auto simp: op_shapes op_matches_present split: if_splits)
  have hi: "\<exists>v. val = Some v \<and> kind_of v = kind_of x \<and>
      (if c then json_cmp F v x \<noteq> Greater else json_cmp F v x = Less)" if "?hi = Some (x, c)" for x c
    using find_map_op [OF that m] by (auto simp: op_shapes op_matches_present split: if_splits)
  obtain v where v: "val = Some v" "kind_of v = kind_of w"
    using assms(2) lo [of w b] hi [of w b] by (auto simp: or_else_def split: option.splits)
  have "above (json_cmp F) (edge ?lo (fst (band (kind_of w)))) v"
    using lo v band_covers [of F v] by (intro edge_above) fastforce+
  moreover have "below (json_cmp F) (edge ?hi (snd (band (kind_of w)))) v"
    using hi v band_covers [of F v] by (intro edge_below) fastforce+
  ultimately show ?thesis using v(1) by (simp add: in_range_def)
qed

lemma prefix_probe_sound:
  assumes "utf8 p" "starts_with s p"
  shows "in_range (json_cmp F) (Included (JString p))
    (case prefix_successor p of Some next \<Rightarrow> Excluded (JString next) | None \<Rightarrow> snd (band KString)) (JString s)"
proof -
  obtain t where "s = p @ t" using assms(2) starts_withE by blast
  then have "str_cmp s p \<noteq> Less"
    using str_cmp_append_same [of p t "[]"] by (cases t) (auto simp: str_cmp_def)
  moreover have "below (json_cmp F) (snd (band KString)) (JString s)"
    using band_covers [of F "JString s"] by simp
  ultimately show ?thesis
    using prefix_successor_above [OF _ assms] by (auto simp: in_range_def split: option.splits)
qed

lemma probe_rest_sound:
  assumes "cond_matches F cond val" "probe_rest (cond_ops cond) = Some pr"
  shows "\<exists>v. val = Some v \<and> probe_covers F pr v"
proof -
  have ex: "\<exists>v. val = Some v" if "list_ex op_exists (cond_ops cond)"
    using that cond_matches_op [OF assms(1), of "Exists True"]
    by (auto simp: list_ex_iff op_shapes op_matches_present)
  show ?thesis
  proof (cases "\<exists>k. find_map op_type (cond_ops cond) = Some [k]")
    case True
    then obtain k where k: "find_map op_type (cond_ops cond) = Some [k]" ..
    then obtain v where "val = Some v" "kind_of v = k"
      using find_map_op [OF k assms(1)] by (auto simp: op_shapes op_matches_present)
    with assms(2) k band_covers [of F v] show ?thesis
      by (auto simp: probe_rest_def in_range_def split: prod.splits)
  next
    case False
    with assms(2) have "pr = Range Unbounded Unbounded" "list_ex op_exists (cond_ops cond)"
      by (auto simp: probe_rest_def split: option.splits list.splits if_splits)
    with ex show ?thesis by (auto simp: in_range_def)
  qed
qed

lemma probe_for_cases:
  assumes "probe_for cond = Some pr"
  obtains (eq) w where "find_map op_eq (cond_ops cond) = Some w" "pr = Exact [w]"
    | (mem) ws where "find_map op_in (cond_ops cond) = Some ws" "pr = Exact ws"
    | (range) w b where
        "or_else (find_map op_lower (cond_ops cond)) (find_map op_upper (cond_ops cond)) = Some (w, b)"
        "pr = Range (edge (find_map op_lower (cond_ops cond)) (fst (band (kind_of w))))
                    (edge (find_map op_upper (cond_ops cond)) (snd (band (kind_of w))))"
    | (prefix) p where "find_map op_prefix (cond_ops cond) = Some p"
        "pr = Range (Included (JString p)) (case prefix_successor p of
            Some next \<Rightarrow> Excluded (JString next) | None \<Rightarrow> snd (band KString))"
    | (rest) "probe_rest (cond_ops cond) = Some pr"
proof (cases "find_map op_eq (cond_ops cond)")
  case None
  note no_eq = None
  show ?thesis
  proof (cases "find_map op_in (cond_ops cond)")
    case None
    note no_in = None
    show ?thesis
    proof (cases "or_else (find_map op_lower (cond_ops cond)) (find_map op_upper (cond_ops cond))")
      case None
      then show ?thesis
        using assms no_eq no_in prefix rest
        by (cases "find_map op_prefix (cond_ops cond)") (simp_all add: probe_for_def)
    next
      case (Some wb)
      then show ?thesis
        using assms no_eq no_in range
        by (cases wb; cases "band (kind_of (fst wb)) :: 'a jvalue bound \<times> _") (simp add: probe_for_def Let_def)
    qed
  qed (use assms no_eq mem in \<open>simp add: probe_for_def\<close>)
qed (use assms eq in \<open>simp add: probe_for_def\<close>)

lemma probe_for_sound:
  assumes "finite_numbers F" "cond_matches F cond val" "probe_for cond = Some pr" "cond_utf8 cond"
  shows "\<exists>v. val = Some v \<and> probe_covers F pr v"
proof -
  note found = find_map_op [OF _ assms(2)]
  from assms(3)
  show ?thesis
  proof (cases rule: probe_for_cases)
    case eq
    then show ?thesis using found [OF eq(1)] json_cmp_refl [OF assms(1)]
      by (auto simp: op_shapes op_matches_present)
  next
    case mem
    then show ?thesis using found [OF mem(1)] json_cmp_refl [OF assms(1)]
      by (auto simp: op_shapes op_matches_present)
  next
    case range
    then show ?thesis using range_probe_sound [OF assms(2) range(1)] by simp
  next
    case (prefix p)
    then have "Prefix p \<in> set (cond_ops cond)" "\<exists>s. val = Some (JString s) \<and> starts_with s p"
      using found [OF prefix(1)] by (auto simp: op_shapes op_matches_present)
    then show ?thesis
      using prefix(2) assms(4) prefix_probe_sound [of p _ F] by (auto simp: cond_utf8_def)
  next
    case rest
    then show ?thesis using probe_rest_sound [OF assms(2)] by simp
  qed
qed

section \<open>Walking the postings\<close>

lemma set_map_filter: "set (List.map_filter f xs) = {y. \<exists>x\<in>set xs. f x = Some y}"
  by (induction xs) (auto simp: List.map_filter_simps split: option.splits)

text \<open>The guard in front of \<^verbatim>\<open>BTreeMap::range\<close> covers every pair of bounds it panics on.\<close>

lemma range_guarded: "\<not> range_is_empty F lo hi \<Longrightarrow> \<not> range_panics (json_cmp F) lo hi"
  by (cases lo; cases hi) (auto simp: range_is_empty_def split: ordering.splits)

lemma ordering_LessD: "c = Less \<Longrightarrow> c \<noteq> Greater"
  by simp

lemma range_is_empty_in_range:
  assumes "finite_numbers F" "range_is_empty F lo hi"
  shows "\<not> in_range (json_cmp F) lo hi v"
proof -
  note laws = json_cmp_preorder [OF assms(1)]
  have le: "json_cmp F a b \<noteq> Greater" if "json_cmp F v a \<noteq> Less" "json_cmp F v b \<noteq> Greater" for a b
    using that cmp_preorder.cmp_trans [OF laws, of a v b] cmp_preorder.cmp_Greater_iff [OF laws, of a v] by auto
  have lt1: "json_cmp F a b = Less" if "json_cmp F v a = Greater" "json_cmp F v b \<noteq> Greater" for a b
    using that cmp_preorder.cmp_less_le_trans [OF laws, of a v b] cmp_preorder.cmp_Greater_iff [OF laws, of v a] by auto
  have lt2: "json_cmp F a b = Less" if "json_cmp F v a \<noteq> Less" "json_cmp F v b = Less" for a b
    using that cmp_preorder.cmp_le_less_trans [OF laws, of a v b] cmp_preorder.cmp_Greater_iff [OF laws, of a v] by auto
  show ?thesis
  proof
    assume "in_range (json_cmp F) lo hi v"
    with assms(2) show False
      using lt1 [OF _ ordering_LessD]
      by (cases lo; cases hi)
        (auto simp: range_is_empty_def in_range_def split: ordering.splits dest: le lt1 lt2)
  qed
qed

lemma posted_iff:
  assumes "finite_numbers F" "si_inv F si"
  shows "k \<in> posted F si v \<longleftrightarrow>
    (\<exists>w hs. (w, hs) \<in> set (si_postings si) \<and> json_cmp F v w = Equal \<and> k \<in> fst ` set hs)"
proof -
  have "k \<in> posted F si v \<longleftrightarrow> (\<exists>hs. bm_get (json_cmp F) (si_postings si) v = Some hs \<and> k \<in> fst ` set hs)"
    by (simp add: posted_def split: option.splits)
  then show ?thesis
    unfolding cmp_preorder.bm_get_iff [OF json_cmp_preorder [OF assms(1)] si_invD(2) [OF assms(2)]] by blast
qed

definition walked :: "'n numbers \<Rightarrow> 'n secondary_index \<Rightarrow> 'n probe \<Rightarrow> string set" where
  "walked F si pr = (\<Union>hs\<in>set (walk F si pr). fst ` set hs)"

lemma walk_range_iff:
  assumes "finite_numbers F" "si_inv F si"
  shows "k \<in> walked F si (Range lo hi) \<longleftrightarrow> (\<exists>v. filed si k = Some v \<and> in_range (json_cmp F) lo hi v)"
proof (cases "range_is_empty F lo hi")
  case True
  then show ?thesis using range_is_empty_in_range [OF assms(1)] by (auto simp: walked_def)
next
  case False
  note laws = json_cmp_preorder [OF assms(1)]
  have "k \<in> walked F si (Range lo hi) \<longleftrightarrow>
      (\<exists>w hs. (w, hs) \<in> set (si_postings si) \<and> in_range (json_cmp F) lo hi w \<and> k \<in> fst ` set hs)"
    using False by (auto simp: walked_def bm_range_def Bex_def)
  also have "\<dots> \<longleftrightarrow> (\<exists>w. in_range (json_cmp F) lo hi w \<and> k \<in> posted F si w)"
    using cmp_preorder.cmp_refl [OF laws] cmp_preorder.in_range_cong [OF laws]
    unfolding posted_iff [OF assms] by blast
  also have "\<dots> \<longleftrightarrow> (\<exists>v. filed si k = Some v \<and> in_range (json_cmp F) lo hi v)"
    using cmp_preorder.in_range_cong [OF laws] cmp_preorder.cmp_refl [OF laws]
    unfolding si_invD(5) [OF assms(2)] by blast
  finally show ?thesis .
qed

lemma walk_exact_iff:
  assumes "finite_numbers F" "si_inv F si"
  shows "k \<in> walked F si (Exact vals) \<longleftrightarrow> (\<exists>v. filed si k = Some v \<and> (\<exists>w\<in>set vals. json_cmp F v w = Equal))"
proof -
  note laws = json_cmp_preorder [OF assms(1)]
  let ?ds = "fst ` set (bs_of_list (json_cmp F) vals)"
  have "k \<in> walked F si (Exact vals) \<longleftrightarrow> (\<exists>w\<in>?ds. k \<in> posted F si w)"
  proof -
    have "k \<in> posted F si w \<longleftrightarrow> (\<exists>hs. bm_get (json_cmp F) (si_postings si) w = Some hs \<and> k \<in> fst ` set hs)" for w
      by (simp add: posted_def split: option.splits)
    then show ?thesis by (simp add: walked_def set_map_filter case_prod_beta) blast
  qed
  also have "\<dots> \<longleftrightarrow> (\<exists>w\<in>set vals. k \<in> posted F si w)"
  proof
    assume "\<exists>w\<in>?ds. k \<in> posted F si w"
    then show "\<exists>w\<in>set vals. k \<in> posted F si w"
      using bs_of_list_subset [of "json_cmp F" vals] by blast
  next
    assume "\<exists>w\<in>set vals. k \<in> posted F si w"
    then obtain w where w: "w \<in> set vals" "k \<in> posted F si w" by blast
    obtain d where d: "d \<in> ?ds" "json_cmp F w d = Equal"
      using cmp_preorder.bs_of_list_mem [OF laws w(1)] by blast
    then have "posted F si w = posted F si d"
      using cmp_preorder.bm_get_cong [OF laws d(2), of "si_postings si"] by (simp add: posted_def)
    with w d show "\<exists>w\<in>?ds. k \<in> posted F si w" by blast
  qed
  finally show ?thesis
    unfolding si_invD(5) [OF assms(2)] using cmp_preorder.cmp_Equal_sym [OF laws] by blast
qed

lemma walked_iff:
  assumes "finite_numbers F" "si_inv F si"
  shows "k \<in> walked F si pr \<longleftrightarrow> (\<exists>v. filed si k = Some v \<and> probe_covers F pr v)"
  using walk_range_iff [OF assms] walk_exact_iff [OF assms] by (cases pr) simp_all

section \<open>The planner\<close>

definition eligible :: "'n numbers \<Rightarrow> 'n indexes \<Rightarrow> (string \<times> 'n condition) list \<Rightarrow> 'n plan \<Rightarrow> bool" where
  "eligible F m conds plan =
     (case plan of (n, name, si, pr) \<Rightarrow>
        (name, si) \<in> set m \<and> is_ready si \<and> n = count F si pr \<and>
        (\<exists>cond. (si_field si, cond) \<in> set conds \<and> probe_for cond = Some pr))"

text \<open>The running best: some eligible plan, and no eligible one among those seen is narrower.\<close>

definition best_of :: "'n plan set \<Rightarrow> 'n plan option \<Rightarrow> bool" where
  "best_of P best = (case best of None \<Rightarrow> P = {} | Some b \<Rightarrow> b \<in> P \<and> (\<forall>p\<in>P. fst b \<le> fst p))"

definition offers :: "'n numbers \<Rightarrow> string \<Rightarrow> 'n condition \<Rightarrow> string \<times> 'n secondary_index \<Rightarrow> 'n plan set" where
  "offers F field cond entry =
     {(count F (snd entry) pr, fst entry, snd entry, pr) | pr.
        is_ready (snd entry) \<and> si_field (snd entry) = field \<and> probe_for cond = Some pr}"

lemma consider_index_best:
  "best_of P best \<Longrightarrow> best_of (P \<union> offers F field cond entry) (consider_index F field cond best entry)"
  by (cases best)
    (fastforce simp: best_of_def consider_index_def offers_def Let_def split: prod.splits option.splits if_splits)+

lemma best_plan_best: "best_of {p. eligible F m conds p} (best_plan F m conds)"
proof -
  have inner: "best_of P best \<Longrightarrow> best_of (P \<union> (\<Union>e\<in>set m. offers F field cond e))
      (foldl (consider_index F field cond) best m)" for P best field cond and m :: "'a indexes"
  proof (induction m arbitrary: P best)
    case (Cons e m)
    from Cons.IH [OF consider_index_best [OF Cons.prems, of F field cond e]]
    show ?case by (simp add: Un_assoc)
  qed simp
  have "best_of P best \<Longrightarrow> best_of (P \<union> (\<Union>(field, cond)\<in>set conds. \<Union>e\<in>set m. offers F field cond e))
      (foldl (\<lambda>best (field, cond). foldl (consider_index F field cond) best m) best conds)" for P best
  proof (induction conds arbitrary: P best)
    case (Cons c conds)
    obtain field cond where c: "c = (field, cond)" by fastforce
    from Cons.IH [OF inner [OF Cons.prems, of field cond m]]
    show ?case by (simp add: c Un_assoc)
  qed simp
  from this [of "{}" None]
  have "best_of (\<Union>(field, cond)\<in>set conds. \<Union>e\<in>set m. offers F field cond e) (best_plan F m conds)"
    by (simp add: best_plan_def best_of_def)
  also have "(\<Union>(field, cond)\<in>set conds. \<Union>e\<in>set m. offers F field cond e) = {p. eligible F m conds p}"
    by (fastforce simp: eligible_def offers_def)
  finally show ?thesis .
qed

text \<open>An index answers for the documents \<open>docs\<close>: every key is filed under its document's value.\<close>

definition want :: "string \<Rightarrow> (string \<rightharpoonup> 'n jvalue) \<Rightarrow> string \<Rightarrow> 'n jvalue option" where
  "want field docs k = (case docs k of None \<Rightarrow> None | Some doc \<Rightarrow> get_path_value doc field)"

definition si_ok :: "'n numbers \<Rightarrow> (string \<rightharpoonup> 'n jvalue) \<Rightarrow> 'n secondary_index \<Rightarrow> bool" where
  "si_ok F docs si =
     (si_inv F si \<and>
      (case si_state si of
         Ready \<Rightarrow> \<forall>k. filed si k = want (si_field si) docs k
       | Building touched \<Rightarrow>
           (\<forall>k. filed si k = want (si_field si) docs k \<or> k \<notin> touched \<and> filed si k = None)))"

definition ix_ok :: "'n numbers \<Rightarrow> (string \<rightharpoonup> 'n jvalue) \<Rightarrow> 'n indexes \<Rightarrow> bool" where
  "ix_ok F docs m = (bm_sorted str_cmp m \<and> (\<forall>(name, si)\<in>set m. si_ok F docs si))"

lemma set_bs_of_list: "fst ` set (bs_of_list str_cmp ks) = set ks"
proof
  show "set ks \<subseteq> fst ` set (bs_of_list str_cmp ks)"
    using str_cmp.bs_of_list_mem [of _ ks] unfolding str_cmp.cmp_Equal_iff by blast
qed (rule bs_of_list_subset)

lemma select_keys:
  assumes "select F m flt total_docs = Some sel"
  obtains si pr cond where "(sel_index sel, si) \<in> set m" "is_ready si" "(si_field si, cond) \<in> set (conjuncts flt)"
    "probe_for cond = Some pr" "sel_field sel = si_field si" "set (sel_keys sel) = walked F si pr"
    "sorted_wrt (\<lambda>a b. str_cmp a b = Less) (sel_keys sel)"
proof -
  let ?conds = "sort_by (\<lambda>a b. str_cmp (fst a) (fst b)) (conjuncts flt)"
  from assms obtain n name si pr where b: "best_plan F m ?conds = Some (n, name, si, pr)"
    and sel: "sel = \<lparr>sel_index = name, sel_field = si_field si,
        sel_keys = map fst (bs_of_list str_cmp (concat (map (map fst) (walk F si pr))))\<rparr>"
    by (auto simp: select_def split: option.splits if_splits)
  from best_plan_best [of F m ?conds] b have "eligible F m ?conds (n, name, si, pr)"
    by (simp add: best_of_def)
  then obtain cond where *: "(name, si) \<in> set m" "is_ready si" "(si_field si, cond) \<in> set (conjuncts flt)"
    "probe_for cond = Some pr" by (auto simp: eligible_def)
  let ?ks = "concat (map (map fst) (walk F si pr))"
  have "fst ` set (bs_of_list str_cmp ?ks) = set ?ks"
    by (rule set_bs_of_list)
  then have "set (sel_keys sel) = walked F si pr" by (simp add: sel walked_def)
  moreover have "sorted_wrt (\<lambda>a b. str_cmp a b = Less) (sel_keys sel)"
    using str_cmp.bs_of_list_sorted [of ?ks] by (simp add: sel bm_sorted_def sorted_wrt_map)
  ultimately show ?thesis using that * sel by simp
qed

lemma select_covers:
  assumes "finite_numbers as_f64" "ix_ok as_f64 docs m" "select as_f64 m flt total_docs = Some sel"
    and "\<forall>(path, cond)\<in>set (conjuncts flt). cond_utf8 cond"
  shows "(\<forall>k doc. docs k = Some doc \<longrightarrow> matches_filter as_f64 doc flt \<longrightarrow> k \<in> set (sel_keys sel)) \<and>
    set (sel_keys sel) \<subseteq> dom docs \<and> sorted_wrt (\<lambda>a b. str_cmp a b = Less) (sel_keys sel)"
proof -
  from select_keys [OF assms(3)] obtain si pr cond where si: "(sel_index sel, si) \<in> set m" "is_ready si"
    and c: "(si_field si, cond) \<in> set (conjuncts flt)" "probe_for cond = Some pr"
    and keys: "set (sel_keys sel) = walked as_f64 si pr" "sorted_wrt (\<lambda>a b. str_cmp a b = Less) (sel_keys sel)"
    by metis
  from si assms(2) have inv: "si_inv as_f64 si" and filed: "filed si k = want (si_field si) docs k" for k
    by (auto simp: ix_ok_def si_ok_def is_ready_def split: build_state.splits)
  have mem: "k \<in> set (sel_keys sel) \<longleftrightarrow> (\<exists>v. want (si_field si) docs k = Some v \<and> probe_covers as_f64 pr v)" for k
    using walked_iff [OF assms(1) inv, of k pr] by (simp add: keys(1) filed)
  have "k \<in> set (sel_keys sel)" if "docs k = Some doc" "matches_filter as_f64 doc flt" for k doc
  proof -
    have "\<exists>v. get_path_value doc (si_field si) = Some v \<and> probe_covers as_f64 pr v"
      using probe_for_sound [OF assms(1) _ c(2), of "get_path_value doc (si_field si)"] that(2) c(1) assms(4)
      by (cases flt) (auto simp: matches_filter_def intro: collect_conjuncts_sound)
    with that(1) show ?thesis by (simp add: mem want_def)
  qed
  moreover have "set (sel_keys sel) \<subseteq> dom docs"
    by (auto simp: mem want_def split: option.splits)
  ultimately show ?thesis using keys(2) by blast
qed

text \<open>
  C12. A plan drops no row: whatever index and condition the planner settles on, every document
  that matches the filter is among the candidates, and the candidates are keys of existing
  documents, each once and in ascending key order, as the scan they replace would meet them.
\<close>

theorem select_complete:
  assumes "finite_numbers as_f64" "ix_ok as_f64 docs m" "select as_f64 m flt total_docs = Some sel"
    and "\<forall>(path, cond)\<in>set (conjuncts flt). cond_utf8 cond"
  shows "(\<forall>k doc. docs k = Some doc \<longrightarrow> matches_filter as_f64 doc flt \<longrightarrow> k \<in> set (sel_keys sel)) \<and>
    set (sel_keys sel) \<subseteq> dom docs \<and> sorted_wrt (\<lambda>a b. str_cmp a b = Less) (sel_keys sel)"
  using assms by (rule select_covers)

section \<open>Live writes keep every index exact\<close>

lemma si_ok_building [simp]: "si_ok F docs (si_building field)"
  by (simp add: si_ok_def) (simp add: si_building_def)

lemma ix_ok_insert: "ix_ok F docs m \<Longrightarrow> si_ok F docs si \<Longrightarrow> ix_ok F docs (bm_insert str_cmp n si m)"
  by (auto simp: ix_ok_def str_cmp.bm_sorted_insert dest!: bm_insert_values)

lemma ix_ok_get: "ix_ok F docs m \<Longrightarrow> map_of m n = Some si \<Longrightarrow> si_ok F docs si"
  by (auto simp: ix_ok_def dest!: map_of_SomeD)

lemma ix_ok_seed [simp]: "ix_ok F docs (ix_seed specs)"
proof -
  have "ix_ok F docs m \<Longrightarrow>
      ix_ok F docs (foldl (\<lambda>m spec. bm_insert str_cmp (is_name spec) (si_building (is_field spec)) m) m specs)" for m
    by (induction specs arbitrary: m) (simp_all add: ix_ok_insert)
  from this [of "[]"] show ?thesis by (simp add: ix_seed_def ix_ok_def)
qed

lemma want_upd: "want field (docs(k := d)) k' =
  (if k' = k then Option.bind d (\<lambda>doc. get_path_value doc field) else want field docs k')"
  by (simp add: want_def split: option.splits)

text \<open>One index under one live write: the new value is filed, or the old posting goes.\<close>

definition si_write :: "'n numbers \<Rightarrow> string \<Rightarrow> 'n jvalue option \<Rightarrow> 'n secondary_index \<Rightarrow> 'n secondary_index" where
  "si_write F k val si =
     (case val of
        Some v \<Rightarrow> si_file F k v (note_touched k si)
      | None \<Rightarrow> si_unfile F k (note_touched k si))"

lemma si_write_simps [simp]:
  "si_field (si_write F k val si) = si_field si" "filed (si_write F k val si) = (filed si)(k := val)"
  "si_state (si_write F k val si) = (case si_state si of Ready \<Rightarrow> Ready | Building t \<Rightarrow> Building (insert k t))"
  by (auto simp: si_write_def note_touched_def split: option.splits build_state.splits)

lemma si_ok_write:
  assumes "finite_numbers F" "si_ok F docs si"
  shows "si_ok F (docs(k := d)) (si_write F k (Option.bind d (\<lambda>doc. get_path_value doc (si_field si))) si)"
proof -
  have "si_inv F (si_write F k val si)" for val
    using assms(2) by (auto simp: si_ok_def si_write_def intro: si_inv_file si_inv_unfile assms(1) split: option.splits)
  with assms(2) show ?thesis
    by (auto simp: si_ok_def want_upd split: build_state.splits)
qed

text \<open>The definitions \<open>specs\<close> a write was staged under are those of the indexes it is applied to.\<close>

definition describes :: "index_spec list \<Rightarrow> 'n indexes \<Rightarrow> bool" where
  "describes specs m =
     (distinct (map is_name specs) \<and> (\<forall>(name, si)\<in>set m. \<lparr>is_name = name, is_field = si_field si\<rparr> \<in> set specs))"

lemma find_index_values:
  assumes "distinct (map is_name specs)" "spec \<in> set specs"
  shows "find (\<lambda>v. fst v = is_name spec) (index_values specs doc) =
    map_option (\<lambda>v. (is_name spec, v)) (get_path_value doc (is_field spec))"
  using assms
proof (induction specs)
  case (Cons s specs)
  have skip: "find (\<lambda>v. fst v = is_name s) (index_values specs doc) = None"
    using Cons.prems(1)
    by (auto simp: find_None_iff index_values_def set_map_filter) (metis image_eqI)
  show ?case
  proof (cases "spec = s")
    case True
    with skip show ?thesis
      by (cases "get_path_value doc (is_field s)") (auto simp: index_values_def List.map_filter_simps)
  next
    case False
    with Cons have "is_name s \<noteq> is_name spec" by auto
    with Cons False show ?thesis
      by (cases "get_path_value doc (is_field s)") (auto simp: index_values_def List.map_filter_simps)
  qed
qed simp

lemma ix_put_write:
  assumes "describes specs m"
  shows "ix_put F k (index_values specs doc) m =
    map (\<lambda>(name, si). (name, si_write F k (get_path_value doc (si_field si)) si)) m"
  unfolding ix_put_def
proof (intro map_cong refl)
  fix e assume e: "e \<in> set m"
  obtain name si where e_def: "e = (name, si)" by fastforce
  with assms e have "\<lparr>is_name = name, is_field = si_field si\<rparr> \<in> set specs" "distinct (map is_name specs)"
    by (auto simp: describes_def)
  from find_index_values [OF this(2,1), of doc]
  show "(case e of (name, si) \<Rightarrow> let si = note_touched k si
       in (name, case find (\<lambda>v. fst v = name) (index_values specs doc) of
                   Some (_, val) \<Rightarrow> si_file F k val si
                 | None \<Rightarrow> si_unfile F k si)) =
    (case e of (name, si) \<Rightarrow> (name, si_write F k (get_path_value doc (si_field si)) si))"
    by (simp add: e_def si_write_def Let_def split: option.splits)
qed

lemma ix_remove_write: "ix_remove F k m = map (\<lambda>(name, si). (name, si_write F k None si)) m"
  by (simp add: ix_remove_def si_write_def)

lemma bm_sorted_map_values: "bm_sorted cmp (map (\<lambda>(n, v). (n, f n v)) m) = bm_sorted cmp m"
  by (simp add: bm_sorted_def sorted_wrt_map case_prod_beta)

lemma ix_ok_put:
  assumes "finite_numbers F" "ix_ok F docs m" "describes specs m"
  shows "ix_ok F (docs(k \<mapsto> doc)) (ix_put F k (index_values specs doc) m)"
  using assms(2) si_ok_write [OF assms(1), of docs _ k "Some doc"]
  unfolding ix_put_write [OF assms(3)] ix_ok_def bm_sorted_map_values by fastforce

lemma ix_ok_remove:
  assumes "finite_numbers F" "ix_ok F docs m"
  shows "ix_ok F (docs(k := None)) (ix_remove F k m)"
  using assms(2) si_ok_write [OF assms(1), of docs _ k None]
  unfolding ix_remove_write ix_ok_def bm_sorted_map_values by fastforce

section \<open>A concrete index\<close>

definition ex_doc :: "int \<Rightarrow> int jvalue" where "ex_doc n = JObject [(''age'', JNumber n)]"

definition ex_docs :: "(string \<times> int jvalue) list" where "ex_docs = [(''a'', ex_doc 1), (''b'', ex_doc 2)]"

definition ex_ix :: "int indexes" where
  "ex_ix = [(''i'', \<lparr>si_field = ''age'',
     si_postings = [(JNumber 1, [(''a'', ())]), (JNumber 2, [(''b'', ())])],
     si_keys = [(''a'', JNumber 1), (''b'', JNumber 2)], si_state = Ready\<rparr>)]"

lemma get_age [simp]: "get_path_value (ex_doc n) ''age'' = Some (JNumber n)"
  by (simp add: ex_doc_def get_path_value_def)

lemma json_cmp_int_eq: "json_cmp int_f64 v (JNumber n) = Equal \<longleftrightarrow> v = JNumber n"
  by (cases v) (auto simp: json_cmp.simps cmp_lin_def)

lemma ex_ix_ok: "ix_ok int_f64 (map_of ex_docs) ex_ix"
  by (auto simp: ix_ok_def ex_ix_def si_ok_def si_inv_def posted_def json_cmp_int_eq ex_docs_def want_def
      str_cmp_ab cmp_lin_def split: if_splits)

definition age_is :: "int \<Rightarrow> int filter" where
  "age_is n = Filter (EAll [EField ''age'' (Condition [Eq (JNumber n)])])"

lemma age_is_simps [simp]:
  "matches_filter int_f64 (ex_doc m) (age_is n) \<longleftrightarrow> m = n"
  "conjuncts (age_is n) = [(''age'', Condition [Eq (JNumber n)])]"
  by (simp_all add: matches_filter_def age_is_def op_matches_present)

lemma ex_select: "select int_f64 ex_ix (age_is 2) 2 = Some \<lparr>sel_index = ''i'', sel_field = ''age'', sel_keys = [''b'']\<rparr>"
  by (simp add: select_def best_plan_def consider_index_def ex_ix_def is_ready_def probe_for_def count_def
      List.map_filter_simps bs_of_list_def bs_insert_def json_cmp_int_eq ALWAYS_WORTH_IT_def)

theorem select_complete_witness:
  "\<exists>sel. select int_f64 ex_ix (age_is 2) 2 = Some sel \<and> ''b'' \<in> set (sel_keys sel)"
proof -
  have docs: "map_of ex_docs ''b'' = Some (ex_doc 2)" "matches_filter int_f64 (ex_doc 2) (age_is 2)"
    by (simp add: ex_docs_def) simp
  have "\<forall>(path, cond)\<in>set (conjuncts (age_is 2)). cond_utf8 cond" by (simp add: cond_utf8_def)
  from select_complete [OF finite_int_f64 ex_ix_ok ex_select this] docs ex_select show ?thesis by blast
qed

end
