(* ===== verification/Scan.thy ===== *)
theory Scan
  imports Secondary
begin

text \<open>
  The read side of \<^verbatim>\<open>src/src/storage/collection.rs\<close>: key ranges, the chunked walk, the walk over an
  index's candidates, and the two query pages built on them. The committed index is its list of
  entries in key order; \<open>get\<close> stands for \<^verbatim>\<open>Collection::get\<close> and may fail. A visitor returns an error,
  or whether to go on together with its updated captured variables.
\<close>

definition SCAN_CHUNK :: nat where "SCAN_CHUNK = 1024"

section \<open>Ranges and walks\<close>

definition range_page ::
  "string option \<Rightarrow> string option \<Rightarrow> string option \<Rightarrow> nat \<Rightarrow> (string \<times> 'e) list \<Rightarrow> string list" where
  "range_page after start stop limit index =
     (if (case (or_else after start, stop) of (Some l, Some e) \<Rightarrow> str_cmp l e = Greater | _ \<Rightarrow> False)
      then []
      else
        let start_bound = (case after of
                             Some a \<Rightarrow> Excluded a
                           | None \<Rightarrow> (case start of Some s \<Rightarrow> Included s | None \<Rightarrow> Unbounded));
            end_bound = (case stop of None \<Rightarrow> Unbounded | Some e \<Rightarrow> Included e)
        in take limit (map fst (bm_range str_cmp start_bound end_bound index)))"

definition range_from ::
  "string option \<Rightarrow> string option \<Rightarrow> string option \<Rightarrow> (string \<times> 'e) list \<Rightarrow> string list" where
  "range_from after start stop index = range_page after start stop usize_max index"

type_synonym ('err, 's) visitor = "string \<Rightarrow> 's \<Rightarrow> ('err, bool \<times> 's) result"

text \<open>The inner loop over one chunk; the flag says whether to go on.\<close>

fun visit_each :: "('err, 's) visitor \<Rightarrow> string list \<Rightarrow> 's \<Rightarrow> ('err, bool \<times> 's) result" where
  "visit_each visit [] st = Ok (True, st)"
| "visit_each visit (key # ks) st =
     (case visit key st of
        Err e \<Rightarrow> Err e
      | Ok (go, st') \<Rightarrow> if go then visit_each visit ks st' else Ok (False, st'))"

text \<open>The keys the bounds leave.\<close>

definition in_window :: "string option \<Rightarrow> string option \<Rightarrow> string option \<Rightarrow> string \<Rightarrow> bool" where
  "in_window after start stop k =
     ((case after of
         Some a \<Rightarrow> str_cmp k a = Greater
       | None \<Rightarrow> (case start of Some s \<Rightarrow> str_cmp k s \<noteq> Less | None \<Rightarrow> True)) \<and>
      (case stop of Some e \<Rightarrow> str_cmp k e \<noteq> Greater | None \<Rightarrow> True))"

lemma range_page_window:
  "range_page after start stop limit index = take limit (filter (in_window after start stop) (map fst index))"
proof -
  have empty: "\<not> in_window after start stop k"
    if "case (or_else after start, stop) of (Some l, Some e) \<Rightarrow> str_cmp l e = Greater | _ \<Rightarrow> False" for k
  proof -
    from that obtain l e where le: "or_else after start = Some l" "stop = Some e" "str_cmp l e = Greater"
      by (auto split: option.splits)
    show ?thesis
    proof
      assume "in_window after start stop k"
      with le(1,2) have "str_cmp k l \<noteq> Less" "str_cmp k e \<noteq> Greater"
        by (auto simp: in_window_def or_else_def split: option.splits)
      then have "str_cmp l e \<noteq> Greater"
        using str_cmp.cmp_trans [of l k e] str_cmp.cmp_Greater_iff [of l k] by auto
      with le(3) show False by contradiction
    qed
  qed
  have "in_range str_cmp
      (case after of Some a \<Rightarrow> Excluded a | None \<Rightarrow> (case start of Some s \<Rightarrow> Included s | None \<Rightarrow> Unbounded))
      (case stop of None \<Rightarrow> Unbounded | Some e \<Rightarrow> Included e) k = in_window after start stop k" for k
    by (auto simp: in_range_def in_window_def split: option.splits)
  then show ?thesis
    using empty by (auto simp: range_page_def bm_range_def filter_map comp_def filter_empty_conv)
qed

lemma window_resume:
  assumes "in_window after start stop k"
  shows "in_window (Some k) start stop k' \<longleftrightarrow> str_cmp k' k = Greater \<and> in_window after start stop k'"
proof -
  have up: "str_cmp k' a = Greater" if "str_cmp k' k = Greater" "str_cmp k a \<noteq> Less" for a
    using that str_cmp.cmp_le_less_trans [of a k k'] by (simp add: str_cmp.cmp_Greater_iff)
  have "in_window after start stop k'"
    if "str_cmp k' k = Greater" "case stop of Some e \<Rightarrow> str_cmp k' e \<noteq> Greater | None \<Rightarrow> True"
    using assms that up [OF that(1)] by (auto simp: in_window_def split: option.splits)
  then show ?thesis by (auto simp: in_window_def)
qed

lemma resume_shrinks:
  assumes "range_page cursor start stop n index \<noteq> []"
  shows "length (filter (in_window (Some (last (range_page cursor start stop n index))) start stop) (map fst index))
    < length (filter (in_window cursor start stop) (map fst index))"
proof -
  let ?l = "last (range_page cursor start stop n index)"
  have "?l \<in> set (range_page cursor start stop n index)" using assms by simp
  then have l: "?l \<in> set (map fst index)" "in_window cursor start stop ?l"
    unfolding range_page_window by (auto dest: in_set_takeD)
  have "filter (in_window (Some ?l) start stop) (map fst index) =
      filter (\<lambda>k. str_cmp k ?l = Greater) (filter (in_window cursor start stop) (map fst index))"
    unfolding filter_filter using window_resume [OF l(2)] by (intro filter_cong) auto
  also have "length \<dots> < length (filter (in_window cursor start stop) (map fst index))"
    using l by (intro length_filter_less [of ?l]) (auto simp: str_cmp.cmp_refl)
  finally show ?thesis .
qed

function try_for_each_key ::
  "('err, 's) visitor \<Rightarrow> (string \<times> 'e) list \<Rightarrow> string option \<Rightarrow> string option \<Rightarrow> string option \<Rightarrow> 's \<Rightarrow>
   ('err, 's) result" where
  "try_for_each_key visit index cursor start stop st =
     (let chunk = range_page cursor start stop SCAN_CHUNK index
      in if chunk = [] then Ok st
         else (case visit_each visit chunk st of
                 Err e \<Rightarrow> Err e
               | Ok (go, st') \<Rightarrow>
                   if \<not> go then Ok st'
                   else if length chunk < SCAN_CHUNK then Ok st'
                   else try_for_each_key visit index (Some (last chunk)) start stop st'))"
  by pat_completeness auto

termination
  by (relation "measure (\<lambda>(visit, index, cursor, start, stop, st).
        length (filter (in_window cursor start stop) (map fst index)))")
    (auto simp del: length_filter_map intro: resume_shrinks)

declare try_for_each_key.simps [simp del]

fun scan_candidates ::
  "('err, 's) visitor \<Rightarrow> string list \<Rightarrow> string option \<Rightarrow> string option \<Rightarrow> string option \<Rightarrow> 's \<Rightarrow>
   ('err, 's) result" where
  "scan_candidates visit [] after start stop st = Ok st"
| "scan_candidates visit (key # ks) after start stop st =
     (if (case stop of Some e \<Rightarrow> str_cmp key e = Greater | None \<Rightarrow> False) then Ok st
      else if (case after of Some a \<Rightarrow> str_cmp key a \<noteq> Greater | None \<Rightarrow> False) \<or>
              (case start of Some s \<Rightarrow> str_cmp key s = Less | None \<Rightarrow> False)
      then scan_candidates visit ks after start stop st
      else (case visit key st of
              Err e \<Rightarrow> Err e
            | Ok (go, st') \<Rightarrow> if go then scan_candidates visit ks after start stop st' else Ok st'))"

definition scan_for ::
  "('err, 's) visitor \<Rightarrow> (string \<times> 'e) list \<Rightarrow> selection option \<Rightarrow> string option \<Rightarrow> string option \<Rightarrow>
   string option \<Rightarrow> 's \<Rightarrow> ('err, 's) result" where
  "scan_for visit index plan after start stop st =
     (case plan of
        Some chosen \<Rightarrow> scan_candidates visit (sel_keys chosen) after start stop st
      | None \<Rightarrow> try_for_each_key visit index after start stop st)"

section \<open>The collection as its readers see it\<close>

datatype read_error = HandleReleased | ReadFailed string | SortBudgetExceeded nat

record ('n, 'e) reader =
  rd_released :: bool
  rd_index :: "(string \<times> 'e) list"
  rd_indexes :: "'n indexes"
  rd_get :: "string \<Rightarrow> (read_error, 'n jvalue option) result"

definition check_live :: "('n, 'e) reader \<Rightarrow> (read_error, unit) result" where
  "check_live c = (if rd_released c then Err HandleReleased else Ok ())"

definition index_plan :: "'n numbers \<Rightarrow> ('n, 'e) reader \<Rightarrow> 'n filter option \<Rightarrow> selection option" where
  "index_plan as_f64 c flt =
     (case flt of
        None \<Rightarrow> None
      | Some f \<Rightarrow> select as_f64 (rd_indexes c) f (length (rd_index c)))"

definition matched :: "'n numbers \<Rightarrow> 'n filter option \<Rightarrow> 'n jvalue \<Rightarrow> bool" where
  "matched as_f64 flt v = (case flt of None \<Rightarrow> True | Some f \<Rightarrow> matches_filter as_f64 v f)"

subsection \<open>A page in key order\<close>

record 'n page_state =
  ps_items :: "'n sorted_row list"
  ps_last_key :: "string option"
  ps_has_more :: bool
  ps_scanned :: nat

definition query_visit ::
  "'n numbers \<Rightarrow> ('n, 'e) reader \<Rightarrow> 'n filter option \<Rightarrow> nat \<Rightarrow> nat \<Rightarrow> (string \<Rightarrow> bool) \<Rightarrow>
   (read_error, 'n page_state) visitor" where
  "query_visit as_f64 c flt limit budget owned key st =
     (if \<not> owned key then Ok (True, st)
      else if ps_scanned st \<ge> budget then Ok (False, st\<lparr>ps_has_more := True\<rparr>)
      else
        let st = st\<lparr>ps_scanned := ps_scanned st + 1\<rparr>;
            decided = (\<lambda>st. Ok (True, st\<lparr>ps_last_key := Some key\<rparr>))
        in if length (ps_items st) \<ge> limit then
             (case flt of
                None \<Rightarrow> Ok (False, st\<lparr>ps_has_more := True\<rparr>)
              | Some f \<Rightarrow>
                  (case rd_get c key of
                     Err e \<Rightarrow> Err e
                   | Ok None \<Rightarrow> decided st
                   | Ok (Some val) \<Rightarrow>
                       if matches_filter as_f64 val f then Ok (False, st\<lparr>ps_has_more := True\<rparr>) else decided st))
           else
             (case rd_get c key of
                Err e \<Rightarrow> Err e
              | Ok None \<Rightarrow> decided st
              | Ok (Some val) \<Rightarrow>
                  if matched as_f64 flt val
                  then decided (st\<lparr>ps_items := ps_items st @ [\<lparr>row_key = key, row_value = val\<rparr>]\<rparr>)
                  else decided st))"

definition query_page_owned ::
  "'n numbers \<Rightarrow> ('n, 'e) reader \<Rightarrow> string option \<Rightarrow> string option \<Rightarrow> string option \<Rightarrow> 'n filter option \<Rightarrow>
   nat \<Rightarrow> nat \<Rightarrow> (string \<Rightarrow> bool) \<Rightarrow> (read_error, 'n sorted_row list \<times> string option) result" where
  "query_page_owned as_f64 c after start stop flt limit budget owned =
     (case check_live c of
        Err e \<Rightarrow> Err e
      | Ok _ \<Rightarrow>
          (case scan_for (query_visit as_f64 c flt limit budget owned) (rd_index c)
                  (index_plan as_f64 c flt) after start stop
                  \<lparr>ps_items = [], ps_last_key = None, ps_has_more = False, ps_scanned = 0\<rparr> of
             Err e \<Rightarrow> Err e
           | Ok st \<Rightarrow> Ok (ps_items st, if ps_has_more st then ps_last_key st else None)))"

subsection \<open>A sorted page\<close>

record 'n sort_state =
  ss_rows :: "'n sorted_row list"
  ss_matched :: nat
  ss_scanned :: nat

definition sorted_visit ::
  "'n numbers \<Rightarrow> ('n, 'e) reader \<Rightarrow> 'n filter option \<Rightarrow> sort_order \<Rightarrow> 'n sort_cursor option \<Rightarrow> nat \<Rightarrow> nat \<Rightarrow> nat \<Rightarrow>
   (string \<Rightarrow> bool) \<Rightarrow> (read_error, 'n sort_state) visitor" where
  "sorted_visit as_f64 c flt order after keep spill budget owned key st =
     (if \<not> owned key then Ok (True, st)
      else if ss_scanned st \<ge> budget then Err (SortBudgetExceeded budget)
      else
        let st = st\<lparr>ss_scanned := ss_scanned st + 1\<rparr>
        in (case rd_get c key of
              Err e \<Rightarrow> Err e
            | Ok None \<Rightarrow> Ok (True, st)
            | Ok (Some val) \<Rightarrow>
                if \<not> matched as_f64 flt val then Ok (True, st)
                else
                  let row = \<lparr>row_key = key, row_value = val\<rparr>
                  in if (case after of None \<Rightarrow> False | Some cur \<Rightarrow> \<not> is_after as_f64 row cur order)
                     then Ok (True, st)
                     else
                       let rows = ss_rows st @ [row]
                       in Ok (True, st\<lparr>ss_matched := ss_matched st + 1,
                            ss_rows := (if length rows \<ge> spill
                                        then take keep (sort_by (compare_rows as_f64 order) rows)
                                        else rows)\<rparr>)))"

definition sorted_page_owned ::
  "'n numbers \<Rightarrow> ('n, 'e) reader \<Rightarrow> string option \<Rightarrow> string option \<Rightarrow> 'n filter option \<Rightarrow> sort_order \<Rightarrow>
   'n sort_cursor option \<Rightarrow> nat \<Rightarrow> nat \<Rightarrow> (string \<Rightarrow> bool) \<Rightarrow> (read_error, 'n sorted_row list \<times> bool) result" where
  "sorted_page_owned as_f64 c start stop flt order after limit budget owned =
     (case check_live c of
        Err e \<Rightarrow> Err e
      | Ok _ \<Rightarrow>
          let keep = min limit MAX_QUERY_LIMIT;
              spill = max (saturating_mul keep 2) 1
          in (case scan_for (sorted_visit as_f64 c flt order after keep spill budget owned) (rd_index c)
                     (index_plan as_f64 c flt) None start stop
                     \<lparr>ss_rows = [], ss_matched = 0, ss_scanned = 0\<rparr> of
                Err e \<Rightarrow> Err e
              | Ok st \<Rightarrow>
                  Ok (take keep (sort_by (compare_rows as_f64 order) (ss_rows st)), ss_matched st > keep)))"

section \<open>Both walks visit the keys of the window in order\<close>

abbreviation ascending :: "string list \<Rightarrow> bool" where
  "ascending \<equiv> sorted_wrt (\<lambda>a b. str_cmp a b = Less)"

lemma ascending_keys: "bm_sorted str_cmp m \<Longrightarrow> ascending (map fst m)"
  by (simp add: bm_sorted_def sorted_wrt_map)

lemma ascending_unique: "ascending xs \<Longrightarrow> ascending ys \<Longrightarrow> set xs = set ys \<Longrightarrow> xs = ys"
  by (rule sorted_wrt_set_unique [of "\<lambda>a b. str_cmp a b = Less"])
    (auto simp: str_cmp.cmp_Greater_iff [symmetric])

lemma ascending_distinct: "ascending ks \<Longrightarrow> distinct ks"
  by (induction ks) (auto simp: str_cmp.cmp_refl)

lemma distinct_subset_length: "distinct xs \<Longrightarrow> set xs \<subseteq> set ys \<Longrightarrow> length xs \<le> length ys"
  by (metis card_length card_mono distinct_card finite_set le_trans)

lemma visit_each_append:
  "visit_each visit (xs @ ys) st =
     (case visit_each visit xs st of
        Err e \<Rightarrow> Err e
      | Ok (go, st') \<Rightarrow> if go then visit_each visit ys st' else Ok (False, st'))"
  by (induction xs arbitrary: st) (auto split: sum.splits)

lemma ascending_split:
  assumes "ascending (xs @ l # ys)"
  shows "filter (\<lambda>k. str_cmp k l = Greater) (xs @ l # ys) = ys"
proof -
  have "filter (\<lambda>k. str_cmp k l = Greater) xs = []"
    using assms by (auto simp: filter_empty_conv sorted_wrt_append)
  moreover have "filter (\<lambda>k. str_cmp k l = Greater) ys = ys"
    using assms by (auto simp: filter_id_conv sorted_wrt_append str_cmp.cmp_Greater_iff)
  ultimately show ?thesis by (simp add: str_cmp.cmp_refl)
qed

lemma ascending_drop:
  assumes "ascending ks" "take n ks \<noteq> []"
  shows "filter (\<lambda>k. str_cmp k (last (take n ks)) = Greater) ks = drop n ks"
proof -
  define xs l where "xs = butlast (take n ks)" and "l = last (take n ks)"
  have "take n ks = xs @ [l]" unfolding xs_def l_def using assms(2) by (rule append_butlast_last_id [symmetric])
  moreover have "ks = take n ks @ drop n ks" by simp
  ultimately have "ks = xs @ l # drop n ks" by (metis append.assoc append_Cons append_Nil)
  then show ?thesis
    using ascending_split [of xs l "drop n ks"] assms(1) unfolding l_def by metis
qed

lemma try_for_each_key_window:
  assumes "bm_sorted str_cmp index"
  shows "try_for_each_key visit index cursor start stop st =
    map_ok snd (visit_each visit (filter (in_window cursor start stop) (map fst index)) st)"
  using assms
proof (induction visit index cursor start stop st rule: try_for_each_key.induct)
  case (1 visit index cursor start stop st)
  let ?w = "filter (in_window cursor start stop) (map fst index)"
  let ?c = "take SCAN_CHUNK ?w"
  note unfold = try_for_each_key.simps [of visit index cursor start stop st] range_page_window
  show ?case
  proof (cases "?c = []")
    case True
    then have "?w = []" by (auto simp: SCAN_CHUNK_def)
    then show ?thesis by (simp add: unfold)
  next
    case False
    have asc: "ascending ?w" using ascending_keys [OF "1.prems"] by (rule sorted_wrt_filter)
    have "last ?c \<in> set ?w" using False last_in_set in_set_takeD by metis
    then have resume: "filter (in_window (Some (last ?c)) start stop) (map fst index) = drop SCAN_CHUNK ?w"
      unfolding ascending_drop [OF asc False, symmetric] filter_filter
      using window_resume [of cursor start stop "last ?c"] by (intro filter_cong) auto
    have split: "visit_each visit ?w st = (case visit_each visit ?c st of
        Err e \<Rightarrow> Err e
      | Ok (go, st') \<Rightarrow> if go then visit_each visit (drop SCAN_CHUNK ?w) st' else Ok (False, st'))"
      by (metis append_take_drop_id visit_each_append)
    show ?thesis
    proof (cases "visit_each visit ?c st")
      case (Inr b)
      obtain go st' where b: "b = (go, st')" by fastforce
      show ?thesis
      proof (cases "go \<and> \<not> length ?c < SCAN_CHUNK")
        case True
        have "try_for_each_key visit index (Some (last ?c)) start stop st' =
            map_ok snd (visit_each visit (drop SCAN_CHUNK ?w) st')"
          using "1.IH" [OF refl, of b go st'] True False Inr b "1.prems" unfolding range_page_window resume by simp
        with True False Inr b show ?thesis unfolding split by (simp add: unfold)
      next
        case False': False
        then have "go \<Longrightarrow> drop SCAN_CHUNK ?w = []" by auto
        with False' False Inr b show ?thesis unfolding split by (auto simp: unfold)
      qed
    qed (use False in \<open>simp add: unfold split\<close>)
  qed
qed

text \<open>
  The candidate walk checks \<open>start\<close> even when resuming; the range walk lets \<open>after\<close> replace it. They
  agree when the cursor is not below the range.
\<close>

definition cursor_within :: "string option \<Rightarrow> string option \<Rightarrow> bool" where
  "cursor_within after start =
     (case (after, start) of (Some a, Some s) \<Rightarrow> str_cmp s a \<noteq> Greater | _ \<Rightarrow> True)"

lemma past_cursor: "str_cmp s a \<noteq> Greater \<Longrightarrow> str_cmp k a = Greater \<Longrightarrow> str_cmp k s \<noteq> Less"
  using str_cmp.cmp_le_less_trans [of s a k] str_cmp.cmp_Greater_iff [of k a] str_cmp.cmp_Greater_iff [of k s]
  by auto

lemma scan_candidates_window:
  assumes "ascending ks" "cursor_within after start"
  shows "scan_candidates visit ks after start stop st =
    map_ok snd (visit_each visit (filter (in_window after start stop) ks) st)"
  using assms(1)
proof (induction ks arbitrary: st)
  case (Cons k ks)
  let ?beyond = "case stop of Some e \<Rightarrow> str_cmp k e = Greater | None \<Rightarrow> False"
  let ?skip = "(case after of Some a \<Rightarrow> str_cmp k a \<noteq> Greater | None \<Rightarrow> False) \<or>
              (case start of Some s \<Rightarrow> str_cmp k s = Less | None \<Rightarrow> False)"
  show ?case
  proof (cases ?beyond)
    case True
    then obtain e where e: "stop = Some e" "str_cmp e k = Less"
      by (auto split: option.splits simp: str_cmp.cmp_Greater_iff)
    have "str_cmp x e = Greater" if "x \<in> set (k # ks)" for x
      using Cons.prems that e(2) str_cmp.cmp_less_trans [of e k x] by (auto simp: str_cmp.cmp_Greater_iff)
    then have "filter (in_window after start stop) (k # ks) = []"
      unfolding filter_empty_conv in_window_def by (simp add: e(1))
    with True show ?thesis by simp
  next
    case False
    have "?skip \<longleftrightarrow> \<not> in_window after start stop k"
      using False assms(2) past_cursor
      by (cases after; cases start; cases stop) (auto simp: in_window_def cursor_within_def)
    with False Cons show ?thesis by (simp split: sum.splits prod.splits)
  qed
qed simp

section \<open>What a scan answers\<close>

text \<open>The reference answer: the owned rows among \<open>ks\<close> that match, in the order of \<open>ks\<close>.\<close>

definition row_of ::
  "'n numbers \<Rightarrow> (string \<rightharpoonup> 'n jvalue) \<Rightarrow> 'n filter option \<Rightarrow> (string \<Rightarrow> bool) \<Rightarrow> string \<Rightarrow> 'n sorted_row option" where
  "row_of F docs flt owned k =
     (case docs k of
        Some v \<Rightarrow> if owned k \<and> matched F flt v then Some \<lparr>row_key = k, row_value = v\<rparr> else None
      | None \<Rightarrow> None)"

definition rows_of ::
  "'n numbers \<Rightarrow> (string \<rightharpoonup> 'n jvalue) \<Rightarrow> 'n filter option \<Rightarrow> (string \<Rightarrow> bool) \<Rightarrow> string list \<Rightarrow> 'n sorted_row list" where
  "rows_of F docs flt owned ks = List.map_filter (row_of F docs flt owned) ks"

lemma rows_of_simps [simp]:
  "rows_of F docs flt owned [] = []"
  "rows_of F docs flt owned (k # ks) =
     (case row_of F docs flt owned k of None \<Rightarrow> [] | Some r \<Rightarrow> [r]) @ rows_of F docs flt owned ks"
  by (auto simp: rows_of_def List.map_filter_simps split: option.splits)

lemma rows_of_append [simp]:
  "rows_of F docs flt owned (xs @ ys) = rows_of F docs flt owned xs @ rows_of F docs flt owned ys"
  by (induction xs) auto

lemma row_of_unowned: "\<not> owned k \<Longrightarrow> row_of F docs flt owned k = None"
  by (simp add: row_of_def split: option.splits)

lemma rows_of_unowned: "\<forall>k\<in>set ks. \<not> owned k \<Longrightarrow> rows_of F docs flt owned ks = []"
  by (induction ks) (auto simp: row_of_def split: option.splits)

lemma rows_of_filter:
  "(\<And>k. k \<in> set ks \<Longrightarrow> row_of F docs flt owned k \<noteq> None \<Longrightarrow> P k) \<Longrightarrow>
   rows_of F docs flt owned (filter P ks) = rows_of F docs flt owned ks"
  by (induction ks) (auto split: option.splits)

text \<open>A reader over a snapshot: reads succeed and return \<open>docs\<close>, and ready indexes answer for it.\<close>

definition snapshot :: "'n numbers \<Rightarrow> ('n, 'e) reader \<Rightarrow> (string \<rightharpoonup> 'n jvalue) \<Rightarrow> bool" where
  "snapshot F c docs =
     (\<not> rd_released c \<and> bm_sorted str_cmp (rd_index c) \<and> fst ` set (rd_index c) = dom docs \<and>
      (\<forall>k. rd_get c k = Ok (docs k)) \<and> ix_ok F docs (rd_indexes c))"

definition filter_utf8 :: "'n filter option \<Rightarrow> bool" where
  "filter_utf8 flt = (\<forall>f. flt = Some f \<longrightarrow> (\<forall>(path, cond)\<in>set (conjuncts f). cond_utf8 cond))"

definition window_keys :: "('n, 'e) reader \<Rightarrow> string option \<Rightarrow> string option \<Rightarrow> string option \<Rightarrow> string list" where
  "window_keys c after start stop = filter (in_window after start stop) (map fst (rd_index c))"

text \<open>
  Every query path walks some key list whose matching rows are those of the whole window: the
  planner may change which keys are read, never which rows are found.
\<close>

lemma scan_for_snapshot:
  fixes visit :: "('err, 's) visitor"
  assumes "finite_numbers F" "snapshot F c docs" "filter_utf8 flt" "cursor_within after start"
  obtains ks where "ascending ks" "set ks \<subseteq> set (window_keys c after start stop)"
    "rows_of F docs flt owned ks = rows_of F docs flt owned (window_keys c after start stop)"
    "\<And>l. rows_of F docs flt owned (filter (\<lambda>k. str_cmp k l = Greater) ks) =
        rows_of F docs flt owned (filter (\<lambda>k. str_cmp k l = Greater) (window_keys c after start stop))"
    "\<And>visit :: ('err, 's) visitor. \<And>st. scan_for visit (rd_index c) (index_plan F c flt) after start stop st
       = map_ok snd (visit_each visit ks st)"
proof (cases "index_plan F c flt")
  case None
  have sorted: "bm_sorted str_cmp (rd_index c)" using assms(2) by (simp add: snapshot_def)
  have "ascending (window_keys c after start stop)"
    unfolding window_keys_def using ascending_keys [OF sorted] by (rule sorted_wrt_filter)
  then show ?thesis
  proof (rule that)
    show "set (window_keys c after start stop) \<subseteq> set (window_keys c after start stop)" ..
    show "scan_for visit (rd_index c) (index_plan F c flt) after start stop st =
        map_ok snd (visit_each visit (window_keys c after start stop) st)" for visit :: "('err, 's) visitor" and st
      by (simp add: scan_for_def None try_for_each_key_window [OF sorted] window_keys_def)
  qed (rule refl)+
next
  case (Some sel)
  then obtain f where f: "flt = Some f" "select F (rd_indexes c) f (length (rd_index c)) = Some sel"
    by (auto simp: index_plan_def split: option.splits)
  have ok: "ix_ok F docs (rd_indexes c)" "bm_sorted str_cmp (rd_index c)" "fst ` set (rd_index c) = dom docs"
    using assms(2) by (simp_all add: snapshot_def)
  note complete = select_covers [OF assms(1) ok(1) f(2)]
  have utf8: "\<forall>(path, cond)\<in>set (conjuncts f). cond_utf8 cond"
    using assms(3) f(1) by (simp add: filter_utf8_def)
  let ?ks = "filter (in_window after start stop) (sel_keys sel)"
  have asc: "ascending ?ks" "ascending (window_keys c after start stop)"
    using complete [OF utf8] ascending_keys [OF ok(2)] by (auto simp: window_keys_def intro: sorted_wrt_filter)
  let ?P = "\<lambda>k. row_of F docs flt owned k \<noteq> None"
  have hit: "k \<in> set (sel_keys sel)" if "?P k" for k
    using that complete [OF utf8] f(1) by (auto simp: row_of_def matched_def split: option.splits if_splits)
  have live: "k \<in> dom docs" if "?P k" for k
    using that by (auto simp: row_of_def split: option.splits)
  have same: "filter (\<lambda>k. Q k \<and> ?P k) ?ks = filter (\<lambda>k. Q k \<and> ?P k) (window_keys c after start stop)" for Q
  proof (rule ascending_unique [OF sorted_wrt_filter [OF asc(1)] sorted_wrt_filter [OF asc(2)]])
    show "set (filter (\<lambda>k. Q k \<and> ?P k) ?ks) = set (filter (\<lambda>k. Q k \<and> ?P k) (window_keys c after start stop))"
      using hit live ok(3) unfolding window_keys_def by auto
  qed
  have rows: "rows_of F docs flt owned (filter Q ?ks) =
      rows_of F docs flt owned (filter Q (window_keys c after start stop))" for Q
    using same [of Q] rows_of_filter [where P = ?P and ks = "filter Q ?ks" and F = F and docs = docs and flt = flt and owned = owned]
      rows_of_filter [where P = ?P and ks = "filter Q (window_keys c after start stop)" and F = F and docs = docs and flt = flt and owned = owned]
    by simp
  show ?thesis
  proof (rule that [OF asc(1) _ _ rows])
    show "rows_of F docs flt owned ?ks = rows_of F docs flt owned (window_keys c after start stop)"
      using rows [of "\<lambda>_. True"] by simp
    show "scan_for visit (rd_index c) (index_plan F c flt) after start stop st =
        map_ok snd (visit_each visit ?ks st)" for visit :: "('err, 's) visitor" and st
      using scan_candidates_window [OF _ assms(4), of "sel_keys sel"] complete [OF utf8]
      by (simp add: scan_for_def Some)
    show "set ?ks \<subseteq> set (window_keys c after start stop)"
      using complete [OF utf8] ok(3) by (auto simp: window_keys_def)
  qed
qed

section \<open>Pages in key order\<close>

lemma query_visit_cases:
  assumes "rd_get c k = Ok (docs k)"
  obtains (skip) "\<not> owned k" "query_visit F c flt limit budget owned k st = Ok (True, st)"
  | (halt) st' where "owned k" "budget \<le> ps_scanned st \<or> limit \<le> length (ps_items st)"
      "query_visit F c flt limit budget owned k st = Ok (False, st')" "ps_items st' = ps_items st"
      "ps_last_key st' = ps_last_key st" "ps_has_more st'"
  | (take_row) st' where "owned k" "query_visit F c flt limit budget owned k st = Ok (True, st')"
      "ps_items st' = ps_items st @ rows_of F docs flt owned [k]"
      "length (ps_items st) \<le> limit \<Longrightarrow> length (ps_items st') \<le> limit"
      "ps_last_key st' = Some k" "ps_has_more st' = ps_has_more st" "ps_scanned st' = ps_scanned st + 1"
proof -
  note defs = query_visit_def Let_def assms row_of_def matched_def
  consider "\<not> owned k" | "owned k" "budget \<le> ps_scanned st"
    | "owned k" "\<not> budget \<le> ps_scanned st" "limit \<le> length (ps_items st)"
    | "owned k" "\<not> budget \<le> ps_scanned st" "\<not> limit \<le> length (ps_items st)" by blast
  then show ?thesis
  proof cases
    case 1
    then show ?thesis by (intro skip) (simp_all add: query_visit_def)
  next
    case 2
    then show ?thesis by (intro halt [of "st\<lparr>ps_has_more := True\<rparr>"]) (simp_all add: query_visit_def)
  next
    case 3
    show ?thesis
    proof (cases "\<exists>f. flt = Some f \<and> (\<forall>v. docs k = Some v \<longrightarrow> \<not> matches_filter F v f)")
      case True
      then obtain f where f: "flt = Some f" "\<forall>v. docs k = Some v \<longrightarrow> \<not> matches_filter F v f" by blast
      show ?thesis
        by (rule take_row [of "st\<lparr>ps_scanned := ps_scanned st + 1, ps_last_key := Some k\<rparr>"])
          (use 3 f in \<open>auto simp: defs split: option.splits\<close>)
    next
      case False
      then have "flt = None \<or> (\<exists>f v. flt = Some f \<and> docs k = Some v \<and> matches_filter F v f)"
        by (cases flt) auto
      then show ?thesis
        by (intro halt [of "st\<lparr>ps_scanned := ps_scanned st + 1, ps_has_more := True\<rparr>"])
          (use 3 in \<open>auto simp: defs\<close>)
    qed
  next
    case 4
    show ?thesis
      by (rule take_row [of "st\<lparr>ps_scanned := ps_scanned st + 1, ps_last_key := Some k,
            ps_items := ps_items st @ rows_of F docs flt owned [k]\<rparr>"])
        (use 4 in \<open>auto simp: defs split: option.splits\<close>)
  qed
qed

definition last_owned :: "(string \<Rightarrow> bool) \<Rightarrow> string list \<Rightarrow> string option \<Rightarrow> string option" where
  "last_owned owned pre d = (if filter owned pre = [] then d else Some (last (filter owned pre)))"

text \<open>What a walk over \<open>ks\<close> leaves: the rows of a prefix, and where it ended.\<close>

definition page_outcome where
  "page_outcome F docs flt limit budget owned ks st pre post st' =
     (ks = pre @ post \<and> ps_items st' = ps_items st @ rows_of F docs flt owned pre \<and>
      (ps_has_more st' \<longleftrightarrow> ps_has_more st \<or> post \<noteq> []) \<and>
      ps_last_key st' = last_owned owned pre (ps_last_key st) \<and>
      (length (ps_items st) \<le> limit \<longrightarrow> length (ps_items st') \<le> limit) \<and>
      (post \<noteq> [] \<longrightarrow> budget \<le> ps_scanned st + length (filter owned pre) \<or> limit \<le> length (ps_items st')))"

lemma query_walk:
  assumes "\<forall>k. rd_get c k = Ok (docs k)"
  shows "\<exists>pre post st' go. visit_each (query_visit F c flt limit budget owned) ks st = Ok (go, st') \<and>
    page_outcome F docs flt limit budget owned ks st pre post st'"
proof (induction ks arbitrary: st)
  case Nil
  show ?case by (auto simp: page_outcome_def last_owned_def)
next
  case (Cons k ks)
  have get: "rd_get c k = Ok (docs k)" using assms by simp
  from get show ?case
  proof (cases rule: query_visit_cases [where docs = docs and c = c and k = k and owned = owned and F = F
        and flt = flt and limit = limit and budget = budget and st = st, consumes 1, case_names skip halt take_row])
    case skip
    moreover from Cons.IH [of st] obtain pre post st' go where
      "visit_each (query_visit F c flt limit budget owned) ks st = Ok (go, st')"
      "page_outcome F docs flt limit budget owned ks st pre post st'" by blast
    ultimately have "visit_each (query_visit F c flt limit budget owned) (k # ks) st = Ok (go, st') \<and>
        page_outcome F docs flt limit budget owned (k # ks) st (k # pre) post st'"
      by (auto simp: page_outcome_def last_owned_def row_of_unowned)
    then show ?thesis by blast
  next
    case (halt st')
    then have "visit_each (query_visit F c flt limit budget owned) (k # ks) st = Ok (False, st') \<and>
        page_outcome F docs flt limit budget owned (k # ks) st [] (k # ks) st'"
      by (simp add: page_outcome_def last_owned_def; blast)
    then show ?thesis by blast
  next
    case (take_row st1)
    moreover from Cons.IH [of st1] obtain pre post st' go where
      "visit_each (query_visit F c flt limit budget owned) ks st1 = Ok (go, st')"
      "page_outcome F docs flt limit budget owned ks st1 pre post st'" by blast
    ultimately have "visit_each (query_visit F c flt limit budget owned) (k # ks) st = Ok (go, st') \<and>
        page_outcome F docs flt limit budget owned (k # ks) st (k # pre) post st'"
      by (auto simp: page_outcome_def last_owned_def)
    then show ?thesis by blast
  qed
qed

lemma last_owned_split:
  assumes "filter owned pre \<noteq> []"
  obtains xs ys where "pre = xs @ last (filter owned pre) # ys" "\<forall>y\<in>set ys. \<not> owned y"
proof -
  from assms have "\<exists>x\<in>set pre. owned x" by (auto simp: filter_empty_conv)
  from split_list_last_prop [OF this] obtain xs x ys where
    *: "pre = xs @ x # ys" "owned x" "\<forall>y\<in>set ys. \<not> owned y" by blast
  then have "last (filter owned pre) = x" by (simp add: filter_empty_conv)
  with * that [of xs ys] show ?thesis by simp
qed

lemma rows_after_last_owned:
  assumes "ascending (pre @ post)" "filter owned pre \<noteq> []"
  shows "rows_of F docs flt owned (filter (\<lambda>k. str_cmp k (last (filter owned pre)) = Greater) (pre @ post)) =
    rows_of F docs flt owned post"
proof -
  from last_owned_split [OF assms(2)] obtain xs ys where
    pre: "pre = xs @ last (filter owned pre) # ys" and un: "\<forall>y\<in>set ys. \<not> owned y" .
  define l where "l = last (filter owned pre)"
  have "filter (\<lambda>k. str_cmp k l = Greater) (pre @ post) = ys @ post"
    using ascending_split [of xs l "ys @ post"] assms(1) pre unfolding l_def by (metis append.assoc append_Cons)
  then show ?thesis unfolding l_def by (simp add: rows_of_unowned [OF un])
qed

lemma window_keys_resume:
  "in_window after start stop l \<Longrightarrow>
   window_keys c (Some l) start stop = filter (\<lambda>k. str_cmp k l = Greater) (window_keys c after start stop)"
  unfolding window_keys_def filter_filter by (intro filter_cong) (auto simp: window_resume)

lemma query_page_snapshot:
  assumes "finite_numbers F" "snapshot F c docs" "filter_utf8 flt" "cursor_within after start"
    and "0 < limit" "0 < budget"
  obtains items nxt where "query_page_owned F c after start stop flt limit budget owned = Ok (items, nxt)"
    "length items \<le> limit"
    "nxt = None \<Longrightarrow> rows_of F docs flt owned (window_keys c after start stop) = items"
    "\<And>l. nxt = Some l \<Longrightarrow> l \<in> set (window_keys c after start stop) \<and>
       rows_of F docs flt owned (window_keys c after start stop) =
         items @ rows_of F docs flt owned (window_keys c (Some l) start stop)"
proof -
  let ?st = "\<lparr>ps_items = [], ps_last_key = None, ps_has_more = False, ps_scanned = 0\<rparr> :: 'a page_state"
  from scan_for_snapshot [OF assms(1-4), where owned = owned and stop = stop and ?'s = "'a page_state" and ?'err = read_error]
  obtain ks where ks: "ascending ks" "set ks \<subseteq> set (window_keys c after start stop)"
    and rows: "rows_of F docs flt owned ks = rows_of F docs flt owned (window_keys c after start stop)"
      "\<And>l. rows_of F docs flt owned (filter (\<lambda>k. str_cmp k l = Greater) ks) =
        rows_of F docs flt owned (filter (\<lambda>k. str_cmp k l = Greater) (window_keys c after start stop))"
    and scan: "\<And>visit :: (read_error, 'a page_state) visitor. \<And>st.
       scan_for visit (rd_index c) (index_plan F c flt) after start stop st = map_ok snd (visit_each visit ks st)"
    by metis
  have "\<forall>k. rd_get c k = Ok (docs k)" "\<not> rd_released c" using assms(2) by (simp_all add: snapshot_def)
  with query_walk [of c docs F flt limit budget owned ks ?st] obtain pre post st' go where
    walk: "visit_each (query_visit F c flt limit budget owned) ks ?st = Ok (go, st')"
    and out: "page_outcome F docs flt limit budget owned ks ?st pre post st'" by blast
  let ?nxt = "if ps_has_more st' then ps_last_key st' else None"
  have page: "query_page_owned F c after start stop flt limit budget owned = Ok (ps_items st', ?nxt)"
    using \<open>\<not> rd_released c\<close> by (simp add: query_page_owned_def check_live_def scan walk)
  have items: "ks = pre @ post" "ps_items st' = rows_of F docs flt owned pre" "length (ps_items st') \<le> limit"
    "ps_has_more st' \<longleftrightarrow> post \<noteq> []" "ps_last_key st' = last_owned owned pre None"
    using out by (auto simp: page_outcome_def)
  have "filter owned pre \<noteq> []" if "post \<noteq> []"
  proof
    assume none: "filter owned pre = []"
    then have "rows_of F docs flt owned pre = []" by (intro rows_of_unowned) (simp add: filter_empty_conv)
    with none that out assms(5,6) show False by (auto simp: page_outcome_def)
  qed
  then have nxt: "?nxt = (if post = [] then None else Some (last (filter owned pre)))"
    "post \<noteq> [] \<Longrightarrow> filter owned pre \<noteq> []"
    by (auto simp: items last_owned_def)
  show ?thesis
  proof (rule that [OF page items(3)])
    show "rows_of F docs flt owned (window_keys c after start stop) = ps_items st'" if "?nxt = None"
      using that nxt items rows(1) by (auto split: if_splits)
    fix l assume l: "?nxt = Some l"
    with nxt have post: "post \<noteq> []" "l = last (filter owned pre)" "filter owned pre \<noteq> []"
      by (auto split: if_splits)
    then have l_in: "l \<in> set (window_keys c after start stop)"
      using last_in_set [of "filter owned pre"] ks(2) items(1) by auto
    then have win: "in_window after start stop l" by (simp add: window_keys_def)
    have "rows_of F docs flt owned (window_keys c (Some l) start stop) = rows_of F docs flt owned post"
      unfolding window_keys_resume [OF win]
      using rows(2) [of l] rows_after_last_owned [of pre post owned F docs flt] ks(1) post items(1) by simp
    with l_in show "l \<in> set (window_keys c after start stop) \<and> rows_of F docs flt owned (window_keys c after start stop) =
        ps_items st' @ rows_of F docs flt owned (window_keys c (Some l) start stop)"
      using rows(1) items by simp
  qed
qed

lemma cursor_within_resume:
  assumes "cursor_within after start" "in_window after start stop l"
  shows "cursor_within (Some l) start"
proof -
  have "str_cmp s l \<noteq> Greater" if "str_cmp s a \<noteq> Greater" "str_cmp l a = Greater" for s a
    using past_cursor [OF that] str_cmp.cmp_Greater_iff [of s l] by simp
  then show ?thesis
    using assms by (auto simp: cursor_within_def in_window_def str_cmp.cmp_Greater_iff split: option.splits)
qed


text \<open>A client following the cursors to the end, at most \<open>n\<close> requests.\<close>

fun drain :: "(string option \<Rightarrow> (read_error, 'n sorted_row list \<times> string option) result) \<Rightarrow> nat \<Rightarrow>
    string option \<Rightarrow> 'n sorted_row list option" where
  "drain page 0 after = None"
| "drain page (Suc n) after =
     (case page after of
        Err e \<Rightarrow> None
      | Ok (items, None) \<Rightarrow> Some items
      | Ok (items, Some l) \<Rightarrow> map_option (\<lambda>r. items @ r) (drain page n (Some l)))"

lemma drain_complete:
  assumes "finite_numbers F" "snapshot F c docs" "filter_utf8 flt" "0 < limit" "0 < budget"
  shows "cursor_within after start \<Longrightarrow> length (window_keys c after start stop) \<le> n \<Longrightarrow>
    drain (\<lambda>after. query_page_owned F c after start stop flt limit budget owned) (Suc n) after =
      Some (rows_of F docs flt owned (window_keys c after start stop))"
proof (induction n arbitrary: after rule: less_induct)
  case (less n)
  from query_page_snapshot [OF assms(1-3) less.prems(1) assms(4,5), of stop owned] obtain items nxt where
    page: "query_page_owned F c after start stop flt limit budget owned = Ok (items, nxt)"
    and none: "nxt = None \<Longrightarrow> rows_of F docs flt owned (window_keys c after start stop) = items"
    and some: "\<And>l. nxt = Some l \<Longrightarrow> l \<in> set (window_keys c after start stop) \<and>
       rows_of F docs flt owned (window_keys c after start stop) =
         items @ rows_of F docs flt owned (window_keys c (Some l) start stop)" by metis
  show ?case
  proof (cases nxt)
    case (Some l)
    then have l: "l \<in> set (window_keys c after start stop)" "in_window after start stop l"
      using some by (auto simp: window_keys_def)
    have "length (window_keys c (Some l) start stop) < length (window_keys c after start stop)"
      unfolding window_keys_resume [OF l(2)]
      using l(1) by (intro length_filter_less [of l]) (simp_all add: str_cmp.cmp_refl)
    with less.prems(2) obtain m where m: "n = Suc m" "length (window_keys c (Some l) start stop) \<le> m"
      by (cases n) auto
    from less.IH [OF _ cursor_within_resume [OF less.prems(1) l(2)] m(2)] m(1) some [OF Some] page Some
    show ?thesis by simp
  qed (use page none in simp)
qed

text \<open>
  C25. Following the cursors from page to page ends, after at most one request per key and one more,
  and yields every owned matching row of the range exactly once and in key order.
\<close>

theorem paging_is_exhaustive:
  assumes "finite_numbers as_f64" "snapshot as_f64 c docs" "filter_utf8 flt" "0 < limit" "0 < budget"
  shows "drain (\<lambda>after. query_page_owned as_f64 c after start stop flt limit budget owned)
      (Suc (length (rd_index c))) None =
    Some (rows_of as_f64 docs flt owned (window_keys c None start stop))"
  using drain_complete [OF assms, of None start stop "length (rd_index c)" owned]
  by (simp add: cursor_within_def window_keys_def le_trans [OF length_filter_le])

section \<open>Sorted pages\<close>

definition past :: "'n numbers \<Rightarrow> sort_order \<Rightarrow> 'n sort_cursor option \<Rightarrow> 'n sorted_row \<Rightarrow> bool" where
  "past F order after row = (case after of None \<Rightarrow> True | Some cur \<Rightarrow> is_after F row cur order)"

lemma sorted_walk:
  fixes st :: "'n sort_state" and after :: "'n sort_cursor option" and flt :: "'n filter option"
  assumes "finite_numbers F" "\<forall>k. rd_get c k = Ok (docs k)"
    and "ss_scanned st + length (filter owned ks) \<le> budget"
    and "\<forall>ys. take keep (sort_by (compare_rows F order) (ss_rows st @ ys)) =
      take keep (sort_by (compare_rows F order) (seen @ ys))"
  defines "found \<equiv> filter (past F order after) (rows_of F docs flt owned ks)"
  shows "\<exists>st'. visit_each (sorted_visit F c flt order after keep spill budget owned) ks st = Ok (True, st') \<and>
    ss_matched st' = ss_matched st + length found \<and>
    (\<forall>ys. take keep (sort_by (compare_rows F order) (ss_rows st' @ ys)) =
      take keep (sort_by (compare_rows F order) (seen @ found @ ys)))"
  using assms(3,4) unfolding found_def
proof (induction ks arbitrary: st seen)
  case (Cons k ks)
  let ?cmp = "compare_rows F order"
  note laws = compare_rows_preorder [OF assms(1), of order]
  let ?new = "filter (past F order after) (rows_of F docs flt owned [k])"
  have "\<exists>st1. sorted_visit F c flt order after keep spill budget owned k st = Ok (True, st1) \<and>
      ss_matched st1 = ss_matched st + length ?new \<and>
      ss_scanned st1 = ss_scanned st + (if owned k then 1 else 0) \<and>
      (\<forall>ys. take keep (sort_by ?cmp (ss_rows st1 @ ys)) = take keep (sort_by ?cmp (seen @ ?new @ ys)))"
  proof (cases "?new = []")
    case True
    then show ?thesis
      using Cons.prems assms(2)
      by (auto simp: sorted_visit_def row_of_def past_def Let_def split: option.splits if_splits)
  next
    case False
    then obtain v where v: "docs k = Some v" "owned k" "matched F flt v"
      and p: "past F order after \<lparr>row_key = k, row_value = v\<rparr>"
      by (auto simp: row_of_def split: option.splits if_splits)
    let ?row = "\<lparr>row_key = k, row_value = v\<rparr>"
    let ?rows = "ss_rows st @ [?row]"
    have new: "?new = [?row]" using v p by (simp add: row_of_def)
    have "take keep (sort_by ?cmp (?rows @ ys)) = take keep (sort_by ?cmp (seen @ ?row # ys))" for ys
      using Cons.prems(2) by simp
    then have "take keep (sort_by ?cmp ((if length ?rows \<ge> spill then take keep (sort_by ?cmp ?rows) else ?rows) @ ys))
        = take keep (sort_by ?cmp (seen @ ?row # ys))" for ys
      by (simp add: cmp_preorder.take_sort_by_prefix [OF laws])
    then show ?thesis
      unfolding new using Cons.prems(1) assms(2) v p by (simp add: sorted_visit_def past_def Let_def split: option.splits)
  qed
  then obtain st1 where st1: "sorted_visit F c flt order after keep spill budget owned k st = Ok (True, st1)"
    "ss_matched st1 = ss_matched st + length ?new" "ss_scanned st1 = ss_scanned st + (if owned k then 1 else 0)"
    "\<forall>ys. take keep (sort_by ?cmp (ss_rows st1 @ ys)) = take keep (sort_by ?cmp ((seen @ ?new) @ ys))"
    by auto
  have "ss_scanned st1 + length (filter owned ks) \<le> budget" using Cons.prems(1) st1(3) by (simp split: if_splits)
  from Cons.IH [OF this st1(4)] st1(1,2) show ?case by fastforce
qed simp

lemma sorted_page_snapshot:
  fixes after :: "'n sort_cursor option" and limit :: nat and order :: sort_order
  assumes "finite_numbers F" "snapshot F c docs" "filter_utf8 flt"
    and "length (filter owned (window_keys c None start stop)) \<le> budget"
  defines "found \<equiv> filter (past F order after) (rows_of F docs flt owned (window_keys c None start stop))"
    and "keep \<equiv> min limit MAX_QUERY_LIMIT"
  shows "sorted_page_owned F c start stop flt order after limit budget owned =
    Ok (take keep (sort_by (compare_rows F order) found), keep < length found)"
proof -
  let ?st = "\<lparr>ss_rows = [], ss_matched = 0, ss_scanned = 0\<rparr> :: 'n sort_state"
  have "cursor_within None start" by (simp add: cursor_within_def)
  from scan_for_snapshot [OF assms(1-3) this, where owned = owned and stop = stop and ?'s = "'n sort_state" and ?'err = read_error]
  obtain ks where ks: "ascending ks" "set ks \<subseteq> set (window_keys c None start stop)"
    and rows: "rows_of F docs flt owned ks = rows_of F docs flt owned (window_keys c None start stop)"
    and scan: "\<And>visit :: (read_error, 'n sort_state) visitor. \<And>st.
       scan_for visit (rd_index c) (index_plan F c flt) None start stop st = map_ok snd (visit_each visit ks st)"
    by metis
  have live: "\<forall>k. rd_get c k = Ok (docs k)" "\<not> rd_released c" using assms(2) by (simp_all add: snapshot_def)
  have "distinct (filter owned ks)" using ks(1) by (simp add: ascending_distinct)
  then have "length (filter owned ks) \<le> length (filter owned (window_keys c None start stop))"
    using ks(2) by (intro distinct_subset_length) auto
  then have "ss_scanned ?st + length (filter owned ks) \<le> budget" using assms(4) by simp
  from sorted_walk [where keep = keep and order = order and seen = "[]" and after = after and flt = flt
      and spill = "max (saturating_mul keep 2) 1", OF assms(1) live(1) this]
  obtain st' where "visit_each (sorted_visit F c flt order after keep (max (saturating_mul keep 2) 1) budget owned) ks ?st = Ok (True, st')"
    "ss_matched st' = length found"
    "take keep (sort_by (compare_rows F order) (ss_rows st')) = take keep (sort_by (compare_rows F order) found)"
    unfolding found_def rows by (auto dest: spec [of _ "[]"])
  then show ?thesis
    using live(2) by (simp add: sorted_page_owned_def check_live_def scan Let_def keep_def)
qed


section \<open>The two walks disagree on a cursor below the range\<close>

text \<open>
  With a cursor below \<open>start\<close>, the range walk lets the cursor replace the lower bound and visits the
  keys in between; the candidate walk applies both. The planner then does change which rows come back.
\<close>

lemma cursor_below_range_differs:
  "window_keys \<lparr>rd_released = False, rd_index = ex_docs, rd_indexes = [], rd_get = \<lambda>k. Ok (map_of ex_docs k)\<rparr>
      (Some ''Z'') (Some ''b'') None = [''a'', ''b'']"
  "scan_candidates (\<lambda>k ks. Ok (True, ks @ [k]) :: (read_error, bool \<times> string list) result)
      [''a'', ''b''] (Some ''Z'') (Some ''b'') None [] = Ok [''b'']"
  by (simp_all add: window_keys_def in_window_def ex_docs_def str_cmp_def cmp_char_def cmp_lin_def)

section \<open>The properties at concrete inputs\<close>

definition ex_reader :: "(int, int jvalue) reader" where
  "ex_reader = \<lparr>rd_released = False, rd_index = ex_docs, rd_indexes = ex_ix, rd_get = \<lambda>k. Ok (map_of ex_docs k)\<rparr>"

lemma ex_snapshot: "snapshot int_f64 ex_reader (map_of ex_docs)"
  using ex_ix_ok by (simp add: snapshot_def ex_reader_def dom_map_of_conv_image_fst) (simp add: ex_docs_def str_cmp_ab)

lemma ex_utf8: "filter_utf8 (Some (age_is n))"
  by (simp add: filter_utf8_def cond_utf8_def)

lemma ex_rows: "rows_of int_f64 (map_of ex_docs) (Some (age_is 2)) (\<lambda>_. True) (window_keys ex_reader None None None) =
  [\<lparr>row_key = ''b'', row_value = ex_doc 2\<rparr>]"
  by (simp add: window_keys_def ex_reader_def ex_docs_def in_window_def row_of_def matched_def)


theorem paging_is_exhaustive_witness:
  "drain (\<lambda>after. query_page_owned int_f64 ex_reader after None None (Some (age_is 2)) 1 1 (\<lambda>_. True))
      (Suc (length (rd_index ex_reader))) None = Some [\<lparr>row_key = ''b'', row_value = ex_doc 2\<rparr>]"
  using paging_is_exhaustive [OF finite_int_f64 ex_snapshot ex_utf8 [of 2], of 1 1 None None "\<lambda>_. True"]
  unfolding ex_rows by simp


end
