(* ===== verification/Index_Build.thy ===== *)
theory Index_Build
  imports Scan
begin

text \<open>
  \<^verbatim>\<open>Collection::build_pending_indexes\<close> beside live writes. The builder reads a page of keys, reads
  their documents one at a time without a lock, and files them under the lock; commits are applied
  in between. A run is a state machine whose steps are the critical sections: the builder's
  deterministic steps, and what \<^verbatim>\<open>apply_committed\<close> does to the index and its secondary indexes.
\<close>

datatype 'n build_phase =
    Paging "string option"
  | Reading "string list" "string list" "(string \<times> 'n jvalue) list"
  | Finishing
  | Stopped

record 'n build_run =
  br_docs :: "(string \<times> 'n jvalue) list"
  br_ixs :: "'n indexes"
  br_phase :: "'n build_phase"

text \<open>One step of the run for the definition \<open>(name, field)\<close>.\<close>

definition builder_step :: "'n numbers \<Rightarrow> string \<Rightarrow> string \<Rightarrow> 'n build_run \<Rightarrow> 'n build_run" where
  "builder_step as_f64 name field s =
     (case br_phase s of
        Paging cursor \<Rightarrow>
          let chunk = range_page cursor None None BUILD_CHUNK (br_docs s)
          in if chunk = [] then s\<lparr>br_phase := Finishing\<rparr>
             else s\<lparr>br_phase := Reading chunk chunk []\<rparr>
      | Reading chunk (key # todo) rows \<Rightarrow>
          s\<lparr>br_phase := Reading chunk todo
              (rows @ (case bm_get str_cmp (br_docs s) key of Some doc \<Rightarrow> [(key, doc)] | None \<Rightarrow> []))\<rparr>
      | Reading chunk [] rows \<Rightarrow>
          (case absorb_build as_f64 name field rows (br_ixs s) of
             (filed_rows, ixs) \<Rightarrow>
               s\<lparr>br_ixs := ixs,
                 br_phase := (if \<not> filed_rows then Stopped
                              else if length chunk < BUILD_CHUNK then Finishing
                              else Paging (Some (last chunk)))\<rparr>)
      | Finishing \<Rightarrow> s\<lparr>br_ixs := finish_build name field (br_ixs s), br_phase := Stopped\<rparr>
      | Stopped \<Rightarrow> s)"

text \<open>What a committed entry does to the documents and the indexes.\<close>

definition commit_put :: "'n numbers \<Rightarrow> index_spec list \<Rightarrow> string \<Rightarrow> 'n jvalue \<Rightarrow> 'n build_run \<Rightarrow> 'n build_run" where
  "commit_put as_f64 specs key doc s =
     s\<lparr>br_docs := bm_insert str_cmp key doc (br_docs s),
       br_ixs := ix_put as_f64 key (index_values specs doc) (br_ixs s)\<rparr>"

definition commit_remove :: "'n numbers \<Rightarrow> string \<Rightarrow> 'n build_run \<Rightarrow> 'n build_run" where
  "commit_remove as_f64 key s =
     s\<lparr>br_docs := bm_remove str_cmp key (br_docs s), br_ixs := ix_remove as_f64 key (br_ixs s)\<rparr>"

definition commit_clear :: "'n build_run \<Rightarrow> 'n build_run" where
  "commit_clear s = s\<lparr>br_docs := [], br_ixs := ix_clear_all (br_ixs s)\<rparr>"

definition commit_define :: "index_change \<Rightarrow> 'n build_run \<Rightarrow> 'n build_run" where
  "commit_define change s = s\<lparr>br_ixs := ix_apply_change change (br_ixs s)\<rparr>"

text \<open>\<open>allowed\<close> holds of the definition changes that may commit during the run.\<close>

inductive build_step ::
  "'n numbers \<Rightarrow> string \<Rightarrow> string \<Rightarrow> (index_change \<Rightarrow> bool) \<Rightarrow> 'n build_run \<Rightarrow> 'n build_run \<Rightarrow> bool"
  for as_f64 name field allowed where
  build: "build_step as_f64 name field allowed s (builder_step as_f64 name field s)"
| give_up: "build_step as_f64 name field allowed s (s\<lparr>br_phase := Stopped\<rparr>)"
| put: "describes specs (br_ixs s) \<Longrightarrow>
    build_step as_f64 name field allowed s (commit_put as_f64 specs key doc s)"
| remove: "build_step as_f64 name field allowed s (commit_remove as_f64 key s)"
| clear: "build_step as_f64 name field allowed s (commit_clear s)"
| define_index: "allowed change \<Longrightarrow> build_step as_f64 name field allowed s (commit_define change s)"

section \<open>The run's invariant\<close>

abbreviation docs_of :: "'n build_run \<Rightarrow> string \<rightharpoonup> 'n jvalue" where
  "docs_of s \<equiv> map_of (br_docs s)"

text \<open>Key \<open>k\<close> needs no further work: it was filed by the build, or a live write took it over.\<close>

definition settled :: "(string \<rightharpoonup> 'n jvalue) \<Rightarrow> 'n secondary_index \<Rightarrow> string set \<Rightarrow> string \<Rightarrow> bool" where
  "settled docs si touched k = (k \<in> touched \<or> filed si k = want (si_field si) docs k)"

fun progress :: "(string \<rightharpoonup> 'n jvalue) \<Rightarrow> 'n secondary_index \<Rightarrow> string set \<Rightarrow> 'n build_phase \<Rightarrow> bool" where
  "progress docs si touched (Paging None) = True"
| "progress docs si touched (Paging (Some c)) =
     (\<forall>k\<in>dom docs. str_cmp k c \<noteq> Greater \<longrightarrow> settled docs si touched k)"
| "progress docs si touched (Reading chunk todo rows) =
     (chunk \<noteq> [] \<and>
      (\<forall>(k, d)\<in>set rows. k \<in> touched \<or> docs k = Some d) \<and>
      (\<forall>k\<in>dom docs. length chunk < BUILD_CHUNK \<or> str_cmp k (last chunk) \<noteq> Greater \<longrightarrow>
         settled docs si touched k \<or> k \<in> set todo \<or> k \<in> fst ` set rows))"
| "progress docs si touched Finishing = (\<forall>k\<in>dom docs. settled docs si touched k)"
| "progress docs si touched Stopped = True"

definition run_inv :: "'n numbers \<Rightarrow> string \<Rightarrow> string \<Rightarrow> 'n build_run \<Rightarrow> bool" where
  "run_inv F name field s =
     (bm_sorted str_cmp (br_docs s) \<and> ix_ok F (docs_of s) (br_ixs s) \<and>
      (\<forall>si touched. map_of (br_ixs s) name = Some si \<longrightarrow> si_field si = field \<longrightarrow>
         si_state si = Building touched \<longrightarrow> progress (docs_of s) si touched (br_phase s)))"

lemma absorb_rows:
  assumes "finite_numbers F" "si_ok F docs si" "si_state si = Building touched" "si_field si = field"
    and "\<forall>(k, d)\<in>set rows. k \<in> touched \<or> docs k = Some d"
  defines "si' \<equiv> foldl (absorb_row F field touched) si rows"
  shows "si_ok F docs si' \<and> si_state si' = Building touched \<and> si_field si' = field \<and>
    (\<forall>k. settled docs si touched k \<or> k \<in> fst ` set rows \<longrightarrow> settled docs si' touched k)"
  using assms(2-5) unfolding si'_def
proof (induction rows arbitrary: si)
  case (Cons row rows)
  obtain k d where row: "row = (k, d)" by fastforce
  let ?si = "absorb_row F field touched si (k, d)"
  have "si_ok F docs ?si \<and> si_state ?si = Building touched \<and> si_field ?si = field \<and>
      (\<forall>k'. settled docs si touched k' \<or> k' = k \<longrightarrow> settled docs ?si touched k')"
  proof (cases "k \<in> touched")
    case True
    with Cons.prems show ?thesis by (auto simp: absorb_row_def settled_def)
  next
    case False
    then have d: "docs k = Some d" using Cons.prems(4) by (auto simp: row)
    then have w: "want field docs k = get_path_value d field" by (simp add: want_def)
    show ?thesis
    proof (cases "get_path_value d field")
      case None
      with Cons.prems(1-3) w have "filed si k = None" by (auto simp: si_ok_def dest: spec [of _ k])
      with None Cons.prems w False show ?thesis by (auto simp: absorb_row_def settled_def)
    next
      case (Some v)
      then have "?si = si_file F k v si" using False by (simp add: absorb_row_def)
      with Some Cons.prems w si_inv_file [OF assms(1), of si k v] show ?thesis
        by (auto simp: settled_def si_ok_def)
    qed
  qed
  with Cons.IH [of ?si] Cons.prems(4) show ?case by (auto simp: row)
qed simp

lemma si_building_field [simp]: "si_field (si_building f) = f"
  by (simp add: si_building_def)

lemma run_invD:
  assumes "run_inv F name field s"
  shows "bm_sorted str_cmp (br_docs s)" "ix_ok F (docs_of s) (br_ixs s)"
    "map_of (br_ixs s) name = Some si \<Longrightarrow> si_field si = field \<Longrightarrow> si_state si = Building touched \<Longrightarrow>
     progress (docs_of s) si touched (br_phase s)"
  using assms by (auto simp: run_inv_def)

lemma take_covers:
  assumes "ascending w" "k \<in> set w" "take n w \<noteq> []"
    and "length (take n w) < n \<or> str_cmp k (last (take n w)) \<noteq> Greater"
  shows "k \<in> set (take n w)"
proof (rule ccontr)
  assume "k \<notin> set (take n w)"
  moreover have "k \<in> set (take n w @ drop n w)" using assms(2) by simp
  ultimately have "k \<in> set (drop n w)" by (simp del: append_take_drop_id)
  moreover from this have "\<not> length (take n w) < n" by auto
  ultimately show False
    using assms(4) unfolding ascending_drop [OF assms(1,3), symmetric] by simp
qed

lemma progress_page:
  fixes docs :: "(string \<times> 'n jvalue) list"
  assumes "progress (map_of docs) si touched (Paging cursor)" "bm_sorted str_cmp docs"
  defines "chunk \<equiv> range_page cursor None None BUILD_CHUNK docs"
  shows "progress (map_of docs) si touched (if chunk = [] then Finishing else Reading chunk chunk [])"
proof -
  let ?w = "filter (in_window cursor None None) (map fst docs)"
  have chunk: "chunk = take BUILD_CHUNK ?w" unfolding chunk_def range_page_window ..
  have asc: "ascending ?w" using ascending_keys [OF assms(2)] by (rule sorted_wrt_filter)
  have key: "settled (map_of docs) si touched k \<or> k \<in> set ?w" if "k \<in> dom (map_of docs)" for k
    using that assms(1) by (cases cursor) (auto simp: in_window_def dom_map_of_conv_image_fst)
  show ?thesis
  proof (cases "chunk = []")
    case True
    then have "?w = []" by (auto simp: chunk BUILD_CHUNK_def)
    with True key show ?thesis by auto
  next
    case False
    have "k \<in> set chunk" if "k \<in> set ?w" "length chunk < BUILD_CHUNK \<or> str_cmp k (last chunk) \<noteq> Greater" for k
      using take_covers [OF asc, of k BUILD_CHUNK] that False unfolding chunk by blast
    with False key show ?thesis by auto
  qed
qed

lemma progress_read:
  assumes "progress docs si touched (Reading chunk (key # todo) rows)"
  shows "progress docs si touched
    (Reading chunk todo (rows @ (case docs key of Some doc \<Rightarrow> [(key, doc)] | None \<Rightarrow> [])))"
  using assms by (cases "docs key") auto

lemma run_inv_absorb:
  assumes "finite_numbers F" "run_inv F name field s" "br_phase s = Reading chunk [] rows"
  shows "run_inv F name field (builder_step F name field s)"
proof (cases "\<exists>si touched. map_of (br_ixs s) name = Some si \<and> si_field si = field \<and> si_state si = Building touched")
  case True
  then obtain si touched where si: "map_of (br_ixs s) name = Some si" "si_field si = field"
    "si_state si = Building touched" by blast
  let ?si = "foldl (absorb_row F field touched) si rows"
  have prog: "progress (docs_of s) si touched (Reading chunk [] rows)"
    using run_invD(3) [OF assms(2) si] assms(3) by simp
  then have new: "si_ok F (docs_of s) ?si" "si_state ?si = Building touched" "si_field ?si = field"
    "\<forall>k. settled (docs_of s) si touched k \<or> k \<in> fst ` set rows \<longrightarrow> settled (docs_of s) ?si touched k"
    using absorb_rows [OF assms(1) ix_ok_get [OF run_invD(2) [OF assms(2)] si(1)] si(3,2), of rows] by auto
  have "absorb_build F name field rows (br_ixs s) = (True, bm_insert str_cmp name ?si (br_ixs s))"
    using si by (simp add: absorb_build_def)
  then have step: "builder_step F name field s = s\<lparr>br_ixs := bm_insert str_cmp name ?si (br_ixs s),
      br_phase := (if length chunk < BUILD_CHUNK then Finishing else Paging (Some (last chunk)))\<rparr>"
    by (simp add: builder_step_def assms(3))
  have "progress (docs_of s) ?si touched (if length chunk < BUILD_CHUNK then Finishing else Paging (Some (last chunk)))"
    using prog new(4) by (cases "length chunk < BUILD_CHUNK") (simp; blast)+
  then show ?thesis
    using run_invD(1,2) [OF assms(2)] new(1,2) by (auto simp: run_inv_def step ix_ok_insert)
next
  case False
  then have "absorb_build F name field rows (br_ixs s) = (False, br_ixs s)"
    by (auto simp: absorb_build_def split: option.splits build_state.splits)
  then show ?thesis
    using assms(2) by (simp add: run_inv_def builder_step_def assms(3))
qed

lemma run_inv_finish:
  assumes "run_inv F name field s" "br_phase s = Finishing"
  shows "run_inv F name field (builder_step F name field s)"
proof (cases "\<exists>si. map_of (br_ixs s) name = Some si \<and> si_field si = field \<and> \<not> is_ready si")
  case True
  then obtain si where i: "map_of (br_ixs s) name = Some si" "si_field si = field" "\<not> is_ready si" by blast
  then obtain touched where "si_state si = Building touched" by (cases "si_state si") (auto simp: is_ready_def)
  note si = i(1,2) this
  have ok: "si_ok F (docs_of s) si" by (rule ix_ok_get [OF run_invD(2) [OF assms(1)] si(1)])
  have "filed si k = want field (docs_of s) k" for k
  proof (cases "k \<in> dom (docs_of s)")
    case True
    then have "settled (docs_of s) si touched k" using run_invD(3) [OF assms(1) si] assms(2) by simp
    then show ?thesis using ok si by (auto simp: settled_def si_ok_def dest: spec [of _ k])
  next
    case False
    then have "want field (docs_of s) k = None" by (auto simp: want_def split: option.splits)
    then show ?thesis using ok si by (auto simp: si_ok_def dest: spec [of _ k])
  qed
  then have "si_ok F (docs_of s) (si\<lparr>si_state := Ready\<rparr>)"
    using ok si(2) by (auto simp: si_ok_def si_inv_def posted_def)
  then show ?thesis
    using run_invD(1,2) [OF assms(1)] True si
    by (auto simp: run_inv_def builder_step_def assms(2) finish_build_def ix_ok_insert)
next
  case False
  then have "finish_build name field (br_ixs s) = br_ixs s"
    by (auto simp: finish_build_def split: option.splits)
  then show ?thesis using assms(1) by (simp add: run_inv_def builder_step_def assms(2))
qed

lemma build_preserves:
  assumes "finite_numbers F" "run_inv F name field s"
  shows "run_inv F name field (builder_step F name field s)"
proof (cases "br_phase s")
  case (Paging cursor)
  let ?chunk = "range_page cursor None None BUILD_CHUNK (br_docs s)"
  from Paging have "builder_step F name field s =
      s\<lparr>br_phase := (if ?chunk = [] then Finishing else Reading ?chunk ?chunk [])\<rparr>"
    by (simp add: builder_step_def Let_def)
  with Paging show ?thesis
    using progress_page [OF _ run_invD(1) [OF assms(2)]] assms(2) by (simp add: run_inv_def del: progress.simps)
next
  case (Reading chunk todo rows)
  then show ?thesis
  proof (cases todo)
    case (Cons key todo')
    with Reading progress_read [of "docs_of s" _ _ chunk key todo' rows] assms(2) show ?thesis
      by (auto simp: run_inv_def builder_step_def simp del: progress.simps)
  qed (use Reading run_inv_absorb [OF assms] in simp)
next
  case Finishing
  then show ?thesis using run_inv_finish [OF assms(2)] by simp
next
  case Stopped
  then show ?thesis using assms(2) by (simp add: builder_step_def)
qed

section \<open>Commits during the run\<close>

lemma settled_write:
  "settled docs si touched k' \<Longrightarrow> settled (docs(k := d)) (si_write F k val si) (insert k touched) k'"
  by (auto simp: settled_def want_upd)

lemma progress_write:
  assumes "progress docs si touched phase"
  shows "progress (docs(k := d)) (si_write F k val si) (insert k touched) phase"
proof -
  let ?settled = "settled (docs(k := d)) (si_write F k val si) (insert k touched)"
  have self: "?settled k" by (simp add: settled_def)
  have keep: "?settled k' \<or> P" if "k' \<in> dom (docs(k := d))" "k' \<in> dom docs \<Longrightarrow> settled docs si touched k' \<or> P" for k' P
    using that self settled_write [of docs si touched k' k d F val] by (cases "k' = k") (auto split: if_splits)
  show ?thesis
  proof (cases phase)
    case (Paging cursor)
    then show ?thesis using assms keep [where P = False] by (cases cursor) auto
  next
    case (Reading chunk todo rows)
    have "?settled k' \<or> (k' \<in> set todo \<or> k' \<in> fst ` set rows)"
      if "k' \<in> dom (docs(k := d))" "length chunk < BUILD_CHUNK \<or> str_cmp k' (last chunk) \<noteq> Greater" for k'
      using that assms by (intro keep) (auto simp: Reading)
    with assms show ?thesis by (auto simp: Reading)
  next
    case Finishing
    then show ?thesis using assms keep [where P = False] by auto
  qed simp
qed

lemma map_of_write:
  "map_of (map (\<lambda>(name, si). (name, f si)) m) n = map_option f (map_of m n)"
  by (induction m) auto

lemma run_inv_write:
  assumes "finite_numbers F" "run_inv F name field s" "bm_sorted str_cmp docs'" "map_of docs' = (docs_of s)(k := d)"
    and "ixs' = map (\<lambda>(n, si). (n, si_write F k (Option.bind d (\<lambda>doc. get_path_value doc (si_field si))) si)) (br_ixs s)"
    and "ix_ok F ((docs_of s)(k := d)) ixs'"
  shows "run_inv F name field (s\<lparr>br_docs := docs', br_ixs := ixs'\<rparr>)"
proof -
  have "progress ((docs_of s)(k := d)) si' touched' (br_phase s)"
    if "map_of ixs' name = Some si'" "si_field si' = field" "si_state si' = Building touched'" for si' touched'
  proof -
    let ?val = "\<lambda>si. Option.bind d (\<lambda>doc. get_path_value doc (si_field si))"
    from that(1) obtain si where si: "map_of (br_ixs s) name = Some si" "si' = si_write F k (?val si) si"
      unfolding assms(5) by (auto simp: map_of_write [where f = "\<lambda>si. si_write F k (?val si) si"])
    with that obtain touched where "si_state si = Building touched" "touched' = insert k touched" "si_field si = field"
      by (auto split: build_state.splits)
    with si run_invD(3) [OF assms(2) si(1)] show ?thesis by (simp add: progress_write)
  qed
  then show ?thesis using assms(3,4,6) by (simp add: run_inv_def)
qed

lemma run_inv_put:
  assumes "finite_numbers F" "run_inv F name field s" "describes specs (br_ixs s)"
  shows "run_inv F name field (commit_put F specs k doc s)"
  unfolding commit_put_def
  using run_invD(1,2) [OF assms(2)] ix_ok_put [OF assms(1) run_invD(2) [OF assms(2)] assms(3)]
  by (intro run_inv_write [OF assms(1,2), where k = k and d = "Some doc"])
    (simp_all add: str_cmp.bm_sorted_insert ix_put_write [OF assms(3)])

lemma run_inv_remove:
  assumes "finite_numbers F" "run_inv F name field s"
  shows "run_inv F name field (commit_remove F k s)"
  unfolding commit_remove_def
  using run_invD(1,2) [OF assms(2)] ix_ok_remove [OF assms(1) run_invD(2) [OF assms(2)], of k]
  by (intro run_inv_write [OF assms(1,2), where k = k and d = None])
    (simp_all add: bm_sorted_remove ix_remove_write)

lemma run_inv_clear: "run_inv F name field (commit_clear s)"
  by (simp add: commit_clear_def run_inv_def ix_clear_all_def ix_ok_def)

lemma run_inv_define:
  assumes "run_inv F name field s" "change \<noteq> CreateIndex \<lparr>is_name = name, is_field = field\<rparr>"
  shows "run_inv F name field (commit_define change s)"
proof (cases change)
  case (CreateIndex spec)
  with assms(2) have "is_name spec = name \<longrightarrow> is_field spec \<noteq> field" by (cases spec) auto
  with assms(1) CreateIndex show ?thesis
    by (auto simp: run_inv_def commit_define_def ix_ok_insert split: if_splits)
next
  case (DropIndex n)
  have "ix_ok F (docs_of s) (bm_remove str_cmp n (br_ixs s))"
    using run_invD(2) [OF assms(1)] by (auto simp: ix_ok_def bm_sorted_remove bm_remove_def)
  with assms(1) DropIndex show ?thesis by (auto simp: run_inv_def commit_define_def split: if_splits)
qed

lemma build_step_inv:
  assumes "finite_numbers F" "\<not> allowed (CreateIndex \<lparr>is_name = name, is_field = field\<rparr>)"
    and "build_step F name field allowed s t" "run_inv F name field s"
  shows "run_inv F name field t"
  using assms(3)
proof (cases rule: build_step.cases)
  case give_up
  then show ?thesis using assms(4) by (simp add: run_inv_def)
next
  case (define_index change)
  then have "change \<noteq> CreateIndex \<lparr>is_name = name, is_field = field\<rparr>" using assms(2) by auto
  with define_index(1) run_inv_define [OF assms(4)] show ?thesis by simp
qed (use assms(1,4) build_preserves run_inv_put run_inv_remove run_inv_clear in \<open>simp_all\<close>)

lemma build_steps_inv:
  assumes "finite_numbers F" "\<not> allowed (CreateIndex \<lparr>is_name = name, is_field = field\<rparr>)"
    and "(build_step F name field allowed)\<^sup>*\<^sup>* s t" "run_inv F name field s"
  shows "run_inv F name field t"
  using assms(3,4) by (induction rule: rtranclp_induct) 
    (auto intro: build_step_inv [where allowed = allowed and name = name and field = field, OF assms(1,2)])

text \<open>
  C13. Building an index beside live traffic: however the builder's page reads, document reads and
  filings interleave with committed puts, deletes, drops and definition changes, an index marked
  ready files exactly the current documents -- provided the definition being built is not created
  again while the run is in flight. In particular no write made during the build is lost or undone.
\<close>

theorem concurrent_build_exact:
  assumes "finite_numbers as_f64" "\<not> allowed (CreateIndex \<lparr>is_name = name, is_field = field\<rparr>)"
    and "bm_sorted str_cmp (br_docs s)" "ix_ok as_f64 (docs_of s) (br_ixs s)" "br_phase s = Paging None"
    and "(build_step as_f64 name field allowed)\<^sup>*\<^sup>* s t"
    and "map_of (br_ixs t) n = Some si" "is_ready si"
  shows "filed si k = want (si_field si) (docs_of t) k \<and> si_inv as_f64 si"
proof -
  have "run_inv as_f64 name field s" using assms(3-5) by (auto simp: run_inv_def)
  from build_steps_inv [where allowed = allowed and name = name and field = field, OF assms(1,2,6) this]
  have "si_ok as_f64 (docs_of t) si" using ix_ok_get [OF run_invD(2) assms(7)] by blast
  then show ?thesis using assms(8) by (auto simp: si_ok_def is_ready_def split: build_state.splits)
qed

section \<open>Creating the definition again during the run\<close>

definition ex_spec :: index_spec where "ex_spec = \<lparr>is_name = ''i'', is_field = ''age''\<rparr>"

text \<open>One document, and an index defined over it but not yet built.\<close>

definition ex_start :: "int build_run" where
  "ex_start = \<lparr>br_docs = [(''b'', ex_doc 2)], br_ixs = ix_seed [ex_spec], br_phase = Paging None\<rparr>"

abbreviation ex_builder :: "int build_run \<Rightarrow> int build_run" where
  "ex_builder \<equiv> builder_step int_f64 ''i'' ''age''"

text \<open>The run up to its last filing, and the two ways it can go on.\<close>

definition ex_filed :: "int build_run" where
  "ex_filed = ex_builder (ex_builder (ex_builder ex_start))"

definition ex_rebuilt :: "int build_run" where
  "ex_rebuilt = ex_builder (commit_define (CreateIndex ex_spec) (commit_define (DropIndex ''i'') ex_filed))"

lemma ex_filed_eval: "ex_filed = \<lparr>br_docs = [(''b'', ex_doc 2)],
  br_ixs = [(''i'', \<lparr>si_field = ''age'', si_postings = [(JNumber 2, [(''b'', ())])],
     si_keys = [(''b'', JNumber 2)], si_state = Building {}\<rparr>)], br_phase = Finishing\<rparr>"
  by (simp add: ex_filed_def ex_start_def builder_step_def ix_seed_def ex_spec_def si_building_def
      range_page_window in_window_def BUILD_CHUNK_def absorb_build_def absorb_row_def si_file_def
      si_unfile_def bs_insert_def Let_def str_cmp.cmp_refl)

lemma ex_rebuilt_eval: "ex_rebuilt = \<lparr>br_docs = [(''b'', ex_doc 2)],
  br_ixs = [(''i'', \<lparr>si_field = ''age'', si_postings = [], si_keys = [], si_state = Ready\<rparr>)], br_phase = Stopped\<rparr>"
  by (simp add: ex_rebuilt_def ex_filed_eval commit_define_def builder_step_def finish_build_def is_ready_def
      ex_spec_def si_building_def bm_remove_def str_cmp.cmp_refl Let_def)

lemma run_then:
  assumes "(build_step F name field allowed)\<^sup>*\<^sup>* s t"
  shows "(build_step F name field allowed)\<^sup>*\<^sup>* s (builder_step F name field t)"
    "allowed change \<Longrightarrow> (build_step F name field allowed)\<^sup>*\<^sup>* s (commit_define change t)"
    "describes specs (br_ixs t) \<Longrightarrow> (build_step F name field allowed)\<^sup>*\<^sup>* s (commit_put F specs key doc t)"
  using assms by (auto intro: rtranclp.rtrancl_into_rtrancl build_step.intros)

lemma ex_rebuilt_reachable: "(build_step int_f64 ''i'' ''age'' (\<lambda>_. True))\<^sup>*\<^sup>* ex_start ex_rebuilt"
  unfolding ex_rebuilt_def ex_filed_def
  by (intro run_then rtranclp.rtrancl_refl) simp_all

text \<open>
  The provision in \<open>concurrent_build_exact\<close> is needed. Dropping the index and creating it again with
  the same name and field between the last filing and \<^verbatim>\<open>finish_build\<close> installs a fresh, empty index
  that the old run, which identifies its target by name and field alone, then marks ready: a query
  planned on it finds nothing although a document matches.
\<close>

lemma recreated_index_loses_rows:
  "(build_step int_f64 ''i'' ''age'' (\<lambda>_. True))\<^sup>*\<^sup>* ex_start ex_rebuilt \<and>
   ix_ok int_f64 (docs_of ex_start) (br_ixs ex_start) \<and>
   matches_filter int_f64 (the (docs_of ex_rebuilt ''b'')) (age_is 2) \<and>
   select int_f64 (br_ixs ex_rebuilt) (age_is 2) (length (br_docs ex_rebuilt)) =
     Some \<lparr>sel_index = ''i'', sel_field = ''age'', sel_keys = []\<rparr>"
proof (intro conjI)
  show "ix_ok int_f64 (docs_of ex_start) (br_ixs ex_start)" by (simp add: ex_start_def)
  show "matches_filter int_f64 (the (docs_of ex_rebuilt ''b'')) (age_is 2)" by (simp add: ex_rebuilt_eval)
  show "select int_f64 (br_ixs ex_rebuilt) (age_is 2) (length (br_docs ex_rebuilt)) =
     Some \<lparr>sel_index = ''i'', sel_field = ''age'', sel_keys = []\<rparr>"
    by (simp add: ex_rebuilt_eval select_def best_plan_def consider_index_def is_ready_def probe_for_def count_def
        List.map_filter_simps bs_of_list_def bs_insert_def ALWAYS_WORTH_IT_def)
qed (rule ex_rebuilt_reachable)

section \<open>The property at a concrete run\<close>

text \<open>A write lands after the builder read the document it replaces.\<close>

definition ex_raced :: "int build_run" where
  "ex_raced = ex_builder (ex_builder (commit_put int_f64 [ex_spec] ''b'' (ex_doc 7) (ex_builder (ex_builder ex_start))))"

lemma ex_raced_eval: "ex_raced = \<lparr>br_docs = [(''b'', ex_doc 7)],
  br_ixs = [(''i'', \<lparr>si_field = ''age'', si_postings = [(JNumber 7, [(''b'', ())])],
     si_keys = [(''b'', JNumber 7)], si_state = Ready\<rparr>)], br_phase = Stopped\<rparr>"
  by (simp add: ex_raced_def ex_start_def builder_step_def ix_seed_def ex_spec_def si_building_def commit_put_def
      range_page_window in_window_def BUILD_CHUNK_def absorb_build_def absorb_row_def si_file_def finish_build_def
      si_unfile_def bs_insert_def ix_put_def note_touched_def index_values_def List.map_filter_simps is_ready_def
      str_cmp.cmp_refl Let_def)

lemma ex_raced_reachable:
  "(build_step int_f64 ''i'' ''age'' (\<lambda>change. change \<noteq> CreateIndex ex_spec))\<^sup>*\<^sup>* ex_start ex_raced"
proof -
  have "describes [ex_spec] (br_ixs (ex_builder (ex_builder ex_start)))"
    by (simp add: ex_start_def builder_step_def ix_seed_def ex_spec_def si_building_def
        range_page_window in_window_def BUILD_CHUNK_def describes_def Let_def)
  then show ?thesis
    unfolding ex_raced_def
    by (intro run_then rtranclp.rtrancl_refl) simp_all
qed

theorem concurrent_build_exact_witness:
  "filed (the (map_of (br_ixs ex_raced) ''i'')) ''b'' = Some (JNumber 7)"
proof -
  have "\<not> CreateIndex \<lparr>is_name = ''i'', is_field = ''age''\<rparr> \<noteq> CreateIndex ex_spec" by (simp add: ex_spec_def)
  from concurrent_build_exact [where allowed = "\<lambda>change. change \<noteq> CreateIndex ex_spec", OF finite_int_f64 this _ _ _ ex_raced_reachable,
      of "''i''" "the (map_of (br_ixs ex_raced) ''i'')" "''b''"]
  show ?thesis
    by (simp add: ex_start_def) (simp add: ex_raced_eval is_ready_def want_def)
qed

end
