(* ===== verification/Util.thy ===== *)
theory Util
  imports Utf8
begin

unbundle bit_operations_syntax

text \<open>
  \<^verbatim>\<open>src/src/util.rs\<close>: the endpoint of a URL and the identity of a node, path segment escaping, and
  the base64 codec frames and cursors travel in. The file-system retries are I/O and left out.
\<close>

section \<open>Endpoints\<close>

text \<open>\<^verbatim>\<open>str::split_once\<close> at a two character separator.\<close>

fun split_once2 :: "char \<Rightarrow> char \<Rightarrow> string \<Rightarrow> (string \<times> string) option" where
  "split_once2 a b (x # y # s) =
     (if x = a \<and> y = b then Some ([], s)
      else map_option (\<lambda>(p, r). (x # p, r)) (split_once2 a b (y # s)))"
| "split_once2 a b s = None"

definition endpoint_of :: "string \<Rightarrow> string" where
  "endpoint_of url =
     (let authority = (case split_once2 CHR ''/'' CHR ''/'' url of None \<Rightarrow> url | Some (_, rest) \<Rightarrow> rest)
      in takeWhile (\<lambda>c. c \<notin> {CHR ''/'', CHR ''?'', CHR ''#''}) authority)"

definition same_endpoint :: "string \<Rightarrow> string \<Rightarrow> bool" where
  "same_endpoint a b = eq_ignore_ascii_case (endpoint_of a) (endpoint_of b)"

definition node_key :: "string \<Rightarrow> string" where
  "node_key url = to_ascii_lowercase (endpoint_of url)"

fun cmp_lower :: "string \<Rightarrow> string \<Rightarrow> ordering option" where
  "cmp_lower (x # xs) (y # ys) =
     (case cmp_char (lower_char x) (lower_char y) of
        Equal \<Rightarrow> cmp_lower xs ys
      | unequal \<Rightarrow> Some unequal)"
| "cmp_lower xs ys = None"

definition cmp_endpoint :: "string \<Rightarrow> string \<Rightarrow> ordering" where
  "cmp_endpoint a b =
     (let a = endpoint_of a; b = endpoint_of b
      in case cmp_lower a b of Some unequal \<Rightarrow> unequal | None \<Rightarrow> cmp_lin (length a) (length b))"

section \<open>Path segments\<close>

definition unreserved :: "char \<Rightarrow> bool" where
  "unreserved b =
     (ascii_upper b \<or> ascii_lower b \<or> ascii_digit b \<or> b \<in> {CHR ''-'', CHR ''.'', CHR ''_'', CHR ''~''})"

definition hex_digit :: "nat \<Rightarrow> char" where
  "hex_digit n = (if n < 10 then char_of (48 + n) else char_of (55 + n))"

definition encode_byte :: "char \<Rightarrow> string" where
  "encode_byte b =
     (if unreserved b then [b]
      else [CHR ''%'', hex_digit (of_char b div 16), hex_digit (of_char b mod 16)])"

definition encode_path_segment :: "string \<Rightarrow> string" where
  "encode_path_segment segment = concat (map encode_byte segment)"

section \<open>Base64\<close>

definition STANDARD :: string where
  "STANDARD = ''ABCDEFGHIJKLMNOPQRSTUVWXYZabcdefghijklmnopqrstuvwxyz0123456789+/''"

definition URL_SAFE :: string where
  "URL_SAFE = ''ABCDEFGHIJKLMNOPQRSTUVWXYZabcdefghijklmnopqrstuvwxyz0123456789-_''"

definition combine :: "u8 \<Rightarrow> u8 \<Rightarrow> u8 \<Rightarrow> u32" where
  "combine b0 b1 b2 = push_bit 16 (ucast b0) OR push_bit 8 (ucast b1) OR ucast b2"

definition sextet :: "string \<Rightarrow> nat \<Rightarrow> u32 \<Rightarrow> char" where
  "sextet alphabet shift combined = alphabet ! unat (drop_bit shift combined AND 0x3F)"

fun encode_with :: "u8 list \<Rightarrow> string \<Rightarrow> string" where
  "encode_with [] alphabet = []"
| "encode_with [b0] alphabet =
     (let c = combine b0 0 0 in [sextet alphabet 18 c, sextet alphabet 12 c, CHR ''='', CHR ''=''])"
| "encode_with [b0, b1] alphabet =
     (let c = combine b0 b1 0
      in [sextet alphabet 18 c, sextet alphabet 12 c, sextet alphabet 6 c, CHR ''=''])"
| "encode_with (b0 # b1 # b2 # rest) alphabet =
     (let c = combine b0 b1 b2
      in [sextet alphabet 18 c, sextet alphabet 12 c, sextet alphabet 6 c, sextet alphabet 0 c]
         @ encode_with rest alphabet)"

definition base64_encode :: "u8 list \<Rightarrow> string" where
  "base64_encode input = encode_with input STANDARD"

definition base64_encode_url :: "u8 list \<Rightarrow> string" where
  "base64_encode_url input = encode_with input URL_SAFE"

text \<open>The value of one character, by its code point.\<close>

definition sextet_value :: "nat \<Rightarrow> u32 option" where
  "sextet_value c =
     (if 65 \<le> c \<and> c \<le> 90 then Some (of_nat (c - 65))
      else if 97 \<le> c \<and> c \<le> 122 then Some (of_nat (c - 97 + 26))
      else if 48 \<le> c \<and> c \<le> 57 then Some (of_nat (c - 48 + 52))
      else if c = 43 \<or> c = 45 then Some 62
      else if c = 47 \<or> c = 95 then Some 63
      else None)"

fun decode_chars :: "nat list \<Rightarrow> u8 list \<Rightarrow> u32 \<Rightarrow> nat \<Rightarrow> (nat, u8 list) result" where
  "decode_chars [] result buf bits = Ok result"
| "decode_chars (c # cs) result buf bits =
     (case sextet_value c of
        None \<Rightarrow> Err c
      | Some val \<Rightarrow>
          let buf = push_bit 6 buf OR val; bits = bits + 6
          in if bits \<ge> 8
             then decode_chars cs (result @ [ucast (drop_bit (bits - 8) buf)])
                    (buf AND (push_bit (bits - 8) 1 - 1)) (bits - 8)
             else decode_chars cs result buf bits)"

definition trim_end_matches :: "char \<Rightarrow> string \<Rightarrow> string" where
  "trim_end_matches c s = rev (dropWhile (\<lambda>x. x = c) (rev s))"

definition base64_decode :: "string \<Rightarrow> (nat, u8 list) result" where
  "base64_decode input = decode_chars (chars (trim_end_matches CHR ''='' input)) [] 0 0"

section \<open>Node identity\<close>

lemma same_endpoint_node_key: "same_endpoint a b \<longleftrightarrow> node_key a = node_key b"
  by (simp add: same_endpoint_def node_key_def eq_ignore_ascii_case_def)

lemma same_endpoint_refl [simp]: "same_endpoint a a"
  and same_endpoint_sym: "same_endpoint a b \<longleftrightarrow> same_endpoint b a"
  by (auto simp: same_endpoint_node_key)

lemma cmp_lower_cmp:
  "(case cmp_lower a b of Some u \<Rightarrow> u | None \<Rightarrow> cmp_lin (length a) (length b)) =
   str_cmp (to_ascii_lowercase a) (to_ascii_lowercase b)"
  unfolding str_cmp_def to_ascii_lowercase_def
  by (induction a b rule: cmp_lower.induct) (auto split: ordering.splits option.splits simp: cmp_lin_def)

lemma cmp_endpoint_node_key: "cmp_endpoint a b = str_cmp (node_key a) (node_key b)"
  by (simp add: cmp_endpoint_def node_key_def Let_def cmp_lower_cmp)

text \<open>
  One node, one identity: the sameness test, the map key and the sort order agree, so a node
  spelled two ways is never two nodes to one of them and one to another.
\<close>

theorem node_identity_agrees:
  "(same_endpoint a b \<longleftrightarrow> node_key a = node_key b) \<and> (cmp_endpoint a b = Equal \<longleftrightarrow> same_endpoint a b)"
  by (simp add: same_endpoint_node_key cmp_endpoint_node_key str_cmp.cmp_Equal_iff)

section \<open>The base64 round trip\<close>

lemma sextet_bound: "unat (drop_bit n (c :: u32) AND 0x3F) < 64"
proof -
  have "drop_bit n c AND 0x3F = take_bit 6 (drop_bit n c)"
    by (simp add: take_bit_eq_mask mask_numeral)
  then show ?thesis
    using unsigned_take_bit_eq [of 6 "drop_bit n c"] by (simp add: unsigned_take_bit_eq take_bit_nat_less_exp [of 6, simplified])
qed

definition alphabet_ok :: "string \<Rightarrow> bool" where
  "alphabet_ok alphabet =
     (length alphabet = 64 \<and>
      list_all (\<lambda>n. of_char (alphabet ! n) < (128 :: nat) \<and> alphabet ! n \<noteq> CHR ''='' \<and>
        sextet_value (of_char (alphabet ! n)) = Some (of_nat n)) [0..<64])"

lemma alphabet_STANDARD: "alphabet_ok STANDARD"
  by code_simp

lemma alphabet_URL_SAFE: "alphabet_ok URL_SAFE"
  by code_simp

lemma sextet_value_sextet:
  assumes "alphabet_ok alphabet"
  shows "sextet_value (of_char (sextet alphabet n c)) = Some (drop_bit n c AND 0x3F)"
    "of_char (sextet alphabet n c) < (128 :: nat)" "sextet alphabet n c \<noteq> CHR ''=''"
  using assms sextet_bound [of n c] by (auto simp: alphabet_ok_def sextet_def list_all_iff)

lemma and_masks: "x AND 0x3F = take_bit 6 x" "x AND 0xF = take_bit 4 x" "x AND 3 = take_bit 2 x" for x :: u32
  by (simp_all add: take_bit_eq_mask mask_numeral)

lemma bit_combine:
  "bit (combine b0 b1 b2) n \<longleftrightarrow>
     (if n < 8 then bit b2 n else if n < 16 then bit b1 (n - 8) else n < 24 \<and> bit b0 (n - 16))"
proof -
  have hi: "\<not> bit b m" if "8 \<le> m" for b :: u8 and m
    using that bit_imp_le_length [of b m] by auto
  have "n < 24" if "bit b0 (n - 16)" using hi [of "n - 16" b0] that by linarith
  then show ?thesis by (auto simp: combine_def bit_simps hi)
qed

text \<open>The four sextets of a group give back its three bytes.\<close>

abbreviation (input) sx :: "nat \<Rightarrow> u32 \<Rightarrow> u32" where
  "sx n c \<equiv> take_bit 6 (drop_bit n c)"

lemma Suc_Suc_minus [simp]: "\<not> n < 2 \<Longrightarrow> Suc (Suc (n - 2)) = n"
  by simp

lemma decode_first: "ucast (drop_bit 4 (push_bit 6 (sx 18 (combine b0 b1 b2)) OR sx 12 (combine b0 b1 b2))) = b0"
  by (rule bit_word_eqI) (auto simp: bit_simps bit_combine linorder_not_less [symmetric] simp del: linorder_not_less)

lemma decode_second:
  "ucast (drop_bit 2 (push_bit 6 (take_bit 4 (push_bit 6 (sx 18 (combine b0 b1 b2)) OR sx 12 (combine b0 b1 b2)))
     OR sx 6 (combine b0 b1 b2))) = b1"
  by (rule bit_word_eqI) (auto simp: bit_simps bit_combine)

lemma decode_third:
  "ucast (push_bit 6 (take_bit 2 (push_bit 6 (take_bit 4 (push_bit 6 (sx 18 (combine b0 b1 b2)) OR sx 12 (combine b0 b1 b2)))
     OR sx 6 (combine b0 b1 b2))) OR sx 0 (combine b0 b1 b2)) = b2"
  by (rule bit_word_eqI) (auto simp: bit_simps bit_combine)

text \<open>Reading the sextets of one group from an empty buffer: the bytes, and the buffer left over.\<close>

lemma decode_two:
  assumes "alphabet_ok al"
  shows "decode_chars (of_char (sextet al 18 c) # of_char (sextet al 12 c) # cs) result 0 0 =
    decode_chars cs (result @ [ucast (drop_bit 4 (push_bit 6 (sx 18 c) OR sx 12 c))])
      (take_bit 4 (push_bit 6 (sx 18 c) OR sx 12 c)) 4"
  by (simp add: sextet_value_sextet [OF assms] Let_def and_masks)

lemma decode_three:
  assumes "alphabet_ok al"
  shows "decode_chars (of_char (sextet al 6 c) # cs) result buf 4 =
    decode_chars cs (result @ [ucast (drop_bit 2 (push_bit 6 buf OR sx 6 c))])
      (take_bit 2 (push_bit 6 buf OR sx 6 c)) 2"
  by (simp add: sextet_value_sextet [OF assms] Let_def and_masks)

lemma decode_four:
  assumes "alphabet_ok al"
  shows "decode_chars (of_char (sextet al 0 c) # cs) result buf 2 =
    decode_chars cs (result @ [ucast (push_bit 6 buf OR sx 0 c)]) 0 0"
  using sextet_value_sextet(1) [OF assms, of 0 c] by (simp add: Let_def and_masks)

lemmas decode_sextets = decode_two decode_three decode_four

lemma chars_ascii: "\<forall>c\<in>set s. of_char c < (128 :: nat) \<Longrightarrow> chars s = map of_char s"
  by (induction s) (auto simp: chars_def)

lemma trim_padding:
  assumes "\<forall>c\<in>set s. c \<noteq> CHR ''=''" "\<forall>c\<in>set p. c = CHR ''=''"
  shows "trim_end_matches CHR ''='' (s @ p) = s"
proof -
  have "dropWhile (\<lambda>x. x = CHR ''='') (rev p @ rev s) = dropWhile (\<lambda>x. x = CHR ''='') (rev s)"
    using assms(2) by (intro dropWhile_append2) simp
  also have "\<dots> = rev s" using assms(1) by (cases s rule: rev_cases) auto
  finally show ?thesis by (simp add: trim_end_matches_def)
qed

text \<open>The encoding without its padding.\<close>

fun sextets :: "u8 list \<Rightarrow> string \<Rightarrow> string" where
  "sextets [] al = []"
| "sextets [b0] al = [sextet al 18 (combine b0 0 0), sextet al 12 (combine b0 0 0)]"
| "sextets [b0, b1] al =
     [sextet al 18 (combine b0 b1 0), sextet al 12 (combine b0 b1 0), sextet al 6 (combine b0 b1 0)]"
| "sextets (b0 # b1 # b2 # rest) al =
     [sextet al 18 (combine b0 b1 b2), sextet al 12 (combine b0 b1 b2), sextet al 6 (combine b0 b1 b2),
      sextet al 0 (combine b0 b1 b2)] @ sextets rest al"

lemma encode_with_sextets: "\<exists>p. encode_with bs al = sextets bs al @ p \<and> (\<forall>c\<in>set p. c = CHR ''='')"
  by (induction bs al rule: sextets.induct) (auto simp: Let_def)

lemma sextets_chars:
  assumes "alphabet_ok al"
  shows "\<forall>c\<in>set (sextets bs al). of_char c < (128 :: nat) \<and> c \<noteq> CHR ''=''"
  using sextet_value_sextet(2,3) [OF assms] by (induction bs al rule: sextets.induct) auto

lemma decode_groups:
  assumes "alphabet_ok al"
  shows "decode_chars (of_char (sextet al 18 (combine b0 b1 b2)) # of_char (sextet al 12 (combine b0 b1 b2)) #
      of_char (sextet al 6 (combine b0 b1 b2)) # of_char (sextet al 0 (combine b0 b1 b2)) # cs) result 0 0 =
    decode_chars cs (result @ [b0, b1, b2]) 0 0"
    "decode_chars [of_char (sextet al 18 (combine b0 b1 b2)), of_char (sextet al 12 (combine b0 b1 b2)),
      of_char (sextet al 6 (combine b0 b1 b2))] result 0 0 = Ok (result @ [b0, b1])"
    "decode_chars [of_char (sextet al 18 (combine b0 b1 b2)), of_char (sextet al 12 (combine b0 b1 b2))] result 0 0 =
      Ok (result @ [b0])"
  unfolding decode_sextets [OF assms] decode_first decode_second decode_third decode_chars.simps(1) by simp_all

lemma decode_sextets_all:
  assumes "alphabet_ok al"
  shows "decode_chars (map of_char (sextets bs al)) result 0 0 = Ok (result @ bs)"
  using assms
  by (induction bs al arbitrary: result rule: sextets.induct) (simp_all add: decode_groups del: decode_chars.simps(2))

lemma decode_encode_with:
  assumes "alphabet_ok al"
  shows "base64_decode (encode_with bs al) = Ok bs"
proof -
  obtain p where p: "encode_with bs al = sextets bs al @ p" "\<forall>c\<in>set p. c = CHR ''=''"
    using encode_with_sextets by blast
  then have "trim_end_matches CHR ''='' (encode_with bs al) = sextets bs al"
    using sextets_chars [OF assms, of bs] by (simp add: trim_padding)
  moreover have "chars (sextets bs al) = map of_char (sextets bs al)"
    using sextets_chars [OF assms, of bs] by (intro chars_ascii) simp
  ultimately show ?thesis using decode_sextets_all [OF assms] by (simp add: base64_decode_def)
qed

lemma length_encode_with: "length (encode_with bs al) = 4 * ((length bs + 2) div 3)"
proof (induction bs al rule: encode_with.induct)
  case (4 b0 b1 b2 rest al)
  have "(5 + length rest) div 3 = Suc (Suc (Suc (length rest)) div 3)" by linarith
  with 4 show ?case by (simp add: Let_def)
qed (simp_all add: Let_def)

text \<open>
  Both base64 encoders are undone by the one decoder, for every byte string: a frame in a JSON
  body and a cursor in a URL come back as they were sent.
\<close>

theorem base64_round_trip:
  "base64_decode (base64_encode bytes) = Ok bytes \<and> base64_decode (base64_encode_url bytes) = Ok bytes"
  unfolding base64_encode_def base64_encode_url_def
  using decode_encode_with [OF alphabet_STANDARD] decode_encode_with [OF alphabet_URL_SAFE] by blast

section \<open>Path segments\<close>

lemma byte_high: "of_char b div 16 < (16::nat)"
  by (simp add: less_mult_imp_div_less)

lemma hex_digit_unreserved: "n < 16 \<Longrightarrow> unreserved (hex_digit n)"
  by (auto simp: hex_digit_def unreserved_def ascii_upper_def ascii_digit_def)

text \<open>What the receiving side does to a segment: percent triplets become bytes.\<close>

definition hex_value :: "char \<Rightarrow> nat" where
  "hex_value c = (if ascii_digit c then of_char c - 48 else of_char c - 55)"

fun decode_segment :: "string \<Rightarrow> string" where
  "decode_segment (c # h # l # s) =
     (if c = CHR ''%'' then char_of (16 * hex_value h + hex_value l) # decode_segment s
      else c # decode_segment (h # l # s))"
| "decode_segment (c # s) = c # decode_segment s"
| "decode_segment [] = []"

lemma hex_value_digit: "n < 16 \<Longrightarrow> hex_value (hex_digit n) = n"
  by (auto simp: hex_value_def hex_digit_def ascii_digit_def)

lemma decode_plain: "c \<noteq> CHR ''%'' \<Longrightarrow> decode_segment (c # s) = c # decode_segment s"
  by (cases s; cases "tl s") auto

lemma decode_encode_segment: "decode_segment (encode_path_segment s) = s"
proof (induction s)
  case (Cons b s)
  show ?case
  proof (cases "unreserved b")
    case True
    then have "b \<noteq> CHR ''%''" by (auto simp: unreserved_def ascii_upper_def ascii_lower_def ascii_digit_def)
    with True Cons show ?thesis by (simp add: encode_path_segment_def encode_byte_def decode_plain)
  next
    case False
    with Cons show ?thesis
      by (simp add: encode_path_segment_def encode_byte_def hex_value_digit byte_high)
  qed
qed (simp add: encode_path_segment_def)

text \<open>
  An escaped key stays one path segment and decodes to itself: the escaped text has no slash,
  question mark or hash to restructure the request, and percent-decoding it gives the key back.
\<close>

theorem encode_path_segment_safe:
  "decode_segment (encode_path_segment s) = s \<and>
   set (encode_path_segment s) \<inter> {CHR ''/'', CHR ''?'', CHR ''#''} = {}"
proof -
  have "unreserved c \<or> c = CHR ''%''" if "c \<in> set (encode_byte b)" for b c
    using that by (auto simp: encode_byte_def hex_digit_unreserved byte_high split: if_splits)
  then have "\<forall>c\<in>set (encode_path_segment s). unreserved c \<or> c = CHR ''%''"
    by (auto simp: encode_path_segment_def)
  then have "set (encode_path_segment s) \<inter> {CHR ''/'', CHR ''?'', CHR ''#''} = {}"
    by (auto simp: unreserved_def ascii_upper_def ascii_lower_def ascii_digit_def)
  then show ?thesis by (simp add: decode_encode_segment)
qed

end
