(* ===== verification/Quorum.thy ===== *)
theory Quorum
  imports Util
begin

text \<open>
  \<^verbatim>\<open>src/src/consensus/config.rs\<close>, the type it works on from \<^verbatim>\<open>storage/frame.rs\<close>, \<^verbatim>\<open>majority\<close> from
  \<^verbatim>\<open>consensus/election.rs\<close> and \<^verbatim>\<open>src/src/replication/write_concern.rs\<close>: configurations, the quorum
  arithmetic over them, what a write waits for, and the names a collection may have. LSNs are
  compared and never added to here, so they are natural numbers.
\<close>

section \<open>Collection names\<close>

definition CONFIG_LOG :: string where "CONFIG_LOG = ''_config''"
definition MAX_COLLECTION_NAME_LEN :: nat where "MAX_COLLECTION_NAME_LEN = 128"

definition is_system_collection :: "string \<Rightarrow> bool" where
  "is_system_collection name = starts_with name ''_''"

definition windows_devices :: "string list" where
  "windows_devices =
     [''con'', ''prn'', ''aux'', ''nul'',
      ''com1'', ''com2'', ''com3'', ''com4'', ''com5'', ''com6'', ''com7'', ''com8'', ''com9'',
      ''lpt1'', ''lpt2'', ''lpt3'', ''lpt4'', ''lpt5'', ''lpt6'', ''lpt7'', ''lpt8'', ''lpt9'']"

definition is_windows_reserved :: "string \<Rightarrow> bool" where
  "is_windows_reserved name =
     (let stem = hd (split_on CHR ''.'' name)
      in list_ex (\<lambda>device. eq_ignore_ascii_case stem device) windows_devices)"

definition name_char :: "char \<Rightarrow> bool" where
  "name_char b = (ascii_lower b \<or> ascii_digit b \<or> b \<in> {CHR ''_'', CHR ''-'', CHR ''.''})"

definition valid_collection_name :: "string \<Rightarrow> bool" where
  "valid_collection_name name =
     (name \<noteq> [] \<and> length name \<le> MAX_COLLECTION_NAME_LEN \<and> \<not> starts_with name ''.'' \<and>
      \<not> ends_with name ''.'' \<and> \<not> ends_with name ''.tmp'' \<and> \<not> ends_with name ''.old'' \<and>
      \<not> is_windows_reserved name \<and> list_all name_char name)"

section \<open>Configurations\<close>

record configuration =
  cfg_voters :: "string list"
  cfg_outgoing :: "string list option"

definition majority :: "nat \<Rightarrow> nat" where
  "majority cluster_size = cluster_size div 2 + 1"

text \<open>The first spelling of each endpoint, in order; \<open>canonical\<close> and \<open>distinct\<close> both keep it.\<close>

definition distinct_voters :: "string list \<Rightarrow> string list" where
  "distinct_voters voters =
     map (\<lambda>i. voters ! i) (filter (\<lambda>i. \<not> list_ex (\<lambda>w. same_endpoint w (voters ! i)) (take i voters)) [0..<length voters])"

definition voter_count :: "string list \<Rightarrow> nat" where
  "voter_count voters = length (distinct_voters voters)"

definition half_quorum_lsn :: "string list \<Rightarrow> (string \<Rightarrow> nat) \<Rightarrow> nat" where
  "half_quorum_lsn voters held =
     (let lsns = map held (distinct_voters voters)
      in if lsns = [] then 0 else rev (sort lsns) ! (majority (length lsns) - 1))"

definition half_has_quorum :: "string list \<Rightarrow> string list \<Rightarrow> bool" where
  "half_has_quorum voters granted =
     (let total = voter_count voters
      in if total = 0 then True
         else length (filter (\<lambda>v. list_ex (\<lambda>g. same_endpoint g v) granted) (distinct_voters voters))
                \<ge> majority total)"

definition push_endpoint :: "string list \<Rightarrow> string \<Rightarrow> string list" where
  "push_endpoint out url = (if list_ex (\<lambda>u. same_endpoint u url) out then out else out @ [url])"

definition canonical :: "string list \<Rightarrow> string list" where
  "canonical voters = foldl push_endpoint [] voters"

definition cfg_simple :: "string list \<Rightarrow> configuration" where
  "cfg_simple voters = \<lparr>cfg_voters = canonical voters, cfg_outgoing = None\<rparr>"

definition cfg_joint :: "string list \<Rightarrow> string list \<Rightarrow> configuration" where
  "cfg_joint outgoing voters = \<lparr>cfg_voters = canonical voters, cfg_outgoing = Some (canonical outgoing)\<rparr>"

definition canonicalized :: "configuration \<Rightarrow> configuration" where
  "canonicalized c =
     (case cfg_outgoing c of
        Some outgoing \<Rightarrow> cfg_joint outgoing (cfg_voters c)
      | None \<Rightarrow> cfg_simple (cfg_voters c))"

definition is_joint :: "configuration \<Rightarrow> bool" where
  "is_joint c = (cfg_outgoing c \<noteq> None)"

definition cfg_target :: "configuration \<Rightarrow> configuration" where
  "cfg_target c = cfg_simple (cfg_voters c)"

definition cfg_members :: "configuration \<Rightarrow> string list" where
  "cfg_members c =
     foldl push_endpoint [] (cfg_voters c @ (case cfg_outgoing c of Some old \<Rightarrow> old | None \<Rightarrow> []))"

definition cfg_contains :: "configuration \<Rightarrow> string \<Rightarrow> bool" where
  "cfg_contains c url = list_ex (\<lambda>m. same_endpoint m url) (cfg_members c)"

definition has_quorum :: "configuration \<Rightarrow> string list \<Rightarrow> bool" where
  "has_quorum c granted =
     (half_has_quorum (cfg_voters c) granted \<and>
      (case cfg_outgoing c of None \<Rightarrow> True | Some old \<Rightarrow> half_has_quorum old granted))"

definition quorum_lsn :: "configuration \<Rightarrow> (string \<Rightarrow> nat) \<Rightarrow> nat" where
  "quorum_lsn c held =
     (let new = half_quorum_lsn (cfg_voters c) held
      in case cfg_outgoing c of Some old \<Rightarrow> min new (half_quorum_lsn old held) | None \<Rightarrow> new)"

section \<open>Write concerns\<close>

datatype write_concern = WLocal | WMajority | WAll | WN nat

text \<open>\<^verbatim>\<open>str::parse::<usize>\<close>: an optional plus sign, then digits, and no overflow.\<close>

fun digits_value :: "nat \<Rightarrow> string \<Rightarrow> nat option" where
  "digits_value acc [] = Some acc"
| "digits_value acc (c # s) =
     (if ascii_digit c
      then (let acc' = acc * 10 + (of_char c - 48) in if acc' > usize_max then None else digits_value acc' s)
      else None)"

definition parse_usize :: "string \<Rightarrow> nat option" where
  "parse_usize s =
     (case s of
        [] \<Rightarrow> None
      | c # r \<Rightarrow> if c = CHR ''+'' then (if r = [] then None else digits_value 0 r) else digits_value 0 s)"

definition parse_write_concern :: "string option \<Rightarrow> (string, write_concern) result" where
  "parse_write_concern w =
     (case w of
        None \<Rightarrow> Ok WLocal
      | Some s \<Rightarrow>
          if s = ''1'' then Ok WLocal
          else if s = ''majority'' then Ok WMajority
          else if s = ''all'' then Ok WAll
          else (case parse_usize s of Some n \<Rightarrow> Ok (WN n) | None \<Rightarrow> Err s))"

definition required_acks :: "write_concern \<Rightarrow> nat \<Rightarrow> nat" where
  "required_acks wc replica_count =
     (let total = 1 + replica_count
      in case wc of
           WLocal \<Rightarrow> 1
         | WMajority \<Rightarrow> total div 2 + 1
         | WAll \<Rightarrow> total
         | WN n \<Rightarrow> min (max n 1) total)"

datatype write_quorum = QCount nat | QMajority configuration

definition write_quorum_of :: "write_concern \<Rightarrow> configuration \<Rightarrow> write_quorum" where
  "write_quorum_of wc config =
     (case wc of
        WMajority \<Rightarrow> QMajority config
      | other \<Rightarrow> QCount (required_acks other (length (cfg_members config) - 1)))"

fun wq_met :: "write_quorum \<Rightarrow> string list \<Rightarrow> bool" where
  "wq_met (QCount n) holders = (length holders \<ge> n)"
| "wq_met (QMajority config) holders = has_quorum config holders"

fun wq_required :: "write_quorum \<Rightarrow> nat" where
  "wq_required (QCount n) = n"
| "wq_required (QMajority config) =
     (let new = majority (voter_count (cfg_voters config))
      in case cfg_outgoing config of
           Some old \<Rightarrow> max new (majority (voter_count old))
         | None \<Rightarrow> new)"

section \<open>Quorums as sets of nodes\<close>

text \<open>The physical nodes a list of URLs names.\<close>

definition nodes :: "string list \<Rightarrow> string set" where
  "nodes urls = node_key ` set urls"

lemma nodes_simps [simp]:
  "nodes [] = {}" "nodes (u # us) = insert (node_key u) (nodes us)" "nodes (us @ vs) = nodes us \<union> nodes vs"
  "finite (nodes us)"
  by (auto simp: nodes_def)

lemma list_ex_same_endpoint [simp]:
  "list_ex (\<lambda>w. same_endpoint w u) us \<longleftrightarrow> node_key u \<in> nodes us"
  by (simp add: list_ex_iff nodes_def same_endpoint_node_key image_iff Bex_def eq_commute)

lemma distinct_voters_snoc:
  "distinct_voters (vs @ [v]) = push_endpoint (distinct_voters vs) v" if "nodes (distinct_voters vs) = nodes vs"
proof -
  have "map ((!) (vs @ [v])) (filter (\<lambda>i. node_key ((vs @ [v]) ! i) \<notin> nodes (take i (vs @ [v]))) [0..<length vs]) =
      map ((!) vs) (filter (\<lambda>i. node_key (vs ! i) \<notin> nodes (take i vs)) [0..<length vs])"
    by (intro map_cong filter_cong) (auto simp: nth_append)
  then show ?thesis by (simp add: distinct_voters_def push_endpoint_def that [unfolded distinct_voters_def, simplified])
qed

lemma canonical_snoc: "canonical (vs @ [v]) = push_endpoint (canonical vs) v"
  by (simp add: canonical_def)

lemma nodes_push [simp]: "nodes (push_endpoint us u) = insert (node_key u) (nodes us)"
  by (auto simp: push_endpoint_def)

lemma distinct_push: "distinct (map node_key us) \<Longrightarrow> distinct (map node_key (push_endpoint us u))"
  by (auto simp: push_endpoint_def nodes_def)

lemma canonical_nodes [simp]: "nodes (canonical vs) = nodes vs"
  by (induction vs rule: rev_induct) (auto simp: canonical_snoc canonical_def)

lemma canonical_distinct: "distinct (map node_key (canonical vs))"
  by (induction vs rule: rev_induct) (simp add: canonical_def, simp add: canonical_snoc distinct_push)

lemma distinct_voters_canonical: "distinct_voters vs = canonical vs"
proof (induction vs rule: rev_induct)
  case Nil
  show ?case by (simp add: distinct_voters_def canonical_def)
next
  case (snoc v vs)
  then show ?case by (simp add: canonical_snoc distinct_voters_snoc)
qed

lemma voter_count_nodes: "voter_count vs = card (nodes vs)"
proof -
  have "length (canonical vs) = card (node_key ` set (canonical vs))"
    using distinct_card [OF canonical_distinct, of vs] by simp
  then show ?thesis by (simp add: voter_count_def distinct_voters_canonical nodes_def [symmetric])
qed

lemma counted_nodes:
  "length (filter (\<lambda>v. list_ex (\<lambda>g. same_endpoint g v) granted) (distinct_voters vs)) = card (nodes vs \<inter> nodes granted)"
proof -
  let ?f = "filter (\<lambda>v. node_key v \<in> nodes granted) (canonical vs)"
  have "distinct (map node_key ?f)"
    using canonical_distinct [of vs] by (simp add: distinct_map_filter)
  then have "length ?f = card (node_key ` set ?f)" using distinct_card by fastforce
  also have "node_key ` set ?f = nodes vs \<inter> nodes granted"
    unfolding canonical_nodes [of vs, symmetric] by (auto simp: nodes_def)
  finally show ?thesis by (simp add: distinct_voters_canonical)
qed

text \<open>A set of nodes decides for one half: more than half of its nodes, or the half is empty.\<close>

definition half_decides :: "string list \<Rightarrow> string set \<Rightarrow> bool" where
  "half_decides vs P = (nodes vs = {} \<or> card (nodes vs) < 2 * card (nodes vs \<inter> P))"

lemma half_has_quorum_iff: "half_has_quorum vs granted \<longleftrightarrow> half_decides vs (nodes granted)"
  unfolding half_has_quorum_def half_decides_def Let_def counted_nodes voter_count_nodes majority_def
  by (auto simp: card_eq_0_iff)

definition halves :: "configuration \<Rightarrow> string list list" where
  "halves c = cfg_voters c # (case cfg_outgoing c of Some old \<Rightarrow> [old] | None \<Rightarrow> [])"

definition decides :: "configuration \<Rightarrow> string set \<Rightarrow> bool" where
  "decides c P = (\<forall>vs\<in>set (halves c). half_decides vs P)"

lemma has_quorum_iff: "has_quorum c granted \<longleftrightarrow> decides c (nodes granted)"
  by (auto simp: has_quorum_def decides_def halves_def half_has_quorum_iff split: option.splits)

lemma half_decides_intersect:
  assumes "half_decides vs P" "half_decides vs Q" "nodes vs \<noteq> {}"
  shows "nodes vs \<inter> P \<inter> Q \<noteq> {}"
proof
  assume none: "nodes vs \<inter> P \<inter> Q = {}"
  have "card (nodes vs \<inter> P) + card (nodes vs \<inter> Q) = card (nodes vs \<inter> P \<union> nodes vs \<inter> Q)"
    using none by (subst card_Un_disjoint) auto
  also have "\<dots> \<le> card (nodes vs)" by (intro card_mono) auto
  finally show False using assms by (simp add: half_decides_def)
qed

lemma half_decides_mono: "half_decides vs P \<Longrightarrow> P \<subseteq> Q \<Longrightarrow> half_decides vs Q"
proof -
  assume "half_decides vs P" "P \<subseteq> Q"
  moreover from this have "card (nodes vs \<inter> P) \<le> card (nodes vs \<inter> Q)" by (intro card_mono) auto
  ultimately show ?thesis by (auto simp: half_decides_def)
qed

text \<open>
  What the protocol relies on: deciding sets are closed under adding nodes, and two deciding sets
  of configurations that overlap share a node. A vote per node and a copy per node then carry over.
\<close>

locale quorum_family =
  fixes decides :: "'c \<Rightarrow> 'v set \<Rightarrow> bool" and overlap :: "'c \<Rightarrow> 'c \<Rightarrow> bool"
  assumes meet: "overlap c d \<Longrightarrow> decides c P \<Longrightarrow> decides d Q \<Longrightarrow> P \<inter> Q \<noteq> {}"
    and grow: "decides c P \<Longrightarrow> P \<subseteq> Q \<Longrightarrow> decides c Q"
begin

lemma one_winner:
  assumes "overlap c d" "decides c P" "decides d Q"
    and "\<And>v. v \<in> P \<Longrightarrow> vote v = Some a" "\<And>v. v \<in> Q \<Longrightarrow> vote v = Some b"
  shows "a = b"
proof -
  obtain v where "v \<in> P" "v \<in> Q" using meet [OF assms(1-3)] by blast
  then show ?thesis using assms(4,5) by fastforce
qed

lemma holder_asked: "overlap c d \<Longrightarrow> decides c {v. holds v} \<Longrightarrow> decides d Q \<Longrightarrow> \<exists>v\<in>Q. holds v"
  using meet by fastforce

end

definition cfg_overlap :: "configuration \<Rightarrow> configuration \<Rightarrow> bool" where
  "cfg_overlap c d = (\<exists>vs\<in>set (halves c). \<exists>ws\<in>set (halves d). nodes vs = nodes ws \<and> nodes vs \<noteq> {})"

lemma half_decides_nodes: "nodes vs = nodes ws \<Longrightarrow> half_decides vs P = half_decides ws P"
  by (simp add: half_decides_def)

interpretation cfg: quorum_family decides cfg_overlap
proof
  fix c d P Q
  assume "cfg_overlap c d" "decides c P" "decides d Q"
  then obtain vs where "half_decides vs P" "half_decides vs Q" "nodes vs \<noteq> {}"
    unfolding cfg_overlap_def decides_def using half_decides_nodes by metis
  then show "P \<inter> Q \<noteq> {}" using half_decides_intersect by blast
qed (auto simp: decides_def intro: half_decides_mono)

lemma halves_simps [simp]:
  "halves (cfg_simple vs) = [canonical vs]" "halves (cfg_joint old new) = [canonical new, canonical old]"
  by (simp_all add: halves_def cfg_simple_def cfg_joint_def)

lemma nodes_meet: "nodes g \<inter> nodes h \<noteq> {} \<longleftrightarrow> (\<exists>a\<in>set g. \<exists>b\<in>set h. same_endpoint a b)"
  by (force simp: nodes_def same_endpoint_node_key)

text \<open>
  C11. Membership changes cannot split the group: every deciding set of the transitional
  configuration shares a physical node with every deciding set of the configuration before it, of
  itself, and of the one after it, whatever the two memberships have in common.
\<close>

theorem reconfiguration_quorums_meet:
  assumes "old \<noteq> []" "new \<noteq> []"
    and "has_quorum (cfg_joint old new) g" "has_quorum c h"
    and "c = cfg_simple old \<or> c = cfg_joint old new \<or> c = cfg_simple new"
  shows "\<exists>a\<in>set g. \<exists>b\<in>set h. same_endpoint a b"
proof -
  have "nodes old \<noteq> {}" "nodes new \<noteq> {}" using assms(1,2) by (auto simp: nodes_def)
  then have "cfg_overlap (cfg_joint old new) c" using assms(5) by (auto simp: cfg_overlap_def)
  from cfg.meet [OF this] assms(3,4) show ?thesis
    unfolding has_quorum_iff nodes_meet [symmetric] by blast
qed

theorem reconfiguration_quorums_meet_witness:
  "\<exists>a\<in>set [''http://b'', ''http://c'', ''http://d'']. \<exists>b\<in>set [''http://a'', ''http://B/'']. same_endpoint a b"
proof -
  have "has_quorum (cfg_joint [''http://a'', ''http://b'', ''http://d''] [''http://b'', ''http://c'']) [''http://b'', ''http://c'', ''http://d'']"
    "has_quorum (cfg_simple [''http://a'', ''http://b'', ''http://d'']) [''http://a'', ''http://B/'']" by code_simp+
  with reconfiguration_quorums_meet show ?thesis by blast
qed

section \<open>The quorum's LSN\<close>

lemma sorted_count:
  assumes "sorted ys" "i < length ys"
  shows "(t :: nat) \<le> ys ! i \<longleftrightarrow> length ys - i \<le> length (filter (\<lambda>x. t \<le> x) ys)"
proof
  assume le: "t \<le> ys ! i"
  have "t \<le> x" if x: "x \<in> set (drop i ys)" for x
  proof -
    from x obtain j where "j < length (drop i ys)" "drop i ys ! j = x" unfolding in_set_conv_nth by blast
    then have "x = ys ! (i + j)" "i + j < length ys" using assms(2) by auto
    then show ?thesis using sorted_nth_mono [OF assms(1), of i "i + j"] le by simp
  qed
  then have "length (drop i ys) = length (filter (\<lambda>x. t \<le> x) (drop i ys))" by (simp add: filter_id_conv)
  also have "\<dots> \<le> length (filter (\<lambda>x. t \<le> x) (take i ys @ drop i ys))" by (simp only: filter_append length_append)
  finally show "length ys - i \<le> length (filter (\<lambda>x. t \<le> x) ys)" by simp
next
  assume len: "length ys - i \<le> length (filter (\<lambda>x. t \<le> x) ys)"
  show "t \<le> ys ! i"
  proof (rule ccontr)
    assume "\<not> t \<le> ys ! i"
    have "\<not> t \<le> x" if x: "x \<in> set (take (Suc i) ys)" for x
    proof -
      from x obtain j where "j < length (take (Suc i) ys)" "take (Suc i) ys ! j = x" unfolding in_set_conv_nth by blast
      then have "x = ys ! j" "j \<le> i" using assms(2) by auto
      then show ?thesis using sorted_nth_mono [OF assms(1), of j i] assms(2) \<open>\<not> t \<le> ys ! i\<close> by simp
    qed
    then have "filter (\<lambda>x. t \<le> x) (take (Suc i) ys) = []" by (simp add: filter_empty_conv)
    then have "filter (\<lambda>x. t \<le> x) ys = filter (\<lambda>x. t \<le> x) (drop (Suc i) ys)"
      by (metis append_self_conv2 append_take_drop_id filter_append)
    then have "length (filter (\<lambda>x. t \<le> x) ys) \<le> length (drop (Suc i) ys)" by (metis length_filter_le)
    with len assms(2) show False by simp
  qed
qed

lemma half_quorum_lsn_ge:
  assumes "nodes vs \<noteq> {}"
  shows "t \<le> half_quorum_lsn vs held \<longleftrightarrow> half_decides vs (nodes (filter (\<lambda>v. t \<le> held v) (canonical vs)))"
proof -
  let ?xs = "map held (canonical vs)"
  let ?n = "card (nodes vs)"
  have n: "length (canonical vs) = ?n" using voter_count_nodes [of vs] by (simp add: voter_count_def distinct_voters_canonical)
  then have pos: "0 < ?n" using assms by (simp add: card_gt_0_iff)
  have "half_quorum_lsn vs held = sort ?xs ! (?n - majority ?n)"
    using pos n by (auto simp: half_quorum_lsn_def Let_def distinct_voters_canonical rev_nth majority_def)
  also have "t \<le> \<dots> \<longleftrightarrow> majority ?n \<le> length (filter (\<lambda>x. t \<le> x) (sort ?xs))"
    using sorted_count [of "sort ?xs" "?n - majority ?n" t] pos n by (simp add: majority_def)
  also have "length (filter (\<lambda>x. t \<le> x) (sort ?xs)) = length (filter (\<lambda>v. t \<le> held v) (canonical vs))"
    by (metis (no_types, lifting) comp_apply filter_cong filter_map length_map mset_filter mset_sort size_mset)
  also have "\<dots> = card (nodes (filter (\<lambda>v. t \<le> held v) (canonical vs)))"
    using distinct_card [of "map node_key (filter (\<lambda>v. t \<le> held v) (canonical vs))"] canonical_distinct [of vs]
    by (simp add: nodes_def distinct_map_filter)
  also have "nodes (filter (\<lambda>v. t \<le> held v) (canonical vs)) = nodes vs \<inter> nodes (filter (\<lambda>v. t \<le> held v) (canonical vs))"
    using canonical_nodes [of vs] by (auto simp: nodes_def)
  finally show ?thesis using assms by (auto simp: half_decides_def majority_def)
qed

lemma canonical_subset: "set (canonical vs) \<subseteq> set vs"
  by (induction vs rule: rev_induct) (auto simp: canonical_snoc push_endpoint_def canonical_def)

lemma half_decides_canonical [simp]: "half_decides (canonical vs) P = half_decides vs P"
  by (simp add: half_decides_def)

lemma quorum_lsn_ge:
  assumes "\<forall>vs\<in>set (halves c). nodes vs \<noteq> {}"
  shows "t \<le> quorum_lsn c held \<longleftrightarrow> (\<forall>vs\<in>set (halves c). t \<le> half_quorum_lsn vs held)"
  by (auto simp: quorum_lsn_def halves_def Let_def split: option.splits)

definition holders :: "configuration \<Rightarrow> (string \<Rightarrow> nat) \<Rightarrow> nat \<Rightarrow> string list" where
  "holders c held t = filter (\<lambda>v. t \<le> held v) (concat (halves c))"

lemma holders_half:
  assumes "vs \<in> set (halves c)" "\<forall>v w. same_endpoint v w \<longrightarrow> held v = held w"
  shows "nodes vs \<inter> nodes (holders c held t) = nodes (filter (\<lambda>v. t \<le> held v) (canonical vs))" (is "?l = ?r")
proof
  show "?l \<subseteq> ?r"
  proof
    fix x
    assume x: "x \<in> ?l"
    then obtain v where v: "t \<le> held v" "node_key v = x" by (auto simp: nodes_def holders_def)
    from x have "x \<in> nodes (canonical vs)" by simp
    then obtain w where w: "w \<in> set (canonical vs)" "node_key w = x" by (auto simp: nodes_def)
    then have "held w = held v" using assms(2) v(2) by (simp add: same_endpoint_node_key)
    with v w show "x \<in> ?r" by (auto simp: nodes_def intro!: image_eqI [of _ _ w])
  qed
  show "?r \<subseteq> ?l" using canonical_subset [of vs] assms(1) by (auto simp: nodes_def holders_def)
qed

text \<open>
  The commit arithmetic is exact: with every half of the configuration non-empty and one LSN per
  physical node, \<^verbatim>\<open>quorum_lsn\<close> is the largest LSN that a quorum of the configuration holds -- a
  majority of both memberships while it is joint -- so nothing below it can be missed by a quorum
  and nothing above it is committed early.
\<close>

theorem quorum_lsn_exact:
  assumes "cfg_voters c \<noteq> []" "cfg_outgoing c \<noteq> Some []"
    and "\<forall>v w. same_endpoint v w \<longrightarrow> held v = held w"
  shows "has_quorum c (holders c held t) \<longleftrightarrow> t \<le> quorum_lsn c held"
proof -
  have ne: "\<forall>vs\<in>set (halves c). nodes vs \<noteq> {}"
    using assms(1,2) by (auto simp: halves_def nodes_def split: option.splits)
  have "half_decides vs (nodes (holders c held t)) \<longleftrightarrow> t \<le> half_quorum_lsn vs held" if vs: "vs \<in> set (halves c)" for vs
  proof -
    note h = holders_half [OF vs assms(3), of t]
    have "half_decides vs (nodes (holders c held t)) = half_decides vs (nodes vs \<inter> nodes (holders c held t))"
      by (simp add: half_decides_def Int_assoc [symmetric])
    then show ?thesis using half_quorum_lsn_ge [of vs t held] ne vs unfolding h by blast
  qed
  then show ?thesis unfolding has_quorum_iff decides_def quorum_lsn_ge [OF ne] by blast
qed

theorem quorum_lsn_exact_witness:
  "has_quorum (cfg_simple [''a'', ''b'', ''c'']) (holders (cfg_simple [''a'', ''b'', ''c'']) (\<lambda>v. if node_key v = ''a'' then 7 else 5) 5)"
proof -
  have "5 \<le> quorum_lsn (cfg_simple [''a'', ''b'', ''c'']) (\<lambda>v. if node_key v = ''a'' then 7 else 5)" by code_simp
  moreover have "cfg_voters (cfg_simple [''a'', ''b'', ''c'']) \<noteq> []" "cfg_outgoing (cfg_simple [''a'', ''b'', ''c'']) \<noteq> Some []"
    by code_simp+
  ultimately show ?thesis
    using quorum_lsn_exact [of "cfg_simple [''a'', ''b'', ''c'']" "\<lambda>v. if node_key v = ''a'' then 7 else 5" 5]
    by (simp add: same_endpoint_node_key)
qed

lemma quorum_lsn_held: "has_quorum c (holders c held (quorum_lsn c held))"
proof -
  have "half_decides vs (nodes (holders c held (quorum_lsn c held)))" if vs: "vs \<in> set (halves c)" for vs
  proof (cases "nodes vs = {}")
    case True
    then show ?thesis by (simp add: half_decides_def)
  next
    case False
    have "quorum_lsn c held \<le> half_quorum_lsn vs held"
      using vs by (auto simp: quorum_lsn_def halves_def Let_def split: option.splits)
    then have "half_decides vs (nodes (filter (\<lambda>v. quorum_lsn c held \<le> held v) (canonical vs)))"
      using half_quorum_lsn_ge [OF False] by blast
    then show ?thesis
      by (rule half_decides_mono) (use vs canonical_subset [of vs] in \<open>auto simp: nodes_def holders_def\<close>)
  qed
  then show ?thesis by (simp add: has_quorum_iff decides_def)
qed

lemma has_quorum_mono: "has_quorum c g \<Longrightarrow> nodes g \<subseteq> nodes h \<Longrightarrow> has_quorum c h"
  using cfg.grow by (auto simp: has_quorum_iff)

lemma has_quorum_canonicalized: "has_quorum (canonicalized c) g = has_quorum c g"
  by (auto simp: has_quorum_iff decides_def halves_def canonicalized_def cfg_simple_def cfg_joint_def split: option.splits)

lemma nodes_members: "nodes (cfg_members c) = (\<Union>vs\<in>set (halves c). nodes vs)"
  unfolding cfg_members_def canonical_def [symmetric] by (auto simp: halves_def split: option.splits)

lemma cfg_contains_iff: "cfg_contains c u \<longleftrightarrow> (\<exists>vs\<in>set (halves c). node_key u \<in> nodes vs)"
  by (auto simp: cfg_contains_def nodes_members)

text \<open>
  A write concern is met only by as many distinct nodes as it reports it needs: with no node
  reported twice, \<^verbatim>\<open>met\<close> implies that at least \<^verbatim>\<open>required\<close> holders answered, for every concern and for
  simple and joint configurations; and \<^verbatim>\<open>all\<close> is met by the whole membership.
\<close>

theorem write_concern_counts:
  assumes "distinct (map node_key hs)" "cfg_voters c \<noteq> []" "cfg_outgoing c \<noteq> Some []"
  shows "(wq_met (write_quorum_of wc c) hs \<longrightarrow> wq_required (write_quorum_of wc c) \<le> length hs) \<and>
         1 \<le> wq_required (write_quorum_of wc c) \<and>
         wq_met (write_quorum_of WAll c) (cfg_members c)"
proof -
  have enough: "majority (voter_count vs) \<le> length hs" if "half_has_quorum vs hs" "vs \<noteq> []" for vs
  proof -
    have "0 < voter_count vs" using that(2) by (auto simp: voter_count_nodes card_gt_0_iff nodes_def)
    then have "majority (voter_count vs) \<le> card (nodes vs \<inter> nodes hs)"
      using that(1) unfolding half_has_quorum_def Let_def counted_nodes by (simp split: if_splits)
    also have "\<dots> \<le> card (nodes hs)" by (intro card_mono) auto
    also have "\<dots> = length hs" using distinct_card [OF assms(1)] by (simp add: nodes_def)
    finally show ?thesis .
  qed
  have "cfg_members c \<noteq> []" using nodes_members [of c] assms(2) by (auto simp: halves_def nodes_def)
  then have "wq_met (write_quorum_of WAll c) (cfg_members c)"
    by (simp add: write_quorum_of_def required_acks_def Suc_leI)
  moreover have "wq_met (write_quorum_of wc c) hs \<longrightarrow> wq_required (write_quorum_of wc c) \<le> length hs"
    using enough [of "cfg_voters c"] enough [of "the (cfg_outgoing c)"] assms(2,3)
    by (cases wc) (auto simp: write_quorum_of_def has_quorum_def split: option.splits)
  moreover have "1 \<le> wq_required (write_quorum_of wc c)"
    by (cases wc) (auto simp: write_quorum_of_def required_acks_def majority_def split: option.splits)
  ultimately show ?thesis by blast
qed

theorem write_concern_counts_witness:
  "wq_required (write_quorum_of WMajority (cfg_simple [''a'', ''b'', ''c''])) \<le> length [''a'', ''c'']"
proof -
  have "wq_met (write_quorum_of WMajority (cfg_simple [''a'', ''b'', ''c''])) [''a'', ''c'']"
    "distinct (map node_key [''a'', ''c''])" "cfg_voters (cfg_simple [''a'', ''b'', ''c'']) \<noteq> []"
    "cfg_outgoing (cfg_simple [''a'', ''b'', ''c'']) \<noteq> Some []" by code_simp+
  then show ?thesis using write_concern_counts by blast
qed

section \<open>Names that reach the file system\<close>

lemma hd_split_on: "hd (split_on c s) = takeWhile (\<lambda>x. x \<noteq> c) s"
  by (induction s) (auto split: list.splits)

lemma starts_with_hd: "n \<noteq> [] \<Longrightarrow> starts_with n [c] \<longleftrightarrow> hd n = c"
  by (cases n) (simp_all add: starts_with_def)

lemma ends_with_last: "n \<noteq> [] \<Longrightarrow> ends_with n [c] \<longleftrightarrow> last n = c"
  by (simp add: ends_with_def starts_with_hd hd_rev)

lemma name_char_lower: "name_char c \<Longrightarrow> lower_char c = c"
  by (auto simp: name_char_def lower_char_def ascii_lower_def ascii_digit_def ascii_upper_def)

lemma name_char_plain:
  "name_char c \<Longrightarrow> c \<noteq> CHR ''/'' \<and> c \<noteq> CHR 0x5C \<and> c \<noteq> CHR '':'' \<and> 32 < (of_char c :: nat) \<and> (of_char c :: nat) < 127"
  by (auto simp: name_char_def ascii_lower_def ascii_digit_def)

text \<open>
  An accepted collection name is one portable path component: it is not empty, \<^verbatim>\<open>.\<close> or \<^verbatim>\<open>..\<close>, has no
  separator, drive colon, space or control character, no upper-case letter (so no two accepted names
  collide on a case-insensitive file system) and no Windows device stem.
\<close>

theorem collection_name_is_portable:
  assumes "valid_collection_name n"
  shows "n \<noteq> [] \<and> hd n \<noteq> CHR ''.'' \<and> last n \<noteq> CHR ''.'' \<and> length n \<le> 128 \<and>
         (\<forall>c\<in>set n. c \<noteq> CHR ''/'' \<and> c \<noteq> CHR 0x5C \<and> c \<noteq> CHR '':'' \<and> 32 < (of_char c :: nat) \<and> (of_char c :: nat) < 127) \<and>
         (\<forall>m. valid_collection_name m \<longrightarrow> eq_ignore_ascii_case m n \<longrightarrow> m = n) \<and>
         (\<forall>d\<in>set windows_devices. \<not> eq_ignore_ascii_case (takeWhile (\<lambda>c. c \<noteq> CHR ''.'') n) d)"
proof -
  have chars: "\<forall>c\<in>set n. name_char c" using assms by (simp add: valid_collection_name_def list_all_iff)
  have "m = n" if "valid_collection_name m" "eq_ignore_ascii_case m n" for m
  proof -
    have "map lower_char m = map lower_char n"
      using that(2) by (simp add: eq_ignore_ascii_case_def to_ascii_lowercase_def)
    moreover have "\<forall>c\<in>set m. name_char c"
      using that(1) by (simp add: valid_collection_name_def list_all_iff)
    ultimately show ?thesis using chars name_char_lower by (simp add: map_idI)
  qed
  then show ?thesis using assms chars name_char_plain
    by (auto simp: valid_collection_name_def MAX_COLLECTION_NAME_LEN_def is_windows_reserved_def hd_split_on
        list_ex_iff Let_def starts_with_hd ends_with_last)
qed

theorem collection_name_is_portable_witness: "hd ''users.v2'' \<noteq> CHR ''.''"
proof -
  have "valid_collection_name ''users.v2''" by code_simp
  from collection_name_is_portable [OF this] show ?thesis by blast
qed

end
