(* ===== verification/Progress.thy ===== *)
theory Progress
  imports Quorum "HOL-Library.AList"
begin

text \<open>
  \<^verbatim>\<open>src/src/consensus/progress.rs\<close>: what a leader knows of its replicas, and the quorum-committed
  watermark. A \<^verbatim>\<open>HashMap\<close> is an association list without repeated keys; nothing here depends on the
  order it is iterated in. LSNs and instants are natural numbers, so the truncated difference is
  \<^verbatim>\<open>saturating_duration_since\<close>.
\<close>

section \<open>Hash maps\<close>

type_synonym ('k, 'v) hmap = "('k \<times> 'v) list"

definition hm_or_insert :: "'k \<Rightarrow> 'v \<Rightarrow> ('k, 'v) hmap \<Rightarrow> ('k, 'v) hmap" where
  "hm_or_insert k v m = (case map_of m k of Some _ \<Rightarrow> m | None \<Rightarrow> AList.update k v m)"

definition get_or :: "'v \<Rightarrow> ('k, 'v) hmap \<Rightarrow> 'k \<Rightarrow> 'v" where
  "get_or d m k = (case map_of m k of Some v \<Rightarrow> v | None \<Rightarrow> d)"

lemma map_of_or_insert [simp]:
  "map_of (hm_or_insert k v m) = (case map_of m k of Some _ \<Rightarrow> map_of m | None \<Rightarrow> (map_of m)(k \<mapsto> v))"
  by (auto simp: hm_or_insert_def update_conv' split: option.splits)

lemma distinct_or_insert: "distinct (map fst m) \<Longrightarrow> distinct (map fst (hm_or_insert k v m))"
  by (simp add: hm_or_insert_def distinct_update split: option.split)

lemma get_or_update [simp]: "get_or d (AList.update k v m) k' = (if k' = k then v else get_or d m k')"
  by (simp add: get_or_def update_conv')

lemma get_or_Nil [simp]: "get_or d [] k = d"
  by (simp add: get_or_def)

text \<open>The map every step below updates: per replica, per collection, an LSN.\<close>

type_synonym lsn_table = "(string, (string, nat) hmap) hmap"

definition cell :: "lsn_table \<Rightarrow> string \<Rightarrow> string \<Rightarrow> nat option" where
  "cell t replica collection = (case map_of t replica of Some m \<Rightarrow> map_of m collection | None \<Rightarrow> None)"

definition set_cell :: "lsn_table \<Rightarrow> string \<Rightarrow> string \<Rightarrow> nat \<Rightarrow> lsn_table" where
  "set_cell t replica collection lsn =
     AList.update replica (AList.update collection lsn (get_or [] t replica)) t"

text \<open>\<^verbatim>\<open>entry(..).or_insert(0)\<close>, then raised if the new value is larger.\<close>

definition raise_cell :: "lsn_table \<Rightarrow> string \<Rightarrow> string \<Rightarrow> nat \<Rightarrow> lsn_table" where
  "raise_cell t replica collection lsn =
     (let slot = (case cell t replica collection of Some l \<Rightarrow> l | None \<Rightarrow> 0)
      in set_cell t replica collection (if lsn > slot then lsn else slot))"

lemma cell_set_cell [simp]:
  "cell (set_cell t r c l) r' c' = (if r' = r \<and> c' = c then Some l else cell t r' c')"
  by (auto simp: cell_def set_cell_def get_or_def update_conv' split: option.splits)

lemma cell_raise_cell [simp]:
  "cell (raise_cell t r c l) r' c' =
     (if r' = r \<and> c' = c then Some (max l (case cell t r c of Some x \<Rightarrow> x | None \<Rightarrow> 0)) else cell t r' c')"
  by (auto simp: raise_cell_def Let_def split: option.splits)

section \<open>Progress\<close>

record progress =
  p_matched :: lsn_table
  p_committed :: "(string, nat) hmap"
  p_sent_through :: lsn_table
  p_term_floor :: "(string, nat) hmap"
  p_contacted :: "(string, nat) hmap"

definition new_progress :: progress where
  "new_progress = \<lparr>p_matched = [], p_committed = [], p_sent_through = [], p_term_floor = [], p_contacted = []\<rparr>"

definition p_reset :: "progress \<Rightarrow> progress" where
  "p_reset p = p\<lparr>p_matched := [], p_committed := [], p_sent_through := [], p_term_floor := [], p_contacted := []\<rparr>"

definition sent_through :: "progress \<Rightarrow> string \<Rightarrow> string \<Rightarrow> nat option" where
  "sent_through p replica collection = cell (p_sent_through p) replica collection"

definition note_sent :: "progress \<Rightarrow> string \<Rightarrow> string \<Rightarrow> nat \<Rightarrow> progress" where
  "note_sent p replica collection lsn = p\<lparr>p_sent_through := raise_cell (p_sent_through p) replica collection lsn\<rparr>"

definition rewind_to :: "progress \<Rightarrow> string \<Rightarrow> string \<Rightarrow> nat \<Rightarrow> progress" where
  "rewind_to p replica collection lsn = p\<lparr>p_sent_through := set_cell (p_sent_through p) replica collection lsn\<rparr>"

definition seed_cursor :: "lsn_table \<Rightarrow> string \<Rightarrow> string \<times> nat \<Rightarrow> lsn_table \<Rightarrow> lsn_table" where
  "seed_cursor hints replica own t =
     (case own of (collection, tail) \<Rightarrow>
        let hinted = cell hints replica collection
        in set_cell t replica collection (min (case hinted of Some h \<Rightarrow> h | None \<Rightarrow> tail) tail))"

definition reinit_replica :: "lsn_table \<Rightarrow> (string, nat) hmap \<Rightarrow> nat \<Rightarrow> string \<Rightarrow> progress \<Rightarrow> progress" where
  "reinit_replica hints own_tails now replica p =
     p\<lparr>p_contacted := AList.update replica now (p_contacted p),
       p_sent_through := fold (seed_cursor hints replica) own_tails (hm_or_insert replica [] (p_sent_through p))\<rparr>"

definition reinit_as_leader ::
  "progress \<Rightarrow> string list \<Rightarrow> (string, nat) hmap \<Rightarrow> (string, nat) hmap \<Rightarrow> lsn_table \<Rightarrow> nat \<Rightarrow> progress" where
  "reinit_as_leader p replicas own_tails applied hints now =
     fold (reinit_replica hints own_tails now) replicas
       (p\<lparr>p_matched := [], p_sent_through := [], p_term_floor := [], p_contacted := [], p_committed := applied\<rparr>)"

definition begin_tracking :: "progress \<Rightarrow> string \<Rightarrow> string list \<Rightarrow> nat \<Rightarrow> progress" where
  "begin_tracking p replica collections now =
     p\<lparr>p_contacted := hm_or_insert replica now (p_contacted p),
       p_sent_through := AList.update replica
         (fold (\<lambda>c. hm_or_insert c 0) collections (get_or [] (p_sent_through p) replica)) (p_sent_through p)\<rparr>"

definition note_leader_append :: "progress \<Rightarrow> string \<Rightarrow> nat \<Rightarrow> progress" where
  "note_leader_append p collection lsn = p\<lparr>p_term_floor := hm_or_insert collection lsn (p_term_floor p)\<rparr>"

definition observe_ack :: "progress \<Rightarrow> string \<Rightarrow> string \<Rightarrow> nat \<Rightarrow> progress" where
  "observe_ack p replica collection lsn = p\<lparr>p_matched := raise_cell (p_matched p) replica collection lsn\<rparr>"

definition matched :: "progress \<Rightarrow> string \<Rightarrow> string \<Rightarrow> nat" where
  "matched p replica collection = (case cell (p_matched p) replica collection of Some l \<Rightarrow> l | None \<Rightarrow> 0)"

definition term_floor :: "progress \<Rightarrow> string \<Rightarrow> nat option" where
  "term_floor p collection = map_of (p_term_floor p) collection"

definition note_contact :: "progress \<Rightarrow> string \<Rightarrow> nat \<Rightarrow> progress" where
  "note_contact p replica at =
     (let slot = get_or at (p_contacted p) replica
      in p\<lparr>p_contacted := AList.update replica (if at > slot then at else slot) (p_contacted p)\<rparr>)"

definition stamp_member :: "string \<Rightarrow> nat \<Rightarrow> string \<Rightarrow> (string, nat) hmap \<Rightarrow> (string, nat) hmap" where
  "stamp_member own_url now member m = (if \<not> same_endpoint member own_url then hm_or_insert member now m else m)"

definition contact_quorum :: "progress \<Rightarrow> configuration \<Rightarrow> string \<Rightarrow> nat \<Rightarrow> nat \<Rightarrow> bool \<times> progress" where
  "contact_quorum p config own_url now within =
     (let members = cfg_voters config @ (case cfg_outgoing config of Some old \<Rightarrow> old | None \<Rightarrow> []);
          contacted = fold (stamp_member own_url now) members (p_contacted p);
          reached = own_url # map fst (filter (\<lambda>(replica, at). now - at < within \<and> \<not> same_endpoint replica own_url) contacted)
      in (has_quorum config reached, p\<lparr>p_contacted := contacted\<rparr>))"

definition committed :: "progress \<Rightarrow> string \<Rightarrow> nat" where
  "committed p collection = get_or 0 (p_committed p) collection"

definition all_committed :: "progress \<Rightarrow> (string \<times> nat) list" where
  "all_committed p = p_committed p"

definition max_committed :: "progress \<Rightarrow> nat" where
  "max_committed p = foldr max (map snd (p_committed p)) 0"

text \<open>What the leader counts a member as holding: itself by its own fsync, others by their acks.\<close>

definition held_by :: "progress \<Rightarrow> string \<Rightarrow> string \<Rightarrow> nat \<Rightarrow> string \<Rightarrow> nat" where
  "held_by p collection own_url leader_durable member =
     (if same_endpoint member own_url then leader_durable else matched p member collection)"

definition advance :: "progress \<Rightarrow> string \<Rightarrow> string \<Rightarrow> nat \<Rightarrow> configuration \<Rightarrow> nat \<times> progress" where
  "advance p collection own_url leader_durable config =
     (let quorum = quorum_lsn config (held_by p collection own_url leader_durable);
          floor = map_of (p_term_floor p) collection;
          slot = committed p collection;
          slot' = (if (case floor of Some f \<Rightarrow> quorum \<ge> f | None \<Rightarrow> False) \<and> quorum > slot then quorum else slot)
      in (slot', p\<lparr>p_committed := AList.update collection slot' (p_committed p)\<rparr>))"

section \<open>The watermark\<close>

lemma committed_advance:
  "committed (snd (advance p c own d cfg)) c' = (if c' = c then fst (advance p c own d cfg) else committed p c')"
  by (simp add: advance_def committed_def Let_def)

lemma advance_moves:
  assumes "fst (advance p c own d cfg) \<noteq> committed p c"
  defines "q \<equiv> fst (advance p c own d cfg)"
  shows "committed p c < q \<and> q = quorum_lsn cfg (held_by p c own d) \<and> (\<exists>f. term_floor p c = Some f \<and> f \<le> q)"
  using assms by (auto simp: advance_def Let_def term_floor_def split: if_splits option.splits)

lemma advance_mono: "committed p c' \<le> committed (snd (advance p c own d cfg)) c'"
  using advance_moves [of p c own d cfg]
  by (cases "fst (advance p c own d cfg) = committed p c") (auto simp: committed_advance)

text \<open>The operations a leader performs between two promotions, in any order.\<close>

datatype p_event =
    Sent string string nat | Rewound string string nat | Tracked string "string list" nat
  | Appended string nat | Acked string string nat | Contacted string nat
  | Checked configuration string nat nat | Advanced string string nat configuration

fun p_step :: "p_event \<Rightarrow> progress \<Rightarrow> progress" where
  "p_step (Sent r c l) p = note_sent p r c l"
| "p_step (Rewound r c l) p = rewind_to p r c l"
| "p_step (Tracked r cs now) p = begin_tracking p r cs now"
| "p_step (Appended c l) p = note_leader_append p c l"
| "p_step (Acked r c l) p = observe_ack p r c l"
| "p_step (Contacted r at) p = note_contact p r at"
| "p_step (Checked cfg own now within) p = snd (contact_quorum p cfg own now within)"
| "p_step (Advanced c own d cfg) p = snd (advance p c own d cfg)"

text \<open>An event reports nothing a node does not hold: \<open>disk\<close> is what each node has fsynced.\<close>

fun truthful :: "(string \<Rightarrow> string \<Rightarrow> nat) \<Rightarrow> p_event \<Rightarrow> bool" where
  "truthful disk (Acked r c l) = (l \<le> disk (node_key r) c)"
| "truthful disk (Advanced c own d cfg) = (d \<le> disk (node_key own) c)"
| "truthful disk _ = True"

fun counted_under :: "p_event \<Rightarrow> configuration option" where
  "counted_under (Advanced c own d cfg) = Some cfg"
| "counted_under _ = None"

definition evidence :: "(string \<Rightarrow> string \<Rightarrow> nat) \<Rightarrow> progress \<Rightarrow> bool" where
  "evidence disk p = (\<forall>r c. matched p r c \<le> disk (node_key r) c)"

definition quorum_held :: "(string \<Rightarrow> string \<Rightarrow> nat) \<Rightarrow> configuration set \<Rightarrow> progress \<Rightarrow> string \<Rightarrow> bool" where
  "quorum_held disk cfgs p c =
     (\<exists>f. term_floor p c = Some f \<and> f \<le> committed p c \<and>
       (\<exists>cfg\<in>cfgs. has_quorum cfg (holders cfg (\<lambda>v. disk (node_key v) c) (committed p c))))"

lemmas p_ops = note_sent_def rewind_to_def begin_tracking_def note_leader_append_def observe_ack_def
  note_contact_def contact_quorum_def advance_def

lemma evidence_step: "evidence disk p \<Longrightarrow> truthful disk e \<Longrightarrow> evidence disk (p_step e p)"
  by (cases e) (auto simp: evidence_def p_ops matched_def Let_def split: option.splits)

lemma held_by_le: "evidence disk p \<Longrightarrow> d \<le> disk (node_key own) c \<Longrightarrow> held_by p c own d v \<le> disk (node_key v) c"
  by (auto simp: held_by_def evidence_def same_endpoint_node_key)

lemma term_floor_step: "term_floor p c = Some f \<Longrightarrow> term_floor (p_step e p) c = Some f"
  by (cases e) (auto simp: term_floor_def p_ops Let_def split: option.splits)

lemma committed_step: "committed (p_step e p) c \<noteq> committed p c \<Longrightarrow> \<exists>own d cfg. e = Advanced c own d cfg"
  by (cases e) (auto simp: committed_def p_ops Let_def split: if_splits)

lemma holders_mono: "(\<And>v. held v \<le> held' v) \<Longrightarrow> nodes (holders c held t) \<subseteq> nodes (holders c held' t)"
  by (auto simp: holders_def nodes_def intro: le_trans)

lemma advanced_quorum_held:
  assumes "evidence disk p" "d \<le> disk (node_key own) c" "fst (advance p c own d cfg) \<noteq> committed p c"
  shows "quorum_held disk {cfg} (p_step (Advanced c own d cfg) p) c"
proof -
  let ?q = "fst (advance p c own d cfg)"
  obtain f where f: "?q = quorum_lsn cfg (held_by p c own d)" "term_floor p c = Some f" "f \<le> ?q"
    using advance_moves [OF assms(3)] by blast
  have "has_quorum cfg (holders cfg (held_by p c own d) ?q)" unfolding f(1) by (rule quorum_lsn_held)
  then have "has_quorum cfg (holders cfg (\<lambda>v. disk (node_key v) c) ?q)"
    by (rule has_quorum_mono) (intro holders_mono held_by_le assms)
  moreover have "term_floor (p_step (Advanced c own d cfg) p) c = Some f" using f(2) by (rule term_floor_step)
  ultimately show ?thesis using f(3) by (auto simp: quorum_held_def committed_advance)
qed

lemma quorum_held_step:
  assumes "committed (p_step e p) c = committed p c" "quorum_held disk cfgs p c"
  shows "quorum_held disk cfgs (p_step e p) c"
  using assms term_floor_step by (fastforce simp: quorum_held_def)

lemma quorum_held_more: "quorum_held disk cfgs p c \<Longrightarrow> cfgs \<subseteq> cfgs' \<Longrightarrow> quorum_held disk cfgs' p c"
  by (auto simp: quorum_held_def)

lemma run_step_invariant:
  assumes "evidence disk p" "truthful disk e"
    and "committed p c \<noteq> base c \<longrightarrow> quorum_held disk cfgs p c" "base c \<le> committed p c"
    and "set_option (counted_under e) \<subseteq> cfgs"
  shows "evidence disk (p_step e p) \<and> base c \<le> committed (p_step e p) c \<and>
    (committed (p_step e p) c \<noteq> base c \<longrightarrow> quorum_held disk cfgs (p_step e p) c)"
proof (cases "committed (p_step e p) c = committed p c")
  case True
  then show ?thesis using assms quorum_held_step [OF True] evidence_step by auto
next
  case False
  then obtain own d cfg where e: "e = Advanced c own d cfg" using committed_step by blast
  with False have "fst (advance p c own d cfg) \<noteq> committed p c" by (simp add: committed_advance)
  then have "quorum_held disk {cfg} (p_step e p) c"
    using advanced_quorum_held assms(1,2) unfolding e by simp
  then have "quorum_held disk cfgs (p_step e p) c"
    by (rule quorum_held_more) (use assms(5) e in simp)
  moreover have "base c \<le> committed (p_step e p) c"
    using assms(4) advance_mono [of p c c own d cfg] unfolding e by simp
  ultimately show ?thesis using evidence_step assms(1,2) by blast
qed

lemma run_invariant:
  assumes "evidence disk p" "\<forall>e\<in>set es. truthful disk e \<and> set_option (counted_under e) \<subseteq> cfgs"
    and "committed p c \<noteq> base c \<longrightarrow> quorum_held disk cfgs p c" "base c \<le> committed p c"
  shows "base c \<le> committed (fold p_step es p) c \<and>
    (committed (fold p_step es p) c \<noteq> base c \<longrightarrow> quorum_held disk cfgs (fold p_step es p) c)"
  using assms
proof (induction es arbitrary: p)
  case (Cons e es)
  have "evidence disk (p_step e p) \<and> base c \<le> committed (p_step e p) c \<and>
    (committed (p_step e p) c \<noteq> base c \<longrightarrow> quorum_held disk cfgs (p_step e p) c)"
    using Cons.prems by (intro run_step_invariant) auto
  then show ?case using Cons.IH [of "p_step e p"] Cons.prems(2) by simp
qed simp

lemma reinit_fields:
  "p_matched (reinit_as_leader p rs tails applied hints now) = []"
  "p_term_floor (reinit_as_leader p rs tails applied hints now) = []"
  "p_committed (reinit_as_leader p rs tails applied hints now) = applied"
proof -
  have *: "p_matched (fold (reinit_replica hints tails now) rs q) = p_matched q \<and>
    p_term_floor (fold (reinit_replica hints tails now) rs q) = p_term_floor q \<and>
    p_committed (fold (reinit_replica hints tails now) rs q) = p_committed q" for q
    by (induction rs arbitrary: q) (simp_all add: reinit_replica_def)
  show "p_matched (reinit_as_leader p rs tails applied hints now) = []"
    "p_term_floor (reinit_as_leader p rs tails applied hints now) = []"
    "p_committed (reinit_as_leader p rs tails applied hints now) = applied"
    by (simp_all add: reinit_as_leader_def *)
qed

text \<open>
  C9. A leader's commit index is safe through a whole term: starting from a promotion and through any
  interleaving of sends, rewinds, acks, probes, admissions and advances, with replicas acking only
  what they have fsynced, a collection's watermark never falls below what was applied at promotion,
  and if it has moved it is an LSN that a quorum of a configuration in force holds and that is not
  below the leader's own first append of the term (Raft's rule for entries of earlier terms).
\<close>

theorem commit_index_safe:
  fixes es :: "p_event list" and p :: progress and replicas :: "string list" and applied own_tails :: "(string, nat) hmap"
    and hints :: lsn_table and now :: nat
  assumes "\<forall>e\<in>set es. truthful disk e"
  defines "p0 \<equiv> reinit_as_leader p replicas own_tails applied hints now"
    and "cfgs \<equiv> {cfg. \<exists>e\<in>set es. counted_under e = Some cfg}"
  shows "get_or 0 applied c \<le> committed (fold p_step es p0) c \<and>
         (committed (fold p_step es p0) c \<noteq> get_or 0 applied c \<longrightarrow> quorum_held disk cfgs (fold p_step es p0) c)"
proof (rule run_invariant)
  show "evidence disk p0" by (simp add: evidence_def matched_def cell_def p0_def reinit_fields)
  show "\<forall>e\<in>set es. truthful disk e \<and> set_option (counted_under e) \<subseteq> cfgs"
    using assms(1) by (auto simp: cfgs_def)
qed (simp_all add: committed_def p0_def reinit_fields)

theorem commit_index_safe_witness:
  "\<exists>cfgs. quorum_held (\<lambda>_ _. 5) cfgs
     (fold p_step [Appended ''x'' 5, Acked ''b'' ''x'' 5, Advanced ''x'' ''a'' 5 (cfg_simple [''a'', ''b'', ''c''])]
       (reinit_as_leader new_progress [''b'', ''c''] [(''x'', 3)] [(''x'', 2)] [] 0)) ''x''"
proof -
  let ?es = "[Appended ''x'' 5, Acked ''b'' ''x'' 5, Advanced ''x'' ''a'' 5 (cfg_simple [''a'', ''b'', ''c''])]"
  have "committed (fold p_step ?es (reinit_as_leader new_progress [''b'', ''c''] [(''x'', 3)] [(''x'', 2)] [] 0)) ''x'' \<noteq>
      get_or 0 [(''x'', 2)] ''x''" by code_simp
  moreover have "\<forall>e\<in>set ?es. truthful (\<lambda>_ _. 5) e" by simp
  ultimately show ?thesis
    using commit_index_safe [of ?es "\<lambda>_ _. 5" "[(''x'', 2)]" "''x''" new_progress "[''b'', ''c'']" "[(''x'', 3)]" "[]" 0] by blast
qed

section \<open>Send cursors\<close>

lemma seed_cursors:
  assumes "cell (fold (seed_cursor hints r) own_tails t) r' c = Some l"
  shows "cell t r' c = Some l \<or> r' = r \<and> (\<exists>tail. (c, tail) \<in> set own_tails \<and> l \<le> tail)"
  using assms
proof (induction own_tails arbitrary: t)
  case (Cons a own_tails)
  from Cons.IH [of "seed_cursor hints r a t"] Cons.prems show ?case
    by (cases a) (auto simp: seed_cursor_def Let_def split: if_splits)
qed simp

lemma reinit_cursors:
  assumes "sent_through (fold (reinit_replica hints own_tails now) rs q) r c = Some l"
  shows "sent_through q r c = Some l \<or> (\<exists>tail. (c, tail) \<in> set own_tails \<and> l \<le> tail)"
  using assms
proof (induction rs arbitrary: q)
  case (Cons a rs)
  have "cell (hm_or_insert a [] (p_sent_through q)) r c = cell (p_sent_through q) r c"
    by (auto simp: cell_def split: option.splits)
  with Cons.IH [of "reinit_replica hints own_tails now a q"] Cons.prems show ?case
    by (auto simp: sent_through_def reinit_replica_def dest!: seed_cursors)
qed simp

lemma seeded_cursor_bound:
  assumes "distinct (map fst own_tails)"
    and "sent_through (reinit_as_leader p replicas own_tails applied hints now) r c = Some l"
  shows "\<exists>tail. map_of own_tails c = Some tail \<and> l \<le> tail"
  using reinit_cursors [OF assms(2) [unfolded reinit_as_leader_def]] assms(1)
  by (auto simp: sent_through_def cell_def)

end
