(* ===== verification/Lease.thy ===== *)
theory Lease
  imports Progress
begin

text \<open>
  \<^verbatim>\<open>src/src/consensus/lease.rs\<close> and the lease operations of \<^verbatim>\<open>src/src/state.rs\<close> and
  \<^verbatim>\<open>consensus/failover.rs\<close>. Instants and durations are nanoseconds on a clock that never runs
  backwards; \<^verbatim>\<open>Instant\<close> and \<^verbatim>\<open>SystemTime\<close> of one node are two such numbers.
\<close>

section \<open>Windows\<close>

definition ms :: "nat \<Rightarrow> nat" where "ms n = n * 1000000"

definition HEARTBEAT_POLL_INTERVAL_MS :: nat where "HEARTBEAT_POLL_INTERVAL_MS = 500"
definition STALL_TOLERANCE :: nat where "STALL_TOLERANCE = ms 250"

definition refusal_window :: "nat \<Rightarrow> nat" where
  "refusal_window heartbeat_timeout = (heartbeat_timeout - ms HEARTBEAT_POLL_INTERVAL_MS) div 2"

definition newest :: "nat option \<Rightarrow> nat option \<Rightarrow> nat option" where
  "newest a b = (case (a, b) of (Some x, Some y) \<Rightarrow> Some (max x y) | (Some x, None) \<Rightarrow> Some x | (None, y) \<Rightarrow> y)"

definition contact_age :: "nat option \<Rightarrow> nat option \<Rightarrow> nat \<Rightarrow> nat option" where
  "contact_age last_heartbeat last_replication now = map_option (\<lambda>t. now - t) (newest last_heartbeat last_replication)"

definition withholds_vote :: "nat option \<Rightarrow> nat option \<Rightarrow> nat \<Rightarrow> nat \<Rightarrow> nat \<Rightarrow> bool" where
  "withholds_vote contact granted_until since_boot heartbeat_timeout now =
     (let window = refusal_window heartbeat_timeout
      in since_boot < window
         \<or> (case contact of Some age \<Rightarrow> age < window | None \<Rightarrow> False)
         \<or> (case granted_until of Some until \<Rightarrow> until > now | None \<Rightarrow> False))"

definition grantable :: "nat option \<Rightarrow> nat \<Rightarrow> nat" where
  "grantable contact heartbeat_timeout =
     (case contact of Some age \<Rightarrow> refusal_window heartbeat_timeout - age | None \<Rightarrow> 0)"

definition accept_promise :: "nat \<Rightarrow> nat \<Rightarrow> nat" where
  "accept_promise claimed heartbeat_timeout = min claimed (refusal_window heartbeat_timeout)"

definition contact_lost :: "nat option \<Rightarrow> nat option \<Rightarrow> nat \<Rightarrow> nat \<Rightarrow> nat \<Rightarrow> bool" where
  "contact_lost last_heartbeat last_replication now since_start timeout =
     (case newest last_heartbeat last_replication of
        Some latest \<Rightarrow> now - latest \<ge> timeout
      | None \<Rightarrow> since_start \<ge> timeout)"

section \<open>Promises\<close>

record promise =
  pr_until :: nat
  pr_at :: nat
  pr_at_wall :: nat

definition promise_live :: "promise \<Rightarrow> nat \<Rightarrow> nat \<Rightarrow> bool" where
  "promise_live p now wall_now =
     (if pr_until p \<le> now then False
      else (let monotonic = now - pr_at p; wall = wall_now - pr_at_wall p
            in wall \<le> monotonic + STALL_TOLERANCE))"

type_synonym leases = "(string, promise) hmap"

definition leases_clear :: "leases \<Rightarrow> leases" where
  "leases_clear ls = []"

definition note_promise :: "leases \<Rightarrow> string \<Rightarrow> nat \<Rightarrow> nat \<Rightarrow> nat \<Rightarrow> leases" where
  "note_promise ls voter now wall_now dur =
     (let until = (case map_of ls voter of Some held \<Rightarrow> max (pr_until held) (now + dur) | None \<Rightarrow> now + dur)
      in AList.update voter \<lparr>pr_until = until, pr_at = now, pr_at_wall = wall_now\<rparr> ls)"

definition leases_held :: "leases \<Rightarrow> configuration \<Rightarrow> string \<Rightarrow> nat \<Rightarrow> nat \<Rightarrow> bool" where
  "leases_held ls config own_url now wall_now =
     (let promised = own_url # map fst (filter (\<lambda>(voter, p). promise_live p now wall_now \<and> \<not> same_endpoint voter own_url) ls)
      in has_quorum config promised)"

end
