(* ===== verification/Meta_Store.thy ===== *)
theory Meta_Store
  imports Prelude "HOL-Library.Countable"
begin

text \<open>
  The durable half of a node's vote: \<^verbatim>\<open>write_atomic\<close> and its retry loops from \<^verbatim>\<open>src/src/util.rs\<close>, and
  \<^verbatim>\<open>ReplicationMeta\<close> of \<^verbatim>\<open>src/src/consensus/state.rs\<close>. A directory maps file names to contents. What the
  operating system answers -- which call fails, how much of a write reached the file -- is an
  argument, so a theorem for every answer covers every failure and every crash point. The JSON
  encoding is a parameter: \<open>ser\<close> and \<open>de\<close>.
\<close>

section \<open>Atomic replacement\<close>

type_synonym dir = "string \<rightharpoonup> string"

datatype io_error = NotFound | IoFailed | InvalidData | InvalidInput

definition DIR_REMOVE_ATTEMPTS :: nat where "DIR_REMOVE_ATTEMPTS = 5"

text \<open>
  The answers to one \<^verbatim>\<open>write_atomic\<close>: whether the staging file could be created, after how many bytes
  the write failed if it did, whether the sync succeeded, and the answer of each rename attempt.
\<close>

record io_script =
  io_create :: bool
  io_write_fails_after :: "nat option"
  io_sync :: bool
  io_rename :: "nat \<Rightarrow> bool"

fun retry :: "nat \<Rightarrow> nat \<Rightarrow> (nat \<Rightarrow> bool) \<Rightarrow> bool" where
  "retry attempt 0 answers = False"
| "retry attempt (Suc n) answers = (answers attempt \<or> retry (Suc attempt) n answers)"

definition rename_with_retry :: "string \<Rightarrow> string \<Rightarrow> (nat \<Rightarrow> bool) \<Rightarrow> dir \<Rightarrow> (io_error, unit) result \<times> dir" where
  "rename_with_retry src dst answers fs =
     (if retry 0 DIR_REMOVE_ATTEMPTS answers then (Ok (), fs(dst := fs src, src := None)) else (Err IoFailed, fs))"

definition write_atomic :: "io_script \<Rightarrow> string \<Rightarrow> string \<Rightarrow> dir \<Rightarrow> (io_error, unit) result \<times> dir" where
  "write_atomic io name bytes fs =
     (let tmp = name @ ''.tmp''
      in if \<not> io_create io then (Err IoFailed, fs)
         else (case io_write_fails_after io of
                 Some n \<Rightarrow> (Err IoFailed, fs(tmp \<mapsto> take n bytes))
               | None \<Rightarrow>
                   if \<not> io_sync io then (Err IoFailed, fs(tmp \<mapsto> bytes))
                   else rename_with_retry tmp name (io_rename io) (fs(tmp \<mapsto> bytes))))"

section \<open>Replication metadata\<close>

definition META_FILE :: string where "META_FILE = ''replication.meta''"
definition META_TMP :: string where "META_TMP = ''replication.meta.tmp''"

record replication_meta =
  rm_term :: nat
  rm_is_leader :: bool
  rm_voted_for :: "string option"

type_synonym decoder = "string \<Rightarrow> replication_meta option"
type_synonym encoder = "replication_meta \<Rightarrow> string"

fun load_from :: "decoder \<Rightarrow> (string \<Rightarrow> bool) \<Rightarrow> dir \<Rightarrow> string list \<Rightarrow> string option \<Rightarrow>
    (io_error, replication_meta option) result" where
  "load_from de unreadable fs [] corrupt = (case corrupt of Some _ \<Rightarrow> Err InvalidData | None \<Rightarrow> Ok None)"
| "load_from de unreadable fs (name # names) corrupt =
     (if unreadable name then Err IoFailed
      else (case fs name of
              None \<Rightarrow> load_from de unreadable fs names corrupt
            | Some content \<Rightarrow>
                (case de content of
                   Some meta \<Rightarrow> Ok (Some meta)
                 | None \<Rightarrow> load_from de unreadable fs names (Some name))))"

definition meta_load :: "decoder \<Rightarrow> (string \<Rightarrow> bool) \<Rightarrow> dir \<Rightarrow> (io_error, replication_meta option) result" where
  "meta_load de unreadable fs = load_from de unreadable fs [META_FILE, META_TMP] None"

definition meta_save ::
  "encoder \<Rightarrow> decoder \<Rightarrow> (string \<Rightarrow> bool) \<Rightarrow> io_script \<Rightarrow> replication_meta \<Rightarrow> dir \<Rightarrow> (io_error, unit) result \<times> dir" where
  "meta_save ser de unreadable io self fs =
     (case meta_load de unreadable fs of
        Err e \<Rightarrow> (Err e, fs)
      | Ok (Some existing) \<Rightarrow>
          if rm_term self < rm_term existing then (Ok (), fs)
          else if rm_term self = rm_term existing \<and> rm_voted_for existing \<noteq> None
                  \<and> rm_voted_for self \<noteq> rm_voted_for existing then (Err InvalidInput, fs)
          else write_atomic io META_FILE (ser self) fs
      | Ok None \<Rightarrow> write_atomic io META_FILE (ser self) fs)"

section \<open>A recorded vote is never taken back\<close>

text \<open>\<open>m\<close> is no older than \<open>m0\<close>: a later term, or the same term with the recorded vote kept.\<close>

definition extends :: "replication_meta \<Rightarrow> replication_meta \<Rightarrow> bool" where
  "extends m0 m = (rm_term m0 < rm_term m \<or>
     rm_term m0 = rm_term m \<and> (rm_voted_for m0 = None \<or> rm_voted_for m = rm_voted_for m0))"

lemma extends_refl [simp]: "extends m m"
  by (simp add: extends_def)

lemma extends_trans: "extends a b \<Longrightarrow> extends b c \<Longrightarrow> extends a c"
  by (auto simp: extends_def)

text \<open>
  What \<^verbatim>\<open>serde_json\<close> is relied on for: a written value reads back, and no proper prefix of a written
  object is a document.
\<close>

definition json_meta :: "encoder \<Rightarrow> decoder \<Rightarrow> bool" where
  "json_meta ser de = (\<forall>m. de (ser m) = Some m \<and> (\<forall>n < length (ser m). de (take n (ser m)) = None))"

definition on_disk :: "decoder \<Rightarrow> dir \<Rightarrow> (io_error, replication_meta option) result" where
  "on_disk de fs = meta_load de (\<lambda>_. False) fs"

lemma meta_names [simp]: "META_FILE @ ''.tmp'' = META_TMP" "META_FILE \<noteq> META_TMP" "META_TMP \<noteq> META_FILE"
  by (simp_all add: META_FILE_def META_TMP_def)

lemma meta_load_on_disk: "meta_load de unreadable fs = Ok r \<Longrightarrow> on_disk de fs = Ok r"
  by (auto simp: meta_load_def on_disk_def split: if_splits option.splits)

lemma on_disk_cases:
  "on_disk de fs =
     (case map_option de (fs META_FILE) of
        Some (Some m) \<Rightarrow> Ok (Some m)
      | file \<Rightarrow> (case map_option de (fs META_TMP) of
          Some (Some m) \<Rightarrow> Ok (Some m)
        | Some None \<Rightarrow> Err InvalidData
        | None \<Rightarrow> if file = None then Ok None else Err InvalidData))"
  by (auto simp: on_disk_def meta_load_def split: option.splits)

lemma staged_cases:
  assumes "json_meta ser de"
  shows "on_disk de (fs(META_TMP \<mapsto> take n (ser m))) \<in> {on_disk de fs, Ok (Some m), Err InvalidData}"
proof -
  have "de (take n (ser m)) \<in> {None, Some m}"
    using assms by (cases "n < length (ser m)") (auto simp: json_meta_def)
  then show ?thesis by (auto simp: on_disk_cases split: option.splits)
qed

lemma write_atomic_cases:
  assumes "json_meta ser de" "write_atomic io META_FILE (ser m) fs = (r, fs')"
  shows "if r = Ok () then on_disk de fs' = Ok (Some m)
         else on_disk de fs' \<in> {on_disk de fs, Ok (Some m), Err InvalidData}"
proof -
  have whole: "on_disk de (fs(META_TMP \<mapsto> ser m)) \<in> {on_disk de fs, Ok (Some m), Err InvalidData}"
    using staged_cases [OF assms(1), of fs "length (ser m)" m] by simp
  have "de (ser m) = Some m" using assms(1) by (simp add: json_meta_def)
  then have "on_disk de (fs(META_FILE \<mapsto> ser m, META_TMP := None)) = Ok (Some m)" by (simp add: on_disk_cases)
  then show ?thesis
    using assms(2) whole staged_cases [OF assms(1), of fs _ m]
    by (auto simp: write_atomic_def rename_with_retry_def Let_def split: if_splits option.splits)
qed

lemma meta_save_cases:
  assumes "json_meta ser de" "meta_save ser de unreadable io m fs = (r, fs')" "on_disk de fs = Ok (Some m0)"
  shows "on_disk de fs' = Err InvalidData \<and> r \<noteq> Ok () \<or>
         (\<exists>m1. on_disk de fs' = Ok (Some m1) \<and> extends m0 m1 \<and> (m1 = m0 \<or> m1 = m \<and> rm_term m0 \<le> rm_term m) \<and>
            (r = Ok () \<longrightarrow> m1 = m \<or> rm_term m < rm_term m1))"
proof -
  have load: "meta_load de unreadable fs = Ok ex \<Longrightarrow> ex = Some m0" for ex
    using meta_load_on_disk assms(3) by fastforce
  show ?thesis
  proof (cases "\<exists>e. meta_load de unreadable fs = Err e \<or> rm_term m < rm_term m0 \<or>
      rm_term m = rm_term m0 \<and> rm_voted_for m0 \<noteq> None \<and> rm_voted_for m \<noteq> rm_voted_for m0")
    case True
    then have "fs' = fs \<and> (r = Ok () \<longrightarrow> rm_term m < rm_term m0)"
      using assms(2) load by (auto simp: meta_save_def split: sum.splits option.splits if_splits)
    then show ?thesis using assms(3) by auto
  next
    case False
    then have "write_atomic io META_FILE (ser m) fs = (r, fs')"
      using assms(2) load by (auto simp: meta_save_def split: sum.splits option.splits if_splits)
    moreover have "extends m0 m" "rm_term m0 \<le> rm_term m" using False by (auto simp: extends_def)
    ultimately show ?thesis
      using write_atomic_cases [OF assms(1), of io m fs r fs'] assms(3)
      by (cases "r = Ok ()") (simp_all, metis extends_refl)
  qed
qed

text \<open>A node's life as its disk sees it: saves of any value, with any answers, and nothing else.\<close>

inductive saves :: "encoder \<Rightarrow> decoder \<Rightarrow> dir \<Rightarrow> dir \<Rightarrow> bool" for ser de where
  saves_refl: "saves ser de fs fs"
| saves_step: "saves ser de fs fs1 \<Longrightarrow> meta_save ser de unreadable io m fs1 = (r, fs2) \<Longrightarrow> saves ser de fs fs2"

lemma save_after_error:
  assumes "on_disk de fs = Err e" "meta_save ser de unreadable io m fs = (r, fs')"
  shows "fs' = fs \<and> r \<noteq> Ok ()"
  using assms meta_load_on_disk [of de unreadable fs]
  by (cases "meta_load de unreadable fs") (auto simp: meta_save_def)

text \<open>
  C17. A vote that reached the disk cannot be cast again: through any sequence of saves -- interrupted
  at any call, with any prefix of any value left in the staging file, out of order or repeated -- the
  metadata a restart reads is never older than what it held, never names another vote in the same
  term, and never reads as a fresh node; the only other outcome is a refusal to start.
\<close>

theorem recorded_vote_survives:
  assumes "json_meta ser de" "on_disk de fs = Ok (Some m0)" "saves ser de fs fs'"
  shows "(\<exists>m. on_disk de fs' = Ok (Some m) \<and> extends m0 m) \<or> on_disk de fs' = Err InvalidData"
  using assms(3,2)
proof (induction rule: saves.induct)
  case (saves_step fs fs1 unreadable io m r fs2)
  from saves_step.IH [OF saves_step.prems] show ?case
  proof
    assume "\<exists>m. on_disk de fs1 = Ok (Some m) \<and> extends m0 m"
    then obtain m1 where "on_disk de fs1 = Ok (Some m1)" "extends m0 m1" by blast
    then show ?thesis using meta_save_cases [OF assms(1) saves_step.hyps(2)] extends_trans by blast
  next
    assume "on_disk de fs1 = Err InvalidData"
    then show ?thesis using save_after_error saves_step.hyps(2) by metis
  qed
qed auto

text \<open>An encoding with the two properties, for concrete runs: the value's number in unary, and a full stop.\<close>

definition unary_ser :: encoder where
  "unary_ser m = replicate (to_nat (rm_term m, rm_is_leader m, rm_voted_for m)) CHR ''1'' @ ''.''"

definition unary_de :: decoder where
  "unary_de s =
     (if s \<noteq> [] \<and> last s = CHR ''.''
      then (case from_nat (length s - 1) of
              (t, l, v) \<Rightarrow> Some \<lparr>rm_term = t, rm_is_leader = l, rm_voted_for = v\<rparr>)
      else None)"

lemma unary_round_trip: "unary_de (unary_ser m) = Some m"
  by (simp add: unary_de_def unary_ser_def)

lemma json_meta_unary: "json_meta unary_ser unary_de"
proof -
  have "last (take n (unary_ser m)) = CHR ''1''" if "n < length (unary_ser m)" "0 < n" for n m
    using that by (simp add: unary_ser_def last_conv_nth nth_append)
  then have "unary_de (take n (unary_ser m)) = None" if "n < length (unary_ser m)" for n m
    using that by (cases "n = 0") (auto simp: unary_de_def)
  then show ?thesis by (simp add: json_meta_def unary_round_trip)
qed

theorem recorded_vote_survives_witness:
  "\<exists>fs m0. on_disk unary_de fs = Ok (Some m0) \<and> rm_voted_for m0 = Some ''n1'' \<and>
     on_disk unary_de (snd (meta_save unary_ser unary_de (\<lambda>_. False)
       \<lparr>io_create = True, io_write_fails_after = Some 3, io_sync = True, io_rename = \<lambda>_. True\<rparr>
       \<lparr>rm_term = 9, rm_is_leader = False, rm_voted_for = None\<rparr> fs)) \<noteq> Ok None"
proof -
  let ?old = "\<lparr>rm_term = 4, rm_is_leader = False, rm_voted_for = Some ''n1''\<rparr>"
  let ?fs = "[META_FILE \<mapsto> unary_ser ?old]"
  let ?io = "\<lparr>io_create = True, io_write_fails_after = Some 3, io_sync = True, io_rename = \<lambda>_. True\<rparr>"
  let ?new = "\<lparr>rm_term = 9, rm_is_leader = False, rm_voted_for = None\<rparr>"
  have disk: "on_disk unary_de ?fs = Ok (Some ?old)"
    by (simp add: on_disk_cases unary_round_trip)
  have "saves unary_ser unary_de ?fs (snd (meta_save unary_ser unary_de (\<lambda>_. False) ?io ?new ?fs))"
    using saves_step [OF saves_refl] by (metis prod.collapse)
  from recorded_vote_survives [OF json_meta_unary disk this]
  have "on_disk unary_de (snd (meta_save unary_ser unary_de (\<lambda>_. False) ?io ?new ?fs)) \<noteq> Ok None" by auto
  with disk show ?thesis by (intro exI [of _ ?fs] exI [of _ ?old]) simp
qed

end
