(* ===== verification/Consensus.thy ===== *)
theory Consensus
  imports Lease Meta_Store
begin

text \<open>
  A shard node's consensus state and the operations on it: \<^verbatim>\<open>src/src/consensus/state.rs\<close>, the replication
  part of \<^verbatim>\<open>src/src/state.rs\<close>, the identity part of \<^verbatim>\<open>src/src/config.rs\<close>, and the boot decision of
  \<^verbatim>\<open>src/src/main.rs\<close>. Every operation is one critical section of the replication lock: it takes the
  state and what it sampled outside the lock -- the clock, its URL, a collection's durable LSN -- and
  returns the new state. A router has no such state and is not modelled here.
\<close>

section \<open>The node's configuration\<close>

record node_config =
  nc_node_id :: string
  nc_role :: string
  nc_listen_addr :: string
  nc_shard_role :: "string option"
  nc_membership_mode :: string
  nc_primary_addr :: "string option"
  nc_replicas :: "string list"
  nc_peers :: "string list"
  nc_heartbeat_timeout_secs :: nat
  nc_tls_serves :: bool

definition MEMBERSHIP_LEARNER :: string where "MEMBERSHIP_LEARNER = ''learner''"

definition own_url :: "node_config \<Rightarrow> string" where
  "own_url cfg =
     (if str_contains (nc_listen_addr cfg) ''://'' then nc_listen_addr cfg
      else if nc_tls_serves cfg then ''https://'' @ nc_listen_addr cfg
      else ''http://'' @ nc_listen_addr cfg)"

definition nc_is_learner :: "node_config \<Rightarrow> bool" where
  "nc_is_learner cfg = (nc_membership_mode cfg = MEMBERSHIP_LEARNER)"

definition runs_as_primary :: "node_config \<Rightarrow> bool" where
  "runs_as_primary cfg = (\<not> nc_is_learner cfg \<and> nc_shard_role cfg = Some ''primary'')"

definition effective_shard_role :: "node_config \<Rightarrow> string option" where
  "effective_shard_role cfg =
     (if nc_role cfg \<noteq> ''shard'' then None
      else Some (if runs_as_primary cfg then ''primary'' else ''replica''))"

definition secs :: "nat \<Rightarrow> nat" where "secs n = ms (n * 1000)"

section \<open>Replication state\<close>

record replication_state =
  rs_term :: nat
  rs_is_leader :: bool
  rs_voted_for :: "string option"
  rs_last_heartbeat :: "nat option"
  rs_was_receiving_replication :: bool
  rs_last_replication :: "nat option"
  rs_heartbeat_running :: bool
  rs_primary_addr :: "string option"
  rs_replicas :: "string list"
  rs_last_known_primary_position :: "nat option"
  rs_progress :: progress
  rs_leases :: leases
  rs_handing_over :: bool
  rs_booted_at :: nat
  rs_novote_until :: "nat option"
  rs_leader_matched :: "(string, nat \<times> nat) hmap"
  rs_configuration :: "configuration option"

definition rs_quorum :: "replication_state \<Rightarrow> string \<Rightarrow> configuration" where
  "rs_quorum g own =
     (case rs_configuration g of
        Some config \<Rightarrow> config
      | None \<Rightarrow> cfg_simple (foldl push_endpoint [own] (rs_replicas g)))"

text \<open>The result is \<^verbatim>\<open>None\<close> for no change, or whether the heartbeat poll has to be started.\<close>

definition relinquish_leadership :: "replication_state \<Rightarrow> (bool \<times> replication_state) option" where
  "relinquish_leadership g =
     (if \<not> rs_is_leader g then None
      else Some (\<not> rs_heartbeat_running g,
        g\<lparr>rs_is_leader := False, rs_progress := p_reset (rs_progress g), rs_leases := leases_clear (rs_leases g),
          rs_handing_over := False, rs_last_heartbeat := None, rs_last_replication := None,
          rs_was_receiving_replication := False, rs_heartbeat_running := True\<rparr>))"

definition apply_demotion :: "nat \<Rightarrow> nat \<Rightarrow> replication_state \<Rightarrow> (bool \<times> replication_state) option" where
  "apply_demotion now new_term g =
     (if new_term \<le> rs_term g then None
      else Some (\<not> rs_heartbeat_running g,
        g\<lparr>rs_term := new_term, rs_voted_for := None, rs_is_leader := False,
          rs_progress := p_reset (rs_progress g), rs_leases := leases_clear (rs_leases g),
          rs_handing_over := False, rs_last_heartbeat := Some now, rs_last_replication := None,
          rs_was_receiving_replication := False, rs_heartbeat_running := True\<rparr>))"

text \<open>
  \<^verbatim>\<open>replicate_handler\<close> and \<^verbatim>\<open>heartbeat_poll_task\<close> raise the term of the node they run on in one critical
  section each; neither looks at \<^verbatim>\<open>is_leader\<close> there.
\<close>

definition adopt_term :: "nat \<Rightarrow> replication_state \<Rightarrow> replication_state" where
  "adopt_term their_term g = (if their_term > rs_term g then g\<lparr>rs_term := their_term, rs_voted_for := None\<rparr> else g)"

section \<open>Boot\<close>

definition boot_state :: "node_config \<Rightarrow> replication_meta option \<Rightarrow> nat \<Rightarrow> replication_meta \<times> replication_state" where
  "boot_state cfg meta now =
     (let solo_primary = runs_as_primary cfg \<and> nc_peers cfg = [];
          (term, is_leader, voted_for) =
            (case meta of
               Some m \<Rightarrow> (rm_term m, solo_primary, rm_voted_for m)
             | None \<Rightarrow> (0, runs_as_primary cfg, None))
      in (\<lparr>rm_term = term, rm_is_leader = is_leader, rm_voted_for = voted_for\<rparr>,
          \<lparr>rs_term = term, rs_is_leader = is_leader, rs_voted_for = voted_for,
           rs_last_heartbeat = None, rs_was_receiving_replication = False, rs_last_replication = None,
           rs_heartbeat_running = (\<not> is_leader), rs_primary_addr = nc_primary_addr cfg,
           rs_replicas = nc_replicas cfg, rs_last_known_primary_position = None,
           rs_progress = new_progress, rs_leases = [], rs_handing_over = False,
           rs_booted_at = now, rs_novote_until = None, rs_leader_matched = [], rs_configuration = None\<rparr>))"

section \<open>Operations under the replication lock\<close>

definition leader_term :: "replication_state \<Rightarrow> nat option" where
  "leader_term g = (if rs_is_leader g then Some (rs_term g) else None)"

definition still_leading :: "replication_state \<Rightarrow> nat \<Rightarrow> bool" where
  "still_leading g term = (leader_term g = Some term)"

text \<open>\<^verbatim>\<open>note_ack\<close>: the watermark to publish, and the new state.\<close>

definition note_ack ::
  "string \<Rightarrow> nat \<Rightarrow> nat \<Rightarrow> string \<Rightarrow> string \<Rightarrow> nat \<Rightarrow> nat \<Rightarrow> replication_state \<Rightarrow> nat \<times> replication_state" where
  "note_ack own now leader_durable replica collection lsn ack_term g =
     (let p1 = observe_ack (rs_progress g) replica collection lsn;
          p2 = (if rs_is_leader g then note_contact p1 replica now else p1)
      in if \<not> rs_is_leader g \<or> ack_term \<noteq> rs_term g
         then (committed p2 collection, g\<lparr>rs_progress := p2\<rparr>)
         else (case advance p2 collection own leader_durable (rs_quorum g own) of
                 (c, p3) \<Rightarrow> (c, g\<lparr>rs_progress := p3\<rparr>)))"

definition st_note_leader_append :: "string \<Rightarrow> nat \<Rightarrow> replication_state \<Rightarrow> replication_state" where
  "st_note_leader_append collection lsn g =
     (if rs_is_leader g then g\<lparr>rs_progress := note_leader_append (rs_progress g) collection lsn\<rparr> else g)"

definition st_note_sent :: "string \<Rightarrow> string \<Rightarrow> nat \<Rightarrow> replication_state \<Rightarrow> replication_state" where
  "st_note_sent replica collection lsn g = g\<lparr>rs_progress := note_sent (rs_progress g) replica collection lsn\<rparr>"

definition rewind_replica :: "string \<Rightarrow> string \<Rightarrow> nat \<Rightarrow> replication_state \<Rightarrow> replication_state" where
  "rewind_replica replica collection lsn g = g\<lparr>rs_progress := rewind_to (rs_progress g) replica collection lsn\<rparr>"

definition committed_lsn :: "replication_state \<Rightarrow> string \<Rightarrow> nat" where
  "committed_lsn g collection = committed (rs_progress g) collection"

definition has_term_floor :: "replication_state \<Rightarrow> string \<Rightarrow> bool" where
  "has_term_floor g collection = (rs_is_leader g \<and> term_floor (rs_progress g) collection \<noteq> None)"

definition has_current_term_commit :: "replication_state \<Rightarrow> string \<Rightarrow> bool" where
  "has_current_term_commit g collection =
     (case term_floor (rs_progress g) collection of
        Some f \<Rightarrow> committed (rs_progress g) collection \<ge> f
      | None \<Rightarrow> False)"

definition grant_novote :: "nat \<Rightarrow> nat \<Rightarrow> nat \<Rightarrow> nat \<Rightarrow> replication_state \<Rightarrow> nat \<times> replication_state" where
  "grant_novote timeout now asker_term asked g =
     (if asker_term < rs_term g then (0, g)
      else (let age = contact_age (rs_last_heartbeat g) (rs_last_replication g) now;
                granted = min asked (grantable age timeout)
            in if granted = 0 then (0, g)
               else (let until = now + granted
                     in (granted, g\<lparr>rs_novote_until :=
                          Some (case rs_novote_until g of Some held \<Rightarrow> max held until | None \<Rightarrow> until)\<rparr>))))"

definition note_lease_grant ::
  "nat \<Rightarrow> configuration \<Rightarrow> string \<Rightarrow> nat \<Rightarrow> nat \<Rightarrow> nat \<Rightarrow> nat \<Rightarrow> replication_state \<Rightarrow> replication_state" where
  "note_lease_grant timeout quorum voter term sent sent_wall granted g =
     (if granted = 0 \<or> \<not> cfg_contains quorum voter then g
      else (let capped = accept_promise granted timeout
            in if rs_is_leader g \<and> rs_term g = term \<and> \<not> rs_handing_over g
               then g\<lparr>rs_leases := note_promise (rs_leases g) voter sent sent_wall capped\<rparr>
               else g))"

definition holds_read_lease :: "configuration \<Rightarrow> string \<Rightarrow> nat \<Rightarrow> nat \<Rightarrow> replication_state \<Rightarrow> bool" where
  "holds_read_lease config own now wall_now g =
     (\<not> rs_handing_over g \<and> leases_held (rs_leases g) config own now wall_now)"

definition set_handing_over :: "bool \<Rightarrow> replication_state \<Rightarrow> replication_state" where
  "set_handing_over handing_over g = g\<lparr>rs_handing_over := handing_over\<rparr>"

definition note_replica_contact :: "string \<Rightarrow> nat \<Rightarrow> replication_state \<Rightarrow> replication_state" where
  "note_replica_contact replica now g =
     (if rs_is_leader g then g\<lparr>rs_progress := note_contact (rs_progress g) replica now\<rparr> else g)"

definition honours_transfer :: "string \<Rightarrow> string option \<Rightarrow> replication_state \<Rightarrow> bool" where
  "honours_transfer own from g =
     (case from of
        None \<Rightarrow> False
      | Some f \<Rightarrow>
          if rs_is_leader g then same_endpoint f own
          else (case rs_primary_addr g of Some p \<Rightarrow> same_endpoint p f | None \<Rightarrow> False))"

definition holds_contact_quorum ::
  "configuration \<Rightarrow> string \<Rightarrow> nat \<Rightarrow> nat \<Rightarrow> replication_state \<Rightarrow> bool \<times> replication_state" where
  "holds_contact_quorum config own now within g =
     (case contact_quorum (rs_progress g) config own now within of
        (ok, p) \<Rightarrow> (ok, g\<lparr>rs_progress := p\<rparr>))"

definition advance_own_commit :: "string \<Rightarrow> string \<Rightarrow> nat \<Rightarrow> replication_state \<Rightarrow> nat \<times> replication_state" where
  "advance_own_commit own collection durable_lsn g =
     (if \<not> rs_is_leader g then (committed (rs_progress g) collection, g)
      else (case advance (rs_progress g) collection own durable_lsn (rs_quorum g own) of
              (c, p) \<Rightarrow> (c, g\<lparr>rs_progress := p\<rparr>)))"

text \<open>\<^verbatim>\<open>note_leader_committed\<close>: what a follower may publish of the commit index its leader announced.\<close>

definition note_leader_committed ::
  "nat \<Rightarrow> string \<Rightarrow> nat \<Rightarrow> nat \<Rightarrow> nat option \<Rightarrow> replication_state \<Rightarrow> nat option \<times> replication_state" where
  "note_leader_committed durable collection term lsn reported g =
     (if rs_is_leader g \<or> rs_term g \<noteq> term then (None, g)
      else (let prefix = get_or (term, 0) (rs_leader_matched g) collection;
                prefix1 = (if fst prefix \<noteq> term then (term, 0) else prefix);
                prefix2 = (case reported of
                             Some m \<Rightarrow> (fst prefix1, max (snd prefix1) (min m durable))
                           | None \<Rightarrow> prefix1)
            in (Some (min (min lsn (snd prefix2)) durable),
                g\<lparr>rs_leader_matched := AList.update collection prefix2 (rs_leader_matched g)\<rparr>)))"

definition quorum_config :: "string list \<Rightarrow> replication_state \<Rightarrow> configuration" where
  "quorum_config view_voting_set g =
     (case rs_configuration g of Some config \<Rightarrow> config | None \<Rightarrow> cfg_simple view_voting_set)"

definition install_configuration :: "string \<Rightarrow> configuration \<Rightarrow> replication_state \<Rightarrow> bool \<times> replication_state" where
  "install_configuration own config g =
     (if rs_configuration g = Some config then (False, g)
      else (True, g\<lparr>rs_replicas := filter (\<lambda>m. \<not> same_endpoint m own) (cfg_members config),
                    rs_configuration := Some config\<rparr>))"

definition refresh_configuration :: "string \<Rightarrow> configuration option \<Rightarrow> replication_state \<Rightarrow> replication_state" where
  "refresh_configuration own latest g =
     (case latest of None \<Rightarrow> g | Some config \<Rightarrow> snd (install_configuration own config g))"

definition in_quorum :: "bool \<Rightarrow> string \<Rightarrow> replication_state \<Rightarrow> bool" where
  "in_quorum is_learner own g =
     (case rs_configuration g of Some config \<Rightarrow> cfg_contains config own | None \<Rightarrow> \<not> is_learner)"

definition follow_handover :: "string \<Rightarrow> replication_state \<Rightarrow> replication_state" where
  "follow_handover leader g =
     (if rs_is_leader g \<or> rs_primary_addr g \<noteq> None then g else g\<lparr>rs_primary_addr := Some leader\<rparr>)"

text \<open>A node alone in its group, for concrete runs.\<close>

definition demo_cfg :: "string \<Rightarrow> node_config" where
  "demo_cfg k = \<lparr>nc_node_id = ''n-'' @ k, nc_role = ''shard'', nc_listen_addr = k, nc_shard_role = Some ''replica'',
     nc_membership_mode = ''voter'', nc_primary_addr = None, nc_replicas = [], nc_peers = [],
     nc_heartbeat_timeout_secs = 6, nc_tls_serves = False\<rparr>"

end
