(* ===== verification/Election.thy ===== *)
theory Election
  imports Consensus
begin

text \<open>
  \<^verbatim>\<open>src/src/consensus/election.rs\<close> and the vote handlers of \<^verbatim>\<open>src/src/api/internal.rs\<close>: what a voter answers,
  what a candidate does with the answers, and the two places a term and a vote reach disk before
  memory. An election is split where the code awaits, because anything may happen to the node there.
\<close>

section \<open>Votes\<close>

record log_tail =
  last_term :: nat
  last_lsn :: nat

definition tail_le :: "log_tail \<Rightarrow> log_tail \<Rightarrow> bool" where
  "tail_le a b = (last_term a < last_term b \<or> last_term a = last_term b \<and> last_lsn a \<le> last_lsn b)"

definition no_tail :: log_tail where "no_tail = \<lparr>last_term = 0, last_lsn = 0\<rparr>"

record vote_request =
  vr_term :: nat
  vr_candidate_id :: string
  vr_last_lsn :: nat
  vr_last_term :: nat
  vr_logs :: "(string, log_tail) hmap"
  vr_candidate_url :: "string option"
  vr_transfer_from :: "string option"

record vote_decision =
  vd_granted :: bool
  vd_term :: nat
  vd_voted_for :: "string option"

definition log_summary :: "(string, log_tail) hmap \<Rightarrow> log_tail \<Rightarrow> log_tail" where
  "log_summary tails counters =
     (case tails of
        [] \<Rightarrow> counters
      | t # ts \<Rightarrow> foldl (\<lambda>m x. if tail_le m x then x else m) (snd t) (map snd ts))"

definition candidate_is_current :: "(string, log_tail) hmap \<Rightarrow> log_tail \<Rightarrow> vote_request \<Rightarrow> bool" where
  "candidate_is_current my_logs my_summary req =
     (if vr_logs req = []
      then tail_le my_summary \<lparr>last_term = vr_last_term req, last_lsn = vr_last_lsn req\<rparr>
      else list_all (\<lambda>(name, mine). tail_le mine (get_or no_tail (vr_logs req) name)) my_logs)"

definition candidate_is_a_member :: "configuration option \<Rightarrow> vote_request \<Rightarrow> bool" where
  "candidate_is_a_member my_config req =
     (case (my_config, vr_candidate_url req) of
        (Some config, Some url) \<Rightarrow> cfg_contains config url
      | _ \<Rightarrow> True)"

definition grants ::
  "string option \<Rightarrow> (string, log_tail) hmap \<Rightarrow> log_tail \<Rightarrow> configuration option \<Rightarrow> vote_request \<Rightarrow> bool \<Rightarrow> bool" where
  "grants voted_for my_logs my_summary my_config req must_withhold =
     (let can_vote = (case voted_for of None \<Rightarrow> True | Some v \<Rightarrow> v = vr_candidate_id req)
      in can_vote \<and> candidate_is_current my_logs my_summary req \<and>
         candidate_is_a_member my_config req \<and> \<not> must_withhold)"

definition decide_pre_vote ::
  "nat \<Rightarrow> (string, log_tail) hmap \<Rightarrow> log_tail \<Rightarrow> configuration option \<Rightarrow> vote_request \<Rightarrow> bool \<Rightarrow> bool" where
  "decide_pre_vote cur_term my_logs my_summary my_config req must_withhold =
     (if vr_term req \<le> cur_term then False
      else grants None my_logs my_summary my_config req must_withhold)"

definition decide_vote ::
  "nat \<Rightarrow> string option \<Rightarrow> (string, log_tail) hmap \<Rightarrow> log_tail \<Rightarrow> configuration option \<Rightarrow> vote_request \<Rightarrow> bool \<Rightarrow>
     vote_decision" where
  "decide_vote cur_term cur_voted_for my_logs my_summary my_config req must_withhold =
     (if vr_term req < cur_term
      then \<lparr>vd_granted = False, vd_term = cur_term, vd_voted_for = cur_voted_for\<rparr>
      else (let (trm, voted_for) = (if vr_term req > cur_term then (vr_term req, None) else (cur_term, cur_voted_for))
            in if grants voted_for my_logs my_summary my_config req must_withhold
               then \<lparr>vd_granted = True, vd_term = trm, vd_voted_for = Some (vr_candidate_id req)\<rparr>
               else \<lparr>vd_granted = False, vd_term = trm, vd_voted_for = voted_for\<rparr>))"

section \<open>The voter\<close>

text \<open>What a handler samples before it takes the replication lock for writing.\<close>

record vote_sample =
  vs_logs :: "(string, log_tail) hmap"
  vs_summary :: log_tail
  vs_config :: "configuration option"
  vs_withhold :: bool

definition must_withhold :: "nat \<Rightarrow> string \<Rightarrow> nat \<Rightarrow> vote_request \<Rightarrow> replication_state \<Rightarrow> bool" where
  "must_withhold timeout own now req g =
     (withholds_vote (contact_age (rs_last_heartbeat g) (rs_last_replication g) now)
        (rs_novote_until g) (now - rs_booted_at g) timeout now
      \<and> \<not> honours_transfer own (vr_transfer_from req) g)"

text \<open>A node: its memory, its directory, and the saves it has decided on and not performed yet.\<close>

record node =
  nd_repl :: replication_state
  nd_dir :: dir
  nd_owed :: "replication_meta list"

record vote_response =
  vp_term :: nat
  vp_granted :: bool

definition cast_vote ::
  "encoder \<Rightarrow> decoder \<Rightarrow> (string \<Rightarrow> bool) \<Rightarrow> io_script \<Rightarrow> nat \<Rightarrow> vote_sample \<Rightarrow> vote_request \<Rightarrow> node \<Rightarrow>
     vote_response \<times> bool \<times> node" where
  "cast_vote ser de unreadable io now s req n =
     (let g = nd_repl n;
          was_leader = rs_is_leader g;
          old_term = rs_term g;
          d = decide_vote old_term (rs_voted_for g) (vs_logs s) (vs_summary s) (vs_config s) req (vs_withhold s);
          stands_down = (vd_term d > old_term \<and> was_leader);
          changed = (vd_term d \<noteq> old_term \<or> vd_voted_for d \<noteq> rs_voted_for g);
          meta = \<lparr>rm_term = vd_term d, rm_is_leader = (was_leader \<and> \<not> stands_down), rm_voted_for = vd_voted_for d\<rparr>;
          (saved, dir) = (if changed then meta_save ser de unreadable io meta (nd_dir n) else (Ok (), nd_dir n))
      in if saved \<noteq> Ok () then (\<lparr>vp_term = old_term, vp_granted = False\<rparr>, False, n\<lparr>nd_dir := dir\<rparr>)
         else
           (let g1 = g\<lparr>rs_term := vd_term d, rs_voted_for := vd_voted_for d\<rparr>;
                g2 = (if stands_down
                      then g1\<lparr>rs_is_leader := False, rs_progress := p_reset (rs_progress g1),
                              rs_leases := leases_clear (rs_leases g1), rs_heartbeat_running := True\<rparr>
                      else g1);
                g3 = (if vd_granted d then g2\<lparr>rs_last_heartbeat := Some now\<rparr> else g2)
            in (\<lparr>vp_term = vd_term d, vp_granted = vd_granted d\<rparr>, stands_down \<and> \<not> rs_heartbeat_running g,
                n\<lparr>nd_repl := g3, nd_dir := dir\<rparr>)))"

datatype vote_reply = NotAVotingNode | TailsUnreadable | VoteReply vote_response

definition vote_handler ::
  "encoder \<Rightarrow> decoder \<Rightarrow> (string \<Rightarrow> bool) \<Rightarrow> io_script \<Rightarrow> node_config \<Rightarrow> bool \<Rightarrow> nat \<Rightarrow>
     (io_error, (string, log_tail) hmap) result \<Rightarrow> log_tail \<Rightarrow> vote_request \<Rightarrow> node \<Rightarrow> vote_reply \<times> bool \<times> node" where
  "vote_handler ser de unreadable io cfg is_learner now tails counters req n =
     (let own = own_url cfg; g = nd_repl n
      in if nc_role cfg \<noteq> ''shard'' \<or> \<not> in_quorum is_learner own g then (NotAVotingNode, False, n)
         else (case tails of
                 Err e \<Rightarrow> (TailsUnreadable, False, n)
               | Ok my_logs \<Rightarrow>
                   (let s = \<lparr>vs_logs = my_logs, vs_summary = log_summary my_logs counters,
                             vs_config = rs_configuration g,
                             vs_withhold = must_withhold (secs (nc_heartbeat_timeout_secs cfg)) own now req g\<rparr>
                    in case cast_vote ser de unreadable io now s req n of
                         (resp, restart_poll, n') \<Rightarrow> (VoteReply resp, restart_poll, n'))))"

definition pre_vote_handler ::
  "node_config \<Rightarrow> bool \<Rightarrow> nat \<Rightarrow> (io_error, (string, log_tail) hmap) result \<Rightarrow> log_tail \<Rightarrow> vote_request \<Rightarrow>
     replication_state \<Rightarrow> vote_reply" where
  "pre_vote_handler cfg is_learner now tails counters req g =
     (if nc_role cfg \<noteq> ''shard'' \<or> \<not> in_quorum is_learner (own_url cfg) g then NotAVotingNode
      else (case tails of
              Err e \<Rightarrow> TailsUnreadable
            | Ok my_logs \<Rightarrow>
                (let withhold = (rs_is_leader g \<or>
                       withholds_vote (contact_age (rs_last_heartbeat g) (rs_last_replication g) now)
                         (rs_novote_until g) (now - rs_booted_at g) (secs (nc_heartbeat_timeout_secs cfg)) now)
                 in VoteReply \<lparr>vp_term = rs_term g,
                      vp_granted = decide_pre_vote (rs_term g) my_logs (log_summary my_logs counters)
                        (rs_configuration g) req withhold\<rparr>)))"

section \<open>The candidate\<close>

definition mk_vote_request ::
  "nat \<Rightarrow> string \<Rightarrow> (string, log_tail) hmap \<Rightarrow> log_tail \<Rightarrow> string \<Rightarrow> string option \<Rightarrow> vote_request" where
  "mk_vote_request trm candidate_id logs tail own transfer_from =
     \<lparr>vr_term = trm, vr_candidate_id = candidate_id, vr_last_lsn = last_lsn tail, vr_last_term = last_term tail,
      vr_logs = logs, vr_candidate_url = Some own, vr_transfer_from = transfer_from\<rparr>"

text \<open>What a peer's HTTP answer is worth: whether it granted, and the term it named.\<close>

datatype peer_answer = Answered vote_response | Unparsed | EndpointMissing | Unreachable

fun answer_value :: "bool \<Rightarrow> peer_answer \<Rightarrow> bool \<times> nat" where
  "answer_value absent_grants (Answered v) = (vp_granted v, vp_term v)"
| "answer_value absent_grants Unparsed = (False, 0)"
| "answer_value absent_grants EndpointMissing = (absent_grants, 0)"
| "answer_value absent_grants Unreachable = (False, 0)"

text \<open>\<^verbatim>\<open>ask_peers\<close>: the answers in the order they arrive before the deadline, counted until they carry a quorum.\<close>

fun tally :: "configuration \<Rightarrow> string list \<Rightarrow> nat \<Rightarrow> (string \<times> bool \<times> nat) list \<Rightarrow> string list \<times> nat" where
  "tally quorum granted highest [] = (granted, highest)"
| "tally quorum granted highest ((voter, vote_granted, trm) # answers) =
     (if has_quorum quorum granted then (granted, highest)
      else tally quorum (if vote_granted then granted @ [voter] else granted) (max highest trm) answers)"

definition ask_peers :: "string \<Rightarrow> configuration \<Rightarrow> bool \<Rightarrow> (string \<times> peer_answer) list \<Rightarrow> string list \<times> nat" where
  "ask_peers own quorum absent_grants arrived =
     tally quorum [own] 0 (map (\<lambda>(voter, a). (voter, answer_value absent_grants a)) arrived)"

text \<open>\<^verbatim>\<open>run_election\<close> up to the round of votes: whether to stand at all.\<close>

datatype campaign = AlreadyLeading | NonVoting | LeaderServing | HeardFromLeader | HistoriesUnreadable | Campaign

definition heard_from_leader_since :: "replication_state \<Rightarrow> nat \<Rightarrow> bool" where
  "heard_from_leader_since g since =
     ((case rs_last_heartbeat g of Some at \<Rightarrow> at > since | None \<Rightarrow> False) \<or>
      (case rs_last_replication g of Some at \<Rightarrow> at > since | None \<Rightarrow> False))"

definition start_campaign :: "bool \<Rightarrow> bool \<Rightarrow> string \<Rightarrow> nat \<Rightarrow> bool \<Rightarrow> bool \<Rightarrow> replication_state \<Rightarrow> campaign" where
  "start_campaign forced is_learner own began leader_found tails_ok g =
     (if rs_is_leader g then AlreadyLeading
      else if \<not> in_quorum is_learner own g then NonVoting
      else if \<not> forced \<and> leader_found then LeaderServing
      else if \<not> forced \<and> heard_from_leader_since g began then HeardFromLeader
      else if \<not> tails_ok then HistoriesUnreadable
      else Campaign)"

definition campaign_peers :: "configuration \<Rightarrow> string \<Rightarrow> string list" where
  "campaign_peers quorum own = filter (\<lambda>v. \<not> same_endpoint v own) (cfg_members quorum)"

definition lone_voter :: "configuration \<Rightarrow> string \<Rightarrow> bool" where
  "lone_voter quorum own = has_quorum quorum [own]"

definition pre_vote_needed :: "bool \<Rightarrow> configuration \<Rightarrow> string \<Rightarrow> bool" where
  "pre_vote_needed forced quorum own =
     (\<not> forced \<and> \<not> lone_voter quorum own \<and> campaign_peers quorum own \<noteq> [])"

datatype pre_vote_result = AdoptTerm nat | ShortOfQuorum | Stand

definition pre_vote_result :: "nat \<Rightarrow> configuration \<Rightarrow> string \<Rightarrow> (string \<times> peer_answer) list \<Rightarrow> pre_vote_result" where
  "pre_vote_result current_term quorum own arrived =
     (case ask_peers own quorum True arrived of
        (willing, seen_term) \<Rightarrow>
          if seen_term > current_term then AdoptTerm seen_term
          else if \<not> has_quorum quorum willing then ShortOfQuorum
          else Stand)"

text \<open>Standing is a self-vote, saved before memory holds it. The result is the new term, if it was saved.\<close>

definition stand :: "encoder \<Rightarrow> decoder \<Rightarrow> (string \<Rightarrow> bool) \<Rightarrow> io_script \<Rightarrow> string \<Rightarrow> node \<Rightarrow> nat option \<times> node" where
  "stand ser de unreadable io candidate_id n =
     (let new_term = rs_term (nd_repl n) + 1;
          meta = \<lparr>rm_term = new_term, rm_is_leader = False, rm_voted_for = Some candidate_id\<rparr>
      in case meta_save ser de unreadable io meta (nd_dir n) of
           (Err e, dir) \<Rightarrow> (None, n\<lparr>nd_dir := dir\<rparr>)
         | (Ok _, dir) \<Rightarrow>
             (Some new_term,
              n\<lparr>nd_dir := dir, nd_repl := (nd_repl n)\<lparr>rs_term := new_term, rs_voted_for := Some candidate_id\<rparr>\<rparr>))"

datatype election_result = Won | SawTerm nat | NoPeers | Lost

definition election_result ::
  "configuration \<Rightarrow> string \<Rightarrow> nat \<Rightarrow> (string \<times> peer_answer) list \<Rightarrow> election_result" where
  "election_result quorum own new_term arrived =
     (if lone_voter quorum own then Won
      else if campaign_peers quorum own = [] then NoPeers
      else (case ask_peers own quorum False arrived of
              (granted, seen_term) \<Rightarrow>
                if seen_term > new_term then SawTerm seen_term
                else if has_quorum quorum granted then Won
                else Lost))"

text \<open>
  \<^verbatim>\<open>become_leader\<close> with \<^verbatim>\<open>seed_leader_progress\<close>: the state, and the save it owes. \<open>latest\<close> is the newest
  configuration of the log, \<open>view\<close> the voting set of the cluster view.
\<close>

definition seed_leader_progress ::
  "(string, log_tail) hmap \<Rightarrow> (string, nat) hmap \<Rightarrow> lsn_table \<Rightarrow> nat \<Rightarrow> replication_state \<Rightarrow> replication_state" where
  "seed_leader_progress tails applied hints now g =
     g\<lparr>rs_progress := reinit_as_leader (rs_progress g) (rs_replicas g)
          (map (\<lambda>(name, t). (name, last_lsn t)) tails) applied hints now,
       rs_leases := leases_clear (rs_leases g)\<rparr>"

definition become_leader ::
  "node_config \<Rightarrow> bool \<Rightarrow> configuration option \<Rightarrow> string list \<Rightarrow> (string, log_tail) hmap \<Rightarrow> (string, nat) hmap \<Rightarrow>
     lsn_table \<Rightarrow> nat \<Rightarrow> nat \<Rightarrow> node \<Rightarrow> bool \<times> node" where
  "become_leader cfg is_learner latest view tails applied hints now trm n =
     (let own = own_url cfg; id = nc_node_id cfg
      in if \<not> in_quorum is_learner own (nd_repl n) then (False, n)
         else (let g = refresh_configuration own latest (nd_repl n);
                   quorum_peers = campaign_peers (quorum_config view g) own
               in if rs_term g \<noteq> trm \<or> rs_voted_for g \<noteq> Some id then (False, n\<lparr>nd_repl := g\<rparr>)
                  else (True,
                    n\<lparr>nd_repl := seed_leader_progress tails applied hints now
                        (g\<lparr>rs_is_leader := True, rs_heartbeat_running := False, rs_primary_addr := None,
                           rs_replicas := quorum_peers\<rparr>),
                      nd_owed := nd_owed n @ [\<lparr>rm_term = trm, rm_is_leader = True, rm_voted_for = Some id\<rparr>]\<rparr>)))"

end
