(* ===== verification/Election_Safety.thy ===== *)
theory Election_Safety
  imports Election
begin

text \<open>
  The composition of voters, candidates, disks and restarts: a group of nodes as a step relation in
  which every step is one critical section of the code, in any order, on any node, with any
  interruption. The ghost components record the votes that were granted and the elections that were
  won; no step reads them except the candidate, whose answers are the granted votes.
\<close>

section \<open>What one decision keeps\<close>

definition holds_vote :: "replication_meta \<Rightarrow> nat \<Rightarrow> string \<Rightarrow> bool" where
  "holds_vote m t c = (t < rm_term m \<or> t = rm_term m \<and> rm_voted_for m = Some c)"

lemma holds_vote_extends: "holds_vote m t c \<Longrightarrow> extends m m' \<Longrightarrow> holds_vote m' t c"
  by (auto simp: holds_vote_def extends_def)

text \<open>The disk still knows the vote, or refuses to be read.\<close>

definition durable_vote :: "decoder \<Rightarrow> dir \<Rightarrow> nat \<Rightarrow> string \<Rightarrow> bool" where
  "durable_vote de fs t c =
     (case on_disk de fs of Ok (Some m) \<Rightarrow> holds_vote m t c | Ok None \<Rightarrow> False | Err e \<Rightarrow> True)"

lemma durable_vote_save:
  assumes "json_meta ser de" "meta_save ser de unreadable io m fs = (r, fs')" "durable_vote de fs t c"
  shows "durable_vote de fs' t c"
proof (cases "on_disk de fs")
  case (Inl e)
  then show ?thesis using save_after_error [OF Inl assms(2)] assms(3) by simp
next
  case (Inr ex)
  then obtain m0 where m0: "on_disk de fs = Ok (Some m0)" "holds_vote m0 t c"
    using assms(3) by (auto simp: durable_vote_def split: option.splits)
  from meta_save_cases [OF assms(1,2) m0(1)] m0(2) show ?thesis
    by (auto simp: durable_vote_def intro: holds_vote_extends)
qed

lemma meta_save_Ok:
  assumes "json_meta ser de" "meta_save ser de unreadable io m fs = (Ok (), fs')"
  shows "\<exists>m1. on_disk de fs' = Ok (Some m1) \<and> (m1 = m \<or> rm_term m < rm_term m1)"
proof (cases "on_disk de fs")
  case (Inl e)
  then show ?thesis using save_after_error [OF Inl assms(2)] by simp
next
  case (Inr ex)
  show ?thesis
  proof (cases ex)
    case None
    then have "meta_load de unreadable fs = Ok None"
      using assms(2) meta_load_on_disk [of de unreadable fs] Inr
      by (cases "meta_load de unreadable fs") (auto simp: meta_save_def)
    then have "write_atomic io META_FILE (ser m) fs = (Ok (), fs')" using assms(2) by (simp add: meta_save_def)
    then show ?thesis using write_atomic_cases [OF assms(1)] by fastforce
  next
    case (Some m0)
    then show ?thesis using meta_save_cases [OF assms(1,2)] Inr by fastforce
  qed
qed

lemma saved_vote_durable:
  assumes "json_meta ser de" "meta_save ser de unreadable io m fs = (Ok (), fs')" "rm_voted_for m = Some c"
  shows "durable_vote de fs' (rm_term m) c"
  using meta_save_Ok [OF assms(1,2)] assms(3) by (auto simp: durable_vote_def holds_vote_def)

lemma decide_vote_cases:
  assumes "d = decide_vote t v logs summary config req withhold"
  shows "t \<le> vd_term d \<and> (vd_term d = t \<longrightarrow> v \<noteq> None \<longrightarrow> vd_voted_for d = v) \<and>
    (vd_granted d \<longrightarrow> vd_term d = vr_term req \<and> vd_voted_for d = Some (vr_candidate_id req)) \<and>
    (vd_voted_for d \<noteq> None \<longrightarrow> vd_granted d \<or> vd_term d = t \<and> vd_voted_for d = v)"
  using assms by (auto simp: decide_vote_def grants_def Let_def split: if_splits option.splits)

section \<open>The group\<close>

record cluster =
  cl_nodes :: "string \<Rightarrow> node"
  cl_votes :: "(string \<times> nat \<times> string) set"
  cl_wins :: "(nat \<times> string) set"

definition put_node :: "cluster \<Rightarrow> string \<Rightarrow> node \<Rightarrow> cluster" where
  "put_node c k n = c\<lparr>cl_nodes := (cl_nodes c)(k := n)\<rparr>"

definition first_boot :: "(string \<Rightarrow> node_config) \<Rightarrow> cluster \<Rightarrow> bool" where
  "first_boot cfgs c =
     (cl_votes c = {} \<and> cl_wins c = {} \<and>
      (\<forall>k. \<exists>now. cl_nodes c k =
         \<lparr>nd_repl = snd (boot_state (cfgs k) None now), nd_dir = Map.empty,
          nd_owed = [fst (boot_state (cfgs k) None now)]\<rparr>))"

text \<open>
  \<open>strict\<close> adds the guard the term adoption does not have; \<open>counted\<close> holds the configurations that
  elections of this run are counted under.
\<close>

inductive cluster_step ::
  "encoder \<Rightarrow> decoder \<Rightarrow> (string \<Rightarrow> node_config) \<Rightarrow> configuration set \<Rightarrow> bool \<Rightarrow> cluster \<Rightarrow> cluster \<Rightarrow> bool"
  for ser de cfgs counted strict where
  vote: "cast_vote ser de unreadable io now s req (cl_nodes c k) = (resp, restart, n') \<Longrightarrow>
    cluster_step ser de cfgs counted strict c
      ((put_node c k n')\<lparr>cl_votes := (if vp_granted resp then insert (k, vr_term req, vr_candidate_id req) (cl_votes c)
         else cl_votes c)\<rparr>)"
| candidacy: "\<not> rs_is_leader (nd_repl (cl_nodes c k)) \<Longrightarrow>
    stand ser de unreadable io (nc_node_id (cfgs k)) (cl_nodes c k) = (stood, n') \<Longrightarrow>
    cluster_step ser de cfgs counted strict c
      ((put_node c k n')\<lparr>cl_votes := (case stood of Some t \<Rightarrow> insert (k, t, nc_node_id (cfgs k)) (cl_votes c)
         | None \<Rightarrow> cl_votes c)\<rparr>)"
| victory: "node_key (own_url (cfgs k)) = k \<Longrightarrow> quorum \<in> counted \<Longrightarrow> election_result quorum (own_url (cfgs k)) t arrived = Won \<Longrightarrow>
    (k, t, nc_node_id (cfgs k)) \<in> cl_votes c \<Longrightarrow>
    (\<And>voter resp. (voter, Answered resp) \<in> set arrived \<Longrightarrow> vp_granted resp \<Longrightarrow>
       (node_key voter, t, nc_node_id (cfgs k)) \<in> cl_votes c) \<Longrightarrow>
    become_leader (cfgs k) is_learner latest view tails applied hints now t (cl_nodes c k) = (True, n') \<Longrightarrow>
    cluster_step ser de cfgs counted strict c
      ((put_node c k n')\<lparr>cl_wins := insert (t, nc_node_id (cfgs k)) (cl_wins c)\<rparr>)"
| demotion: "apply_demotion now t (nd_repl n) = Some (restart, g) \<Longrightarrow> n = cl_nodes c k \<Longrightarrow>
    cluster_step ser de cfgs counted strict c
      (put_node c k (n\<lparr>nd_repl := g, nd_owed := \<lparr>rm_term = t, rm_is_leader = False, rm_voted_for = None\<rparr> # nd_owed n\<rparr>))"
| adoption: "n = cl_nodes c k \<Longrightarrow> (strict \<Longrightarrow> \<not> rs_is_leader (nd_repl n)) \<Longrightarrow>
    cluster_step ser de cfgs counted strict c
      (put_node c k (n\<lparr>nd_repl := adopt_term t (nd_repl n),
         nd_owed := \<lparr>rm_term = t, rm_is_leader = False, rm_voted_for = None\<rparr> # nd_owed n\<rparr>))"
| step_down: "relinquish_leadership (nd_repl n) = Some (restart, g) \<Longrightarrow> n = cl_nodes c k \<Longrightarrow>
    cluster_step ser de cfgs counted strict c (put_node c k (n\<lparr>nd_repl := g\<rparr>))"
| sampled: "n = cl_nodes c k \<Longrightarrow>
    cluster_step ser de cfgs counted strict c
      (put_node c k (n\<lparr>nd_owed := \<lparr>rm_term = rs_term (nd_repl n), rm_is_leader = False,
         rm_voted_for = rs_voted_for (nd_repl n)\<rparr> # nd_owed n\<rparr>))"
| flush: "n = cl_nodes c k \<Longrightarrow> m \<in> set (nd_owed n) \<Longrightarrow> meta_save ser de unreadable io m (nd_dir n) = (r, dir) \<Longrightarrow>
    cluster_step ser de cfgs counted strict c (put_node c k (n\<lparr>nd_dir := dir, nd_owed := remove1 m (nd_owed n)\<rparr>))"
| local: "n = cl_nodes c k \<Longrightarrow> rs_term g = rs_term (nd_repl n) \<Longrightarrow> rs_voted_for g = rs_voted_for (nd_repl n) \<Longrightarrow>
    rs_is_leader g = rs_is_leader (nd_repl n) \<Longrightarrow>
    cluster_step ser de cfgs counted strict c (put_node c k (n\<lparr>nd_repl := g\<rparr>))"
| restart: "meta_load de unreadable (nd_dir (cl_nodes c k)) = Ok meta \<Longrightarrow>
    boot_state (cfgs k) meta now = (m, g) \<Longrightarrow>
    cluster_step ser de cfgs counted strict c
      (put_node c k \<lparr>nd_repl = g, nd_dir = nd_dir (cl_nodes c k), nd_owed = [m]\<rparr>)"

inductive cluster_reach ::
  "encoder \<Rightarrow> decoder \<Rightarrow> (string \<Rightarrow> node_config) \<Rightarrow> configuration set \<Rightarrow> bool \<Rightarrow> cluster \<Rightarrow> bool"
  for ser de cfgs counted strict where
  init: "first_boot cfgs c \<Longrightarrow> cluster_reach ser de cfgs counted strict c"
| step: "cluster_reach ser de cfgs counted strict c \<Longrightarrow> cluster_step ser de cfgs counted strict c c' \<Longrightarrow>
    cluster_reach ser de cfgs counted strict c'"

section \<open>The invariant\<close>

text \<open>
  A granted vote is in the voter's memory and on its disk, or both have moved to a later term; the
  vote memory holds is on disk; and no node granted two votes in one term.
\<close>

definition vote_kept :: "decoder \<Rightarrow> node \<Rightarrow> nat \<Rightarrow> string \<Rightarrow> bool" where
  "vote_kept de n t c =
     ((t < rs_term (nd_repl n) \<or> t = rs_term (nd_repl n) \<and> rs_voted_for (nd_repl n) = Some c) \<and>
      durable_vote de (nd_dir n) t c)"

definition node_ok :: "decoder \<Rightarrow> node \<Rightarrow> bool" where
  "node_ok de n = (\<forall>v. rs_voted_for (nd_repl n) = Some v \<longrightarrow> durable_vote de (nd_dir n) (rs_term (nd_repl n)) v)"

definition votes_ok :: "decoder \<Rightarrow> cluster \<Rightarrow> bool" where
  "votes_ok de c =
     ((\<forall>k. node_ok de (cl_nodes c k)) \<and>
      (\<forall>(k, t, v)\<in>cl_votes c. vote_kept de (cl_nodes c k) t v) \<and>
      (\<forall>k t v v'. (k, t, v) \<in> cl_votes c \<longrightarrow> (k, t, v') \<in> cl_votes c \<longrightarrow> v = v'))"

definition wins_ok :: "configuration set \<Rightarrow> cluster \<Rightarrow> bool" where
  "wins_ok counted c =
     (\<forall>(t, id)\<in>cl_wins c. \<exists>quorum\<in>counted. decides quorum {v. (v, t, id) \<in> cl_votes c})"

text \<open>What a step on one node has to establish, given the votes it adds.\<close>

lemma votes_ok_put:
  assumes "votes_ok de c" "cl_nodes c' = (cl_nodes c)(k := n')" "node_ok de n'"
    and "cl_votes c' = cl_votes c \<union> new" "new \<subseteq> {(k, t, v) | t v. vote_kept de n' t v}"
    and "\<And>t v. vote_kept de (cl_nodes c k) t v \<Longrightarrow> vote_kept de n' t v"
    and "\<And>t v v'. (k, t, v) \<in> new \<Longrightarrow> (k, t, v') \<in> new \<Longrightarrow> v = v'"
    and "\<And>t v v'. (k, t, v) \<in> new \<Longrightarrow> vote_kept de (cl_nodes c k) t v' \<Longrightarrow> v = v'"
  shows "votes_ok de c'"
proof -
  have kept: "(k', t, v) \<in> cl_votes c \<Longrightarrow> vote_kept de (cl_nodes c k') t v" for k' t v
    using assms(1) by (auto simp: votes_ok_def)
  then have "(k', t, v) \<in> cl_votes c' \<Longrightarrow> vote_kept de (cl_nodes c' k') t v" for k' t v
    using assms(2,4-6) by auto
  moreover have "v = v'" if "(k', t, v) \<in> cl_votes c'" "(k', t, v') \<in> cl_votes c'" for k' t v v'
  proof -
    have new: "k' = k" if "(k', t, w) \<in> new" for w using assms(5) that by auto
    have old: "w = w'" if "(k', t, w) \<in> cl_votes c" "(k', t, w') \<in> cl_votes c" for w w'
      using assms(1) that unfolding votes_ok_def by blast
    have mixed: "w = w'" if "(k', t, w) \<in> new" "(k', t, w') \<in> cl_votes c" for w w'
      using assms(8) [of t w w'] kept [OF that(2)] new [OF that(1)] that(1) by simp
    from that show ?thesis unfolding assms(4)
    proof (elim UnE)
      assume "(k', t, v) \<in> new" "(k', t, v') \<in> new"
      then show ?thesis using assms(7) new by metis
    qed (use old mixed in \<open>auto dest: sym\<close>)
  qed
  moreover have "\<forall>k'. node_ok de (cl_nodes c' k')" using assms(1-3) by (auto simp: votes_ok_def)
  ultimately show ?thesis unfolding votes_ok_def by blast
qed

text \<open>A step that grants nothing keeps the votes if it moves the node's term and vote forwards only.\<close>

lemma votes_ok_silent:
  assumes "votes_ok de c" "cl_nodes c' = (cl_nodes c)(k := n')" "cl_votes c' = cl_votes c" "node_ok de n'"
    and "\<And>t v. vote_kept de (cl_nodes c k) t v \<Longrightarrow> vote_kept de n' t v"
  shows "votes_ok de c'"
  by (rule votes_ok_put [OF assms(1,2,4), of "{}"]) (use assms in auto)

lemma votes_ok_quiet:
  assumes "votes_ok de c" "node_ok de n'" "\<And>t v. vote_kept de (cl_nodes c k) t v \<Longrightarrow> vote_kept de n' t v"
  shows "votes_ok de (put_node c k n')"
  by (rule votes_ok_silent [OF assms(1), of _ k n']) (use assms in \<open>auto simp: put_node_def\<close>)

lemma cast_vote_ok:
  assumes "json_meta ser de" "cast_vote ser de unreadable io now s req n = (resp, restart, n')" "node_ok de n"
  shows "node_ok de n' \<and> (\<forall>t v. vote_kept de n t v \<longrightarrow> vote_kept de n' t v) \<and>
    (vp_granted resp \<longrightarrow> vote_kept de n' (vr_term req) (vr_candidate_id req) \<and>
       (\<forall>v. vote_kept de n (vr_term req) v \<longrightarrow> v = vr_candidate_id req))"
proof -
  let ?g = "nd_repl n"
  define d where "d = decide_vote (rs_term ?g) (rs_voted_for ?g) (vs_logs s) (vs_summary s) (vs_config s) req (vs_withhold s)"
  define changed where "changed = (vd_term d \<noteq> rs_term ?g \<or> vd_voted_for d \<noteq> rs_voted_for ?g)"
  define m where "m = \<lparr>rm_term = vd_term d, rm_is_leader = (rs_is_leader ?g \<and> \<not> (vd_term d > rs_term ?g \<and> rs_is_leader ?g)),
    rm_voted_for = vd_voted_for d\<rparr>"
  define sv where "sv = (if changed then meta_save ser de unreadable io m (nd_dir n) else (Ok (), nd_dir n))"
  note dec = decide_vote_cases [OF d_def]
  have keep: "durable_vote de (nd_dir n) t v \<Longrightarrow> durable_vote de (snd sv) t v" for t v
    using durable_vote_save [OF assms(1)] unfolding sv_def by (cases "meta_save ser de unreadable io m (nd_dir n)") auto
  show ?thesis
  proof (cases "fst sv = Ok ()")
    case False
    then have "n' = n\<lparr>nd_dir := snd sv\<rparr>" "\<not> vp_granted resp"
      using assms(2) unfolding cast_vote_def Let_def d_def [symmetric] changed_def [symmetric] m_def [symmetric] sv_def [symmetric]
      by (auto split: prod.splits)
    then show ?thesis using assms(3) keep by (auto simp: node_ok_def vote_kept_def)
  next
    case True
    then have n': "rs_term (nd_repl n') = vd_term d" "rs_voted_for (nd_repl n') = vd_voted_for d" "nd_dir n' = snd sv"
      "vp_granted resp = vd_granted d"
      using assms(2) unfolding cast_vote_def Let_def d_def [symmetric] changed_def [symmetric] m_def [symmetric] sv_def [symmetric]
      by (auto split: prod.splits if_splits)
    have dur: "durable_vote de (snd sv) (vd_term d) v" if "vd_voted_for d = Some v" for v
    proof (cases changed)
      case True
      then have "meta_save ser de unreadable io m (nd_dir n) = (Ok (), snd sv)"
        using \<open>fst sv = Ok ()\<close> unfolding sv_def by (metis prod.collapse)
      from saved_vote_durable [OF assms(1) this] that show ?thesis by (simp add: m_def)
    next
      case False
      then show ?thesis using assms(3) that by (auto simp: changed_def sv_def node_ok_def)
    qed
    then have ok: "node_ok de n'" by (simp add: node_ok_def n')
    have kept: "vote_kept de n' t v" if "vote_kept de n t v" for t v
      using that dec keep by (auto simp: vote_kept_def n')
    have granted: "vote_kept de n' (vr_term req) (vr_candidate_id req)" if "vd_granted d"
      using dec that dur by (auto simp: vote_kept_def n')
    have "v = vr_candidate_id req" if "vd_granted d" "vote_kept de n (vr_term req) v" for v
      using kept [OF that(2)] granted that(1) dec by (auto simp: vote_kept_def n')
    with ok kept granted show ?thesis unfolding n' by blast
  qed
qed

lemma stand_ok:
  assumes "json_meta ser de" "stand ser de unreadable io me n = (stood, n')" "node_ok de n"
  shows "node_ok de n' \<and> (\<forall>t v. vote_kept de n t v \<longrightarrow> vote_kept de n' t v) \<and>
    (\<forall>t. stood = Some t \<longrightarrow> vote_kept de n' t me \<and> (\<forall>v. \<not> vote_kept de n t v))"
proof -
  let ?m = "\<lparr>rm_term = rs_term (nd_repl n) + 1, rm_is_leader = False, rm_voted_for = Some me\<rparr>"
  obtain r dir where sv: "meta_save ser de unreadable io ?m (nd_dir n) = (r, dir)" by fastforce
  have keep: "durable_vote de (nd_dir n) t v \<Longrightarrow> durable_vote de dir t v" for t v
    using durable_vote_save [OF assms(1) sv] .
  show ?thesis
  proof (cases r)
    case (Inl e)
    then show ?thesis using assms(2,3) sv keep by (auto simp: stand_def node_ok_def vote_kept_def)
  next
    case (Inr u)
    then have "durable_vote de dir (Suc (rs_term (nd_repl n))) me"
      using saved_vote_durable [OF assms(1), of unreadable io ?m "nd_dir n" dir me] sv by simp
    then show ?thesis using assms(2) sv keep Inr by (auto simp: stand_def node_ok_def vote_kept_def)
  qed
qed

lemma restart_ok:
  assumes "meta_load de unreadable fs = Ok meta" "boot_state cfg meta now = (m, g)" "n' = \<lparr>nd_repl = g, nd_dir = fs, nd_owed = [m]\<rparr>"
  shows "node_ok de n' \<and> (\<forall>t v. durable_vote de fs t v \<longrightarrow> vote_kept de n' t v)"
  using meta_load_on_disk [OF assms(1)] assms(2,3)
  by (auto simp: boot_state_def Let_def node_ok_def vote_kept_def durable_vote_def holds_vote_def split: option.splits)

lemma become_leader_vote:
  assumes "become_leader cfg is_learner latest view tails applied hints now t n = (True, n')"
  shows "nd_dir n' = nd_dir n \<and> rs_term (nd_repl n') = rs_term (nd_repl n) \<and>
    rs_voted_for (nd_repl n') = rs_voted_for (nd_repl n) \<and> rs_term (nd_repl n') = t"
  using assms by (auto simp: become_leader_def Let_def seed_leader_progress_def refresh_configuration_def
      install_configuration_def split: if_splits option.splits)

lemma vote_kept_cong:
  "nd_dir n' = nd_dir n \<Longrightarrow> rs_term (nd_repl n') = rs_term (nd_repl n) \<Longrightarrow>
   rs_voted_for (nd_repl n') = rs_voted_for (nd_repl n) \<Longrightarrow>
   vote_kept de n' t v = vote_kept de n t v \<and> node_ok de n' = node_ok de n"
  by (simp add: vote_kept_def node_ok_def)

lemma votes_ok_step:
  assumes "json_meta ser de" "cluster_step ser de cfgs counted strict c c'" "votes_ok de c"
  shows "votes_ok de c'"
  using assms(2)
proof cases
  have ok: "node_ok de (cl_nodes c k)" for k using assms(3) by (simp add: votes_ok_def)
  {
    case (vote unreadable io now s req k resp restart n')
    note cv = cast_vote_ok [OF assms(1) vote(2) ok]
    show ?thesis
      by (rule votes_ok_put [OF assms(3), of _ k n' "if vp_granted resp then {(k, vr_term req, vr_candidate_id req)} else {}"])
        (use cv vote(1) in \<open>auto simp: put_node_def split: if_splits\<close>)
  next
    case (candidacy k unreadable io stood n')
    note st = stand_ok [OF assms(1) candidacy(3) ok]
    show ?thesis
      by (rule votes_ok_put [OF assms(3), of _ k n' "case stood of Some t \<Rightarrow> {(k, t, nc_node_id (cfgs k))} | None \<Rightarrow> {}"])
        (use st candidacy(1) in \<open>auto simp: put_node_def split: option.splits\<close>)
  next
    case (victory k quorum t arrived is_learner latest view tails applied hints now n')
    note bl = become_leader_vote [OF victory(7)]
    show ?thesis
      by (rule votes_ok_silent [OF assms(3), of _ k n'])
        (use bl victory(1) ok vote_kept_cong [of n' "cl_nodes c k"] in \<open>auto simp: put_node_def\<close>)
  next
    case (demotion now t n restart g k)
    show ?thesis unfolding demotion(1)
      by (rule votes_ok_quiet [OF assms(3)])
        (use demotion in \<open>auto simp: apply_demotion_def node_ok_def vote_kept_def split: if_splits\<close>)
  next
    case (adoption n k t)
    show ?thesis unfolding adoption(1)
      by (rule votes_ok_quiet [OF assms(3)])
        (use adoption ok [of k] in \<open>auto simp: adopt_term_def node_ok_def vote_kept_def split: if_splits\<close>)
  next
    case (step_down n restart g k)
    show ?thesis unfolding step_down(1)
      by (rule votes_ok_quiet [OF assms(3)])
        (use step_down ok [of k] in \<open>auto simp: relinquish_leadership_def node_ok_def vote_kept_def split: if_splits\<close>)
  next
    case (sampled n k)
    show ?thesis unfolding sampled(1)
      by (rule votes_ok_quiet [OF assms(3)]) (use sampled ok [of k] in \<open>auto simp: node_ok_def vote_kept_def\<close>)
  next
    case (flush n k m unreadable io r dir)
    show ?thesis unfolding flush(1)
      by (rule votes_ok_quiet [OF assms(3)])
        (use flush ok [of k] durable_vote_save [OF assms(1) flush(4)] in \<open>auto simp: node_ok_def vote_kept_def\<close>)
  next
    case (local n k g)
    show ?thesis unfolding local(1)
      by (rule votes_ok_quiet [OF assms(3)]) (use local ok [of k] in \<open>auto simp: node_ok_def vote_kept_def\<close>)
  next
    case (restart unreadable k meta now m g)
    note rs = restart_ok [OF restart(2,3) refl]
    show ?thesis unfolding restart(1)
      by (rule votes_ok_quiet [OF assms(3)]) (use rs restart(1) in \<open>auto simp: vote_kept_def\<close>)
  }
qed

section \<open>One winner per term\<close>

lemma tally_nodes:
  "nodes (fst (tally q granted h answers)) \<subseteq> nodes granted \<union> {node_key v | v t. (v, True, t) \<in> set answers}"
proof (induction q granted h answers rule: tally.induct)
  case (2 q granted h voter vote_granted trm answers)
  then show ?case by (cases vote_granted) (auto simp: Let_def split: if_splits)
qed simp

lemma ask_peers_nodes:
  "nodes (fst (ask_peers own q False arrived)) \<subseteq>
     insert (node_key own) {node_key v | v resp. (v, Answered resp) \<in> set arrived \<and> vp_granted resp}"
proof -
  have real: "(True, t) = answer_value False a \<Longrightarrow> \<exists>resp. a = Answered resp \<and> vp_granted resp" for a t by (cases a) auto
  have "{node_key v | v t. (v, True, t) \<in> set (map (\<lambda>(voter, a). (voter, answer_value False a)) arrived)} \<subseteq>
    {node_key v | v resp. (v, Answered resp) \<in> set arrived \<and> vp_granted resp}"
    by (auto dest!: real)
  with tally_nodes [of q "[own]" 0 "map (\<lambda>(voter, a). (voter, answer_value False a)) arrived"]
  show ?thesis unfolding ask_peers_def nodes_simps(1,2) by blast
qed

lemma won_decides:
  assumes "election_result q own t arrived = Won" "node_key own \<in> P"
    and "\<And>voter resp. (voter, Answered resp) \<in> set arrived \<Longrightarrow> vp_granted resp \<Longrightarrow> node_key voter \<in> P"
  shows "decides q P"
proof -
  from assms(1) have "has_quorum q [own] \<or> has_quorum q (fst (ask_peers own q False arrived))"
    by (auto simp: election_result_def lone_voter_def split: if_splits prod.splits)
  then show ?thesis
  proof
    assume "has_quorum q [own]"
    then show ?thesis unfolding has_quorum_iff by (rule cfg.grow) (use assms(2) in simp)
  next
    assume "has_quorum q (fst (ask_peers own q False arrived))"
    then show ?thesis unfolding has_quorum_iff
      by (rule cfg.grow) (use ask_peers_nodes [of own q arrived] assms(2,3) in blast)
  qed
qed

lemma votes_grow: "cluster_step ser de cfgs counted strict c c' \<Longrightarrow> cl_votes c \<subseteq> cl_votes c'"
  by (erule cluster_step.cases) (auto simp: put_node_def split: option.splits)

lemma wins_ok_step:
  assumes "cluster_step ser de cfgs counted strict c c'" "wins_ok counted c"
  shows "wins_ok counted c'"
proof -
  have old: "\<exists>quorum\<in>counted. decides quorum {v. (v, t, a) \<in> cl_votes c'}" if "(t, a) \<in> cl_wins c" for t a
  proof -
    from that assms(2) obtain quorum where "quorum \<in> counted" "decides quorum {v. (v, t, a) \<in> cl_votes c}"
      by (auto simp: wins_ok_def)
    then show ?thesis using cfg.grow votes_grow [OF assms(1)] by (metis (no_types, lifting) Collect_mono subsetD)
  qed
  show ?thesis using assms(1)
  proof cases
    case (victory k quorum t arrived is_learner latest view tails applied hints now n')
    have "decides quorum {v. (v, t, nc_node_id (cfgs k)) \<in> cl_votes c}"
      by (rule won_decides [OF victory(4)]) (use victory in auto)
    then show ?thesis using victory(1,3) old by (auto simp: wins_ok_def put_node_def)
  qed (use old in \<open>auto simp: wins_ok_def put_node_def\<close>)
qed

lemma first_boot_node:
  "first_boot cfgs c \<Longrightarrow> \<exists>now. cl_nodes c k = \<lparr>nd_repl = snd (boot_state (cfgs k) None now), nd_dir = Map.empty,
     nd_owed = [fst (boot_state (cfgs k) None now)]\<rparr>"
  unfolding first_boot_def by blast

lemma reach_ok:
  assumes "json_meta ser de" "cluster_reach ser de cfgs counted strict c"
  shows "votes_ok de c \<and> wins_ok counted c"
  using assms(2)
proof induction
  case (init c)
  have "node_ok de (cl_nodes c k)" for k
  proof -
    from first_boot_node [OF init] obtain now where "cl_nodes c k = \<lparr>nd_repl = snd (boot_state (cfgs k) None now), nd_dir = Map.empty,
        nd_owed = [fst (boot_state (cfgs k) None now)]\<rparr>" by blast
    then show ?thesis by (simp add: node_ok_def boot_state_def Let_def)
  qed
  with init show ?case by (auto simp: votes_ok_def wins_ok_def first_boot_def)
next
  case (step c c')
  then show ?case using votes_ok_step [OF assms(1)] wins_ok_step by blast
qed

lemma winner_unique:
  assumes "votes_ok de c" "wins_ok counted c" "\<forall>q\<in>counted. \<forall>r\<in>counted. cfg_overlap q r"
    and "(t, a) \<in> cl_wins c" "(t, b) \<in> cl_wins c"
  shows "a = b"
proof -
  obtain q where q: "q \<in> counted" "decides q {v. (v, t, a) \<in> cl_votes c}" using assms(2,4) by (auto simp: wins_ok_def)
  obtain r where r: "r \<in> counted" "decides r {v. (v, t, b) \<in> cl_votes c}" using assms(2,5) by (auto simp: wins_ok_def)
  have "cfg_overlap q r" using assms(3) q(1) r(1) by blast
  from cfg.meet [OF this q(2) r(2)] show ?thesis using assms(1) unfolding votes_ok_def by blast
qed

text \<open>
  C1. Election safety: in every run of the group -- votes, candidacies, term adoptions, demotions, step
  downs and restarts in any interleaving, with saves delayed, reordered, failing or cut short -- at
  most one node wins any term, provided the configurations the elections are counted under overlap
  (a fixed membership, or the neighbouring ones of a change).
\<close>

theorem one_winner_per_term:
  assumes "json_meta ser de" "\<forall>q\<in>counted. \<forall>r\<in>counted. cfg_overlap q r"
    and "cluster_reach ser de cfgs counted strict c"
    and "(t, a) \<in> cl_wins c" "(t, b) \<in> cl_wins c"
  shows "a = b"
  using reach_ok [OF assms(1,3)] winner_unique assms(2,4,5) by blast

section \<open>Claims of leadership\<close>

definition claims_ok :: "(string \<Rightarrow> node_config) \<Rightarrow> cluster \<Rightarrow> bool" where
  "claims_ok cfgs c = (\<forall>k. rs_is_leader (nd_repl (cl_nodes c k)) \<longrightarrow>
     rs_term (nd_repl (cl_nodes c k)) = 0 \<or> (rs_term (nd_repl (cl_nodes c k)), nc_node_id (cfgs k)) \<in> cl_wins c)"

lemma cast_vote_leader:
  assumes "cast_vote ser de unreadable io now s req n = (resp, restart, n')" "rs_is_leader (nd_repl n')"
  shows "rs_is_leader (nd_repl n) \<and> rs_term (nd_repl n') = rs_term (nd_repl n)"
proof -
  let ?g = "nd_repl n"
  let ?d = "decide_vote (rs_term ?g) (rs_voted_for ?g) (vs_logs s) (vs_summary s) (vs_config s) req (vs_withhold s)"
  have "rs_term ?g \<le> vd_term ?d" using decide_vote_cases [OF refl] by blast
  then show ?thesis using assms by (auto simp: cast_vote_def Let_def split: if_splits prod.splits)
qed

lemma claims_ok_step:
  assumes "cluster_step ser de cfgs counted True c c'" "claims_ok cfgs c"
    and "\<forall>k. \<not> (runs_as_primary (cfgs k) \<and> nc_peers (cfgs k) = [])"
  shows "claims_ok cfgs c'"
  using assms(1)
proof cases
  case (vote unreadable io now s req k resp restart n')
  then show ?thesis using assms(2) cast_vote_leader [OF vote(2)] by (auto simp: claims_ok_def put_node_def)
next
  case (candidacy k unreadable io stood n')
  then have "\<not> rs_is_leader (nd_repl n')" by (auto simp: stand_def Let_def split: sum.splits prod.splits)
  then show ?thesis using assms(2) candidacy(1) by (auto simp: claims_ok_def put_node_def)
next
  case (victory k quorum t arrived is_learner latest view tails applied hints now n')
  then show ?thesis using assms(2) become_leader_vote [OF victory(7)] by (auto simp: claims_ok_def put_node_def)
next
  case (demotion now t n restart g k)
  then show ?thesis using assms(2) by (auto simp: claims_ok_def put_node_def apply_demotion_def split: if_splits)
next
  case (adoption n k t)
  then show ?thesis using assms(2) by (auto simp: claims_ok_def put_node_def adopt_term_def)
next
  case (step_down n restart g k)
  then show ?thesis using assms(2) by (auto simp: claims_ok_def put_node_def relinquish_leadership_def split: if_splits)
next
  case (restart unreadable k meta now m g)
  have "rs_is_leader g \<Longrightarrow> rs_term g = 0"
    using restart(3) assms(3) by (auto simp: boot_state_def Let_def split: option.splits)
  then show ?thesis using assms(2) restart(1) by (auto simp: claims_ok_def put_node_def)
qed (use assms(2) in \<open>auto simp: claims_ok_def put_node_def\<close>)


text \<open>A run in which a node alone in its group stands, saves its vote and wins the first term.\<close>

definition good_io :: io_script where
  "good_io = \<lparr>io_create = True, io_write_fails_after = None, io_sync = True, io_rename = \<lambda>_. True\<rparr>"

definition demo_start :: cluster where
  "demo_start = \<lparr>cl_nodes = \<lambda>k. \<lparr>nd_repl = snd (boot_state (demo_cfg k) None 0), nd_dir = Map.empty,
     nd_owed = [fst (boot_state (demo_cfg k) None 0)]\<rparr>, cl_votes = {}, cl_wins = {}\<rparr>"

lemma demo_run:
  "\<exists>c. cluster_reach unary_ser unary_de demo_cfg {cfg_simple [''a'']} True c \<and>
     rs_is_leader (nd_repl (cl_nodes c ''a'')) \<and> rs_term (nd_repl (cl_nodes c ''a'')) = 1 \<and> (1, ''n-a'') \<in> cl_wins c"
proof -
  let ?n0 = "cl_nodes demo_start ''a''"
  define n1 where "n1 = snd (stand unary_ser unary_de (\<lambda>_. False) good_io ''n-a'' ?n0)"
  have stood: "stand unary_ser unary_de (\<lambda>_. False) good_io ''n-a'' ?n0 = (Some 1, n1)"
    and g1: "rs_term (nd_repl n1) = 1" "rs_voted_for (nd_repl n1) = Some ''n-a''" "rs_configuration (nd_repl n1) = None"
    unfolding n1_def by (simp_all add: stand_def meta_save_def meta_load_def write_atomic_def rename_with_retry_def good_io_def
        demo_start_def boot_state_def DIR_REMOVE_ATTEMPTS_def Let_def numeral_eq_Suc)
  let ?c1 = "(put_node demo_start ''a'' n1)\<lparr>cl_votes := insert (''a'', 1, ''n-a'') {}\<rparr>"
  define n2 where "n2 = snd (become_leader (demo_cfg ''a'') False None [''a''] [] [] [] 0 1 n1)"
  have won: "become_leader (demo_cfg ''a'') False None [''a''] [] [] [] 0 1 n1 = (True, n2)" and "rs_is_leader (nd_repl n2)"
    unfolding n2_def using g1
    by (simp_all add: become_leader_def demo_cfg_def in_quorum_def refresh_configuration_def seed_leader_progress_def Let_def)
  have r0: "cluster_reach unary_ser unary_de demo_cfg {cfg_simple [''a'']} True demo_start"
    by (rule cluster_reach.init) (auto simp: first_boot_def demo_start_def)
  have "cluster_step unary_ser unary_de demo_cfg {cfg_simple [''a'']} True demo_start ?c1"
    using cluster_step.candidacy [of demo_start "''a''" unary_ser unary_de "\<lambda>_. False" good_io demo_cfg "Some 1" n1] stood
    by (simp add: demo_cfg_def demo_start_def boot_state_def runs_as_primary_def nc_is_learner_def MEMBERSHIP_LEARNER_def)
  then have r1: "cluster_reach unary_ser unary_de demo_cfg {cfg_simple [''a'']} True ?c1"
    using r0 cluster_reach.step by blast
  have "node_key (own_url (demo_cfg ''a'')) = ''a''"
    "election_result (cfg_simple [''a'']) (own_url (demo_cfg ''a'')) 1 [] = Won" by code_simp+
  then have "cluster_step unary_ser unary_de demo_cfg {cfg_simple [''a'']} True ?c1
      ((put_node ?c1 ''a'' n2)\<lparr>cl_wins := insert (1, ''n-a'') (cl_wins ?c1)\<rparr>)"
    using cluster_step.victory [of demo_cfg "''a''" "cfg_simple [''a'']" "{cfg_simple [''a'']}" 1 "[]" ?c1 False None "[''a'']" "[]" "[]" "[]" 0 n2] won
    by (simp add: demo_cfg_def put_node_def)
  then have "cluster_reach unary_ser unary_de demo_cfg {cfg_simple [''a'']} True
      ((put_node ?c1 ''a'' n2)\<lparr>cl_wins := insert (1, ''n-a'') (cl_wins ?c1)\<rparr>)"
    using r1 cluster_reach.step by blast
  then show ?thesis using \<open>rs_is_leader (nd_repl n2)\<close> become_leader_vote [OF won] g1
    by (intro exI conjI) (auto simp: put_node_def)
qed

lemma demo_overlap: "\<forall>q\<in>{cfg_simple [''a'']}. \<forall>r\<in>{cfg_simple [''a'']}. cfg_overlap q r"
  by (simp add: cfg_overlap_def)

theorem one_winner_per_term_witness:
  "\<exists>c :: cluster. (1, ''n-a'') \<in> cl_wins c \<and> (\<forall>b. (1, b) \<in> cl_wins c \<longrightarrow> b = ''n-a'')"
proof -
  obtain c where c: "cluster_reach unary_ser unary_de demo_cfg {cfg_simple [''a'']} True c" "(1, ''n-a'') \<in> cl_wins c"
    using demo_run by blast
  have "b = ''n-a''" if "(1, b) \<in> cl_wins c" for b
    using one_winner_per_term [OF json_meta_unary demo_overlap c(1) that c(2)] .
  with c(2) show ?thesis by blast
qed


text \<open>
  Both hypotheses are needed. The adoption in \<^verbatim>\<open>replicate_handler\<close> and \<^verbatim>\<open>heartbeat_poll_task\<close> leaves a
  leader leading, in a term it was never elected to; and a node configured with replicas and no peers
  resumes leadership after a restart in the term it last voted in, for whomever it voted.
\<close>

lemma adoption_keeps_leading:
  assumes "rs_is_leader g" "rs_term g < t"
  shows "rs_is_leader (adopt_term t g) \<and> rs_term (adopt_term t g) = t \<and> rs_voted_for (adopt_term t g) = None"
  using assms by (simp add: adopt_term_def)

lemma solo_primary_resumes_a_term_it_voted_away:
  assumes "runs_as_primary cfg" "nc_peers cfg = []" "rm_voted_for m = Some other" "other \<noteq> nc_node_id cfg"
  shows "rs_is_leader (snd (boot_state cfg (Some m) now)) \<and> rs_term (snd (boot_state cfg (Some m) now)) = rm_term m \<and>
         rs_voted_for (snd (boot_state cfg (Some m) now)) = Some other"
  using assms by (simp add: boot_state_def Let_def)

end
