(* ===== verification/Ring.thy ===== *)
theory Ring
  imports Util
begin

unbundle bit_operations_syntax

text \<open>
  \<^verbatim>\<open>src/src/ring.rs\<close>: hash ranges and the consistent-hash ring. The hash function is a parameter
  (\<^verbatim>\<open>xxh64\<close> with seed 0 in the code); positions are 64-bit words. \<^verbatim>\<open>keyspace_movement\<close> sums widths in
  floating point and is left out.
\<close>

section \<open>Searching a sorted slice\<close>

text \<open>\<^verbatim>\<open>slice::binary_search_by\<close>; the probe at an index is the comparison of that element with the target.\<close>

function bs_loop :: "(nat \<Rightarrow> ordering) \<Rightarrow> nat \<Rightarrow> nat \<Rightarrow> nat" where
  "bs_loop probe base n =
     (if n \<le> 1 then base
      else (let half = n div 2; mid = base + half
            in bs_loop probe (if probe mid = Greater then base else mid) (n - half)))"
  by pat_completeness auto
termination by (relation "measure (\<lambda>(probe, base, n). n)") auto

declare bs_loop.simps [simp del]

definition binary_search_by :: "('a \<Rightarrow> ordering) \<Rightarrow> 'a list \<Rightarrow> (nat, nat) result" where
  "binary_search_by f xs =
     (if xs = [] then Err 0
      else (let base = bs_loop (\<lambda>i. f (xs ! i)) 0 (length xs); c = f (xs ! base)
            in if c = Equal then Ok base else Err (base + (if c = Less then 1 else 0))))"

section \<open>The token ring\<close>

type_synonym hasher = "string \<Rightarrow> 64 word"

record ring_shard =
  rg_node_url :: string
  rg_replica_urls :: "string list"

record hash_ring =
  rg_vnodes :: nat
  rg_shards :: "ring_shard list"

definition MAX_VNODES :: nat where "MAX_VNODES = 4096"
definition MAX_RING_SHARDS :: nat where "MAX_RING_SHARDS = 1024"
definition MAX_RING_TOKENS :: nat where "MAX_RING_TOKENS = 2 ^ 20"

text \<open>Decimal notation, as \<^verbatim>\<open>format!\<close> prints an unsigned number.\<close>

fun show_nat :: "nat \<Rightarrow> string" where
  "show_nat n = (if n < 10 then [char_of (48 + n)] else show_nat (n div 10) @ [char_of (48 + n mod 10)])"

declare show_nat.simps [simp del]

definition hash_key :: "hasher \<Rightarrow> string \<Rightarrow> string \<Rightarrow> 64 word" where
  "hash_key hash col key = hash (col @ '':'' @ key)"

definition vnode_token :: "hasher \<Rightarrow> string \<Rightarrow> nat \<Rightarrow> 64 word" where
  "vnode_token hash node_url index = hash (node_key node_url @ ''#'' @ show_nat index)"

datatype ring_error =
    NoShards | ZeroVnodes | TooManyVnodes | TooManyShards | TooManyTokens | EmptyNodeUrl
  | ListedTwice string | EmptyReplicaUrl | OwnReplica | PrimaryAsReplica string | ReplicaTwice string
  | ReplicaShared string

fun check_primaries :: "string list \<Rightarrow> ring_shard list \<Rightarrow> (ring_error, string list) result" where
  "check_primaries seen [] = Ok seen"
| "check_primaries seen (s # ss) =
     (if trim (rg_node_url s) = [] then Err EmptyNodeUrl
      else if node_key (rg_node_url s) \<in> set seen then Err (ListedTwice (rg_node_url s))
      else check_primaries (node_key (rg_node_url s) # seen) ss)"

fun check_replicas ::
  "string list \<Rightarrow> string \<Rightarrow> string list \<Rightarrow> string list \<Rightarrow> string list \<Rightarrow> (ring_error, string list) result" where
  "check_replicas primaries primary local placed [] = Ok placed"
| "check_replicas primaries primary local placed (replica # rs) =
     (let endpoint = node_key replica
      in if trim replica = [] then Err EmptyReplicaUrl
         else if endpoint = primary then Err OwnReplica
         else if endpoint \<in> set primaries then Err (PrimaryAsReplica replica)
         else if endpoint \<in> set local then Err (ReplicaTwice replica)
         else if endpoint \<in> set placed then Err (ReplicaShared replica)
         else check_replicas primaries primary (endpoint # local) (endpoint # placed) rs)"

fun check_groups :: "string list \<Rightarrow> string list \<Rightarrow> ring_shard list \<Rightarrow> (ring_error, unit) result" where
  "check_groups primaries placed [] = Ok ()"
| "check_groups primaries placed (s # ss) =
     (case check_replicas primaries (node_key (rg_node_url s)) [] placed (rg_replica_urls s) of
        Err e \<Rightarrow> Err e
      | Ok placed' \<Rightarrow> check_groups primaries placed' ss)"

definition ring_validate :: "hash_ring \<Rightarrow> (ring_error, unit) result" where
  "ring_validate r =
     (if rg_shards r = [] then Err NoShards
      else if rg_vnodes r = 0 then Err ZeroVnodes
      else if rg_vnodes r > MAX_VNODES then Err TooManyVnodes
      else if length (rg_shards r) > MAX_RING_SHARDS then Err TooManyShards
      else if saturating_mul (length (rg_shards r)) (rg_vnodes r) > MAX_RING_TOKENS then Err TooManyTokens
      else (case check_primaries [] (rg_shards r) of
              Err e \<Rightarrow> Err e
            | Ok seen \<Rightarrow> check_groups seen [] (rg_shards r)))"

record built_ring =
  br_tokens :: "(64 word \<times> nat) list"
  br_shards :: "ring_shard list"

definition token_cmp :: "ring_shard list \<Rightarrow> 64 word \<times> nat \<Rightarrow> 64 word \<times> nat \<Rightarrow> ordering" where
  "token_cmp shards a b =
     then_ord (cmp_lin (fst a) (fst b)) (cmp_endpoint (rg_node_url (shards ! snd a)) (rg_node_url (shards ! snd b)))"

definition raw_tokens :: "hasher \<Rightarrow> hash_ring \<Rightarrow> (64 word \<times> nat) list" where
  "raw_tokens hash r =
     concat (map (\<lambda>index. map (\<lambda>v. (vnode_token hash (rg_node_url (rg_shards r ! index)) v, index)) [0..<rg_vnodes r])
       [0..<length (rg_shards r)])"

definition ring_build :: "hasher \<Rightarrow> hash_ring \<Rightarrow> built_ring" where
  "ring_build hash r =
     \<lparr>br_tokens = sort_by (token_cmp (rg_shards r)) (raw_tokens hash r), br_shards = rg_shards r\<rparr>"

definition ring_owner :: "built_ring \<Rightarrow> 64 word \<Rightarrow> ring_shard option" where
  "ring_owner b h =
     (if br_tokens b = [] then None
      else (let at = (case binary_search_by (\<lambda>(t, _). cmp_lin t h) (br_tokens b) of
                        Ok i \<Rightarrow> i
                      | Err i \<Rightarrow> if i < length (br_tokens b) then i else 0);
                index = snd (br_tokens b ! at)
            in if index < length (br_shards b) then Some (br_shards b ! index) else None))"

section \<open>Explicit ranges\<close>

record shard_info =
  si_start_hash :: "64 word"
  si_end_hash :: "64 word"
  si_node_url :: string
  si_replica_urls :: "string list"

definition shard_owns :: "shard_info \<Rightarrow> 64 word \<Rightarrow> bool" where
  "shard_owns shard h =
     (if si_start_hash shard = si_end_hash shard then True
      else if si_start_hash shard < si_end_hash shard then h \<ge> si_start_hash shard \<and> h < si_end_hash shard
      else h \<ge> si_start_hash shard \<or> h < si_end_hash shard)"

definition RING_SIZE :: nat where "RING_SIZE = 2 ^ 64"

definition ring_segments :: "shard_info \<Rightarrow> (nat \<times> nat) list" where
  "ring_segments shard =
     (if si_start_hash shard = si_end_hash shard then [(0, RING_SIZE)]
      else if si_start_hash shard < si_end_hash shard then [(unat (si_start_hash shard), unat (si_end_hash shard))]
      else [(unat (si_start_hash shard), RING_SIZE), (0, unat (si_end_hash shard))])"

datatype range_error = NoRanges | WholeRingShared string | RangesOverlap string | RangeUncovered nat nat

fun check_chain :: "nat \<Rightarrow> (nat \<times> nat \<times> string) list \<Rightarrow> (range_error, nat) result" where
  "check_chain cursor [] = Ok cursor"
| "check_chain cursor ((lo, hi, owner) # segs) =
     (if lo < cursor then Err (RangesOverlap owner)
      else if lo > cursor then Err (RangeUncovered cursor lo)
      else check_chain hi segs)"

definition all_segments :: "shard_info list \<Rightarrow> (nat \<times> nat \<times> string) list" where
  "all_segments shards =
     concat (map (\<lambda>s. map (\<lambda>(lo, hi). (lo, hi, si_node_url s)) (filter (\<lambda>(lo, hi). lo < hi) (ring_segments s))) shards)"

definition validate_shard_ring :: "shard_info list \<Rightarrow> (range_error, unit) result" where
  "validate_shard_ring shards =
     (let full = filter (\<lambda>s. si_start_hash s = si_end_hash s) shards
      in if shards = [] then Err NoRanges
         else if full \<noteq> [] \<and> length shards > 1 then Err (WholeRingShared (si_node_url (hd full)))
         else (case check_chain 0 (sort_by (\<lambda>a b. cmp_lin (fst a) (fst b)) (all_segments shards)) of
                 Err e \<Rightarrow> Err e
               | Ok cursor \<Rightarrow> if cursor \<noteq> RING_SIZE then Err (RangeUncovered cursor RING_SIZE) else Ok ()))"

section \<open>Ranges cover the ring once\<close>

abbreviation covers :: "nat \<Rightarrow> nat \<times> nat \<times> string \<Rightarrow> bool" where
  "covers x seg \<equiv> fst seg \<le> x \<and> x < fst (snd seg)"

lemma check_chain_covers:
  assumes "check_chain cursor segs = Ok hi0" "\<forall>seg\<in>set segs. fst seg < fst (snd seg)"
  shows "cursor \<le> hi0 \<and> length (filter (covers x) segs) = (if cursor \<le> x \<and> x < hi0 then 1 else 0)"
  using assms
proof (induction cursor segs rule: check_chain.induct)
  case (2 cursor lo hi owner segs)
  then have "lo = cursor" "check_chain hi segs = Ok hi0" "lo < hi" by (auto split: if_splits)
  with 2 show ?case by auto
qed auto

lemma unat_64: "unat (h :: 64 word) < 2 ^ 64"
  using unsigned_less [of h, where ?'a = nat] by simp

lemma shard_covers:
  "length (filter (covers (unat h)) (map (\<lambda>(lo, hi). (lo, hi, u)) (filter (\<lambda>(lo, hi). lo < hi) (ring_segments s)))) =
     (if shard_owns s h then 1 else 0)"
  using unat_64 [of h] unat_64 [of "si_start_hash s"]
  by (auto simp: ring_segments_def shard_owns_def RING_SIZE_def word_less_nat_alt word_le_nat_alt)

lemma all_segments_cover:
  "length (filter (covers (unat h)) (all_segments shards)) = length (filter (\<lambda>s. shard_owns s h) shards)"
proof (induction shards)
  case (Cons s shards)
  have "all_segments (s # shards) =
      map (\<lambda>(lo, hi). (lo, hi, si_node_url s)) (filter (\<lambda>(lo, hi). lo < hi) (ring_segments s)) @ all_segments shards"
    by (simp add: all_segments_def)
  then show ?case using shard_covers [of h "si_node_url s" s] Cons.IH by simp
qed (simp add: all_segments_def)

lemma length_filter_sort_by: "length (filter P (sort_by c xs)) = length (filter P xs)"
  by (metis mset_filter mset_sort_by size_mset)

text \<open>
  A range map that passes validation partitions the keyspace: every 64-bit hash is owned by exactly
  one of its shards, including maps whose last range wraps past the top of the ring and the map of
  one shard that claims all of it.
\<close>

theorem validated_ranges_partition:
  assumes "validate_shard_ring shards = Ok ()"
  shows "\<exists>s\<in>set shards. shard_owns s h \<and> filter (\<lambda>s. shard_owns s h) shards = [s]"
proof -
  let ?segs = "sort_by (\<lambda>a b. cmp_lin (fst a) (fst b)) (all_segments shards)"
  have chain: "check_chain 0 ?segs = Ok RING_SIZE"
    using assms by (auto simp: validate_shard_ring_def Let_def split: if_splits sum.splits)
  have "\<forall>seg\<in>set ?segs. fst seg < fst (snd seg)" by (auto simp: all_segments_def)
  with check_chain_covers [OF chain, of "unat h"] have "length (filter (covers (unat h)) ?segs) = 1"
    using unat_64 [of h] by (simp add: RING_SIZE_def)
  then have "length (filter (\<lambda>s. shard_owns s h) shards) = 1"
    by (simp only: length_filter_sort_by all_segments_cover)
  then obtain s where s: "filter (\<lambda>s. shard_owns s h) shards = [s]" by (auto simp: length_Suc_conv)
  have "s \<in> set (filter (\<lambda>s. shard_owns s h) shards)" unfolding s by simp
  then have "s \<in> set shards \<and> shard_owns s h" unfolding set_filter by simp
  with s show ?thesis by blast
qed

section \<open>The search\<close>

lemma bs_loop_inv:
  assumes "0 < n" "\<And>i j. i \<le> j \<Longrightarrow> j < N \<Longrightarrow> probe j \<noteq> Greater \<Longrightarrow> probe i \<noteq> Greater"
    and "base + n \<le> N" "base = 0 \<or> probe base \<noteq> Greater" "base + n = N \<or> probe (base + n) = Greater"
  shows "bs_loop probe base n < N \<and> (bs_loop probe base n = 0 \<or> probe (bs_loop probe base n) \<noteq> Greater) \<and>
    (\<forall>j. bs_loop probe base n < j \<longrightarrow> j < N \<longrightarrow> probe j = Greater)"
  using assms
proof (induction probe base n rule: bs_loop.induct)
  case (1 probe base n)
  show ?case
  proof (cases "n \<le> 1")
    case True
    then have n: "n = 1" using 1 by simp
    have "probe j = Greater" if "base < j" "j < N" for j
      using 1(3) [of "base + 1" j] 1(6) that n by (cases "probe j") auto
    with 1 n show ?thesis by (simp add: bs_loop.simps)
  next
    case False
    let ?half = "n div 2"
    have half: "0 < ?half" "?half < n" using False by auto
    have loop: "bs_loop probe base n = bs_loop probe (if probe (base + ?half) = Greater then base else base + ?half) (n - ?half)"
      using False by (subst bs_loop.simps) (simp add: Let_def)
    show ?thesis unfolding loop
    proof (rule 1(1) [OF False refl refl])
      show "0 < n - ?half" using half by simp
      show "(if probe (base + ?half) = Greater then base else base + ?half) + (n - ?half) = N \<or>
        probe ((if probe (base + ?half) = Greater then base else base + ?half) + (n - ?half)) = Greater"
      proof (cases "probe (base + ?half) = Greater")
        case True
        have "base + (n - ?half) < N" "base + ?half \<le> base + (n - ?half)" using half 1(4) by auto
        then show ?thesis using True 1(3) [of "base + ?half" "base + (n - ?half)"] by auto
      next
        case False
        then show ?thesis using half 1(6) by simp
      qed
      show "(if probe (base + ?half) = Greater then base else base + ?half) + (n - ?half) \<le> N"
        by (cases "probe (base + ?half) = Greater"; use half 1(4) in \<open>simp; arith\<close>)
      show "(if probe (base + ?half) = Greater then base else base + ?half) = 0 \<or>
        probe (if probe (base + ?half) = Greater then base else base + ?half) \<noteq> Greater" using 1(5) by simp
    qed (rule 1(3))
  qed
qed

text \<open>On a slice sorted by the probed key: a hit is a hit, and a miss is the insertion point.\<close>

lemma binary_search_cases:
  assumes "sorted (map key xs)" "xs \<noteq> []"
  shows "case binary_search_by (\<lambda>x. cmp_lin (key x) (h :: 'a::linorder)) xs of
      Ok i \<Rightarrow> i < length xs \<and> key (xs ! i) = h
    | Err i \<Rightarrow> i \<le> length xs \<and> (\<forall>j<i. key (xs ! j) < h) \<and> (\<forall>j. i \<le> j \<longrightarrow> j < length xs \<longrightarrow> h < key (xs ! j))"
proof -
  define r where "r = bs_loop (\<lambda>i. cmp_lin (key (xs ! i)) h) 0 (length xs)"
  have mono: "key (xs ! i) \<le> key (xs ! j)" if "i \<le> j" "j < length xs" for i j
    using sorted_nth_mono [OF assms(1), of i j] that by simp
  have inv: "r < length xs \<and> (r = 0 \<or> cmp_lin (key (xs ! r)) h \<noteq> Greater) \<and>
      (\<forall>j. r < j \<longrightarrow> j < length xs \<longrightarrow> cmp_lin (key (xs ! j)) h = Greater)"
    unfolding r_def
  proof (rule bs_loop_inv)
    show "cmp_lin (key (xs ! i)) h \<noteq> Greater" if "i \<le> j" "j < length xs" "cmp_lin (key (xs ! j)) h \<noteq> Greater" for i j
      using mono [OF that(1,2)] that(3) by simp
  qed (use assms(2) in auto)
  then have above: "h < key (xs ! j)" if "r < j" "j < length xs" for j using that by simp
  have search: "binary_search_by (\<lambda>x. cmp_lin (key x) h) xs =
      (if key (xs ! r) = h then Ok r else Err (r + (if key (xs ! r) < h then 1 else 0)))"
    using assms(2) by (simp add: binary_search_by_def Let_def r_def)
  consider "key (xs ! r) = h" | "key (xs ! r) < h" | "h < key (xs ! r)" by (rule linorder_cases) auto
  then show ?thesis
  proof cases
    case 1
    then show ?thesis using inv by (simp add: search)
  next
    case 2
    then have "key (xs ! j) < h" if "j \<le> r" for j using mono [OF that] inv by (meson le_less_trans)
    then show ?thesis using 2 inv above by (simp add: search less_Suc_eq_le Suc_le_eq)
  next
    case 3
    then have r: "r = 0" using inv by auto
    have "h < key (xs ! j)" if "j < length xs" for j using mono [of 0 j] that 3 r by (simp add: less_le_trans)
    then show ?thesis using 3 r by (auto simp: search)
  qed
qed

section \<open>The owner is the first token clockwise\<close>

interpretation token_order: cmp_preorder "token_cmp shards" for shards
proof (rule cmp_preorderI)
  show "token_cmp shards a a = Equal" for a
    by (simp add: token_cmp_def cmp_endpoint_node_key str_cmp.cmp_refl)
  show "token_cmp shards b a = rev_ord (token_cmp shards a b)" for a b
    by (simp add: token_cmp_def rev_then_ord rev_cmp_lin cmp_endpoint_node_key str_cmp.cmp_rev [of "node_key (rg_node_url (shards ! snd a))"])
  show "trans_at (token_cmp shards) a" for a
    unfolding token_cmp_def cmp_endpoint_node_key
    by (rule trans_at_then [of cmp_lin fst _ str_cmp "\<lambda>x. node_key (rg_node_url (shards ! snd x))"])
      (rule cmp_lin.trans_at str_cmp.trans_at)+
qed

lemma tokens_sorted: "sorted (map fst (br_tokens (ring_build hash r)))"
proof -
  have "sorted_by (token_cmp (rg_shards r)) (br_tokens (ring_build hash r))"
    by (simp add: ring_build_def token_order.sorted_sort_by)
  then show ?thesis unfolding sorted_by_def sorted_map
    by (rule sorted_wrt_mono_rel [rotated]) (auto simp: token_cmp_def then_ord_not_Greater cmp_lin_def split: if_splits)
qed

lemma set_tokens:
  "set (br_tokens (ring_build hash r)) =
     {(vnode_token hash (rg_node_url (rg_shards r ! i)) v, i) | i v. i < length (rg_shards r) \<and> v < rg_vnodes r}"
  by (auto simp: ring_build_def raw_tokens_def)

text \<open>How far clockwise a position lies from a hash: the difference of words, which wraps.\<close>

lemma distance_nat: "unat (t - h :: 64 word) = (if h \<le> t then unat t - unat h else unat t + 2 ^ 64 - unat h)"
  by (simp add: unat_sub_if_size word_le_nat_alt word_size)

lemma ahead_closer:
  assumes "h \<le> t" "t' < h \<or> t \<le> t'"
  shows "t - h \<le> (t' - h :: 64 word)"
  unfolding word_le_nat_alt distance_nat
  using assms unat_64 [of h] unat_64 [of t] by (auto simp: word_le_nat_alt word_less_nat_alt)

lemma wrapped_closer:
  assumes "t' < h" "t \<le> t'"
  shows "t - h \<le> (t' - h :: 64 word)"
  unfolding word_le_nat_alt distance_nat using assms unat_64 [of h] by (auto simp: word_le_nat_alt word_less_nat_alt)

lemma search_nearest:
  fixes toks :: "(64 word \<times> 'i) list" and h :: "64 word"
  assumes "sorted (map fst toks)" "toks \<noteq> []"
  defines "at \<equiv> (case binary_search_by (\<lambda>(t, _). cmp_lin t h) toks of Ok i \<Rightarrow> i | Err i \<Rightarrow> if i < length toks then i else 0)"
  shows "at < length toks \<and> (\<forall>p\<in>set toks. fst (toks ! at) - h \<le> fst p - (h :: 64 word))"
proof -
  have probe: "(\<lambda>(t, _). cmp_lin t h) = (\<lambda>x. cmp_lin (fst x) h)" by auto
  note cases = binary_search_cases [OF assms(1,2), of h, folded probe]
  show ?thesis
  proof (cases "binary_search_by (\<lambda>(t, _). cmp_lin t h) toks")
    case (Inr i)
    then show ?thesis using cases by (simp add: at_def)
  next
    case (Inl i)
    then have i: "\<And>j. j < i \<Longrightarrow> fst (toks ! j) < h" "\<And>j. i \<le> j \<Longrightarrow> j < length toks \<Longrightarrow> h < fst (toks ! j)" "i \<le> length toks"
      using cases by simp_all
    have "fst (toks ! at) - h \<le> fst (toks ! j) - h" if j: "j < length toks" for j
    proof (cases "i < length toks")
      case True
      then have at: "at = i" "h \<le> fst (toks ! i)" using Inl i(2) [of i] by (auto simp: at_def)
      have "fst (toks ! j) < h \<or> fst (toks ! i) \<le> fst (toks ! j)"
        using i(1) [of j] sorted_nth_mono [OF assms(1), of i j] j by (cases "j < i") auto
      then show ?thesis using at ahead_closer by simp
    next
      case False
      then have at: "at = 0" using Inl by (simp add: at_def)
      have "fst (toks ! j) < h" using i(1) [of j] j False by simp
      moreover have "fst (toks ! 0) \<le> fst (toks ! j)"
        using sorted_nth_mono [OF assms(1), of 0 j] j assms(2) by (simp add: nth_map)
      ultimately show ?thesis using at wrapped_closer by simp
    qed
    then have "\<forall>p\<in>set toks. fst (toks ! at) - h \<le> fst p - h" by (metis in_set_conv_nth)
    moreover have "at < length toks" using Inl assms(2) by (simp add: at_def)
    ultimately show ?thesis by blast
  qed
qed

text \<open>A shard's point on the ring.\<close>

definition places :: "hasher \<Rightarrow> hash_ring \<Rightarrow> ring_shard \<Rightarrow> 64 word \<Rightarrow> bool" where
  "places hash r s t = (s \<in> set (rg_shards r) \<and> (\<exists>v<rg_vnodes r. t = vnode_token hash (rg_node_url s) v))"

lemma token_places: "(t, i) \<in> set (br_tokens (ring_build hash r)) \<Longrightarrow> i < length (rg_shards r) \<and> places hash r (rg_shards r ! i) t"
  by (auto simp: set_tokens places_def)

lemma places_token: "places hash r s t \<Longrightarrow> \<exists>i. (t, i) \<in> set (br_tokens (ring_build hash r))"
  by (auto simp: set_tokens places_def in_set_conv_nth)

lemma owner_nearest:
  assumes "rg_shards r \<noteq> []" "0 < rg_vnodes r"
  shows "\<exists>s t. ring_owner (ring_build hash r) h = Some s \<and> places hash r s t \<and>
    (\<forall>s' t'. places hash r s' t' \<longrightarrow> t - h \<le> t' - h)"
proof -
  let ?b = "ring_build hash r"
  let ?toks = "br_tokens ?b"
  define at where "at = (case binary_search_by (\<lambda>(t, _). cmp_lin t h) ?toks of Ok i \<Rightarrow> i | Err i \<Rightarrow> if i < length ?toks then i else 0)"
  have "places hash r (hd (rg_shards r)) (vnode_token hash (rg_node_url (hd (rg_shards r))) 0)"
    using assms by (auto simp: places_def)
  then have ne: "?toks \<noteq> []" using places_token by fastforce
  have near: "at < length ?toks" "\<forall>p\<in>set ?toks. fst (?toks ! at) - h \<le> fst p - h"
    using search_nearest [OF tokens_sorted ne, of h] unfolding at_def by auto
  obtain t i where ti: "?toks ! at = (t, i)" by fastforce
  then have tok: "(t, i) \<in> set ?toks" using near(1) by (metis nth_mem)
  note pl = token_places [OF tok]
  have "ring_owner ?b h = Some (rg_shards r ! i)"
    using ne pl ti unfolding ring_owner_def at_def [symmetric] Let_def by (simp add: ring_build_def)
  moreover have "t - h \<le> t' - h" if "places hash r s' t'" for s' t'
    using places_token [OF that] near(2) ti by fastforce
  ultimately show ?thesis using pl by blast
qed

text \<open>
  C35. Every key has an owner, and it is the shard of the first token at or clockwise of the key's hash:
  no point of any shard lies closer, measured by the 64-bit difference that wraps past the top of the
  ring. This is the linear reference the binary search is checked against.
\<close>

theorem owner_is_first_clockwise:
  assumes "ring_validate r = Ok ()"
  shows "\<exists>s t. ring_owner (ring_build hash r) h = Some s \<and> places hash r s t \<and>
           (\<forall>s' t'. places hash r s' t' \<longrightarrow> t - h \<le> t' - h)"
  by (rule owner_nearest) (use assms in \<open>auto simp: ring_validate_def split: if_splits\<close>)

section \<open>Topology changes\<close>

definition no_collision :: "hasher \<Rightarrow> hash_ring \<Rightarrow> bool" where
  "no_collision hash r = (\<forall>s s' t. places hash r s t \<longrightarrow> places hash r s' t \<longrightarrow> s = s')"

lemma owner_unique:
  assumes "rg_shards r \<noteq> []" "0 < rg_vnodes r" "no_collision hash r"
    and "places hash r s t" "\<And>s' t'. places hash r s' t' \<Longrightarrow> t - h \<le> t' - h"
  shows "ring_owner (ring_build hash r) h = Some s"
proof -
  obtain s1 t1 where o: "ring_owner (ring_build hash r) h = Some s1" "places hash r s1 t1"
    "\<forall>s' t'. places hash r s' t' \<longrightarrow> t1 - h \<le> t' - h" using owner_nearest [OF assms(1,2)] by blast
  have "t - h = t1 - h" using o(2,3) assms(4,5) by (meson order_antisym)
  then have "t = t1" by simp
  then have "s = s1" using o(2) assms(3,4) by (auto simp: no_collision_def)
  then show ?thesis using o(1) by simp
qed

text \<open>
  Adding a shard moves keys to that shard and nowhere else: with the same number of points per shard
  and no two shards on one point, a key that had an owner either keeps it or goes to the shard that
  joined. Read the other way round, removing a shard moves only the keys it owned.
\<close>

theorem join_moves_keys_only_to_the_joiner:
  assumes "rg_shards r \<noteq> []" "0 < rg_vnodes r" "rg_vnodes r' = rg_vnodes r"
    and "set (rg_shards r') = insert joiner (set (rg_shards r))" "no_collision hash r'"
  shows "ring_owner (ring_build hash r') h = ring_owner (ring_build hash r) h \<or>
         ring_owner (ring_build hash r') h = Some joiner"
proof -
  have ne: "rg_shards r' \<noteq> []" "0 < rg_vnodes r'" using assms(2,3,4) by auto
  obtain s t where o: "ring_owner (ring_build hash r') h = Some s" "places hash r' s t"
    "\<forall>s' t'. places hash r' s' t' \<longrightarrow> t - h \<le> t' - h" using owner_nearest [OF ne] by blast
  have sub: "places hash r' s' t'" if "places hash r s' t'" for s' t' using that assms(3,4) by (auto simp: places_def)
  show ?thesis
  proof (cases "s = joiner")
    case True
    then show ?thesis using o(1) by simp
  next
    case False
    then have "places hash r s t" using o(2) assms(3,4) by (auto simp: places_def)
    moreover have "no_collision hash r" using assms(5) sub unfolding no_collision_def by blast
    ultimately have "ring_owner (ring_build hash r) h = Some s"
      using owner_unique [OF assms(1,2)] o(3) sub by blast
    then show ?thesis using o(1) by simp
  qed
qed

section \<open>Agreement between nodes\<close>

text \<open>The ring with the shard itself in place of its index, which depends on the order of the list.\<close>

definition point_cmp :: "64 word \<times> ring_shard \<Rightarrow> 64 word \<times> ring_shard \<Rightarrow> ordering" where
  "point_cmp a b = then_ord (cmp_lin (fst a) (fst b)) (cmp_endpoint (rg_node_url (snd a)) (rg_node_url (snd b)))"

definition ring_points :: "hasher \<Rightarrow> hash_ring \<Rightarrow> (64 word \<times> ring_shard) list" where
  "ring_points hash r = map (\<lambda>(t, i). (t, rg_shards r ! i)) (br_tokens (ring_build hash r))"

lemma sorted_points: "sorted_by point_cmp (ring_points hash r)"
proof -
  have "sorted_by (token_cmp (rg_shards r)) (br_tokens (ring_build hash r))"
    by (simp add: ring_build_def token_order.sorted_sort_by)
  then show ?thesis unfolding sorted_by_def ring_points_def sorted_wrt_map
    by (rule sorted_wrt_mono_rel [rotated]) (auto simp: token_cmp_def point_cmp_def)
qed

lemma mset_points:
  "mset (ring_points hash r) =
     (\<Sum>s\<in>#mset (rg_shards r). mset (map (\<lambda>v. (vnode_token hash (rg_node_url s) v, s)) [0..<rg_vnodes r]))"
proof -
  let ?f = "\<lambda>s. map (\<lambda>v. (vnode_token hash (rg_node_url s) v, s)) [0..<rg_vnodes r]"
  have "mset (ring_points hash r) = mset (map (\<lambda>(t, i). (t, rg_shards r ! i)) (raw_tokens hash r))"
    by (simp add: ring_points_def ring_build_def)
  also have "map (\<lambda>(t, i). (t, rg_shards r ! i)) (raw_tokens hash r) = concat (map (\<lambda>i. ?f (rg_shards r ! i)) [0..<length (rg_shards r)])"
    by (simp add: raw_tokens_def map_concat comp_def)
  also have "map (\<lambda>i. ?f (rg_shards r ! i)) [0..<length (rg_shards r)] = map ?f (rg_shards r)"
    by (rule nth_equalityI) simp_all
  also have "mset (concat (map ?f (rg_shards r))) = (\<Sum>s\<in>#mset (rg_shards r). mset (?f s))"
    by (simp add: mset_concat sum_mset_sum_list [symmetric] comp_def)
  finally show ?thesis .
qed

lemma sorted_by_unique:
  assumes "sorted_by c xs" "sorted_by c ys" "mset xs = mset ys"
    and "\<And>a b. a \<in> set xs \<Longrightarrow> b \<in> set xs \<Longrightarrow> c a b \<noteq> Greater \<Longrightarrow> c b a \<noteq> Greater \<Longrightarrow> a = b"
  shows "xs = ys"
  using assms
proof (induction xs arbitrary: ys)
  case (Cons x xs)
  then obtain y ys' where ys: "ys = y # ys'" by (cases ys) auto
  have sets: "set (x # xs) = set (y # ys')" using Cons.prems(3) ys by (metis set_mset_mset)
  have "x = y"
  proof (rule ccontr)
    assume "x \<noteq> y"
    then have "y \<in> set xs" "x \<in> set ys'" using sets by auto
    then have "c x y \<noteq> Greater" "c y x \<noteq> Greater" using Cons.prems(1,2) ys by auto
    then show False using Cons.prems(4) [of x y] \<open>y \<in> set xs\<close> \<open>x \<noteq> y\<close> by simp
  qed
  moreover have "xs = ys'" using Cons.IH [of ys'] Cons.prems ys \<open>x = y\<close> by simp
  ultimately show ?case using ys by simp
qed simp

lemma bs_loop_bound: "0 < n \<Longrightarrow> base \<le> bs_loop probe base n \<and> bs_loop probe base n < base + n"
proof (induction probe base n rule: bs_loop.induct)
  case (1 probe base n)
  show ?case
  proof (cases "n \<le> 1")
    case True
    with 1(2) show ?thesis by (simp add: bs_loop.simps)
  next
    case False
    let ?half = "n div 2"
    have half: "0 < n - ?half" "?half \<le> n" using False by auto
    have loop: "bs_loop probe base n = bs_loop probe (if probe (base + ?half) = Greater then base else base + ?half) (n - ?half)"
      using False by (subst bs_loop.simps) (simp add: Let_def)
    show ?thesis using 1(1) [OF False refl refl half(1)] half(2) unfolding loop by (auto split: if_splits)
  qed
qed

lemma bs_loop_cong: "\<forall>i<base + n. p i = q i \<Longrightarrow> bs_loop p base n = bs_loop q base n"
proof (induction p base n rule: bs_loop.induct)
  case (1 p base n)
  show ?case
  proof (cases "n \<le> 1")
    case True
    then show ?thesis by (simp add: bs_loop.simps)
  next
    case False
    let ?next = "if p (base + n div 2) = Greater then base else base + n div 2"
    have "p (base + n div 2) = q (base + n div 2)" using 1(2) False by simp
    moreover have "bs_loop p ?next (n - n div 2) = bs_loop q ?next (n - n div 2)"
      by (rule 1(1) [OF False refl refl]) (use 1(2) in \<open>auto split: if_splits\<close>)
    ultimately show ?thesis
      using False bs_loop.simps [of p base n] bs_loop.simps [of q base n] by (simp add: Let_def)
  qed
qed

lemma binary_search_map: "binary_search_by f (map g xs) = binary_search_by (\<lambda>x. f (g x)) xs"
proof (cases "xs = []")
  case False
  have "bs_loop (\<lambda>i. f (map g xs ! i)) 0 (length xs) = bs_loop (\<lambda>i. f (g (xs ! i))) 0 (length xs)"
    by (rule bs_loop_cong) simp
  then show ?thesis
    using False bs_loop_bound [of "length xs" 0 "\<lambda>i. f (g (xs ! i))"] by (simp add: binary_search_by_def Let_def)
qed (simp add: binary_search_by_def)

lemma owner_of_points:
  "ring_owner (ring_build hash r) h =
     (if ring_points hash r = [] then None
      else Some (snd (ring_points hash r ! (case binary_search_by (\<lambda>(t, _). cmp_lin t h) (ring_points hash r) of
        Ok i \<Rightarrow> i | Err i \<Rightarrow> if i < length (ring_points hash r) then i else 0))))"
proof (cases "br_tokens (ring_build hash r) = []")
  case False
  let ?toks = "br_tokens (ring_build hash r)"
  define at where "at = (case binary_search_by (\<lambda>(t, _). cmp_lin t h) ?toks of Ok i \<Rightarrow> i | Err i \<Rightarrow> if i < length ?toks then i else 0)"
  have at: "at < length ?toks" using search_nearest [OF tokens_sorted False, of h] unfolding at_def by simp
  obtain t i where ti: "?toks ! at = (t, i)" by fastforce
  then have "i < length (rg_shards r)" using token_places at by (metis nth_mem)
  then have "ring_owner (ring_build hash r) h = Some (rg_shards r ! i)"
    using False ti unfolding ring_owner_def at_def [symmetric] Let_def by (simp add: ring_build_def)
  moreover have "binary_search_by (\<lambda>(t, _). cmp_lin t h) (ring_points hash r) = binary_search_by (\<lambda>(t, _). cmp_lin t h) ?toks"
    unfolding ring_points_def binary_search_map by (simp add: case_prod_unfold)
  moreover have "length (ring_points hash r) = length ?toks" by (simp add: ring_points_def)
  ultimately show ?thesis
    using False ti at unfolding \<open>length _ = _\<close> \<open>binary_search_by _ _ = _\<close> at_def [symmetric] by (simp add: ring_points_def)
qed (simp add: ring_owner_def ring_points_def)

lemma point_cmp_antisym:
  assumes "point_cmp a b \<noteq> Greater" "point_cmp b a \<noteq> Greater"
  shows "fst a = fst b \<and> node_key (rg_node_url (snd a)) = node_key (rg_node_url (snd b))"
  using assms str_cmp.cmp_Greater_iff str_cmp.cmp_Equal_iff
  by (auto simp: point_cmp_def then_ord_not_Greater cmp_endpoint_node_key) (metis ordering.exhaust)+

text \<open>
  Nodes agree on ownership whatever order they learnt the shards in: two rings with the same shards
  in any order, each node listed once, give the same owner for every hash -- even where tokens of
  different shards collide.
\<close>

theorem ring_order_irrelevant:
  assumes "mset (rg_shards r) = mset (rg_shards r')" "rg_vnodes r = rg_vnodes r'"
    and "distinct (map (\<lambda>s. node_key (rg_node_url s)) (rg_shards r))"
  shows "ring_owner (ring_build hash r) h = ring_owner (ring_build hash r') h"
proof -
  have "ring_points hash r = ring_points hash r'"
  proof (rule sorted_by_unique [OF sorted_points sorted_points])
    show "mset (ring_points hash r) = mset (ring_points hash r')" by (simp add: mset_points assms(1,2))
    fix a b
    assume ab: "a \<in> set (ring_points hash r)" "b \<in> set (ring_points hash r)" "point_cmp a b \<noteq> Greater" "point_cmp b a \<noteq> Greater"
    have "snd a \<in> set (rg_shards r)" "snd b \<in> set (rg_shards r)"
      using ab(1,2) token_places by (fastforce simp: ring_points_def)+
    then have "snd a = snd b" using point_cmp_antisym [OF ab(3,4)] assms(3) by (auto simp: distinct_map inj_on_def)
    then show "a = b" using point_cmp_antisym [OF ab(3,4)] by (simp add: prod_eq_iff)
  qed
  then show ?thesis unfolding owner_of_points by (simp only:)
qed

section \<open>Validated rings\<close>

lemma check_primaries_Ok:
  assumes "check_primaries seen ss = Ok out" "distinct seen"
  shows "set out = set seen \<union> (\<lambda>s. node_key (rg_node_url s)) ` set ss \<and> distinct (seen @ map (\<lambda>s. node_key (rg_node_url s)) ss)"
  using assms by (induction seen ss rule: check_primaries.induct) (auto split: if_splits)

lemma check_replicas_Ok:
  assumes "check_replicas primaries primary local placed rs = Ok out" "distinct placed"
  shows "out = rev (map node_key rs) @ placed \<and> distinct out \<and> set primaries \<inter> node_key ` set rs = {}"
  using assms
  by (induction primaries primary local placed rs rule: check_replicas.induct)
    (auto simp: Let_def disjoint_iff split: if_splits)

lemma check_groups_Ok:
  assumes "check_groups primaries placed ss = Ok ()" "distinct placed"
  shows "distinct (placed @ concat (map (\<lambda>s. map node_key (rg_replica_urls s)) ss)) \<and>
    (\<forall>s\<in>set ss. set primaries \<inter> node_key ` set (rg_replica_urls s) = {})"
  using assms
proof (induction primaries placed ss rule: check_groups.induct)
  case (2 primaries placed s ss)
  then obtain placed' where p: "check_replicas primaries (node_key (rg_node_url s)) [] placed (rg_replica_urls s) = Ok placed'"
    "check_groups primaries placed' ss = Ok ()" by (auto split: sum.splits)
  note r = check_replicas_Ok [OF p(1) 2(3)]
  let ?R = "map node_key (rg_replica_urls s)" and ?X = "concat (map (\<lambda>s. map node_key (rg_replica_urls s)) ss)"
  have rest: "distinct ((rev ?R @ placed) @ ?X)" "\<forall>s\<in>set ss. set primaries \<inter> node_key ` set (rg_replica_urls s) = {}"
    using 2(1) [OF p(1,2)] r by blast+
  then have "distinct (placed @ ?R @ ?X)"
    by (simp only: distinct_append set_append set_rev distinct_rev) blast
  then show ?case using rest(2) r by simp
qed simp

text \<open>The nodes of a ring entry: its primary and its replicas.\<close>

definition group_nodes :: "ring_shard \<Rightarrow> string list" where
  "group_nodes s = node_key (rg_node_url s) # map node_key (rg_replica_urls s)"

lemma valid_ring_nodes:
  assumes "ring_validate r = Ok ()"
  shows "distinct (concat (map group_nodes (rg_shards r)))"
proof -
  obtain seen where seen: "check_primaries [] (rg_shards r) = Ok seen" "check_groups seen [] (rg_shards r) = Ok ()"
    using assms by (auto simp: ring_validate_def split: if_splits sum.splits)
  note p = check_primaries_Ok [OF seen(1), simplified]
  note g = check_groups_Ok [OF seen(2), simplified]
  have "distinct (concat (map group_nodes ss))"
    if "distinct (map (\<lambda>s. node_key (rg_node_url s)) ss)" "distinct (concat (map (\<lambda>s. map node_key (rg_replica_urls s)) ss))"
      "\<forall>s\<in>set ss. \<forall>s'\<in>set ss. node_key (rg_node_url s) \<notin> node_key ` set (rg_replica_urls s')" for ss
    using that
  proof (induction ss)
    case (Cons s ss)
    have "set (group_nodes s) \<inter> set (concat (map group_nodes ss)) = {}"
      using Cons.prems by (auto simp: group_nodes_def disjoint_iff image_iff) metis
    moreover have "distinct (group_nodes s)" using Cons.prems by (auto simp: group_nodes_def)
    ultimately show ?case using Cons by (simp del: set_concat)
  qed simp
  moreover have "\<forall>s\<in>set (rg_shards r). \<forall>s'\<in>set (rg_shards r). node_key (rg_node_url s) \<notin> node_key ` set (rg_replica_urls s')"
    using p g by blast
  ultimately show ?thesis using p g by blast
qed

text \<open>
  A validated ring gives every node one place: no endpoint, however it is spelled, is two primaries,
  two replicas, or a primary and a replica, and building its tokens costs at most 2^20 entries.
\<close>

theorem valid_ring_places_nodes_once:
  assumes "ring_validate r = Ok ()"
  shows "distinct (concat (map group_nodes (rg_shards r))) \<and> 0 < length (br_tokens (ring_build hash r)) \<and>
         length (br_tokens (ring_build hash r)) \<le> 2 ^ 20"
proof -
  have ok: "rg_shards r \<noteq> []" "0 < rg_vnodes r"
    "saturating_mul (length (rg_shards r)) (rg_vnodes r) \<le> 2 ^ 20"
    using assms by (auto simp: ring_validate_def MAX_RING_TOKENS_def split: if_splits)
  have "length (br_tokens (ring_build hash r)) = length (rg_shards r) * rg_vnodes r"
    by (simp add: ring_build_def raw_tokens_def length_concat sum_list_triv comp_def)
  moreover have "length (rg_shards r) * rg_vnodes r \<le> 2 ^ 20"
    using ok(3) by (simp add: saturating_mul_def usize_max_def min_def split: if_splits)
  ultimately show ?thesis using valid_ring_nodes [OF assms] ok(1,2) by simp
qed

section \<open>Examples\<close>

definition demo_ring :: "string list \<Rightarrow> hash_ring" where
  "demo_ring urls = \<lparr>rg_vnodes = 1, rg_shards = map (\<lambda>u. \<lparr>rg_node_url = u, rg_replica_urls = []\<rparr>) urls\<rparr>"

definition first_byte :: hasher where "first_byte s = word_of_nat (of_char (hd s))"

theorem validated_ranges_partition_witness:
  "\<exists>s\<in>set [\<lparr>si_start_hash = 100, si_end_hash = 7, si_node_url = ''a'', si_replica_urls = []\<rparr>,
           \<lparr>si_start_hash = 7, si_end_hash = 100, si_node_url = ''b'', si_replica_urls = []\<rparr>]. shard_owns s 5"
proof -
  have "validate_shard_ring [\<lparr>si_start_hash = 100, si_end_hash = 7, si_node_url = ''a'', si_replica_urls = []\<rparr>,
           \<lparr>si_start_hash = 7, si_end_hash = 100, si_node_url = ''b'', si_replica_urls = []\<rparr>] = Ok ()"
    by (simp add: validate_shard_ring_def all_segments_def ring_segments_def RING_SIZE_def)
  from validated_ranges_partition [OF this] show ?thesis by blast
qed

lemma demo_valid: "ring_validate (demo_ring [''a'', ''b'']) = Ok ()"
proof -
  have "node_key ''a'' = ''a''" "node_key ''b'' = ''b''" by code_simp+
  moreover have "trim ''a'' = ''a''" "trim ''b'' = ''b''" by (simp_all add: trim_graphic graphic_def)
  ultimately show ?thesis
    by (simp add: ring_validate_def demo_ring_def saturating_mul_def usize_max_def MAX_VNODES_def MAX_RING_SHARDS_def
        MAX_RING_TOKENS_def)
qed

theorem owner_is_first_clockwise_witness:
  "\<exists>s t. ring_owner (ring_build first_byte (demo_ring [''a'', ''b''])) 7 = Some s \<and>
     places first_byte (demo_ring [''a'', ''b'']) s t"
proof -
  from owner_is_first_clockwise [OF demo_valid] show ?thesis by blast
qed

theorem join_moves_keys_only_to_the_joiner_witness:
  "ring_owner (ring_build first_byte (demo_ring [''b'', ''a''])) 5 = ring_owner (ring_build first_byte (demo_ring [''a''])) 5 \<or>
   ring_owner (ring_build first_byte (demo_ring [''b'', ''a''])) 5 = Some \<lparr>rg_node_url = ''b'', rg_replica_urls = []\<rparr>"
proof -
  have "vnode_token first_byte ''a'' 0 = 97" "vnode_token first_byte ''b'' 0 = 98" by code_simp+
  then have "no_collision first_byte (demo_ring [''b'', ''a''])"
    by (auto simp: no_collision_def places_def demo_ring_def)
  then show ?thesis
    by (intro join_moves_keys_only_to_the_joiner) (auto simp: demo_ring_def)
qed

theorem ring_order_irrelevant_witness:
  "ring_owner (ring_build (\<lambda>_. 0) (demo_ring [''a'', ''b''])) 5 = ring_owner (ring_build (\<lambda>_. 0) (demo_ring [''b'', ''a''])) 5"
proof -
  have "distinct (map (\<lambda>s. node_key (rg_node_url s)) (rg_shards (demo_ring [''a'', ''b''])))" by code_simp
  then show ?thesis by (intro ring_order_irrelevant) (simp_all add: demo_ring_def add_mset_commute)
qed

theorem valid_ring_places_nodes_once_witness:
  "length (br_tokens (ring_build first_byte (demo_ring [''a'', ''b'']))) \<le> 2 ^ 20"
proof -
  from valid_ring_places_nodes_once [OF demo_valid] show ?thesis by blast
qed

end
