(* ===== verification/Metadata.thy ===== *)
theory Metadata
  imports Secondary Ring Consensus
begin

text \<open>
  \<^verbatim>\<open>src/src/cluster/metadata.rs\<close>: the cluster view as one versioned value, its order, its validation and
  adoption, the index catalogue that is merged across views, and the membership plans. Messages of
  errors are constructors; the hash and the JSON encoding are parameters.
\<close>

section \<open>The view\<close>

record member =
  mb_url :: string
  mb_node_id :: "string option"
  mb_role :: string
  mb_shard_role :: "string option"
  mb_voting :: bool
  mb_follows :: "string option"

definition member_effective_role :: "member \<Rightarrow> string option" where
  "member_effective_role m =
     (if mb_role m \<noteq> ''shard'' then None
      else Some (if mb_shard_role m = Some ''primary'' then ''primary'' else ''replica''))"

record collection_indexes =
  ci_version :: nat
  ci_updated_by :: string
  ci_indexes :: "index_spec list"
  ci_ttl_secs :: "nat option"

type_synonym index_catalog = "(string \<times> collection_indexes) list"

datatype migration_phase = Copy | Finalizing

record migration =
  mg_id :: string
  mg_target :: hash_ring
  mg_started_by :: string
  mg_phase :: migration_phase

record cluster_metadata =
  cm_version :: nat
  cm_updated_by :: string
  cm_seeded :: bool
  cm_members :: "member list"
  cm_shards :: "shard_info list"
  cm_ring :: "hash_ring option"
  cm_migration :: "migration option"
  cm_index_catalog :: index_catalog

definition stamp_gt :: "nat \<Rightarrow> string \<Rightarrow> nat \<Rightarrow> string \<Rightarrow> bool" where
  "stamp_gt v by v' by' = (v > v' \<or> v = v' \<and> str_cmp by by' = Greater)"

definition ci_supersedes :: "collection_indexes \<Rightarrow> collection_indexes \<Rightarrow> bool" where
  "ci_supersedes a b = stamp_gt (ci_version a) (ci_updated_by a) (ci_version b) (ci_updated_by b)"

record view_id =
  vi_version :: nat
  vi_updated_by :: "string option"
  vi_seeded :: bool

definition vi_supersedes :: "view_id \<Rightarrow> view_id \<Rightarrow> bool" where
  "vi_supersedes a b =
     (if vi_seeded a then False
      else if vi_seeded b then vi_version a \<ge> vi_version b
      else (case (vi_updated_by a, vi_updated_by b) of
              (Some mine, Some theirs) \<Rightarrow> stamp_gt (vi_version a) mine (vi_version b) theirs
            | _ \<Rightarrow> vi_version a > vi_version b))"

definition cm_view_id :: "cluster_metadata \<Rightarrow> view_id" where
  "cm_view_id m = \<lparr>vi_version = cm_version m, vi_updated_by = Some (cm_updated_by m), vi_seeded = cm_seeded m\<rparr>"

definition cm_supersedes :: "cluster_metadata \<Rightarrow> cluster_metadata \<Rightarrow> bool" where
  "cm_supersedes a b = vi_supersedes (cm_view_id a) (cm_view_id b)"

section \<open>The index catalogue\<close>

definition MAX_INDEXES_PER_COLLECTION :: nat where "MAX_INDEXES_PER_COLLECTION = 8"
definition MAX_CATALOG_COLLECTIONS :: nat where "MAX_CATALOG_COLLECTIONS = 4096"

datatype unaddressable = BadCollectionName | TooManyIndexes | ZeroTtl | BadIndexName | BadFieldPath | IndexNamedTwice

fun check_specs :: "string list \<Rightarrow> index_spec list \<Rightarrow> unaddressable option" where
  "check_specs seen [] = None"
| "check_specs seen (spec # specs) =
     (if \<not> valid_index_name (is_name spec) then Some BadIndexName
      else if \<not> valid_field_path (is_field spec) then Some BadFieldPath
      else if is_name spec \<in> set seen then Some IndexNamedTwice
      else check_specs (is_name spec # seen) specs)"

definition unaddressable_entry :: "string \<Rightarrow> collection_indexes \<Rightarrow> unaddressable option" where
  "unaddressable_entry collection entry =
     (if \<not> valid_collection_name collection then Some BadCollectionName
      else if length (ci_indexes entry) > MAX_INDEXES_PER_COLLECTION then Some TooManyIndexes
      else if ci_ttl_secs entry = Some 0 then Some ZeroTtl
      else check_specs [] (ci_indexes entry))"

definition sanitize_catalog :: "index_catalog \<Rightarrow> index_catalog \<times> unaddressable list" where
  "sanitize_catalog catalog =
     (filter (\<lambda>(c, e). unaddressable_entry c e = None) catalog,
      concat (map (\<lambda>(c, e). case unaddressable_entry c e of Some why \<Rightarrow> [why] | None \<Rightarrow> []) catalog))"

definition merge_entry :: "index_catalog \<times> bool \<Rightarrow> string \<times> collection_indexes \<Rightarrow> index_catalog \<times> bool" where
  "merge_entry acc ce =
     (case (acc, ce) of
        ((into, moved), (collection, incoming)) \<Rightarrow>
          if unaddressable_entry collection incoming \<noteq> None then (into, moved)
          else (case bm_get str_cmp into collection of
                  Some current \<Rightarrow>
                    if \<not> ci_supersedes incoming current then (into, moved)
                    else (bm_insert str_cmp collection incoming into, True)
                | None \<Rightarrow> (bm_insert str_cmp collection incoming into, True)))"

definition merge_catalog :: "index_catalog \<Rightarrow> index_catalog \<Rightarrow> index_catalog \<times> bool" where
  "merge_catalog into from = foldl merge_entry (into, False) from"

definition catalog_adds_to :: "index_catalog \<Rightarrow> index_catalog \<Rightarrow> bool" where
  "catalog_adds_to current incoming = snd (merge_catalog current incoming)"

section \<open>Seeding and validation\<close>

record full_config = node_config +
  nc_shard_map :: "shard_info list"
  nc_ring :: "hash_ring option"

definition push_member :: "string \<Rightarrow> string \<Rightarrow> string option \<Rightarrow> string option \<Rightarrow> member list \<Rightarrow> member list" where
  "push_member url role shard_role node_id members =
     (if url = [] \<or> list_ex (\<lambda>m. same_endpoint (mb_url m) url) members then members
      else members @ [\<lparr>mb_url = url, mb_node_id = node_id, mb_role = role, mb_shard_role = shard_role,
                       mb_voting = (role = ''shard''), mb_follows = None\<rparr>])"

definition push_shard :: "string option \<Rightarrow> string \<Rightarrow> member list \<Rightarrow> member list" where
  "push_shard shard_role url members = push_member url ''shard'' shard_role None members"

definition push_group :: "string \<Rightarrow> string list \<Rightarrow> member list \<Rightarrow> member list" where
  "push_group url replicas members = fold (push_shard (Some ''replica'')) replicas (push_shard (Some ''primary'') url members)"

definition seed_members :: "full_config \<Rightarrow> member list" where
  "seed_members cfg =
     (let own = push_member (own_url (node_config.truncate cfg)) (nc_role cfg)
                  (effective_shard_role (node_config.truncate cfg)) (Some (nc_node_id cfg)) [];
          m1 = (case nc_primary_addr cfg of Some p \<Rightarrow> push_shard (Some ''primary'') p own | None \<Rightarrow> own);
          m2 = fold (push_shard (Some ''replica'')) (nc_replicas cfg) m1;
          m3 = fold (push_shard None) (nc_peers cfg) m2;
          m4 = fold (\<lambda>s. push_group (si_node_url s) (si_replica_urls s)) (nc_shard_map cfg) m3
      in fold (\<lambda>s. push_group (rg_node_url s) (rg_replica_urls s))
           (case nc_ring cfg of Some r \<Rightarrow> rg_shards r | None \<Rightarrow> []) m4)"

definition seed_from_config :: "full_config \<Rightarrow> cluster_metadata" where
  "seed_from_config cfg =
     \<lparr>cm_version = 1, cm_updated_by = nc_node_id cfg, cm_seeded = True, cm_members = seed_members cfg,
      cm_shards = nc_shard_map cfg, cm_ring = nc_ring cfg, cm_migration = None, cm_index_catalog = []\<rparr>"

datatype view_error =
    VersionZero | BadRing ring_error | BadTarget ring_error | MigrationWithoutRing | BadRanges range_error
  | CatalogTooLarge | EmptyMemberUrl | MemberTwice string | UnknownRole string

fun check_members :: "string list \<Rightarrow> member list \<Rightarrow> (view_error, unit) result" where
  "check_members seen [] = Ok ()"
| "check_members seen (m # rest) =
     (if trim (mb_url m) = [] then Err EmptyMemberUrl
      else if node_key (mb_url m) \<in> set seen then Err (MemberTwice (mb_url m))
      else if mb_role m \<noteq> ''shard'' \<and> mb_role m \<noteq> ''router'' then Err (UnknownRole (mb_role m))
      else check_members (node_key (mb_url m) # seen) rest)"

definition validate_catalog :: "index_catalog \<Rightarrow> bool" where
  "validate_catalog catalog = (length catalog \<le> MAX_CATALOG_COLLECTIONS)"

definition cm_validate :: "cluster_metadata \<Rightarrow> (view_error, unit) result" where
  "cm_validate m =
     (if cm_version m = 0 then Err VersionZero
      else (case map_option ring_validate (cm_ring m) of
        Some (Err e) \<Rightarrow> Err (BadRing e)
      | _ \<Rightarrow> (case map_option (\<lambda>mg. ring_validate (mg_target mg)) (cm_migration m) of
          Some (Err e) \<Rightarrow> Err (BadTarget e)
        | mig \<Rightarrow>
            if mig \<noteq> None \<and> cm_ring m = None then Err MigrationWithoutRing
            else (case (if cm_shards m = [] then Ok () else validate_shard_ring (cm_shards m)) of
                Err e \<Rightarrow> Err (BadRanges e)
              | Ok _ \<Rightarrow>
                  if \<not> validate_catalog (cm_index_catalog m) then Err CatalogTooLarge
                  else check_members [] (cm_members m)))))"

section \<open>Reading the view\<close>

definition cm_member :: "cluster_metadata \<Rightarrow> string \<Rightarrow> member option" where
  "cm_member v url = find (\<lambda>m. same_endpoint (mb_url m) url) (cm_members v)"

definition learners_following :: "cluster_metadata \<Rightarrow> string \<Rightarrow> string list" where
  "learners_following v primary =
     map mb_url (filter (\<lambda>m. \<not> mb_voting m \<and> mb_role m = ''shard'' \<and>
       (case mb_follows m of Some f \<Rightarrow> same_endpoint f primary | None \<Rightarrow> False)) (cm_members v))"

definition voting_shards :: "cluster_metadata \<Rightarrow> string list" where
  "voting_shards v = map mb_url (filter (\<lambda>m. mb_voting m \<and> mb_role m = ''shard'') (cm_members v))"

definition cm_is_learner :: "cluster_metadata \<Rightarrow> string \<Rightarrow> bool" where
  "cm_is_learner v url = (case cm_member v url of Some m \<Rightarrow> \<not> mb_voting m \<and> mb_role m = ''shard'' | None \<Rightarrow> False)"

fun dedup_owners :: "string list \<Rightarrow> (string \<times> string list) list \<Rightarrow> (string \<times> string list) list" where
  "dedup_owners seen [] = []"
| "dedup_owners seen ((u, rs) # os) =
     (if u \<in> set seen then dedup_owners seen os else (u, rs) # dedup_owners (u # seen) os)"

definition shard_owners :: "cluster_metadata \<Rightarrow> (string \<times> string list) list" where
  "shard_owners v =
     (case cm_ring v of
        Some ring \<Rightarrow> dedup_owners [] (map (\<lambda>s. (rg_node_url s, rg_replica_urls s)) (rg_shards ring))
      | None \<Rightarrow> dedup_owners [] (map (\<lambda>s. (si_node_url s, si_replica_urls s)) (cm_shards v)))"

definition groups_known :: "cluster_metadata \<Rightarrow> bool" where
  "groups_known v = (cm_ring v \<noteq> None \<or> cm_shards v \<noteq> [])"

definition group_names :: "string \<times> string list \<Rightarrow> string \<Rightarrow> bool" where
  "group_names g who = (same_endpoint (fst g) who \<or> list_ex (\<lambda>replica. same_endpoint replica who) (snd g))"

definition shard_group :: "cluster_metadata \<Rightarrow> string \<Rightarrow> string list option" where
  "shard_group v url =
     (let groups = shard_owners v;
          follows = (case cm_member v url of Some m \<Rightarrow> mb_follows m | None \<Rightarrow> None);
          anchor = (case follows of
                      Some f \<Rightarrow> if \<not> list_ex (\<lambda>g. group_names g url) groups then f else url
                    | None \<Rightarrow> url)
      in map_option (\<lambda>(node_url, replicas). node_url # replicas) (find (\<lambda>g. group_names g anchor) groups))"

definition fingerprint_parts :: "cluster_metadata \<Rightarrow> string list" where
  "fingerprint_parts v =
     (case cm_ring v of
        Some ring \<Rightarrow> (''vnodes='' @ show_nat (rg_vnodes ring)) # map (\<lambda>s. node_key (rg_node_url s)) (rg_shards ring)
      | None \<Rightarrow> map (\<lambda>s. show_nat (unat (si_start_hash s)) @ ''-'' @ show_nat (unat (si_end_hash s)) @ ''@'' @
                           node_key (si_node_url s)) (cm_shards v))
     @ (case cm_migration v of Some m \<Rightarrow> [''->'' @ mg_id m] | None \<Rightarrow> [])"

definition partition_fingerprint :: "hasher \<Rightarrow> cluster_metadata \<Rightarrow> 64 word" where
  "partition_fingerprint hash v = hash (join_with ''|'' (sort_by str_cmp (fingerprint_parts v)))"

definition catalog_fingerprint :: "hasher \<Rightarrow> cluster_metadata \<Rightarrow> 64 word" where
  "catalog_fingerprint hash v =
     hash (join_with ''|'' (sort_by str_cmp
       (map (\<lambda>(name, e). name @ ''@'' @ show_nat (ci_version e) @ '':'' @ ci_updated_by e) (cm_index_catalog v))))"

section \<open>Changing the view\<close>

definition bump :: "string \<Rightarrow> cluster_metadata \<Rightarrow> cluster_metadata" where
  "bump by v = v\<lparr>cm_version := cm_version v + 1, cm_updated_by := by, cm_seeded := False\<rparr>"

definition with_member :: "cluster_metadata \<Rightarrow> string \<Rightarrow> member \<Rightarrow> cluster_metadata" where
  "with_member v by m =
     bump by (v\<lparr>cm_members := filter (\<lambda>x. \<not> same_endpoint (mb_url x) (mb_url m)) (cm_members v) @ [m]\<rparr>)"

definition without_member :: "cluster_metadata \<Rightarrow> string \<Rightarrow> string \<Rightarrow> cluster_metadata" where
  "without_member v by url = bump by (v\<lparr>cm_members := filter (\<lambda>x. \<not> same_endpoint (mb_url x) url) (cm_members v)\<rparr>)"

definition with_ring :: "cluster_metadata \<Rightarrow> string \<Rightarrow> hash_ring \<Rightarrow> cluster_metadata" where
  "with_ring v by ring = bump by (v\<lparr>cm_ring := Some ring, cm_migration := None\<rparr>)"

definition with_migration :: "cluster_metadata \<Rightarrow> string \<Rightarrow> migration option \<Rightarrow> cluster_metadata" where
  "with_migration v by m = bump by (v\<lparr>cm_migration := m\<rparr>)"

definition record_index_change :: "string \<Rightarrow> string \<Rightarrow> index_change \<Rightarrow> cluster_metadata \<Rightarrow> bool \<times> cluster_metadata" where
  "record_index_change by collection change v =
     (let current = bm_get str_cmp (cm_index_catalog v) collection;
          indexes = change_apply_to change (case current of Some e \<Rightarrow> ci_indexes e | None \<Rightarrow> []);
          ttl_secs = (case current of Some e \<Rightarrow> ci_ttl_secs e | None \<Rightarrow> None)
      in if (case current of Some e \<Rightarrow> ci_indexes e = indexes | None \<Rightarrow> False) then (False, v)
         else if current = None \<and> indexes = [] then (False, v)
         else if current = None \<and> length (cm_index_catalog v) \<ge> MAX_CATALOG_COLLECTIONS then (False, v)
         else (True, v\<lparr>cm_index_catalog := bm_insert str_cmp collection
                \<lparr>ci_version = (case current of Some e \<Rightarrow> ci_version e | None \<Rightarrow> 0) + 1, ci_updated_by = by,
                 ci_indexes = indexes, ci_ttl_secs = ttl_secs\<rparr> (cm_index_catalog v)\<rparr>))"

definition record_ttl_change :: "string \<Rightarrow> string \<Rightarrow> nat option \<Rightarrow> cluster_metadata \<Rightarrow> bool \<times> cluster_metadata" where
  "record_ttl_change by collection ttl_secs v =
     (let current = bm_get str_cmp (cm_index_catalog v) collection
      in if (case current of Some e \<Rightarrow> ci_ttl_secs e = ttl_secs | None \<Rightarrow> ttl_secs = None) then (False, v)
         else if current = None \<and> length (cm_index_catalog v) \<ge> MAX_CATALOG_COLLECTIONS then (False, v)
         else (True, v\<lparr>cm_index_catalog := bm_insert str_cmp collection
                \<lparr>ci_version = (case current of Some e \<Rightarrow> ci_version e | None \<Rightarrow> 0) + 1, ci_updated_by = by,
                 ci_indexes = (case current of Some e \<Rightarrow> ci_indexes e | None \<Rightarrow> []), ci_ttl_secs = ttl_secs\<rparr>
                (cm_index_catalog v)\<rparr>))"

definition forget_collection_indexes :: "string \<Rightarrow> string \<Rightarrow> cluster_metadata \<Rightarrow> bool \<times> cluster_metadata" where
  "forget_collection_indexes by collection v =
     (case bm_get str_cmp (cm_index_catalog v) collection of
        Some entry \<Rightarrow>
          if ci_indexes entry = [] \<and> ci_ttl_secs entry = None then (False, v)
          else (True, v\<lparr>cm_index_catalog := bm_insert str_cmp collection
                 \<lparr>ci_version = ci_version entry + 1, ci_updated_by = by, ci_indexes = [], ci_ttl_secs = None\<rparr>
                 (cm_index_catalog v)\<rparr>)
      | None \<Rightarrow> (False, v))"

datatype adoption = Adopted nat nat | Stale nat | Rejected view_error

definition adopt :: "cluster_metadata \<Rightarrow> cluster_metadata \<Rightarrow> adoption \<times> cluster_metadata" where
  "adopt current offered =
     (let incoming = offered\<lparr>cm_index_catalog := fst (sanitize_catalog (cm_index_catalog offered))\<rparr>
      in case cm_validate incoming of
           Err why \<Rightarrow> (Rejected why, current)
         | Ok _ \<Rightarrow>
             (let catalog = fst (merge_catalog (cm_index_catalog current) (cm_index_catalog incoming))
              in if \<not> cm_supersedes incoming current
                 then (Stale (cm_version current), current\<lparr>cm_index_catalog := catalog\<rparr>)
                 else (Adopted (cm_version current) (cm_version incoming), incoming\<lparr>cm_index_catalog := catalog\<rparr>)))"

record join_request =
  jr_url :: string
  jr_node_id :: "string option"
  jr_role :: "string option"
  jr_shard_role :: "string option"
  jr_follows :: "string option"
  jr_voting :: "bool option"

datatype plan_error =
    UrlRequired | JoinAsVoting | UnknownJoinRole string | FollowsNotReplica | LeaderAddsItself | FollowsItself
  | AlreadyVoting string | NotAMember string | IsVoting string | InvalidView view_error

definition checked :: "cluster_metadata \<Rightarrow> (plan_error, cluster_metadata) result" where
  "checked next = (case cm_validate next of Ok _ \<Rightarrow> Ok next | Err e \<Rightarrow> Err (InvalidView e))"

definition plan_join :: "cluster_metadata \<Rightarrow> string \<Rightarrow> string \<Rightarrow> join_request \<Rightarrow> (plan_error, cluster_metadata) result" where
  "plan_join current by leader_url req =
     (let role = (case jr_role req of Some r \<Rightarrow> r | None \<Rightarrow> ''shard'');
          shard_role = (case jr_shard_role req of Some r \<Rightarrow> Some r | None \<Rightarrow> if role = ''shard'' then Some ''replica'' else None)
      in if trim (jr_url req) = [] then Err UrlRequired
         else if jr_voting req = Some True then Err JoinAsVoting
         else if role \<noteq> ''shard'' \<and> role \<noteq> ''router'' then Err (UnknownJoinRole role)
         else if shard_role \<noteq> Some ''replica'' \<and> jr_follows req \<noteq> None then Err FollowsNotReplica
         else if same_endpoint (jr_url req) leader_url then Err LeaderAddsItself
         else if (case jr_follows req of Some f \<Rightarrow> same_endpoint (jr_url req) f | None \<Rightarrow> False) then Err FollowsItself
         else if (case cm_member current (jr_url req) of Some m \<Rightarrow> mb_voting m | None \<Rightarrow> False)
              then Err (AlreadyVoting (jr_url req))
         else checked (with_member current by
                \<lparr>mb_url = jr_url req, mb_node_id = jr_node_id req, mb_role = role, mb_shard_role = shard_role,
                 mb_voting = False,
                 mb_follows = (if shard_role = Some ''replica''
                               then Some (case jr_follows req of Some f \<Rightarrow> f | None \<Rightarrow> leader_url) else None)\<rparr>))"

definition settle_member :: "string \<Rightarrow> string list \<Rightarrow> member \<Rightarrow> member" where
  "settle_member leader_url voters m =
     (let voting = list_ex (\<lambda>v. same_endpoint v (mb_url m)) voters
      in if mb_role m \<noteq> ''shard'' \<or> voting = mb_voting m then m
         else m\<lparr>mb_voting := voting,
                mb_follows := (if \<not> voting \<and> \<not> same_endpoint (mb_url m) leader_url then Some leader_url else None)\<rparr>)"

definition admit_voter :: "string \<Rightarrow> string \<Rightarrow> cluster_metadata \<Rightarrow> cluster_metadata" where
  "admit_voter leader_url voter v =
     (if cm_member v voter = None
      then v\<lparr>cm_members := cm_members v @
             [\<lparr>mb_url = voter, mb_node_id = None, mb_role = ''shard'',
               mb_shard_role = Some (if same_endpoint voter leader_url then ''primary'' else ''replica''),
               mb_voting = True, mb_follows = None\<rparr>]\<rparr>
      else v)"

definition plan_configuration ::
  "cluster_metadata \<Rightarrow> string \<Rightarrow> string \<Rightarrow> string list \<Rightarrow> (plan_error, cluster_metadata) result" where
  "plan_configuration current by leader_url voters =
     checked (bump by (fold (admit_voter leader_url) voters
       (current\<lparr>cm_members := map (settle_member leader_url voters) (cm_members current)\<rparr>)))"

definition plan_leave :: "cluster_metadata \<Rightarrow> string \<Rightarrow> string \<Rightarrow> (plan_error, cluster_metadata) result" where
  "plan_leave current by url =
     (case cm_member current url of
        None \<Rightarrow> Err (NotAMember url)
      | Some m \<Rightarrow> if mb_voting m then Err (IsVoting url) else checked (without_member current by url))"

section \<open>The durable view\<close>

definition CLUSTER_FILE :: string where "CLUSTER_FILE = ''cluster.meta''"
definition CLUSTER_TMP :: string where "CLUSTER_TMP = ''cluster.meta.tmp''"

fun cm_load_from :: "(string \<Rightarrow> cluster_metadata option) \<Rightarrow> (string \<Rightarrow> bool) \<Rightarrow> dir \<Rightarrow> string list \<Rightarrow> bool \<Rightarrow>
    (io_error, cluster_metadata option) result" where
  "cm_load_from de unreadable fs [] corrupt = (if corrupt then Err InvalidData else Ok None)"
| "cm_load_from de unreadable fs (name # names) corrupt =
     (if unreadable name then Err IoFailed
      else (case fs name of
              None \<Rightarrow> cm_load_from de unreadable fs names corrupt
            | Some content \<Rightarrow>
                (case de content of
                   None \<Rightarrow> cm_load_from de unreadable fs names True
                 | Some read \<Rightarrow>
                     (let meta = read\<lparr>cm_index_catalog := fst (sanitize_catalog (cm_index_catalog read))\<rparr>
                      in case cm_validate meta of
                           Ok _ \<Rightarrow> Ok (Some meta)
                         | Err _ \<Rightarrow> cm_load_from de unreadable fs names True))))"

definition cm_load :: "(string \<Rightarrow> cluster_metadata option) \<Rightarrow> (string \<Rightarrow> bool) \<Rightarrow> dir \<Rightarrow> (io_error, cluster_metadata option) result" where
  "cm_load de unreadable fs = cm_load_from de unreadable fs [CLUSTER_FILE, CLUSTER_TMP] False"

definition cm_save ::
  "(cluster_metadata \<Rightarrow> string) \<Rightarrow> (string \<Rightarrow> cluster_metadata option) \<Rightarrow> (string \<Rightarrow> bool) \<Rightarrow> io_script \<Rightarrow>
     cluster_metadata \<Rightarrow> dir \<Rightarrow> (io_error, unit) result \<times> dir" where
  "cm_save ser de unreadable io self fs =
     (case cm_load de unreadable fs of
        Ok (Some existing) \<Rightarrow>
          if \<not> cm_supersedes self existing
          then (case merge_catalog (cm_index_catalog existing) (cm_index_catalog self) of
                  (catalog, moved) \<Rightarrow>
                    if \<not> moved then (Ok (), fs)
                    else write_atomic io CLUSTER_FILE (ser (existing\<lparr>cm_index_catalog := catalog\<rparr>)) fs)
          else write_atomic io CLUSTER_FILE (ser self) fs
      | _ \<Rightarrow> write_atomic io CLUSTER_FILE (ser self) fs)"

section \<open>Views converge\<close>

definition topo :: "cluster_metadata \<Rightarrow> cluster_metadata" where
  "topo v = v\<lparr>cm_index_catalog := []\<rparr>"

definition sanitized :: "cluster_metadata \<Rightarrow> cluster_metadata" where
  "sanitized v = v\<lparr>cm_index_catalog := fst (sanitize_catalog (cm_index_catalog v))\<rparr>"

definition acceptable :: "cluster_metadata \<Rightarrow> bool" where
  "acceptable v = (cm_validate (sanitized v) = Ok ())"

lemma topo_sel [simp]:
  "cm_version (topo v) = cm_version v" "cm_updated_by (topo v) = cm_updated_by v" "cm_seeded (topo v) = cm_seeded v"
  by (simp_all add: topo_def)

lemma topo_fields:
  assumes "topo a = topo b"
  shows "cm_version a = cm_version b" "cm_updated_by a = cm_updated_by b" "cm_seeded a = cm_seeded b"
  using assms topo_sel by metis+

lemma supersedes_topo:
  assumes "topo a = topo a'" "topo b = topo b'"
  shows "cm_supersedes a b = cm_supersedes a' b'"
  unfolding cm_supersedes_def cm_view_id_def topo_fields [OF assms(1)] topo_fields [OF assms(2)] ..

lemma topo_catalog [simp]: "topo (v\<lparr>cm_index_catalog := c\<rparr>) = topo v" "topo (sanitized v) = topo v"
  by (simp_all add: topo_def sanitized_def)

lemma stamp_gt_trans: "stamp_gt v1 b1 v2 b2 \<Longrightarrow> stamp_gt v2 b2 v3 b3 \<Longrightarrow> stamp_gt v1 b1 v3 b3"
  using str_cmp.cmp_less_trans [of b3 b2 b1] by (auto simp: stamp_gt_def str_cmp.cmp_Greater_iff)

lemma stamp_total: "\<not> stamp_gt v1 b1 v2 b2 \<Longrightarrow> \<not> stamp_gt v2 b2 v1 b1 \<Longrightarrow> v1 = v2 \<and> b1 = b2"
  using str_cmp.cmp_Equal_iff [of b1 b2] str_cmp.cmp_Greater_iff [of b2 b1]
  by (cases "str_cmp b1 b2") (auto simp: stamp_gt_def)

lemma stamp_irrefl: "\<not> stamp_gt v b v b"
  by (simp add: stamp_gt_def str_cmp.cmp_refl)

lemma supersedes_trans:
  assumes "cm_supersedes a b" "cm_supersedes b c"
  shows "cm_supersedes a c"
  using assms stamp_gt_trans
  by (auto simp: cm_supersedes_def vi_supersedes_def cm_view_id_def stamp_gt_def split: if_splits)

lemma adopt_topo:
  assumes "acceptable v"
  shows "topo (snd (adopt c v)) = (if cm_supersedes v c then topo v else topo c)"
proof -
  have "cm_supersedes (sanitized v) c = cm_supersedes v c" by (rule supersedes_topo) simp_all
  then show ?thesis using assms unfolding acceptable_def
    by (auto simp: adopt_def Let_def sanitized_def [symmetric])
qed

lemma acceptable_version: "acceptable v \<Longrightarrow> 0 < cm_version v"
  by (auto simp: acceptable_def cm_validate_def sanitized_def split: if_splits)

definition offer_all :: "cluster_metadata \<Rightarrow> cluster_metadata list \<Rightarrow> cluster_metadata" where
  "offer_all c vs = foldl (\<lambda>c v. snd (adopt c v)) c vs"

text \<open>A node's view is the newest it was offered, or the seed it booted with.\<close>

definition newest_of :: "cluster_metadata set \<Rightarrow> cluster_metadata \<Rightarrow> bool" where
  "newest_of S c =
     (if S = {} then cm_seeded c \<and> cm_version c \<le> 1
      else (\<exists>v\<in>S. topo c = topo v) \<and> (\<forall>v\<in>S. \<not> cm_supersedes v c))"

lemma newest_step:
  assumes "newest_of S c" "acceptable v" "\<not> cm_seeded v"
  shows "newest_of (insert v S) (snd (adopt c v))"
proof -
  let ?c = "snd (adopt c v)"
  note t = adopt_topo [OF assms(2), of c]
  have self: "\<not> cm_supersedes v v" using assms(3) by (simp add: cm_supersedes_def vi_supersedes_def cm_view_id_def stamp_irrefl)
  show ?thesis
  proof (cases "cm_supersedes v c")
    case True
    then have tv: "topo ?c = topo v" using t by simp
    have "\<not> cm_supersedes w ?c" if "w \<in> insert v S" for w
    proof
      assume "cm_supersedes w ?c"
      then have w: "cm_supersedes w v" using supersedes_topo [OF refl tv, of w] by simp
      then have "w \<in> S" using that self by auto
      moreover have "cm_supersedes w c" using supersedes_trans [OF w True] .
      ultimately show False using assms(1) by (auto simp: newest_of_def split: if_splits)
    qed
    then show ?thesis using tv by (auto simp: newest_of_def)
  next
    case False
    then have tc: "topo ?c = topo c" using t by simp
    have "S \<noteq> {}"
    proof
      assume "S = {}"
      then have "cm_supersedes v c" using assms acceptable_version [OF assms(2)]
        by (simp add: newest_of_def cm_supersedes_def vi_supersedes_def cm_view_id_def)
      with False show False by simp
    qed
    then show ?thesis using assms(1) tc False supersedes_topo [OF refl tc] by (auto simp: newest_of_def)
  qed
qed

lemma offer_all_newest:
  assumes "newest_of S c" "\<forall>v\<in>set vs. acceptable v \<and> \<not> cm_seeded v"
  shows "newest_of (set vs \<union> S) (offer_all c vs)"
  using assms
proof (induction vs arbitrary: S c)
  case (Cons v vs)
  then have "newest_of (insert v S) (snd (adopt c v))" using newest_step by simp
  from Cons.IH [OF this] Cons.prems(2) show ?case by (simp add: offer_all_def Un_insert_right)
qed (simp add: offer_all_def)

text \<open>
  C29. The cluster view converges: two freshly seeded nodes that are offered the same published views --
  in any order, any number of times each -- end on the same topology, and it is one of those
  published. Needs only that no two different topologies carry the same version and author.
\<close>

theorem views_converge:
  assumes "cm_seeded c" "cm_version c = 1" "cm_seeded d" "cm_version d = 1"
    and "set vs = set ws" "vs \<noteq> []" "\<forall>v\<in>set vs. acceptable v \<and> \<not> cm_seeded v"
    and "\<forall>v\<in>set vs. \<forall>w\<in>set vs. cm_version v = cm_version w \<and> cm_updated_by v = cm_updated_by w \<longrightarrow> topo v = topo w"
  shows "topo (offer_all c vs) = topo (offer_all d ws) \<and> topo (offer_all c vs) \<in> topo ` set vs"
proof -
  have "newest_of (set vs) (offer_all c vs)" "newest_of (set vs) (offer_all d ws)"
    using offer_all_newest [of "{}" c vs] offer_all_newest [of "{}" d ws] assms(1-5,7) by (simp_all add: newest_of_def)
  then obtain v w where vw: "v \<in> set vs" "topo (offer_all c vs) = topo v" "w \<in> set vs" "topo (offer_all d ws) = topo w"
    "\<not> cm_supersedes w (offer_all c vs)" "\<not> cm_supersedes v (offer_all d ws)"
    using assms(6) by (auto simp: newest_of_def)
  have "\<not> cm_supersedes w v" "\<not> cm_supersedes v w"
    using vw supersedes_topo [of w w "offer_all c vs" v] supersedes_topo [of v v "offer_all d ws" w] by auto
  then have "cm_version v = cm_version w \<and> cm_updated_by v = cm_updated_by w"
    using assms(7) vw(1,3) stamp_total by (auto simp: cm_supersedes_def vi_supersedes_def cm_view_id_def)
  then have "topo v = topo w" using assms(8) vw(1,3) by blast
  then show ?thesis using vw by auto
qed

section \<open>Catalogues converge\<close>

definition newer :: "string \<Rightarrow> collection_indexes option \<Rightarrow> collection_indexes option \<Rightarrow> collection_indexes option" where
  "newer k held offered =
     (case offered of
        Some e \<Rightarrow> if unaddressable_entry k e \<noteq> None then held
                  else (case held of Some cur \<Rightarrow> if ci_supersedes e cur then Some e else Some cur | None \<Rightarrow> Some e)
      | None \<Rightarrow> held)"

lemma merge_entry_get:
  assumes "bm_sorted str_cmp into"
  shows "bm_sorted str_cmp (fst (merge_entry (into, b) (k, e))) \<and>
    bm_get str_cmp (fst (merge_entry (into, b) (k, e))) k' =
      (if k' = k then newer k (bm_get str_cmp into k) (Some e) else bm_get str_cmp into k')"
  using assms str_cmp.bm_sorted_insert [OF assms] str_cmp.bm_get_insert
  by (auto simp: merge_entry_def newer_def str_cmp.cmp_Equal_iff str_cmp.bm_get_insert_same split: option.splits)

lemma foldl_merge_get:
  assumes "bm_sorted str_cmp into" "distinct (map fst frm)"
  shows "bm_sorted str_cmp (fst (foldl merge_entry (into, b) frm)) \<and>
    bm_get str_cmp (fst (foldl merge_entry (into, b) frm)) k = newer k (bm_get str_cmp into k) (map_of frm k)"
  using assms
proof (induction frm arbitrary: into b)
  case (Cons ke frm)
  obtain k0 e where ke: "ke = (k0, e)" by fastforce
  obtain into' b' where m: "merge_entry (into, b) (k0, e) = (into', b')" by fastforce
  note step = merge_entry_get [OF Cons.prems(1), of b k0 e k, unfolded m]
  have "k0 \<notin> fst ` set frm" "distinct (map fst frm)" using Cons.prems(2) ke by auto
  then have "map_of frm k0 = None" by (simp add: map_of_eq_None_iff)
  with Cons.IH [of into' b'] step \<open>distinct (map fst frm)\<close> show ?case
    by (auto simp: ke m newer_def split: option.splits)
qed (simp add: newer_def)

lemma sorted_distinct_keys: "bm_sorted str_cmp m \<Longrightarrow> distinct (map fst m)"
  by (induction m) (auto simp: str_cmp.cmp_refl dest!: bspec)

lemma map_of_bm_get: "bm_sorted str_cmp m \<Longrightarrow> map_of m k = bm_get str_cmp m k"
  by (induction m) (auto simp: str_cmp.cmp_Equal_iff)

lemma merge_get:
  assumes "bm_sorted str_cmp a" "bm_sorted str_cmp b"
  shows "bm_get str_cmp (fst (merge_catalog a b)) k = newer k (bm_get str_cmp a k) (bm_get str_cmp b k)"
  using foldl_merge_get [OF assms(1) sorted_distinct_keys [OF assms(2)], of False k]
  unfolding merge_catalog_def map_of_bm_get [OF assms(2)] by blast


section \<open>Examples\<close>

definition demo_view :: "nat \<Rightarrow> string \<Rightarrow> bool \<Rightarrow> cluster_metadata" where
  "demo_view n by seeded =
     \<lparr>cm_version = n, cm_updated_by = by, cm_seeded = seeded, cm_members = [], cm_shards = [], cm_ring = None,
      cm_migration = None, cm_index_catalog = []\<rparr>"

definition demo_entry :: "nat \<Rightarrow> string \<Rightarrow> nat option \<Rightarrow> collection_indexes" where
  "demo_entry n by ttl = \<lparr>ci_version = n, ci_updated_by = by, ci_indexes = [], ci_ttl_secs = ttl\<rparr>"

theorem views_converge_witness:
  "topo (offer_all (demo_view 1 ''a'' True) [demo_view 2 ''a'' False, demo_view 2 ''b'' False]) =
   topo (offer_all (demo_view 1 ''b'' True) [demo_view 2 ''b'' False, demo_view 2 ''a'' False, demo_view 2 ''b'' False])"
proof -
  have ok: "acceptable (demo_view 2 w False) \<and> \<not> cm_seeded (demo_view 2 w False)" for w
    by (simp add: acceptable_def sanitized_def sanitize_catalog_def demo_view_def cm_validate_def validate_catalog_def)
  show ?thesis
    using views_converge [of "demo_view 1 ''a'' True" "demo_view 1 ''b'' True"
        "[demo_view 2 ''a'' False, demo_view 2 ''b'' False]"
        "[demo_view 2 ''b'' False, demo_view 2 ''a'' False, demo_view 2 ''b'' False]"] ok
    by (simp add: demo_view_def insert_commute)
qed


end
