(* ===== verification/Ownership.thy ===== *)
theory Ownership
  imports Metadata
begin

text \<open>
  Which node may hold a key, and what a node does with the cluster view: \<^verbatim>\<open>src/src/cluster/ownership.rs\<close> and
  the topology half of \<^verbatim>\<open>AppState\<close> in \<^verbatim>\<open>src/src/state.rs\<close> -- the ring cache, the quorum a view implies, the
  replication targets, adoption of a view, failover overrides and write admission. Each operation is
  the effect of its critical sections run without interruption; the clock, the hash and the JSON
  encoding are parameters, and a directory is a map from file names to contents.
\<close>

section \<open>Ownership\<close>

datatype ownership = Ours | Elsewhere string | Moving string

definition entry_for :: "ring_shard list \<Rightarrow> string \<Rightarrow> ring_shard option" where
  "entry_for shards node_url =
     find (\<lambda>s. same_endpoint (rg_node_url s) node_url \<or> list_ex (\<lambda>r. same_endpoint r node_url) (rg_replica_urls s)) shards"

definition group_owner :: "built_ring \<Rightarrow> string \<Rightarrow> string option" where
  "group_owner built own = map_option rg_node_url (entry_for (br_shards built) own)"

definition group_owns :: "hasher \<Rightarrow> built_ring \<Rightarrow> string \<Rightarrow> string \<Rightarrow> string \<Rightarrow> bool" where
  "group_owns hash built grp collection key =
     (case ring_owner built (hash_key hash collection key) of
        Some owner \<Rightarrow> same_endpoint (rg_node_url owner) grp
      | None \<Rightarrow> False)"

definition finalizing :: "cluster_metadata \<Rightarrow> bool" where
  "finalizing view = (case cm_migration view of Some m \<Rightarrow> mg_phase m = Finalizing | None \<Rightarrow> False)"

definition classify ::
  "hasher \<Rightarrow> cluster_metadata \<Rightarrow> built_ring \<Rightarrow> built_ring option \<Rightarrow> string \<Rightarrow> string \<Rightarrow> string \<Rightarrow> ownership option" where
  "classify hash view built built_target own collection key =
     (let h = hash_key hash collection key
      in case map_option rg_node_url (ring_owner built h) of
           None \<Rightarrow> None
         | Some owner \<Rightarrow>
             (case entry_for (br_shards built) own of
                None \<Rightarrow> Some (Elsewhere owner)
              | Some mine \<Rightarrow>
                  if \<not> same_endpoint owner (rg_node_url mine) then Some (Elsewhere owner)
                  else if finalizing view
                  then (case Option.bind built_target (\<lambda>t. ring_owner t h) of
                          Some next \<Rightarrow>
                            if \<not> same_endpoint (rg_node_url next) (rg_node_url mine) then Some (Moving (rg_node_url next))
                            else Some Ours
                        | None \<Rightarrow> Some Ours)
                  else Some Ours))"

section \<open>The node\<close>

record ring_cache =
  rc_version :: nat
  rc_ring :: "built_ring option"
  rc_target :: "built_ring option"

definition RingCache_default :: ring_cache where
  "RingCache_default = \<lparr>rc_version = 0, rc_ring = None, rc_target = None\<rparr>"

record primary_override =
  po_url :: string
  po_cached_at :: nat

record app_state =
  as_config :: full_config
  as_replication :: "replication_state option"
  as_cluster :: cluster_metadata
  as_ring_cache :: ring_cache
  as_overrides :: "string \<rightharpoonup> primary_override"
  as_reservations :: "string \<rightharpoonup> nat"
  as_dir :: dir

definition as_own_url :: "app_state \<Rightarrow> string" where
  "as_own_url s = own_url (node_config.truncate (as_config s))"

text \<open>The two critical sections of \<^verbatim>\<open>rings_for\<close>: the lookup, and the store after building outside the lock.\<close>

definition rings_built :: "hasher \<Rightarrow> cluster_metadata \<Rightarrow> built_ring option \<times> built_ring option" where
  "rings_built hash view =
     (map_option (ring_build hash) (cm_ring view), map_option (\<lambda>m. ring_build hash (mg_target m)) (cm_migration view))"

definition rings_lookup :: "cluster_metadata \<Rightarrow> ring_cache \<Rightarrow> (built_ring option \<times> built_ring option) option" where
  "rings_lookup view cache = (if rc_version cache = cm_version view then Some (rc_ring cache, rc_target cache) else None)"

definition rings_store :: "cluster_metadata \<Rightarrow> built_ring option \<times> built_ring option \<Rightarrow> ring_cache \<Rightarrow> ring_cache" where
  "rings_store view built cache =
     (if rc_version cache \<le> cm_version view
      then \<lparr>rc_version = cm_version view, rc_ring = fst built, rc_target = snd built\<rparr>
      else cache)"

definition rings_for ::
  "hasher \<Rightarrow> cluster_metadata \<Rightarrow> ring_cache \<Rightarrow> (built_ring option \<times> built_ring option) \<times> ring_cache" where
  "rings_for hash view cache =
     (case rings_lookup view cache of
        Some rings \<Rightarrow> (rings, cache)
      | None \<Rightarrow> (rings_built hash view, rings_store view (rings_built hash view) cache))"

definition with_rings :: "hasher \<Rightarrow> app_state \<Rightarrow> (built_ring option \<times> built_ring option) \<times> app_state" where
  "with_rings hash s =
     (case rings_for hash (as_cluster s) (as_ring_cache s) of (rings, cache) \<Rightarrow> (rings, s\<lparr>as_ring_cache := cache\<rparr>))"

definition as_ownership :: "hasher \<Rightarrow> string \<Rightarrow> string \<Rightarrow> app_state \<Rightarrow> ownership option \<times> app_state" where
  "as_ownership hash collection key s =
     (case with_rings hash s of
        ((None, _), s') \<Rightarrow> (None, s')
      | ((Some ring, target), s') \<Rightarrow> (classify hash (as_cluster s) ring target (as_own_url s) collection key, s'))"

record scan_ownership =
  so_ring :: "built_ring option"
  so_group :: "string option"
  so_collection :: string
  so_fingerprint :: "64 word"

definition so_includes :: "hasher \<Rightarrow> scan_ownership \<Rightarrow> string \<Rightarrow> bool" where
  "so_includes hash so key =
     (case so_ring so of
        None \<Rightarrow> True
      | Some ring \<Rightarrow> (case so_group so of Some grp \<Rightarrow> group_owns hash ring grp (so_collection so) key | None \<Rightarrow> False))"

definition as_scan_ownership :: "hasher \<Rightarrow> string \<Rightarrow> app_state \<Rightarrow> scan_ownership \<times> app_state" where
  "as_scan_ownership hash collection s =
     (case with_rings hash s of
        ((ring, _), s') \<Rightarrow>
          (\<lparr>so_ring = ring, so_group = Option.bind ring (\<lambda>r. group_owner r (as_own_url s)), so_collection = collection,
            so_fingerprint = partition_fingerprint hash (as_cluster s)\<rparr>, s'))"

section \<open>The quorum and the targets a view implies\<close>

definition push_voter :: "string \<Rightarrow> string list \<Rightarrow> string list" where
  "push_voter candidate out = (if list_ex (\<lambda>u. same_endpoint u candidate) out then out else out @ [candidate])"

definition view_voting_set :: "app_state \<Rightarrow> string list" where
  "view_voting_set s =
     (let own = as_own_url s;
          view = as_cluster s;
          voters = (case (shard_group view own, groups_known view) of
                      (Some grp, _) \<Rightarrow> filter (\<lambda>v. list_ex (\<lambda>g. same_endpoint g v) grp) (voting_shards view)
                    | (None, False) \<Rightarrow> voting_shards view
                    | (None, True) \<Rightarrow> [])
      in if \<not> cm_seeded view \<and> list_ex (\<lambda>v. same_endpoint v own) voters then voters
         else fold push_voter (nc_replicas (as_config s) @ nc_peers (as_config s)) [own])"

definition as_quorum_config :: "app_state \<Rightarrow> configuration" where
  "as_quorum_config s =
     (case as_replication s of
        Some g \<Rightarrow> quorum_config (view_voting_set s) g
      | None \<Rightarrow> cfg_simple (view_voting_set s))"

definition voting_set :: "app_state \<Rightarrow> string list" where
  "voting_set s = cfg_members (as_quorum_config s)"

definition voting_peers :: "app_state \<Rightarrow> string list" where
  "voting_peers s = filter (\<lambda>v. \<not> same_endpoint v (as_own_url s)) (voting_set s)"

definition voting_replicas :: "app_state \<Rightarrow> string list" where
  "voting_replicas s = (case as_replication s of Some g \<Rightarrow> rs_replicas g | None \<Rightarrow> [])"

definition learner_replicas :: "app_state \<Rightarrow> string list" where
  "learner_replicas s =
     filter (\<lambda>url. \<not> same_endpoint url (as_own_url s) \<and> \<not> list_ex (\<lambda>v. same_endpoint v url) (voting_replicas s))
       (learners_following (as_cluster s) (as_own_url s))"

definition replication_targets :: "app_state \<Rightarrow> string list" where
  "replication_targets s = voting_replicas s @ learner_replicas s"

definition is_voting_replica :: "string \<Rightarrow> app_state \<Rightarrow> bool" where
  "is_voting_replica url s = list_ex (\<lambda>v. same_endpoint v url) (voting_replicas s)"

definition as_is_learner :: "app_state \<Rightarrow> bool" where
  "as_is_learner s = (nc_is_learner (node_config.truncate (as_config s)) \<or> cm_is_learner (as_cluster s) (as_own_url s))"

definition as_in_quorum :: "app_state \<Rightarrow> bool" where
  "as_in_quorum s =
     (case as_replication s of
        Some g \<Rightarrow> in_quorum (as_is_learner s) (as_own_url s) g
      | None \<Rightarrow> \<not> as_is_learner s)"

section \<open>Adopting a view\<close>

definition followed_primary :: "app_state \<Rightarrow> string option" where
  "followed_primary s =
     (case cm_member (as_cluster s) (as_own_url s) of
        Some m \<Rightarrow>
          if \<not> mb_voting m \<and> mb_role m = ''shard''
          then (case mb_follows m of Some f \<Rightarrow> if same_endpoint f (as_own_url s) then None else Some f | None \<Rightarrow> None)
          else None
      | None \<Rightarrow> None)"

definition follow_from_view :: "nat \<Rightarrow> app_state \<Rightarrow> app_state" where
  "follow_from_view now s =
     (case (followed_primary s, as_replication s) of
        (Some f, Some g) \<Rightarrow>
          if rs_is_leader g \<or> rs_primary_addr g = Some f then s
          else s\<lparr>as_replication := Some (g\<lparr>rs_primary_addr := Some f, rs_last_heartbeat := Some now\<rparr>)\<rparr>
      | _ \<Rightarrow> s)"

type_synonym view_codec = "(cluster_metadata \<Rightarrow> string) \<times> (string \<Rightarrow> cluster_metadata option)"

definition save_view :: "view_codec \<Rightarrow> (string \<Rightarrow> bool) \<Rightarrow> io_script \<Rightarrow> cluster_metadata \<Rightarrow> app_state \<Rightarrow> app_state" where
  "save_view codec unreadable io view s = s\<lparr>as_dir := snd (cm_save (fst codec) (snd codec) unreadable io view (as_dir s))\<rparr>"

definition persist_cluster_view :: "view_codec \<Rightarrow> (string \<Rightarrow> bool) \<Rightarrow> io_script \<Rightarrow> app_state \<Rightarrow> app_state" where
  "persist_cluster_view codec unreadable io s = save_view codec unreadable io (as_cluster s) s"

definition adopt_cluster ::
  "view_codec \<Rightarrow> (string \<Rightarrow> bool) \<Rightarrow> io_script \<Rightarrow> io_script \<Rightarrow> nat \<Rightarrow> cluster_metadata \<Rightarrow> app_state \<Rightarrow> adoption \<times> app_state" where
  "adopt_cluster codec unreadable io io' now offered s =
     (let incoming = offered\<lparr>cm_index_catalog := fst (sanitize_catalog (cm_index_catalog offered))\<rparr>;
          current = as_cluster s
      in case cm_validate incoming of
           Err why \<Rightarrow> (Rejected why, s)
         | Ok _ \<Rightarrow>
             if \<not> cm_supersedes incoming current \<and> \<not> catalog_adds_to (cm_index_catalog current) (cm_index_catalog incoming)
             then (Stale (cm_version current), s)
             else (let s1 = (if cm_supersedes incoming current then save_view codec unreadable io incoming s else s)
                   in case adopt current incoming of
                        (outcome, view) \<Rightarrow>
                          (let s2 = s1\<lparr>as_cluster := view\<rparr>;
                               s3 = (if cm_index_catalog view \<noteq> cm_index_catalog current
                                     then persist_cluster_view codec unreadable io' s2 else s2)
                           in (outcome, case outcome of Adopted _ _ \<Rightarrow> follow_from_view now s3 | _ \<Rightarrow> s3))))"

definition moved_view ::
  "view_codec \<Rightarrow> (string \<Rightarrow> bool) \<Rightarrow> io_script \<Rightarrow> bool \<times> cluster_metadata \<Rightarrow> app_state \<Rightarrow> bool \<times> app_state" where
  "moved_view codec unreadable io change s =
     (case change of
        (moved, view) \<Rightarrow>
          (moved, if moved then persist_cluster_view codec unreadable io (s\<lparr>as_cluster := view\<rparr>) else s\<lparr>as_cluster := view\<rparr>))"

definition record_index_catalog ::
  "view_codec \<Rightarrow> (string \<Rightarrow> bool) \<Rightarrow> io_script \<Rightarrow> string \<Rightarrow> index_change \<Rightarrow> app_state \<Rightarrow> bool \<times> app_state" where
  "record_index_catalog codec unreadable io collection change s =
     moved_view codec unreadable io (record_index_change (nc_node_id (as_config s)) collection change (as_cluster s)) s"

definition record_ttl_catalog ::
  "view_codec \<Rightarrow> (string \<Rightarrow> bool) \<Rightarrow> io_script \<Rightarrow> string \<Rightarrow> nat option \<Rightarrow> app_state \<Rightarrow> bool \<times> app_state" where
  "record_ttl_catalog codec unreadable io collection ttl_secs s =
     moved_view codec unreadable io (record_ttl_change (nc_node_id (as_config s)) collection ttl_secs (as_cluster s)) s"

definition as_forget_collection_indexes ::
  "view_codec \<Rightarrow> (string \<Rightarrow> bool) \<Rightarrow> io_script \<Rightarrow> string \<Rightarrow> app_state \<Rightarrow> bool \<times> app_state" where
  "as_forget_collection_indexes codec unreadable io collection s =
     moved_view codec unreadable io (forget_collection_indexes (nc_node_id (as_config s)) collection (as_cluster s)) s"

definition merge_index_catalog ::
  "view_codec \<Rightarrow> (string \<Rightarrow> bool) \<Rightarrow> io_script \<Rightarrow> index_catalog \<Rightarrow> app_state \<Rightarrow> bool \<times> app_state" where
  "merge_index_catalog codec unreadable io incoming s =
     (case merge_catalog (cm_index_catalog (as_cluster s)) incoming of
        (catalog, moved) \<Rightarrow>
          moved_view codec unreadable io (moved, (as_cluster s)\<lparr>cm_index_catalog := catalog\<rparr>) s)"

text \<open>\<^verbatim>\<open>load_cluster_view\<close> of \<^verbatim>\<open>src/src/main.rs\<close>; None is the failed \<^verbatim>\<open>expect\<close>.\<close>

definition load_cluster_view ::
  "view_codec \<Rightarrow> (string \<Rightarrow> bool) \<Rightarrow> io_script \<Rightarrow> full_config \<Rightarrow> dir \<Rightarrow> (cluster_metadata \<times> dir) option" where
  "load_cluster_view codec unreadable io cfg fs =
     (case cm_load (snd codec) unreadable fs of
        Err _ \<Rightarrow> None
      | Ok (Some view) \<Rightarrow> Some (view, fs)
      | Ok None \<Rightarrow>
          (let seeded = seed_from_config cfg
           in Some (seeded, snd (cm_save (fst codec) (snd codec) unreadable io seeded fs))))"

section \<open>Routing and failover overrides\<close>

definition OVERRIDE_TTL_SECS :: nat where "OVERRIDE_TTL_SECS = 30"

definition override_fresh :: "nat \<Rightarrow> primary_override \<Rightarrow> bool" where
  "override_fresh now ov = ((now - po_cached_at ov) div secs 1 < OVERRIDE_TTL_SECS)"

definition with_override ::
  "nat \<Rightarrow> string \<Rightarrow> string list \<Rightarrow> app_state \<Rightarrow> (string \<times> string \<times> string list) \<times> app_state" where
  "with_override now owner replicas s =
     (case as_overrides s owner of
        Some ov \<Rightarrow>
          if override_fresh now ov then ((po_url ov, owner, replicas), s)
          else ((owner, owner, replicas), s\<lparr>as_overrides := (as_overrides s)(owner := None)\<rparr>)
      | None \<Rightarrow> ((owner, owner, replicas), s))"

definition get_effective_shard_url ::
  "hasher \<Rightarrow> nat \<Rightarrow> 64 word \<Rightarrow> app_state \<Rightarrow> (string \<times> string \<times> string list) option \<times> app_state" where
  "get_effective_shard_url hash now h s =
     (case with_rings hash s of
        ((Some ring, _), s') \<Rightarrow>
          (case ring_owner ring h of
             None \<Rightarrow> (None, s')
           | Some owner \<Rightarrow> apfst Some (with_override now (rg_node_url owner) (rg_replica_urls owner) s'))
      | ((None, _), s') \<Rightarrow>
          (case find (\<lambda>shard. shard_owns shard h) (cm_shards (as_cluster s')) of
             None \<Rightarrow> (None, s')
           | Some shard \<Rightarrow> apfst Some (with_override now (si_node_url shard) (si_replica_urls shard) s')))"

definition set_primary_override :: "nat \<Rightarrow> string \<Rightarrow> string \<Rightarrow> app_state \<Rightarrow> app_state" where
  "set_primary_override now original new s =
     s\<lparr>as_overrides := (as_overrides s)(original \<mapsto> \<lparr>po_url = new, po_cached_at = now\<rparr>)\<rparr>"

definition clear_primary_override :: "string \<Rightarrow> app_state \<Rightarrow> app_state" where
  "clear_primary_override original s = s\<lparr>as_overrides := (as_overrides s)(original := None)\<rparr>"

definition cached_primary :: "nat \<Rightarrow> string \<Rightarrow> app_state \<Rightarrow> string option \<times> app_state" where
  "cached_primary now original s =
     (case as_overrides s original of
        Some ov \<Rightarrow> if override_fresh now ov then (Some (po_url ov), s) else (None, clear_primary_override original s)
      | None \<Rightarrow> (None, s))"

definition effective_primary :: "nat \<Rightarrow> string \<Rightarrow> app_state \<Rightarrow> string \<times> app_state" where
  "effective_primary now original s =
     (case as_overrides s original of
        Some ov \<Rightarrow> if override_fresh now ov then (po_url ov, s) else (original, clear_primary_override original s)
      | None \<Rightarrow> (original, s))"

section \<open>Write admission\<close>

datatype refusal = Backlog nat | TooWide nat

record frame_reservation =
  fr_collection :: string
  fr_frames :: nat

definition saturating_add :: "nat \<Rightarrow> nat \<Rightarrow> nat" where
  "saturating_add a b = min usize_max (a + b)"

definition held_frames :: "string \<Rightarrow> app_state \<Rightarrow> nat" where
  "held_frames collection s = (case as_reservations s collection of Some n \<Rightarrow> n | None \<Rightarrow> 0)"

definition admit_write ::
  "nat \<Rightarrow> nat \<Rightarrow> string \<Rightarrow> nat \<Rightarrow> app_state \<Rightarrow> (refusal, frame_reservation option) result \<times> app_state" where
  "admit_write bound pending collection frames s =
     (if bound = 0 \<or> as_replication s = None then (Ok None, s)
      else if frames > bound then (Err (TooWide frames), s)
      else (let in_flight = saturating_add pending (held_frames collection s)
            in if saturating_add in_flight frames > bound then (Err (Backlog in_flight), s)
               else (Ok (Some \<lparr>fr_collection = collection, fr_frames = frames\<rparr>),
                     s\<lparr>as_reservations := (as_reservations s)(collection \<mapsto> held_frames collection s + frames)\<rparr>)))"

definition drop_reservation :: "frame_reservation \<Rightarrow> app_state \<Rightarrow> app_state" where
  "drop_reservation r s =
     (case as_reservations s (fr_collection r) of
        Some held \<Rightarrow>
          s\<lparr>as_reservations := (as_reservations s)(fr_collection r :=
              (if held - fr_frames r = 0 then None else Some (held - fr_frames r)))\<rparr>
      | None \<Rightarrow> s)"

end
