(* ===== verification/Ownership_Safety.thy ===== *)
theory Ownership_Safety
  imports Ownership
begin

text \<open>
  What the ownership rules guarantee: one group answers for a key, a handover never leaves two groups
  accepting writes for it, the quorum changes only where a plan says so, and what a node adopts is
  what it finds on disk after a restart.
\<close>

section \<open>One group per key\<close>

lemma distinct_concat_unique:
  "distinct (concat (map f xs)) \<Longrightarrow> x \<in> set xs \<Longrightarrow> y \<in> set xs \<Longrightarrow> a \<in> set (f x) \<Longrightarrow> a \<in> set (f y) \<Longrightarrow> x = y"
proof (induction xs)
  case (Cons z xs)
  have apart: "b \<notin> set (f w)" if "b \<in> set (f z)" "w \<in> set xs" for b w
    using Cons.prems(1) that by (auto simp: disjoint_iff)
  from Cons show ?case using apart by (auto simp del: distinct_concat_iff)
qed simp

lemma entry_for_nodes: "entry_for shards own = find (\<lambda>s. node_key own \<in> set (group_nodes s)) shards"
proof -
  have "(same_endpoint (rg_node_url s) own \<or> list_ex (\<lambda>r. same_endpoint r own) (rg_replica_urls s)) =
        (node_key own \<in> set (group_nodes s))" for s
    by (simp add: same_endpoint_node_key group_nodes_def list_ex_iff image_iff) metis
  then show ?thesis unfolding entry_for_def by simp
qed

lemma entry_for_member:
  assumes "ring_validate r = Ok ()" "e \<in> set (rg_shards r)" "node_key own \<in> set (group_nodes e)"
  shows "entry_for (rg_shards r) own = Some e"
proof -
  obtain e' where e': "entry_for (rg_shards r) own = Some e'"
    using assms(2,3) by (cases "entry_for (rg_shards r) own") (auto simp: entry_for_nodes find_None_iff)
  then have "e' \<in> set (rg_shards r)" "node_key own \<in> set (group_nodes e')"
    by (auto simp: entry_for_nodes find_Some_iff)
  then have "e' = e" using distinct_concat_unique [OF valid_ring_nodes [OF assms(1)]] assms(2,3) by blast
  with e' show ?thesis by simp
qed

lemma entry_for_SomeD:
  "entry_for shards own = Some e \<Longrightarrow> e \<in> set shards \<and> node_key own \<in> set (group_nodes e)"
  by (auto simp: entry_for_nodes find_Some_iff)

lemma primary_in_group: "node_key (rg_node_url e) \<in> set (group_nodes e)"
  by (simp add: group_nodes_def)

lemma same_primary:
  assumes "ring_validate r = Ok ()" "e \<in> set (rg_shards r)" "e' \<in> set (rg_shards r)"
  shows "same_endpoint (rg_node_url e) (rg_node_url e') \<longleftrightarrow> e = e'"
  using distinct_concat_unique [OF valid_ring_nodes [OF assms(1)] assms(2,3)] primary_in_group
  by (metis same_endpoint_node_key)

lemma owner_exists:
  assumes "ring_validate r = Ok ()"
  obtains e where "ring_owner (ring_build hash r) h = Some e" "e \<in> set (rg_shards r)"
  using owner_nearest [of r hash h] assms
  by (auto simp: ring_validate_def places_def split: if_splits)

lemma br_shards_build [simp]: "br_shards (ring_build hash r) = rg_shards r"
  by (simp add: ring_build_def)

lemma classify_owner:
  assumes "ring_validate r = Ok ()" "ring_owner (ring_build hash r) (hash_key hash c k) = Some e" "e \<in> set (rg_shards r)"
  shows "classify hash v (ring_build hash r) t own c k =
    (if node_key own \<notin> set (group_nodes e) then Some (Elsewhere (rg_node_url e))
     else if finalizing v
     then (case Option.bind t (\<lambda>t. ring_owner t (hash_key hash c k)) of
             Some next \<Rightarrow> if \<not> same_endpoint (rg_node_url next) (rg_node_url e) then Some (Moving (rg_node_url next)) else Some Ours
           | None \<Rightarrow> Some Ours)
     else Some Ours)"
proof (cases "node_key own \<in> set (group_nodes e)")
  case True
  then show ?thesis using entry_for_member [OF assms(1,3) True] assms(2) by (simp add: classify_def)
next
  case False
  show ?thesis
  proof (cases "entry_for (rg_shards r) own")
    case (Some mine)
    with False have "mine \<noteq> e" "mine \<in> set (rg_shards r)" using entry_for_SomeD by auto
    then have "\<not> same_endpoint (rg_node_url e) (rg_node_url mine)" using same_primary [OF assms(1,3)] by blast
    with Some False assms(2) show ?thesis by (simp add: classify_def)
  qed (use False assms(2) in \<open>simp add: classify_def\<close>)
qed

definition answers :: "ownership option \<Rightarrow> bool" where
  "answers v = (case v of Some (Elsewhere _) \<Rightarrow> False | _ \<Rightarrow> True)"

definition scan_of :: "hasher \<Rightarrow> hash_ring \<Rightarrow> string \<Rightarrow> string \<Rightarrow> scan_ownership" where
  "scan_of hash r own c =
     \<lparr>so_ring = Some (ring_build hash r), so_group = group_owner (ring_build hash r) own, so_collection = c, so_fingerprint = 0\<rparr>"

lemma so_includes_owner:
  assumes "ring_validate r = Ok ()" "ring_owner (ring_build hash r) (hash_key hash c k) = Some e" "e \<in> set (rg_shards r)"
  shows "so_includes hash (scan_of hash r own c) k \<longleftrightarrow> node_key own \<in> set (group_nodes e)"
proof (cases "entry_for (rg_shards r) own")
  case None
  then have "node_key own \<notin> set (group_nodes e)" using assms(3) by (auto simp: entry_for_nodes find_None_iff)
  with None show ?thesis by (simp add: so_includes_def scan_of_def group_owner_def)
next
  case (Some mine)
  note m = entry_for_SomeD [OF Some]
  have "node_key own \<in> set (group_nodes e) \<longleftrightarrow> mine = e"
    using m entry_for_member [OF assms(1,3)] Some by auto
  then show ?thesis using Some assms(2) same_primary [OF assms(1,3), of mine] m
    by (auto simp: so_includes_def scan_of_def group_owner_def group_owns_def)
qed

text \<open>
  C14. Under a valid ring exactly one group answers for a key: every node of the owning entry, primary or
  replica, however its URL is spelled, answers it and includes it in its scans, and every other node
  redirects to that entry's primary and leaves it out of its scans.
\<close>

theorem one_group_per_key:
  assumes "ring_validate r = Ok ()"
  shows "\<exists>e\<in>set (rg_shards r). \<forall>own.
    (if node_key own \<in> set (group_nodes e)
     then answers (classify hash v (ring_build hash r) t own c k) \<and> so_includes hash (scan_of hash r own c) k
     else classify hash v (ring_build hash r) t own c k = Some (Elsewhere (rg_node_url e)) \<and>
          \<not> so_includes hash (scan_of hash r own c) k)"
proof -
  obtain e where e: "ring_owner (ring_build hash r) (hash_key hash c k) = Some e" "e \<in> set (rg_shards r)"
    using owner_exists [OF assms] .
  show ?thesis
    by (rule bexI [OF _ e(2)])
      (auto simp: classify_owner [OF assms e] so_includes_owner [OF assms e] answers_def split: option.splits)
qed

section \<open>Handover\<close>

lemma answering_node:
  assumes "ring_validate r = Ok ()" "answers (classify hash v (ring_build hash r) t own c k)"
  obtains e where "ring_owner (ring_build hash r) (hash_key hash c k) = Some e" "e \<in> set (rg_shards r)"
    "group_owner (ring_build hash r) own = Some (rg_node_url e)"
proof -
  obtain e where e: "ring_owner (ring_build hash r) (hash_key hash c k) = Some e" "e \<in> set (rg_shards r)"
    using owner_exists [OF assms(1)] .
  then have "node_key own \<in> set (group_nodes e)"
    using assms(2) by (auto simp: classify_owner [OF assms(1) e] answers_def split: if_splits)
  then have "group_owner (ring_build hash r) own = Some (rg_node_url e)"
    using entry_for_member [OF assms(1) e(2)] by (simp add: group_owner_def)
  with e that show thesis by blast
qed

text \<open>
  C15. A handover never gives a key two writers: once a migration is finalizing, a node that still accepts
  writes for a key (rather than holding them as moving) is in the group the target ring gives it to, so
  it and any node answering under the published target belong to the same group.
\<close>

theorem handover_single_writer:
  assumes "ring_validate r = Ok ()" "ring_validate target = Ok ()" "finalizing v"
    and "classify hash v (ring_build hash r) (Some (ring_build hash target)) own c k = Some Ours"
    and "answers (classify hash v' (ring_build hash target) t' own' c k)"
  shows "map_option node_key (group_owner (ring_build hash r) own) =
         map_option node_key (group_owner (ring_build hash target) own')"
proof -
  obtain e where e: "ring_owner (ring_build hash r) (hash_key hash c k) = Some e" "e \<in> set (rg_shards r)"
    "group_owner (ring_build hash r) own = Some (rg_node_url e)"
    by (rule answering_node [OF assms(1), of hash v "Some (ring_build hash target)" own c k])
      (use assms(4) in \<open>auto simp: answers_def\<close>)
  obtain e' where e': "ring_owner (ring_build hash target) (hash_key hash c k) = Some e'"
    "group_owner (ring_build hash target) own' = Some (rg_node_url e')"
    using answering_node [OF assms(2,5)] .
  have "same_endpoint (rg_node_url e') (rg_node_url e)"
    using assms(3,4) e'(1) by (auto simp: classify_owner [OF assms(1) e(1,2)] split: if_splits)
  then show ?thesis using e(3) e'(2) by (simp add: same_endpoint_node_key)
qed

section \<open>The ring cache\<close>

definition cache_fits :: "hasher \<Rightarrow> app_state \<Rightarrow> bool" where
  "cache_fits hash s =
     (rc_version (as_ring_cache s) \<le> cm_version (as_cluster s) \<and>
      (rc_version (as_ring_cache s) = cm_version (as_cluster s) \<longrightarrow>
       (rc_ring (as_ring_cache s), rc_target (as_ring_cache s)) = rings_built hash (as_cluster s)))"

lemma with_rings_fits:
  assumes "cache_fits hash s"
  shows "fst (with_rings hash s) = rings_built hash (as_cluster s) \<and> cache_fits hash (snd (with_rings hash s)) \<and>
    as_cluster (snd (with_rings hash s)) = as_cluster s"
  using assms by (auto simp: cache_fits_def with_rings_def rings_for_def rings_lookup_def rings_store_def)

text \<open>
  The cache is keyed by the version alone, and adoption can replace a view by another of the same
  version: the author's name breaks the tie. A node that had laid out the losing ring keeps serving
  from it -- here a node that adopted the view with shard b still answers for shard a's ring.
\<close>

definition tie_view :: "string \<Rightarrow> string \<Rightarrow> cluster_metadata" where
  "tie_view author url = (demo_view 2 author False)\<lparr>cm_ring := Some (demo_ring [url])\<rparr>"

lemma ring_cache_survives_equal_version_adoption:
  "cm_supersedes (tie_view ''n2'' ''b'') (tie_view ''n1'' ''a'') \<and>
   fst (rings_for hash (tie_view ''n2'' ''b'') (snd (rings_for hash (tie_view ''n1'' ''a'') RingCache_default))) =
     rings_built hash (tie_view ''n1'' ''a'') \<and>
   rings_built hash (tie_view ''n1'' ''a'') \<noteq> rings_built hash (tie_view ''n2'' ''b'')"
proof -
  have "str_cmp ''n2'' ''n1'' = Greater" by code_simp
  then have "cm_supersedes (tie_view ''n2'' ''b'') (tie_view ''n1'' ''a'')"
    by (simp add: tie_view_def demo_view_def cm_supersedes_def vi_supersedes_def cm_view_id_def stamp_gt_def)
  then show ?thesis
    by (simp add: tie_view_def demo_view_def rings_for_def rings_lookup_def rings_store_def RingCache_default_def
        rings_built_def ring_build_def demo_ring_def)
qed


section \<open>Membership plans\<close>

abbreviation member_keys :: "cluster_metadata \<Rightarrow> string list" where
  "member_keys v \<equiv> map (\<lambda>m. node_key (mb_url m)) (cm_members v)"

lemma check_members_distinct:
  "check_members seen mbs = Ok () \<Longrightarrow>
     distinct (map (\<lambda>m. node_key (mb_url m)) mbs) \<and> set seen \<inter> set (map (\<lambda>m. node_key (mb_url m)) mbs) = {}"
proof (induction mbs arbitrary: seen)
  case (Cons m mbs)
  then have ok: "check_members (node_key (mb_url m) # seen) mbs = Ok ()" "node_key (mb_url m) \<notin> set seen"
    by (auto split: if_splits)
  from Cons.IH [OF ok(1)] ok(2) show ?case by auto
qed simp

lemma valid_members_distinct: "cm_validate v = Ok () \<Longrightarrow> distinct (member_keys v)"
  using check_members_distinct [of "[]" "cm_members v"]
  by (auto simp: cm_validate_def split: if_splits option.splits sum.splits)

lemma cm_member_unique:
  assumes "distinct (member_keys v)" "m \<in> set (cm_members v)" "node_key (mb_url m) = node_key url"
  shows "cm_member v url = Some m"
proof -
  obtain m' where m': "cm_member v url = Some m'"
    using assms(2,3) by (cases "cm_member v url") (auto simp: cm_member_def find_None_iff same_endpoint_node_key)
  then have "m' \<in> set (cm_members v)" "node_key (mb_url m') = node_key url"
    by (auto simp: cm_member_def find_Some_iff same_endpoint_node_key)
  then have "m' = m" using assms by (metis distinct_map inj_on_eq_iff)
  with m' show ?thesis by simp
qed

lemma dropping_a_learner:
  assumes "cm_validate v = Ok ()" "\<forall>m. cm_member v url = Some m \<longrightarrow> \<not> mb_voting m"
  shows "filter (\<lambda>m. mb_voting m \<and> mb_role m = ''shard'') (filter (\<lambda>x. \<not> same_endpoint (mb_url x) url) (cm_members v)) =
         filter (\<lambda>m. mb_voting m \<and> mb_role m = ''shard'') (cm_members v)"
proof -
  have "\<not> mb_voting m" if "m \<in> set (cm_members v)" "same_endpoint (mb_url m) url" for m
    using cm_member_unique [OF valid_members_distinct [OF assms(1)] that(1)] that(2) assms(2)
    by (simp add: same_endpoint_node_key)
  then show ?thesis by (auto simp: filter_filter intro: filter_cong)
qed

lemma bump_supersedes: "cm_supersedes (bump w v') v" if "cm_version v' = cm_version v"
  using that by (simp add: cm_supersedes_def vi_supersedes_def cm_view_id_def bump_def stamp_gt_def)

lemma checked_Ok: "checked v = Ok v' \<longleftrightarrow> v' = v \<and> cm_validate v = Ok ()"
  by (auto simp: checked_def split: sum.splits)

lemma plan_join_Ok:
  assumes "plan_join cur w leader req = Ok next"
  shows "\<exists>m. next = with_member cur w m \<and> mb_url m = jr_url req \<and> \<not> mb_voting m"
    "cm_validate next = Ok ()" "\<forall>m. cm_member cur (jr_url req) = Some m \<longrightarrow> \<not> mb_voting m"
  using assms unfolding plan_join_def Let_def
  by (auto simp: checked_Ok split: if_splits)

lemma plan_leave_Ok:
  assumes "plan_leave cur w url = Ok next"
  shows "next = without_member cur w url" "cm_validate next = Ok ()" "\<forall>m. cm_member cur url = Some m \<longrightarrow> \<not> mb_voting m"
  using assms by (auto simp: plan_leave_def checked_Ok split: option.splits if_splits)

text \<open>
  C31. Joining and leaving never move the quorum: when either plan succeeds on a valid view, the next view
  is valid, supersedes the current one, and has exactly the voting shards the current one had, in order.
\<close>

theorem joining_and_leaving_keep_the_quorum:
  assumes "cm_validate cur = Ok ()" "plan_join cur w leader req = Ok next \<or> plan_leave cur w url = Ok next"
  shows "voting_shards next = voting_shards cur \<and> cm_supersedes next cur \<and> cm_validate next = Ok ()"
  using assms(2)
proof
  assume "plan_join cur w leader req = Ok next"
  note j = plan_join_Ok [OF this]
  then obtain m where m: "next = with_member cur w m" "mb_url m = jr_url req" "\<not> mb_voting m" by blast
  have "voting_shards next = voting_shards cur"
    using dropping_a_learner [OF assms(1) j(3)] m by (simp add: voting_shards_def with_member_def bump_def)
  then show ?thesis using m(1) j(2) by (simp add: with_member_def bump_supersedes)
next
  assume "plan_leave cur w url = Ok next"
  note l = plan_leave_Ok [OF this]
  have "voting_shards next = voting_shards cur"
    using dropping_a_learner [OF assms(1) l(3)] l(1) by (simp add: voting_shards_def without_member_def bump_def)
  then show ?thesis using l(1,2) by (simp add: without_member_def bump_supersedes)
qed

text \<open>Every shard of the list votes exactly when it is among the voters, and nothing else is among them.\<close>

definition settled :: "string list \<Rightarrow> member list \<Rightarrow> bool" where
  "settled voters mbs = (\<forall>m\<in>set mbs. (mb_role m = ''shard'' \<longrightarrow> mb_voting m = (node_key (mb_url m) \<in> nodes voters)) \<and>
     (mb_role m \<noteq> ''shard'' \<longrightarrow> node_key (mb_url m) \<notin> nodes voters))"

lemma admit_voter_settled:
  assumes "settled voters (cm_members v)" "u \<in> set voters"
  shows "settled voters (cm_members (admit_voter leader u v))"
  using assms by (auto simp: admit_voter_def settled_def nodes_def)

lemma cm_member_node: "cm_member v u = Some m \<Longrightarrow> m \<in> set (cm_members v) \<and> node_key u = node_key (mb_url m)"
  by (auto simp: cm_member_def find_Some_iff same_endpoint_node_key)

lemma settled_voters:
  assumes "settled voters (cm_members v)" "nodes voters \<subseteq> set (member_keys v)"
  shows "nodes (voting_shards v) = nodes voters"
proof (intro set_eqI iffI)
  fix k assume "k \<in> nodes voters"
  then obtain m where m: "m \<in> set (cm_members v)" "k = node_key (mb_url m)" using assms(2) by auto
  with \<open>k \<in> nodes voters\<close> assms(1) have "mb_voting m \<and> mb_role m = ''shard''" by (auto simp: settled_def)
  with m show "k \<in> nodes (voting_shards v)" by (auto simp: nodes_def voting_shards_def)
qed (use assms(1) in \<open>auto simp: nodes_def voting_shards_def settled_def\<close>)

lemma fold_admit:
  assumes "settled voters (cm_members v)" "set vs \<subseteq> set voters"
  shows "settled voters (cm_members (fold (admit_voter leader) vs v)) \<and>
    nodes vs \<subseteq> set (member_keys (fold (admit_voter leader) vs v)) \<and>
    set (member_keys v) \<subseteq> set (member_keys (fold (admit_voter leader) vs v)) \<and>
    cm_version (fold (admit_voter leader) vs v) = cm_version v"
  using assms
proof (induction vs arbitrary: v)
  case (Cons u vs)
  let ?v = "admit_voter leader u v"
  have here: "node_key u \<in> set (member_keys ?v)"
    using cm_member_node [of v u] by (cases "cm_member v u") (auto simp: admit_voter_def image_iff)
  have kept: "set (member_keys v) \<subseteq> set (member_keys ?v)" "cm_version ?v = cm_version v" by (auto simp: admit_voter_def)
  have ih: "settled voters (cm_members (fold (admit_voter leader) vs ?v))"
    "nodes vs \<subseteq> set (member_keys (fold (admit_voter leader) vs ?v))"
    "set (member_keys ?v) \<subseteq> set (member_keys (fold (admit_voter leader) vs ?v))"
    "cm_version (fold (admit_voter leader) vs ?v) = cm_version ?v"
    using Cons.IH [of ?v] Cons.prems admit_voter_settled [of voters v u leader] by simp_all
  have "nodes (u # vs) \<subseteq> set (member_keys (fold (admit_voter leader) vs ?v))"
    using here ih(2,3) unfolding nodes_def list.set by blast
  then show ?case using ih(1,4) kept(2) subset_trans [OF kept(1) ih(3)] by simp
qed (simp add: nodes_def)

lemma settle_member_keys [simp]: "mb_url (settle_member leader voters m) = mb_url m"
  by (simp add: settle_member_def Let_def)

text \<open>
  Recording a committed configuration makes the view's voters the configuration's: when the plan
  succeeds its voting shards are the same nodes as the voters it was given, every member it had is still
  a member, and it supersedes the view it was made from. No voter may be listed as a router.
\<close>

theorem plan_configuration_sets_the_voters:
  assumes "plan_configuration cur w leader voters = Ok next"
    and "\<forall>m\<in>set (cm_members cur). mb_role m \<noteq> ''shard'' \<longrightarrow> node_key (mb_url m) \<notin> nodes voters"
  shows "nodes (voting_shards next) = nodes voters \<and> set (member_keys cur) \<subseteq> set (member_keys next) \<and>
         cm_supersedes next cur \<and> cm_validate next = Ok ()"
proof -
  let ?mid = "cur\<lparr>cm_members := map (settle_member leader voters) (cm_members cur)\<rparr>"
  let ?fin = "fold (admit_voter leader) voters ?mid"
  have nx: "next = bump w ?fin" "cm_validate next = Ok ()"
    using assms(1) by (auto simp: plan_configuration_def checked_Ok)
  have "settled voters (cm_members ?mid)"
    using assms(2) by (auto simp: settled_def settle_member_def Let_def)
  note f = fold_admit [OF this subset_refl, of leader]
  have "nodes (voting_shards ?fin) = nodes voters" using settled_voters f by blast
  then have "nodes (voting_shards next) = nodes voters" unfolding nx(1) by (simp add: bump_def voting_shards_def)
  moreover have "set (member_keys cur) \<subseteq> set (member_keys next)"
    using f unfolding nx(1) by (auto simp: bump_def comp_def)
  ultimately show ?thesis using f nx(2) unfolding nx(1) by (simp add: bump_supersedes)
qed

section \<open>Examples\<close>

theorem one_group_per_key_witness:
  "\<exists>e\<in>set (rg_shards (demo_ring [''a'', ''b''])).
     classify first_byte (demo_view 2 ''a'' False) (ring_build first_byte (demo_ring [''a'', ''b''])) None ''elsewhere'' ''t'' ''k'' =
       Some (Elsewhere (rg_node_url e))"
proof -
  have "node_key ''elsewhere'' \<notin> set (group_nodes e)" if "e \<in> set (rg_shards (demo_ring [''a'', ''b'']))" for e
  proof -
    have "node_key ''elsewhere'' \<noteq> node_key ''a''" "node_key ''elsewhere'' \<noteq> node_key ''b''" by code_simp+
    with that show ?thesis by (auto simp: demo_ring_def group_nodes_def)
  qed
  then show ?thesis
    using one_group_per_key [OF demo_valid, of first_byte "demo_view 2 ''a'' False" None "''t''" "''k''"] by meson
qed

lemma demo_single_valid: "ring_validate (demo_ring [''a'']) = Ok ()"
proof -
  have "node_key ''a'' = ''a''" by code_simp
  then show ?thesis
    by (simp add: ring_validate_def demo_ring_def saturating_mul_def usize_max_def MAX_VNODES_def MAX_RING_SHARDS_def
        MAX_RING_TOKENS_def trim_graphic graphic_def)
qed

lemma demo_answers:
  assumes "ring_validate (demo_ring [u]) = Ok ()"
  shows "classify first_byte v (ring_build first_byte (demo_ring [u])) (Some (ring_build first_byte (demo_ring [u]))) u c k = Some Ours"
proof -
  obtain e where e: "ring_owner (ring_build first_byte (demo_ring [u])) (hash_key first_byte c k) = Some e" "e \<in> set (rg_shards (demo_ring [u]))"
    using owner_exists [OF assms] .
  then have "e = \<lparr>rg_node_url = u, rg_replica_urls = []\<rparr>" by (simp add: demo_ring_def)
  then show ?thesis by (simp add: classify_owner [OF assms e] e(1) group_nodes_def)
qed

theorem handover_single_writer_witness:
  "\<exists>v. finalizing v \<and> classify first_byte v (ring_build first_byte (demo_ring [''a''])) (Some (ring_build first_byte (demo_ring [''a'']))) ''a'' ''t'' ''k'' = Some Ours \<and>
     map_option node_key (group_owner (ring_build first_byte (demo_ring [''a''])) ''a'') =
     map_option node_key (group_owner (ring_build first_byte (demo_ring [''a''])) ''a'')"
proof -
  let ?r = "demo_ring [''a'']"
  let ?v = "(demo_view 2 ''n'' False)\<lparr>cm_ring := Some ?r,
    cm_migration := Some \<lparr>mg_id = ''m'', mg_target = ?r, mg_started_by = ''n'', mg_phase = Finalizing\<rparr>\<rparr>"
  have ok: "ring_validate ?r = Ok ()" by (simp add: demo_single_valid)
  have f: "finalizing ?v" by (simp add: finalizing_def)
  note o = demo_answers [OF ok, of ?v "''t''" "''k''"]
  have "answers (classify first_byte ?v (ring_build first_byte ?r) (Some (ring_build first_byte ?r)) ''a'' ''t'' ''k'')"
    by (simp add: o answers_def)
  from handover_single_writer [OF ok ok f o this] f o show ?thesis by blast
qed

definition demo_node :: "cluster_metadata \<Rightarrow> dir \<Rightarrow> app_state" where
  "demo_node view fs =
     \<lparr>as_config = node_config.extend (demo_cfg ''a'') \<lparr>nc_shard_map = [], nc_ring = None\<rparr>, as_replication = None, as_cluster = view,
      as_ring_cache = RingCache_default, as_overrides = Map.empty, as_reservations = Map.empty, as_dir = fs\<rparr>"


definition demo_member :: "string \<Rightarrow> bool \<Rightarrow> member" where
  "demo_member u voting = \<lparr>mb_url = u, mb_node_id = None, mb_role = ''shard'', mb_shard_role = Some ''replica'', mb_voting = voting, mb_follows = None\<rparr>"

definition demo_members :: "member list \<Rightarrow> cluster_metadata" where
  "demo_members xs = (demo_view 2 ''n1'' False)\<lparr>cm_members := xs\<rparr>"

lemma demo_keys: "node_key ''a'' \<noteq> node_key ''b''" "node_key ''b'' \<noteq> node_key ''a''"
  by code_simp+

lemma trim_demo [simp]: "trim ''a'' = ''a''" "trim ''b'' = ''b''"
  by (simp_all add: trim_graphic graphic_def)

theorem joining_and_leaving_keep_the_quorum_witness:
  "\<exists>next. plan_leave (demo_members [demo_member ''a'' True, demo_member ''b'' False]) ''n1'' ''b'' = Ok next \<and>
     voting_shards next = voting_shards (demo_members [demo_member ''a'' True, demo_member ''b'' False])"
proof -
  let ?v = "demo_members [demo_member ''a'' True, demo_member ''b'' False]"
  have ok: "cm_validate ?v = Ok ()"
    using demo_keys by (simp add: demo_members_def demo_member_def demo_view_def cm_validate_def validate_catalog_def)
  have "plan_leave ?v ''n1'' ''b'' = Ok (without_member ?v ''n1'' ''b'')"
    using demo_keys by (simp add: plan_leave_def checked_def demo_members_def demo_member_def demo_view_def cm_validate_def
        validate_catalog_def cm_member_def same_endpoint_node_key without_member_def bump_def)
  with joining_and_leaving_keep_the_quorum [OF ok] show ?thesis by blast
qed

theorem plan_configuration_sets_the_voters_witness:
  "\<exists>next. plan_configuration (demo_members [demo_member ''a'' True]) ''n1'' ''a'' [''a'', ''b''] = Ok next \<and>
     nodes (voting_shards next) = nodes [''a'', ''b'']"
proof -
  let ?v = "demo_members [demo_member ''a'' True]"
  have plan: "\<exists>next. plan_configuration ?v ''n1'' ''a'' [''a'', ''b''] = Ok next"
    using demo_keys by (simp add: plan_configuration_def checked_def demo_members_def demo_member_def demo_view_def cm_validate_def
        validate_catalog_def cm_member_def same_endpoint_node_key settle_member_def admit_voter_def bump_def nodes_def)
  have "\<forall>m\<in>set (cm_members ?v). mb_role m \<noteq> ''shard'' \<longrightarrow> node_key (mb_url m) \<notin> nodes [''a'', ''b'']"
    by (simp add: demo_members_def demo_member_def)
  with plan plan_configuration_sets_the_voters [of ?v "''n1''" "''a''" "[''a'', ''b'']"] show ?thesis by blast
qed

end
