(* ===== verification/View_Durability.thy ===== *)
theory View_Durability
  imports Ownership_Safety
begin

text \<open>
  What of a node's cluster view is on disk: adoption saves the topology before it is served, so a restart
  finds it again. Two histories in which the index catalogue does not survive are proved as well.
\<close>

section \<open>The view file\<close>

definition io_ok :: "io_script \<Rightarrow> bool" where
  "io_ok io = (io_create io \<and> io_write_fails_after io = None \<and> io_sync io \<and> retry 0 DIR_REMOVE_ATTEMPTS (io_rename io))"

definition view_codec_ok :: "view_codec \<Rightarrow> bool" where
  "view_codec_ok codec = (\<forall>v. snd codec (fst codec v) = Some v)"

abbreviation view_on_disk :: "view_codec \<Rightarrow> dir \<Rightarrow> (io_error, cluster_metadata option) result" where
  "view_on_disk codec fs \<equiv> cm_load (snd codec) (\<lambda>_. False) fs"

lemma write_view_ok:
  assumes "io_ok io"
  shows "write_atomic io CLUSTER_FILE bytes fs = (Ok (), fs(CLUSTER_FILE \<mapsto> bytes, CLUSTER_TMP := None))"
  using assms by (auto simp: write_atomic_def io_ok_def rename_with_retry_def Let_def CLUSTER_FILE_def CLUSTER_TMP_def)

lemma load_written:
  assumes "view_codec_ok codec"
  shows "view_on_disk codec (fs(CLUSTER_FILE \<mapsto> fst codec v, CLUSTER_TMP := None)) =
    (case cm_validate (sanitized v) of Ok _ \<Rightarrow> Ok (Some (sanitized v)) | Err _ \<Rightarrow> Err InvalidData)"
proof -
  have "CLUSTER_FILE \<noteq> CLUSTER_TMP" by (simp add: CLUSTER_FILE_def CLUSTER_TMP_def)
  then show ?thesis using assms
    by (simp add: cm_load_def view_codec_ok_def sanitized_def Let_def split: sum.splits)
qed

definition clean :: "index_catalog \<Rightarrow> bool" where
  "clean c = (bm_sorted str_cmp c \<and> (\<forall>(k, e)\<in>set c. unaddressable_entry k e = None))"

lemma sanitize_clean: "clean c \<Longrightarrow> fst (sanitize_catalog c) = c"
  by (auto simp: clean_def sanitize_catalog_def filter_id_conv)

lemma clean_sanitize:
  assumes "bm_sorted str_cmp c"
  shows "clean (fst (sanitize_catalog c))"
  using assms by (auto simp: clean_def sanitize_catalog_def bm_sorted_def intro: sorted_wrt_filter)

lemma load_valid:
  "cm_load_from de unreadable fs names corrupt = Ok (Some v) \<Longrightarrow> cm_validate v = Ok ()"
  by (induction names arbitrary: corrupt) (auto simp: Let_def split: if_splits option.splits sum.splits)

lemma cm_load_valid: "cm_load de unreadable fs = Ok (Some v) \<Longrightarrow> cm_validate v = Ok ()"
  unfolding cm_load_def by (rule load_valid)

lemma validate_with_catalog:
  "cm_validate v = Ok () \<Longrightarrow>
     cm_validate (v\<lparr>cm_index_catalog := c\<rparr>) = (if length c \<le> MAX_CATALOG_COLLECTIONS then Ok () else Err CatalogTooLarge)"
  by (auto simp: cm_validate_def validate_catalog_def split: if_splits option.splits sum.splits)

section \<open>Keys of a merged catalogue\<close>

abbreviation keys_of :: "index_catalog \<Rightarrow> string set" where
  "keys_of c \<equiv> fst ` set c"

lemma keys_bm_get: "bm_sorted str_cmp c \<Longrightarrow> k \<in> keys_of c \<longleftrightarrow> bm_get str_cmp c k \<noteq> None"
  using map_of_bm_get [of c k] map_of_eq_None_iff [of c k] by simp

lemma merge_sorted:
  assumes "bm_sorted str_cmp a" "bm_sorted str_cmp b"
  shows "bm_sorted str_cmp (fst (merge_catalog a b))"
  using foldl_merge_get [OF assms(1) sorted_distinct_keys [OF assms(2)]] by (simp add: merge_catalog_def)

lemma merge_clean:
  assumes "clean a" "clean b"
  shows "clean (fst (merge_catalog a b)) \<and> keys_of (fst (merge_catalog a b)) = keys_of a \<union> keys_of b"
proof -
  have srt: "bm_sorted str_cmp a" "bm_sorted str_cmp b" using assms by (auto simp: clean_def)
  note m = merge_sorted [OF srt]
  have get: "bm_get str_cmp (fst (merge_catalog a b)) k = newer k (bm_get str_cmp a k) (bm_get str_cmp b k)" for k
    by (rule merge_get [OF srt])
  have in_cat: "unaddressable_entry k e = None" if "bm_get str_cmp c k = Some e" "clean c" for c k e
    using that map_of_bm_get [of c k] map_of_SomeD [of c k e] by (auto simp: clean_def)
  have "unaddressable_entry k e = None" if "(k, e) \<in> set (fst (merge_catalog a b))" for k e
  proof -
    have "bm_get str_cmp (fst (merge_catalog a b)) k = Some e"
      using that map_of_bm_get [OF m, of k] map_of_is_SomeI [OF sorted_distinct_keys [OF m] that] by simp
    then show ?thesis using get [of k] in_cat [OF _ assms(1), of k] in_cat [OF _ assms(2), of k]
      by (auto simp: newer_def split: option.splits if_splits)
  qed
  moreover have keys: "k \<in> keys_of (fst (merge_catalog a b)) \<longleftrightarrow> k \<in> keys_of a \<union> keys_of b" for k
    using in_cat [OF _ assms(2), of k] unfolding Un_iff keys_bm_get [OF m] keys_bm_get [OF srt(1)] keys_bm_get [OF srt(2)] get
    by (auto simp: newer_def split: option.splits)
  moreover have "keys_of (fst (merge_catalog a b)) = keys_of a \<union> keys_of b" by (rule set_eqI) (rule keys)
  ultimately show ?thesis using m unfolding clean_def by blast
qed

lemma merge_unmoved: "\<not> snd (merge_catalog a b) \<Longrightarrow> fst (merge_catalog a b) = a"
proof -
  have flag: "snd (foldl merge_entry (into, True) xs)" for into xs
    by (induction xs arbitrary: into) (auto simp: merge_entry_def split: prod.splits option.splits)
  have "\<not> snd (foldl merge_entry (a, False) xs) \<Longrightarrow> fst (foldl merge_entry (a, False) xs) = a" for xs
  proof (induction xs)
    case (Cons x xs)
    show ?case
    proof (cases "snd (merge_entry (a, False) x)")
      case True
      then have "merge_entry (a, False) x = (fst (merge_entry (a, False) x), True)" by (metis prod.collapse)
      then show ?thesis using Cons.prems flag by (metis foldl_Cons)
    next
      case False
      then have "merge_entry (a, False) x = (a, False)"
        by (auto simp: merge_entry_def split: prod.splits option.splits if_splits)
      then show ?thesis using Cons by simp
    qed
  qed simp
  then show "\<not> snd (merge_catalog a b) \<Longrightarrow> fst (merge_catalog a b) = a" by (simp add: merge_catalog_def)
qed

lemma length_keys: "bm_sorted str_cmp c \<Longrightarrow> length c = card (keys_of c)"
  using distinct_card [OF sorted_distinct_keys, of c] by simp

lemma length_le_keys:
  assumes "clean a" "clean b" "keys_of a \<subseteq> keys_of b"
  shows "length a \<le> length b"
  using assms length_keys [of a] length_keys [of b] card_mono [of "keys_of b" "keys_of a"] by (simp add: clean_def)

section \<open>Adoption keeps the disk in step\<close>

definition in_step :: "view_codec \<Rightarrow> app_state \<Rightarrow> bool" where
  "in_step codec s =
     (clean (cm_index_catalog (as_cluster s)) \<and>
      (\<exists>d. view_on_disk codec (as_dir s) = Ok (Some d) \<and> topo d = topo (as_cluster s) \<and> clean (cm_index_catalog d) \<and>
           keys_of (cm_index_catalog d) \<subseteq> keys_of (cm_index_catalog (as_cluster s))))"

lemma supersedes_irrefl: "topo a = topo b \<Longrightarrow> \<not> cm_supersedes a b"
  using supersedes_topo [of a b b b] by (simp add: cm_supersedes_def vi_supersedes_def cm_view_id_def stamp_irrefl)

lemma save_same_topo:
  assumes "view_codec_ok codec" "io_ok io" "view_on_disk codec fs = Ok (Some d)" "topo d = topo v"
    and "clean (cm_index_catalog d)" "clean (cm_index_catalog v)" "length (cm_index_catalog v) \<le> MAX_CATALOG_COLLECTIONS"
    and "keys_of (cm_index_catalog d) \<subseteq> keys_of (cm_index_catalog v)"
  shows "\<exists>d'. view_on_disk codec (snd (cm_save (fst codec) (snd codec) (\<lambda>_. False) io v fs)) = Ok (Some d') \<and> topo d' = topo v \<and>
    clean (cm_index_catalog d') \<and> keys_of (cm_index_catalog d') \<subseteq> keys_of (cm_index_catalog v)"
proof -
  obtain c moved where c: "merge_catalog (cm_index_catalog d) (cm_index_catalog v) = (c, moved)" by fastforce
  note k = merge_clean [OF assms(5,6), unfolded c fst_conv]
  let ?d = "d\<lparr>cm_index_catalog := c\<rparr>"
  have "length c \<le> length (cm_index_catalog v)" using length_le_keys [of c "cm_index_catalog v"] k assms(6,8) by blast
  then have "cm_validate ?d = Ok ()"
    using validate_with_catalog [OF cm_load_valid [OF assms(3)]] assms(7) by simp
  moreover have "sanitized ?d = ?d" using sanitize_clean k by (simp add: sanitized_def)
  moreover have "\<not> cm_supersedes v d" using supersedes_irrefl assms(4) by simp
  ultimately show ?thesis
    using c k assms load_written [OF assms(1), of fs ?d] write_view_ok [OF assms(2), of "fst codec ?d" fs]
    by (cases moved) (auto simp: cm_save_def)
qed

lemma save_superseding:
  assumes "view_codec_ok codec" "io_ok io" "view_on_disk codec fs = Ok (Some d)" "cm_supersedes v d"
    and "clean (cm_index_catalog v)" "cm_validate v = Ok ()"
  shows "view_on_disk codec (snd (cm_save (fst codec) (snd codec) (\<lambda>_. False) io v fs)) = Ok (Some v)"
proof -
  have "sanitized v = v" using sanitize_clean [OF assms(5)] by (simp add: sanitized_def)
  then show ?thesis using load_written [OF assms(1), of fs v] write_view_ok [OF assms(2), of "fst codec v" fs] assms(3,4,6)
    by (simp add: cm_save_def)
qed

lemma follow_from_view_same [simp]: "as_cluster (follow_from_view now s) = as_cluster s" "as_dir (follow_from_view now s) = as_dir s"
  by (auto simp: follow_from_view_def split: option.splits)

lemma in_step_follow: "in_step codec (follow_from_view now s) = in_step codec s"
  by (simp add: in_step_def)

lemma in_step_persist:
  assumes "view_codec_ok codec" "io_ok io" "view_on_disk codec (as_dir s) = Ok (Some d)" "topo d = topo (as_cluster s)"
    and "clean (cm_index_catalog d)" "clean (cm_index_catalog (as_cluster s))"
    and "length (cm_index_catalog (as_cluster s)) \<le> MAX_CATALOG_COLLECTIONS"
    and "keys_of (cm_index_catalog d) \<subseteq> keys_of (cm_index_catalog (as_cluster s))"
  shows "in_step codec s" "in_step codec (persist_cluster_view codec (\<lambda>_. False) io s)"
  using assms(3-8) save_same_topo [OF assms] by (auto simp: in_step_def persist_cluster_view_def save_view_def)

lemma adopt_merged:
  assumes "adopt cur inc = (outcome, view)" "cm_validate inc = Ok ()" "clean (cm_index_catalog inc)"
  shows "cm_index_catalog view = fst (merge_catalog (cm_index_catalog cur) (cm_index_catalog inc))"
    "topo view = (if cm_supersedes inc cur then topo inc else topo cur)"
proof -
  have "inc\<lparr>cm_index_catalog := fst (sanitize_catalog (cm_index_catalog inc))\<rparr> = inc" using sanitize_clean [OF assms(3)] by simp
  then show "cm_index_catalog view = fst (merge_catalog (cm_index_catalog cur) (cm_index_catalog inc))"
    "topo view = (if cm_supersedes inc cur then topo inc else topo cur)"
    using assms(1,2) by (auto simp: adopt_def Let_def split: if_splits)
qed

text \<open>
  C16. Adopting a view keeps the disk in step with memory: if a restart would have found the topology the
  node serves, it finds the one the node serves after being offered any view -- adopted, refused or
  stale. The writes succeed, the file's encoding round-trips, and the merged catalogue stays within
  the bound the loader enforces.
\<close>

theorem adoption_keeps_the_disk_in_step:
  assumes "view_codec_ok codec" "io_ok io" "io_ok io'" "in_step codec s" "bm_sorted str_cmp (cm_index_catalog offered)"
    and "length (fst (merge_catalog (cm_index_catalog (as_cluster s)) (fst (sanitize_catalog (cm_index_catalog offered)))))
           \<le> MAX_CATALOG_COLLECTIONS"
  shows "in_step codec (snd (adopt_cluster codec (\<lambda>_. False) io io' now offered s))"
proof -
  define inc where "inc = sanitized offered"
  let ?cur = "as_cluster s"
  have clean: "clean (cm_index_catalog inc)" using clean_sanitize [OF assms(5)] by (simp add: inc_def sanitized_def)
  obtain d where d: "view_on_disk codec (as_dir s) = Ok (Some d)" "topo d = topo ?cur" "clean (cm_index_catalog d)"
    "keys_of (cm_index_catalog d) \<subseteq> keys_of (cm_index_catalog ?cur)" and cur: "clean (cm_index_catalog ?cur)"
    using assms(4) by (auto simp: in_step_def)
  note un = adopt_cluster_def [of codec "\<lambda>_. False" io io' now offered s, folded sanitized_def, folded inc_def, unfolded Let_def]
  show ?thesis
  proof (cases "cm_validate inc = Ok () \<and> (cm_supersedes inc ?cur \<or> catalog_adds_to (cm_index_catalog ?cur) (cm_index_catalog inc))")
    case False
    then show ?thesis using assms(4) unfolding un by (auto split: sum.splits)
  next
    case True
    obtain outcome view where ad: "adopt ?cur inc = (outcome, view)" by fastforce
    from True have ok: "cm_validate inc = Ok ()" by simp
    note v = adopt_merged [OF ad ok clean]
    let ?s1 = "if cm_supersedes inc ?cur then save_view codec (\<lambda>_. False) io inc s else s"
    let ?s2 = "?s1\<lparr>as_cluster := view\<rparr>"
    have mk: "clean (cm_index_catalog view)" "keys_of (cm_index_catalog view) = keys_of (cm_index_catalog ?cur) \<union> keys_of (cm_index_catalog inc)"
      using merge_clean [OF cur clean] v(1) by auto
    have len: "length (cm_index_catalog view) \<le> MAX_CATALOG_COLLECTIONS"
      using assms(6) v(1) by (simp add: inc_def sanitized_def)
    have sup: "view_on_disk codec (as_dir (save_view codec (\<lambda>_. False) io inc s)) = Ok (Some inc)" if "cm_supersedes inc ?cur"
      using save_superseding [OF assms(1,2) d(1) _ clean ok] supersedes_topo [OF refl d(2)] that by (simp add: save_view_def)
    obtain d' where d': "view_on_disk codec (as_dir ?s2) = Ok (Some d')" "topo d' = topo view" "clean (cm_index_catalog d')"
      "keys_of (cm_index_catalog d') \<subseteq> keys_of (cm_index_catalog view)"
      by (cases "cm_supersedes inc ?cur") (use that sup d v(2) mk(2) clean in auto)
    have steps: "in_step codec ?s2" "in_step codec (persist_cluster_view codec (\<lambda>_. False) io' ?s2)"
      using in_step_persist [OF assms(1,3), of ?s2 d'] d' mk(1) len by simp_all
    then show ?thesis using True ok ad unfolding un by (auto simp: in_step_follow split: adoption.splits)
  qed
qed

section \<open>What the disk can lose\<close>

text \<open>
  A view that wins on topology is saved as it arrived, and the merged catalogue is saved afterwards only
  if the merge changed what was in memory. A winner that lacks a definition the node holds leaves
  memory as it was and the file without the definition.
\<close>

lemma winning_view_erases_durable_catalogue:
  assumes "view_codec_ok codec" "io_ok io" "view_on_disk codec (as_dir s) = Ok (Some (as_cluster s))"
    and "cm_supersedes offered (as_cluster s)" "cm_validate offered = Ok ()" "cm_index_catalog offered = []"
    and "clean (cm_index_catalog (as_cluster s))"
  shows "case snd (adopt_cluster codec (\<lambda>_. False) io io' now offered s) of s' \<Rightarrow>
    cm_index_catalog (as_cluster s') = cm_index_catalog (as_cluster s) \<and> view_on_disk codec (as_dir s') = Ok (Some offered)"
proof -
  have inc: "sanitized offered = offered" using assms(6) by (simp add: sanitized_def sanitize_catalog_def)
  note un = adopt_cluster_def [of codec "\<lambda>_. False" io io' now offered s, folded sanitized_def, unfolded Let_def inc]
  obtain outcome view where ad: "adopt (as_cluster s) offered = (outcome, view)" by fastforce
  have cat: "cm_index_catalog view = cm_index_catalog (as_cluster s)"
    using adopt_merged(1) [OF ad assms(5)] assms(6) by (simp add: merge_catalog_def clean_def bm_sorted_def)
  have "view_on_disk codec (as_dir (save_view codec (\<lambda>_. False) io offered s)) = Ok (Some offered)"
    using save_superseding [OF assms(1-4) _ assms(5)] assms(6) by (simp add: save_view_def clean_def bm_sorted_def)
  then show ?thesis using assms(4,5) ad cat unfolding un by (auto split: adoption.splits)
qed

text \<open>
  Nothing bounds a merged catalogue, and the loader refuses one over the bound: once two catalogues
  that each pass validation merge into a larger one, the node that persisted it cannot load its view.
\<close>

lemma oversized_merge_cannot_be_loaded:
  assumes "view_codec_ok codec" "io_ok io" "view_on_disk codec (as_dir s) = Ok (Some d)" "topo d = topo (as_cluster s)"
    and "clean (cm_index_catalog d)" "clean (cm_index_catalog (as_cluster s))"
    and "keys_of (cm_index_catalog d) \<subset> keys_of (cm_index_catalog (as_cluster s))"
    and "length (cm_index_catalog (as_cluster s)) > MAX_CATALOG_COLLECTIONS"
  shows "view_on_disk codec (as_dir (persist_cluster_view codec (\<lambda>_. False) io s)) = Err InvalidData"
proof -
  let ?v = "as_cluster s"
  obtain c moved where c: "merge_catalog (cm_index_catalog d) (cm_index_catalog ?v) = (c, moved)" by fastforce
  note k = merge_clean [OF assms(5,6), unfolded c fst_conv]
  let ?d = "d\<lparr>cm_index_catalog := c\<rparr>"
  have keys: "keys_of c = keys_of (cm_index_catalog ?v)" using k assms(7) by blast
  have "length c = length (cm_index_catalog ?v)"
    using length_le_keys [of c "cm_index_catalog ?v"] length_le_keys [of "cm_index_catalog ?v" c] k assms(6,7) keys by auto
  then have bad: "cm_validate ?d = Err CatalogTooLarge"
    using validate_with_catalog [OF cm_load_valid [OF assms(3)]] assms(8) by simp
  have moved
  proof (rule ccontr)
    assume "\<not> moved"
    then have "c = cm_index_catalog d" using merge_unmoved [of "cm_index_catalog d" "cm_index_catalog ?v"] c by simp
    then show False using keys assms(7) by blast
  qed
  moreover have "sanitized ?d = ?d" using sanitize_clean k by (simp add: sanitized_def)
  moreover have "\<not> cm_supersedes ?v d" using supersedes_irrefl assms(4) by simp
  ultimately show ?thesis
    using c assms(3) bad load_written [OF assms(1), of "as_dir s" ?d] write_view_ok [OF assms(2), of "fst codec ?d" "as_dir s"]
    by (simp add: cm_save_def persist_cluster_view_def save_view_def)
qed

section \<open>Examples\<close>

text \<open>A concrete encoding of views that round-trips: the view as nested tuples, numbered, in unary.\<close>

definition flat_spec :: "index_spec \<Rightarrow> string \<times> string" where
  "flat_spec x = (is_name x, is_field x)"

definition flat_entry :: "string \<times> collection_indexes \<Rightarrow> string \<times> nat \<times> string \<times> (string \<times> string) list \<times> nat option" where
  "flat_entry x = (fst x, ci_version (snd x), ci_updated_by (snd x), map flat_spec (ci_indexes (snd x)), ci_ttl_secs (snd x))"

definition flat_ring :: "hash_ring \<Rightarrow> nat \<times> (string \<times> string list) list" where
  "flat_ring x = (rg_vnodes x, map (\<lambda>s. (rg_node_url s, rg_replica_urls s)) (rg_shards x))"

definition flat_migration :: "migration \<Rightarrow> string \<times> (nat \<times> (string \<times> string list) list) \<times> string \<times> bool" where
  "flat_migration x = (mg_id x, flat_ring (mg_target x), mg_started_by x, mg_phase x = Finalizing)"

definition flat_member :: "member \<Rightarrow> string \<times> string option \<times> string \<times> string option \<times> bool \<times> string option" where
  "flat_member x = (mb_url x, mb_node_id x, mb_role x, mb_shard_role x, mb_voting x, mb_follows x)"

definition flat_shard :: "shard_info \<Rightarrow> nat \<times> nat \<times> string \<times> string list" where
  "flat_shard x = (unat (si_start_hash x), unat (si_end_hash x), si_node_url x, si_replica_urls x)"

definition flat_view :: "cluster_metadata \<Rightarrow> nat" where
  "flat_view v = to_nat ((cm_version v, cm_updated_by v, cm_seeded v, map flat_member (cm_members v)),
     (map flat_shard (cm_shards v), map_option flat_ring (cm_ring v), map_option flat_migration (cm_migration v),
      map flat_entry (cm_index_catalog v)))"

lemma inj_flat: "inj flat_spec" "inj flat_entry" "inj flat_ring" "inj flat_migration" "inj flat_member" "inj flat_shard"
proof -
  show spec: "inj flat_spec" by (auto simp: inj_def flat_spec_def)
  have "inj (\<lambda>s :: ring_shard. (rg_node_url s, rg_replica_urls s))" by (auto simp: inj_def)
  then show ring: "inj flat_ring" by (auto simp: inj_def [of flat_ring] flat_ring_def dest: map_injective)
  show "inj flat_entry" using spec by (auto simp: inj_def [of flat_entry] flat_entry_def prod_eq_iff dest: map_injective)
  have "(p = Finalizing) = (q = Finalizing) \<Longrightarrow> p = q" for p q by (cases p; cases q) auto
  then show "inj flat_migration" using injD [OF ring] by (auto simp: inj_def [of flat_migration] flat_migration_def)
  show "inj flat_member" by (auto simp: inj_def flat_member_def)
  show "inj flat_shard" by (auto simp: inj_def flat_shard_def word_unat_eq_iff [symmetric])
qed

lemma inj_flat_view: "inj flat_view"
proof (rule injI)
  fix a b assume "flat_view a = flat_view b"
  then show "a = b" using inj_flat map_injective option.inj_map [OF inj_flat(3)] option.inj_map [OF inj_flat(4)]
    by (auto simp: flat_view_def dest: injD intro!: cluster_metadata.equality)
qed

definition demo_codec :: view_codec where
  "demo_codec = (\<lambda>v. replicate (flat_view v) CHR ''x'', \<lambda>s. Some (inv flat_view (length s)))"

lemma demo_codec_ok: "view_codec_ok demo_codec"
  by (simp add: view_codec_ok_def demo_codec_def inv_f_f [OF inj_flat_view])

definition demo_io :: io_script where
  "demo_io = \<lparr>io_create = True, io_write_fails_after = None, io_sync = True, io_rename = \<lambda>_. True\<rparr>"

lemma demo_io_ok: "io_ok demo_io"
  by (simp add: io_ok_def demo_io_def DIR_REMOVE_ATTEMPTS_def numeral_eq_Suc)

theorem adoption_keeps_the_disk_in_step_witness:
  "\<exists>d. view_on_disk demo_codec (as_dir (snd (adopt_cluster demo_codec (\<lambda>_. False) demo_io demo_io 0 (demo_view 2 ''b'' False)
         (demo_node (demo_view 1 ''a'' True) [CLUSTER_FILE \<mapsto> fst demo_codec (demo_view 1 ''a'' True)])))) = Ok (Some d) \<and>
       cm_version d = 2"
proof -
  let ?v = "demo_view 1 ''a'' True" let ?w = "demo_view 2 ''b'' False"
  let ?s = "demo_node ?v [CLUSTER_FILE \<mapsto> fst demo_codec ?v]"
  let ?s' = "snd (adopt_cluster demo_codec (\<lambda>_. False) demo_io demo_io 0 ?w ?s)"
  have plain: "sanitized (demo_view n w b) = demo_view n w b" "n \<noteq> 0 \<Longrightarrow> cm_validate (demo_view n w b) = Ok ()" for n w b
    by (simp_all add: sanitized_def sanitize_catalog_def demo_view_def cm_validate_def validate_catalog_def)
  have "view_on_disk demo_codec (as_dir ?s) = Ok (Some ?v)"
    using load_written [OF demo_codec_ok, of Map.empty ?v] plain
    by (simp add: demo_node_def fun_upd_twist CLUSTER_FILE_def CLUSTER_TMP_def fun_upd_idem)
  then have "in_step demo_codec ?s" by (simp add: in_step_def demo_node_def demo_view_def clean_def bm_sorted_def)
  moreover have "bm_sorted str_cmp (cm_index_catalog ?w)" by (simp add: demo_view_def bm_sorted_def)
  moreover have "length (fst (merge_catalog (cm_index_catalog (as_cluster ?s)) (fst (sanitize_catalog (cm_index_catalog ?w)))))
      \<le> MAX_CATALOG_COLLECTIONS" by (simp add: demo_view_def demo_node_def merge_catalog_def sanitize_catalog_def)
  ultimately have "in_step demo_codec ?s'"
    using adoption_keeps_the_disk_in_step [OF demo_codec_ok demo_io_ok demo_io_ok, of ?s ?w 0] by blast
  moreover have "as_cluster ?s' = ?w"
  proof -
    have "adopt ?v ?w = (Adopted 1 2, ?w)" "cm_supersedes ?w ?v"
      using plain [of 2 "''b''" False]
      by (simp_all add: adopt_def demo_view_def sanitize_catalog_def merge_catalog_def cm_validate_def validate_catalog_def
          cm_supersedes_def vi_supersedes_def cm_view_id_def)
    then show ?thesis using plain [of 2 "''b''" False]
      by (simp add: adopt_cluster_def Let_def demo_node_def save_view_def persist_cluster_view_def sanitized_def)
  qed
  ultimately obtain d where "view_on_disk demo_codec (as_dir ?s') = Ok (Some d)" "topo d = topo ?w" by (auto simp: in_step_def)
  then show ?thesis using topo_fields(1) [of d ?w] by (simp add: demo_view_def)
qed

end
