(* ===== verification/Frame.thy ===== *)
theory Frame
  imports Secondary Quorum Ring
begin

text \<open>
  \<^verbatim>\<open>src/src/storage/frame.rs\<close> and the entries of \<^verbatim>\<open>src/src/storage/index.rs\<close>: the frame header and its bytes, the
  size limits, log entries, and what the index records of a frame. CRC-32 and the JSON encoding of an
  entry are parameters. Header fields are natural numbers below the width they are stored with.
\<close>

section \<open>Little-endian integers\<close>

definition le_bytes :: "nat \<Rightarrow> nat \<Rightarrow> u8 list" where
  "le_bytes n x = map (\<lambda>i. word_of_nat (x div 256 ^ i)) [0..<n]"

fun from_le :: "u8 list \<Rightarrow> nat" where
  "from_le [] = 0"
| "from_le (b # bs) = unat b + 256 * from_le bs"

lemma length_le_bytes [simp]: "length (le_bytes n x) = n"
  by (simp add: le_bytes_def)

lemma le_bytes_Suc: "le_bytes (Suc n) x = word_of_nat x # le_bytes n (x div 256)"
  by (simp add: le_bytes_def upt_conv_Cons map_Suc_upt [symmetric] comp_def div_mult2_eq [symmetric] del: upt_Suc)

lemma from_le_bytes: "from_le (le_bytes n x) = x mod 256 ^ n"
proof (induction n arbitrary: x)
  case (Suc n)
  have "unat (word_of_nat x :: u8) = x mod 256" by (simp add: unat_of_nat)
  then show ?case using Suc [of "x div 256"] by (simp add: le_bytes_Suc mod_mult2_eq)
qed (simp add: le_bytes_def)

section \<open>Sizes\<close>

definition MAX_RECORD_SIZE :: nat where "MAX_RECORD_SIZE = 10 * 1024 * 1024"
definition HEADER_LEN :: nat where "HEADER_LEN = 40"
definition MAX_FRAME_SIZE :: nat where "MAX_FRAME_SIZE = HEADER_LEN + MAX_RECORD_SIZE"
definition base64_len :: "nat \<Rightarrow> nat" where "base64_len bytes = (bytes + 2) div 3 * 4"
definition MAX_PUBLIC_BODY :: nat where "MAX_PUBLIC_BODY = 2 * 1024 * 1024"
definition MAX_INTERNAL_BODY :: nat where "MAX_INTERNAL_BODY = base64_len MAX_FRAME_SIZE + 64 * 1024"
definition ENVELOPE_HEADROOM :: nat where "ENVELOPE_HEADROOM = 64 * 1024"

section \<open>Headers\<close>

record frame_header =
  fh_len :: nat
  fh_crc :: nat
  fh_term :: nat
  fh_lsn :: nat
  fh_prev_lsn :: nat
  fh_prev_term :: nat

definition slice :: "nat \<Rightarrow> nat \<Rightarrow> 'a list \<Rightarrow> 'a list" where
  "slice a b xs = take (b - a) (drop a xs)"

definition fh_parse :: "u8 list \<Rightarrow> frame_header option" where
  "fh_parse bytes =
     (if length bytes < HEADER_LEN then None
      else Some \<lparr>fh_len = from_le (slice 0 4 bytes), fh_crc = from_le (slice 4 8 bytes), fh_term = from_le (slice 8 16 bytes),
                 fh_lsn = from_le (slice 16 24 bytes), fh_prev_lsn = from_le (slice 24 32 bytes),
                 fh_prev_term = from_le (slice 32 40 bytes)\<rparr>)"

definition fh_encode :: "frame_header \<Rightarrow> u8 list" where
  "fh_encode h = le_bytes 4 (fh_len h) @ le_bytes 4 (fh_crc h) @ le_bytes 8 (fh_term h) @ le_bytes 8 (fh_lsn h) @
     le_bytes 8 (fh_prev_lsn h) @ le_bytes 8 (fh_prev_term h)"

type_synonym checksum = "u8 list \<Rightarrow> u32"

definition payload_valid :: "checksum \<Rightarrow> frame_header \<Rightarrow> u8 list \<Rightarrow> bool" where
  "payload_valid crc h payload = (unat (crc payload) = fh_crc h)"

section \<open>Entries\<close>

record handover_record =
  ho_id :: string
  ho_target :: hash_ring

datatype 'n log_entry =
    Put (le_migration: bool) (le_key: string) (le_value: "'n jvalue") (le_ts: nat) (le_expire_at: "nat option")
  | Del (le_migration: bool) (le_key: string) (le_ts: nat)
  | Barrier (le_ts: nat)
  | Drop (le_ts: nat)
  | Config (le_config: configuration) (le_ts: nat)
  | Handover (le_handover: handover_record) (le_ts: nat)
  | Index (le_change: index_change) (le_ts: nat)
  | Ttl (le_ttl_secs: "nat option") (le_ts: nat)

fun is_migration :: "'n log_entry \<Rightarrow> bool" where
  "is_migration (Put migration _ _ _ _) = migration"
| "is_migration (Del migration _ _) = migration"
| "is_migration _ = False"

datatype replica_apply =
    Applied nat
  | Duplicate nat
  | Gap nat nat
  | Divergent nat nat

section \<open>Index entries\<close>

record version =
  v_term :: nat
  v_lsn :: nat

definition etag :: "version \<Rightarrow> string" where
  "etag v = [CHR 0x22] @ show_nat (v_term v) @ ''.'' @ show_nat (v_lsn v) @ [CHR 0x22]"

record index_entry =
  ie_wal_id :: nat
  ie_offset :: nat
  ie_len :: nat
  ie_inline :: "u8 list option"
  ie_lsn :: nat
  ie_term :: nat
  ie_ts :: nat
  ie_expire_at :: "nat option"

definition ie_version :: "index_entry \<Rightarrow> version" where
  "ie_version e = \<lparr>v_term = ie_term e, v_lsn = ie_lsn e\<rparr>"

definition ie_frame_bytes :: "index_entry \<Rightarrow> nat" where
  "ie_frame_bytes e = HEADER_LEN + ie_len e"

definition inline_bytes :: "index_entry \<Rightarrow> nat" where
  "inline_bytes e = (case ie_inline e of Some b \<Rightarrow> length b | None \<Rightarrow> 0)"

definition expires_at :: "nat option \<Rightarrow> index_entry \<Rightarrow> nat option" where
  "expires_at collection_ttl_secs e =
     (case ie_expire_at e of
        Some t \<Rightarrow> Some t
      | None \<Rightarrow> (case collection_ttl_secs of
                   Some secs \<Rightarrow> if ie_ts e > 0 then Some (min usize_max (ie_ts e + saturating_mul secs 1000)) else None
                 | None \<Rightarrow> None))"

record read_cache_config =
  inline_max_value_bytes :: nat
  inline_budget_bytes :: nat

section \<open>The header round-trips\<close>

definition header_fits :: "frame_header \<Rightarrow> bool" where
  "header_fits h = (fh_len h < 2 ^ 32 \<and> fh_crc h < 2 ^ 32 \<and> fh_term h < 2 ^ 64 \<and> fh_lsn h < 2 ^ 64 \<and>
     fh_prev_lsn h < 2 ^ 64 \<and> fh_prev_term h < 2 ^ 64)"

lemma length_fh_encode [simp]: "length (fh_encode h) = HEADER_LEN"
  by (simp add: fh_encode_def HEADER_LEN_def)

lemma from_le_fits: "x < 256 ^ n \<Longrightarrow> from_le (le_bytes n x) = x"
  by (simp add: from_le_bytes)

lemma parse_encode:
  assumes "header_fits h"
  shows "fh_parse (fh_encode h @ rest) = Some h"
proof -
  have "fh_len h < 256 ^ 4" "fh_crc h < 256 ^ 4" "fh_term h < 256 ^ 8" "fh_lsn h < 256 ^ 8" "fh_prev_lsn h < 256 ^ 8"
    "fh_prev_term h < 256 ^ 8" using assms by (simp_all add: header_fits_def)
  then show ?thesis
    by (simp add: fh_parse_def fh_encode_def slice_def HEADER_LEN_def from_le_fits)
qed

text \<open>
  C39. A frame header survives its 40 bytes: parsing what \<^verbatim>\<open>encode\<close> wrote, whatever follows it, returns the
  header for every header whose fields fit their widths, and fewer than 40 bytes never parse. The size
  limits chain as the file asserts: a public body fits a record, a full frame fits an internal body in base64.
\<close>

theorem frame_header_round_trip:
  "(header_fits h \<longrightarrow> fh_parse (fh_encode h @ rest) = Some h) \<and> length (fh_encode h) = 40 \<and>
   fh_parse (take n (fh_encode h)) = (if n < 40 then None else fh_parse (fh_encode h)) \<and>
   MAX_PUBLIC_BODY + ENVELOPE_HEADROOM \<le> MAX_RECORD_SIZE \<and> base64_len MAX_FRAME_SIZE \<le> MAX_INTERNAL_BODY \<and>
   (length bs \<le> MAX_FRAME_SIZE \<longrightarrow> length (base64_encode bs) \<le> MAX_INTERNAL_BODY)"
proof -
  have "fh_parse (take n (fh_encode h)) = (if n < 40 then None else fh_parse (fh_encode h))"
    by (auto simp: fh_parse_def HEADER_LEN_def)
  moreover have "length (base64_encode bs) \<le> MAX_INTERNAL_BODY" if "length bs \<le> MAX_FRAME_SIZE"
  proof -
    have "length (base64_encode bs) = 4 * ((length bs + 2) div 3)" by (simp add: base64_encode_def length_encode_with)
    also have "\<dots> \<le> base64_len MAX_FRAME_SIZE" using that unfolding base64_len_def by (simp add: div_le_mono)
    finally show ?thesis by (simp add: MAX_INTERNAL_BODY_def)
  qed
  ultimately show ?thesis
    by (simp add: parse_encode HEADER_LEN_def MAX_PUBLIC_BODY_def ENVELOPE_HEADROOM_def MAX_RECORD_SIZE_def MAX_INTERNAL_BODY_def)
qed

theorem frame_header_round_trip_witness:
  "fh_parse (fh_encode \<lparr>fh_len = 3, fh_crc = 99, fh_term = 2, fh_lsn = 2 ^ 40 + 1, fh_prev_lsn = 7, fh_prev_term = 1\<rparr> @ [1, 2, 3]) =
   Some \<lparr>fh_len = 3, fh_crc = 99, fh_term = 2, fh_lsn = 2 ^ 40 + 1, fh_prev_lsn = 7, fh_prev_term = 1\<rparr>"
proof -
  let ?h = "\<lparr>fh_len = 3, fh_crc = 99, fh_term = 2, fh_lsn = 2 ^ 40 + 1, fh_prev_lsn = 7, fh_prev_term = 1\<rparr>"
  have "header_fits ?h" by (simp add: header_fits_def)
  with frame_header_round_trip [of ?h "[1, 2, 3]"] show ?thesis by blast
qed

end
