(* ===== verification/Store.thy ===== *)
theory Store
  imports Frame Meta_Store
begin

text \<open>
  The write side of a collection: \<^verbatim>\<open>src/src/storage/wal.rs\<close> and the staging, applying and watermark half of
  \<^verbatim>\<open>src/src/storage/collection.rs\<close>. A collection is one record: the WAL files byte for byte, the append
  position, the committed index and what committed with it, the staged frames above the watermark, and
  the two watermark files. Every operation runs under the locks the code takes, so it is one function of
  the record; the file system answers through a script, and a failed step leaves what was written.
\<close>

section \<open>State\<close>

datatype 'n staged_effect =
    SPut string index_entry "(string \<times> 'n jvalue) list"
  | SRemove string
  | SNothing
  | SClear
  | SConfigure configuration
  | SRecordHandover handover_record
  | SDefineIndex index_change
  | SSetTtl "nat option"

record 'n staged_apply =
  sa_wal_id :: nat
  sa_offset :: nat
  sa_term :: nat
  sa_effect :: "'n staged_effect"
  sa_migration :: bool

fun resolve :: "'n staged_effect \<Rightarrow> string \<Rightarrow> index_entry option option" where
  "resolve (SPut k entry _) key = (if k = key then Some (Some entry) else None)"
| "resolve (SRemove k) key = (if k = key then Some None else None)"
| "resolve SClear key = Some None"
| "resolve _ key = None"

record wal_cut =
  wc_wal_id :: nat
  wc_offset :: nat
  wc_prev_lsn :: nat
  wc_prev_term :: nat

definition wc_encode :: "wal_cut \<Rightarrow> u8 list" where
  "wc_encode c = le_bytes 8 (wc_wal_id c) @ le_bytes 8 (wc_offset c) @ le_bytes 8 (wc_prev_lsn c) @ le_bytes 8 (wc_prev_term c)"

definition wc_decode :: "u8 list \<Rightarrow> wal_cut option" where
  "wc_decode bytes =
     (if length bytes \<noteq> 32 then None
      else Some \<lparr>wc_wal_id = from_le (slice 0 8 bytes), wc_offset = from_le (slice 8 16 bytes),
                 wc_prev_lsn = from_le (slice 16 24 bytes), wc_prev_term = from_le (slice 24 32 bytes)\<rparr>)"

record frame_spot =
  fs_lsn :: nat
  fs_term :: nat
  fs_wal_id :: nat
  fs_offset :: nat

record recent_frames =
  rf_floor :: nat
  rf_spots :: "frame_spot list"

record index_snapshot =
  is_last_wal_id :: nat
  is_last_offset :: nat
  is_last_lsn :: nat
  is_last_term :: nat
  is_map :: "(string \<times> index_entry) list"

record applied_meta =
  am_applied_lsn :: nat
  am_dropped :: bool
  am_config :: "configuration option"
  am_handover :: "handover_record option"
  am_indexes :: "index_spec list"
  am_ttl_secs :: "nat option"

text \<open>What has committed: the index and everything the log leaves behind with it.\<close>

record 'n committed_state =
  cs_index :: "(string \<times> index_entry) list"
  cs_dropped :: bool
  cs_config :: "configuration option"
  cs_handover :: "handover_record option"
  cs_specs :: "index_spec list"
  cs_ttl :: "nat option"
  cs_secondary :: "'n indexes"
  cs_inline_bytes :: nat
  cs_expiring :: nat
  cs_rich_gen :: nat

text \<open>
  The collection's directory. \<open>dk_synced\<close> is how much of each WAL file has been synced: a power loss keeps
  that much of it and any further part; a process that dies loses nothing it wrote.
\<close>

record disk =
  dk_files :: "(nat \<times> u8 list) list"
  dk_synced :: "nat \<Rightarrow> nat"
  dk_cut :: "u8 list option"
  dk_snapshot :: "index_snapshot option"
  dk_meta :: "applied_meta option"
  dk_pos :: "nat option"

record 'n collection =
  co_disk :: disk
  co_com :: "'n committed_state"
  co_pending :: "(nat \<times> 'n staged_apply) list"
  co_staged_inline :: nat
  co_applied_lsn :: nat
  co_durable_lsn :: nat
  co_handle :: nat
  co_wal_id :: nat
  co_wal_size :: nat
  co_last_lsn :: nat
  co_last_term :: nat
  co_recent :: recent_frames
  co_fence :: "wal_cut option"
  co_released :: bool
  co_recorded :: bool
  co_saved :: nat
  co_rich_saved :: nat
  co_db_next_lsn :: nat
  co_db_last_term :: nat
  co_db_durable_lsn :: nat

text \<open>What the operations take from outside: the entry encoding, the checksum, the numbers and the cache limits.\<close>

record 'n env =
  ev_ser :: "'n log_entry \<Rightarrow> u8 list"
  ev_de :: "u8 list \<Rightarrow> 'n log_entry option"
  ev_crc :: checksum
  ev_f64 :: "'n numbers"
  ev_cache :: read_cache_config

section \<open>Recent frames\<close>

definition RECENT_FRAMES :: nat where "RECENT_FRAMES = 4096"

definition rf_new :: "nat \<Rightarrow> recent_frames" where
  "rf_new tail = \<lparr>rf_floor = tail, rf_spots = []\<rparr>"

definition rf_push :: "frame_spot \<Rightarrow> recent_frames \<Rightarrow> recent_frames" where
  "rf_push spot r =
     (if rf_spots r \<noteq> [] \<and> fs_lsn (last (rf_spots r)) \<ge> fs_lsn spot then rf_new (fs_lsn spot)
      else if length (rf_spots r) = RECENT_FRAMES
      then \<lparr>rf_floor = (case rf_spots r of oldest # _ \<Rightarrow> fs_lsn oldest | [] \<Rightarrow> rf_floor r), rf_spots = tl (rf_spots r) @ [spot]\<rparr>
      else r\<lparr>rf_spots := rf_spots r @ [spot]\<rparr>)"

definition rf_cut :: "nat \<Rightarrow> recent_frames \<Rightarrow> recent_frames" where
  "rf_cut prev_lsn r =
     \<lparr>rf_floor = min (rf_floor r) prev_lsn, rf_spots = rev (dropWhile (\<lambda>s. fs_lsn s > prev_lsn) (rev (rf_spots r)))\<rparr>"

definition rf_range :: "nat \<Rightarrow> nat \<Rightarrow> recent_frames \<Rightarrow> frame_spot list option" where
  "rf_range after_lsn up_to_lsn r =
     (if after_lsn < rf_floor r then None
      else Some (takeWhile (\<lambda>s. fs_lsn s \<le> up_to_lsn) (dropWhile (\<lambda>s. fs_lsn s \<le> after_lsn) (rf_spots r))))"

section \<open>Inline accounting\<close>

definition inline_resident :: "'n collection \<Rightarrow> nat" where
  "inline_resident c = cs_inline_bytes (co_com c) + co_staged_inline c"

definition build_entry :: "'n env \<Rightarrow> nat \<Rightarrow> nat \<Rightarrow> nat \<Rightarrow> nat \<Rightarrow> u8 list \<Rightarrow> 'n collection \<Rightarrow> index_entry" where
  "build_entry ev wal_id offset lsn term payload c =
     (let len = length payload;
          inline = (if len \<le> inline_max_value_bytes (ev_cache ev) \<and> inline_resident c + len \<le> inline_budget_bytes (ev_cache ev)
                    then Some payload else None);
          (ts, expire_at) = (case ev_de ev payload of Some (Put _ _ _ ts expire_at) \<Rightarrow> (ts, expire_at) | _ \<Rightarrow> (0, None))
      in \<lparr>ie_wal_id = wal_id, ie_offset = offset, ie_len = len, ie_inline = inline, ie_lsn = lsn, ie_term = term,
          ie_ts = ts, ie_expire_at = expire_at\<rparr>)"

definition reserve_staged_entry ::
  "'n env \<Rightarrow> nat \<Rightarrow> nat \<Rightarrow> nat \<Rightarrow> nat \<Rightarrow> u8 list \<Rightarrow> 'n collection \<Rightarrow> index_entry \<times> 'n collection" where
  "reserve_staged_entry ev wal_id offset lsn term payload c =
     (let entry = build_entry ev wal_id offset lsn term payload c
      in (entry, c\<lparr>co_staged_inline := co_staged_inline c + inline_bytes entry\<rparr>))"

fun staged_bytes :: "'n staged_effect \<Rightarrow> nat" where
  "staged_bytes (SPut _ entry _) = inline_bytes entry"
| "staged_bytes _ = 0"

definition release_staged :: "'n staged_effect \<Rightarrow> 'n collection \<Rightarrow> 'n collection" where
  "release_staged effect c = c\<lparr>co_staged_inline := co_staged_inline c - staged_bytes effect\<rparr>"

definition apply_index_put :: "string \<Rightarrow> index_entry \<Rightarrow> 'n committed_state \<Rightarrow> 'n committed_state" where
  "apply_index_put key entry c =
     (let old = bm_get str_cmp (cs_index c) key;
          added = inline_bytes entry;
          expires = (ie_expire_at entry \<noteq> None);
          replaced = (case old of Some e0 \<Rightarrow> inline_bytes e0 | None \<Rightarrow> 0);
          was_expiring = (case old of Some e0 \<Rightarrow> ie_expire_at e0 \<noteq> None | None \<Rightarrow> False)
      in c\<lparr>cs_index := bm_insert str_cmp key entry (cs_index c),
           cs_inline_bytes := (if added \<ge> replaced then cs_inline_bytes c + (added - replaced)
                               else cs_inline_bytes c - (replaced - added)),
           cs_expiring := (if expires \<and> \<not> was_expiring then cs_expiring c + 1
                           else if was_expiring \<and> \<not> expires then cs_expiring c - 1 else cs_expiring c)\<rparr>)"

definition apply_index_remove :: "string \<Rightarrow> 'n committed_state \<Rightarrow> 'n committed_state" where
  "apply_index_remove key c =
     (case bm_get str_cmp (cs_index c) key of
        Some old \<Rightarrow>
          c\<lparr>cs_index := bm_remove str_cmp key (cs_index c), cs_inline_bytes := cs_inline_bytes c - inline_bytes old,
            cs_expiring := (if ie_expire_at old \<noteq> None then cs_expiring c - 1 else cs_expiring c)\<rparr>
      | None \<Rightarrow> c)"

definition clear_index :: "'n committed_state \<Rightarrow> 'n committed_state" where
  "clear_index c = c\<lparr>cs_index := [], cs_inline_bytes := 0, cs_expiring := 0\<rparr>"

section \<open>Staging\<close>

definition overlay_step :: "index_spec list \<Rightarrow> 'n staged_apply \<Rightarrow> index_spec list" where
  "overlay_step specs staged =
     (case sa_effect staged of SDefineIndex change \<Rightarrow> change_apply_to change specs | SClear \<Rightarrow> [] | _ \<Rightarrow> specs)"

definition overlay_index_specs :: "index_spec list \<Rightarrow> (nat \<times> 'n staged_apply) list \<Rightarrow> index_spec list" where
  "overlay_index_specs specs pending = foldl overlay_step specs (map snd pending)"

definition active_index_specs :: "'n collection \<Rightarrow> index_spec list" where
  "active_index_specs c = overlay_index_specs (cs_specs (co_com c)) (co_pending c)"

definition staged_of ::
  "'n env \<Rightarrow> nat \<Rightarrow> nat \<Rightarrow> 'n log_entry \<Rightarrow> nat \<Rightarrow> nat \<Rightarrow> u8 list \<Rightarrow> 'n collection \<Rightarrow> 'n staged_effect \<times> 'n collection" where
  "staged_of ev lsn term entry wal_id offset payload c =
     (case entry of
        Put _ key val _ _ \<Rightarrow>
          (case reserve_staged_entry ev wal_id offset lsn term payload c of
             (e, c') \<Rightarrow> (SPut key e (index_values (active_index_specs c) val), c'))
      | Del _ key _ \<Rightarrow> (SRemove key, c)
      | Barrier _ \<Rightarrow> (SNothing, c)
      | Drop _ \<Rightarrow> (SClear, c)
      | Config config _ \<Rightarrow> (SConfigure (canonicalized config), c)
      | Handover handover _ \<Rightarrow> (SRecordHandover handover, c)
      | Index change _ \<Rightarrow> (SDefineIndex change, c)
      | Ttl ttl_secs _ \<Rightarrow> (SSetTtl ttl_secs, c))"

definition stage_appended ::
  "'n env \<Rightarrow> nat \<Rightarrow> nat \<Rightarrow> 'n log_entry \<Rightarrow> nat \<Rightarrow> nat \<Rightarrow> u8 list \<Rightarrow> 'n collection \<Rightarrow> 'n collection" where
  "stage_appended ev lsn term entry wal_id offset payload c =
     (case staged_of ev lsn term entry wal_id offset payload c of
        (effect, c1) \<Rightarrow>
          (let c2 = c1\<lparr>co_pending := bm_insert cmp_lin lsn \<lparr>sa_wal_id = wal_id, sa_offset = offset, sa_term = term,
                          sa_effect = effect, sa_migration = is_migration entry\<rparr> (co_pending c1)\<rparr>
           in case bm_get cmp_lin (co_pending c1) lsn of
                Some old \<Rightarrow> release_staged (sa_effect old) c2
              | None \<Rightarrow> c2))"

definition staged_term :: "'n collection \<Rightarrow> nat \<Rightarrow> nat option" where
  "staged_term c lsn = map_option sa_term (bm_get cmp_lin (co_pending c) lsn)"

definition pending_floor :: "'n collection \<Rightarrow> (nat \<times> nat) option" where
  "pending_floor c = (case co_pending c of (_, s) # _ \<Rightarrow> Some (sa_wal_id s, sa_offset s) | [] \<Rightarrow> None)"

definition drop_pending_above :: "nat \<Rightarrow> 'n collection \<Rightarrow> 'n collection" where
  "drop_pending_above prev_lsn c =
     foldl (\<lambda>c (lsn, staged). release_staged (sa_effect staged) (c\<lparr>co_pending := bm_remove cmp_lin lsn (co_pending c)\<rparr>)) c
       (filter (\<lambda>(lsn, _). lsn > prev_lsn) (co_pending c))"

section \<open>The watermark\<close>

text \<open>
  Which of the watermark writes succeed. \<open>pi_pos\<close> is None when the position file could not be opened.
\<close>

record persist_io =
  pi_pos :: "bool option"
  pi_meta :: bool

definition applied_meta_of :: "'n collection \<Rightarrow> applied_meta" where
  "applied_meta_of c =
     \<lparr>am_applied_lsn = co_applied_lsn c, am_dropped = cs_dropped (co_com c), am_config = cs_config (co_com c),
      am_handover = cs_handover (co_com c), am_indexes = cs_specs (co_com c), am_ttl_secs = cs_ttl (co_com c)\<rparr>"

definition persist_watermark_full :: "persist_io \<Rightarrow> 'n collection \<Rightarrow> (io_error, unit) result \<times> 'n collection" where
  "persist_watermark_full io c =
     (if \<not> pi_meta io then (Err IoFailed, c)
      else (Ok (), c\<lparr>co_disk := (co_disk c)\<lparr>dk_meta := Some (applied_meta_of c)\<rparr>,
                     co_rich_saved := cs_rich_gen (co_com c), co_saved := max (co_saved c) (co_applied_lsn c)\<rparr>))"

definition record_watermark_once :: "persist_io \<Rightarrow> 'n collection \<Rightarrow> (io_error, unit) result \<times> 'n collection" where
  "record_watermark_once io c =
     (if co_recorded c then (Ok (), c)
      else (case persist_watermark_full io c of
              (Err e, c') \<Rightarrow> (Err e, c')
            | (Ok _, c') \<Rightarrow> (Ok (), c'\<lparr>co_recorded := True\<rparr>)))"

definition persist_watermark :: "persist_io \<Rightarrow> nat \<Rightarrow> 'n collection \<Rightarrow> (io_error, unit) result \<times> 'n collection" where
  "persist_watermark io through c =
     (if co_saved c \<ge> through \<and> cs_rich_gen (co_com c) = co_rich_saved c then (Ok (), c)
      else if cs_rich_gen (co_com c) \<noteq> co_rich_saved c then persist_watermark_full io c
      else if pi_pos io = Some True
      then (Ok (), c\<lparr>co_disk := (co_disk c)\<lparr>dk_pos := Some (co_applied_lsn c)\<rparr>, co_saved := max (co_saved c) (co_applied_lsn c)\<rparr>)
      else persist_watermark_full io c)"

definition recorded_watermark :: "disk \<Rightarrow> nat option" where
  "recorded_watermark d =
     map_option (\<lambda>m. max (am_applied_lsn m) (case dk_pos d of Some p \<Rightarrow> p | None \<Rightarrow> 0)) (dk_meta d)"

definition flush_watermark_full :: "persist_io \<Rightarrow> 'n collection \<Rightarrow> (io_error, unit) result \<times> 'n collection" where
  "flush_watermark_full io c = persist_watermark_full io c"

section \<open>Applying\<close>

datatype change_op = Insert | Update

datatype pending_change = Wrote nat change_op string index_entry | Gone nat string | Dropped nat

definition note_rich :: "bool \<Rightarrow> 'n committed_state \<Rightarrow> 'n committed_state" where
  "note_rich changed c = (if changed then c\<lparr>cs_rich_gen := cs_rich_gen c + 1\<rparr> else c)"

fun apply_effect :: "'n numbers \<Rightarrow> 'n staged_effect \<Rightarrow> 'n committed_state \<Rightarrow> 'n committed_state" where
  "apply_effect as_f64 (SPut key entry indexed) c =
     (let c1 = apply_index_put key entry c
      in (note_rich (cs_dropped c1) c1)\<lparr>cs_secondary := ix_put as_f64 key indexed (cs_secondary c1), cs_dropped := False\<rparr>)"
| "apply_effect as_f64 (SRemove key) c =
     (let c1 = apply_index_remove key c
      in (note_rich (cs_dropped c1) c1)\<lparr>cs_secondary := ix_remove as_f64 key (cs_secondary c1), cs_dropped := False\<rparr>)"
| "apply_effect as_f64 SNothing c = c"
| "apply_effect as_f64 SClear c =
     (let c1 = (clear_index c)\<lparr>cs_secondary := ix_clear_all (cs_secondary c)\<rparr>;
          c2 = (note_rich (cs_specs c1 \<noteq> []) c1)\<lparr>cs_specs := []\<rparr>;
          c3 = (note_rich (cs_ttl c2 \<noteq> None) c2)\<lparr>cs_ttl := None\<rparr>
      in (note_rich (\<not> cs_dropped c3) c3)\<lparr>cs_dropped := True\<rparr>)"
| "apply_effect as_f64 (SDefineIndex change) c =
     (note_rich True c)\<lparr>cs_secondary := ix_apply_change change (cs_secondary c), cs_specs := change_apply_to change (cs_specs c)\<rparr>"
| "apply_effect as_f64 (SSetTtl ttl_secs) c = (note_rich (cs_ttl c \<noteq> ttl_secs) c)\<lparr>cs_ttl := ttl_secs\<rparr>"
| "apply_effect as_f64 (SConfigure config) c = (note_rich True c)\<lparr>cs_config := Some config\<rparr>"
| "apply_effect as_f64 (SRecordHandover handover) c = (note_rich True c)\<lparr>cs_handover := Some handover\<rparr>"

definition change_of :: "bool \<Rightarrow> 'n committed_state \<Rightarrow> nat \<times> 'n staged_apply \<Rightarrow> pending_change list" where
  "change_of watched c ls =
     (case ls of
        (lsn, staged) \<Rightarrow>
          if \<not> (watched \<and> \<not> sa_migration staged) then []
          else (case sa_effect staged of
                  SPut key entry _ \<Rightarrow> [Wrote lsn (if bm_get str_cmp (cs_index c) key \<noteq> None then Update else Insert) key entry]
                | SRemove key \<Rightarrow> if bm_get str_cmp (cs_index c) key \<noteq> None then [Gone lsn key] else []
                | SClear \<Rightarrow> [Dropped lsn]
                | _ \<Rightarrow> []))"

definition apply_staged ::
  "'n numbers \<Rightarrow> bool \<Rightarrow> pending_change list \<times> 'n collection \<Rightarrow> nat \<times> 'n staged_apply \<Rightarrow> pending_change list \<times> 'n collection" where
  "apply_staged as_f64 watched acc ls =
     (case acc of
        (changes, c) \<Rightarrow>
          (changes @ change_of watched (co_com c) ls,
           release_staged (sa_effect (snd ls)) (c\<lparr>co_com := apply_effect as_f64 (sa_effect (snd ls)) (co_com c)\<rparr>)))"

text \<open>The batch, before its watermark is persisted: the changes to publish, the number of frames, the new state.\<close>

definition apply_batch :: "'n numbers \<Rightarrow> bool \<Rightarrow> nat \<Rightarrow> 'n collection \<Rightarrow> pending_change list \<times> nat \<times> 'n collection" where
  "apply_batch as_f64 watched committed_lsn c =
     (let ready = filter (\<lambda>(lsn, _). lsn \<le> committed_lsn) (co_pending c);
          c1 = c\<lparr>co_pending := filter (\<lambda>(lsn, _). lsn > committed_lsn) (co_pending c)\<rparr>
      in case foldl (apply_staged as_f64 watched) ([], c1) ready of
           (changes, c2) \<Rightarrow> (changes, length ready, c2\<lparr>co_applied_lsn := max (co_applied_lsn c2) committed_lsn\<rparr>))"

definition apply_committed ::
  "'n env \<Rightarrow> persist_io \<Rightarrow> bool \<Rightarrow> nat \<Rightarrow> 'n collection \<Rightarrow> (io_error, nat) result \<times> pending_change list \<times> 'n collection" where
  "apply_committed ev io watched committed_lsn c =
     (case apply_batch (ev_f64 ev) watched committed_lsn c of
        (changes, ready_len, c1) \<Rightarrow>
          (case persist_watermark io committed_lsn c1 of
             (Ok _, c2) \<Rightarrow> (Ok ready_len, changes, c2)
           | (Err e, c2) \<Rightarrow> (Err e, changes, c2)))"

end
