(* ===== verification/Wal.thy ===== *)
theory Wal
  imports Store
begin

text \<open>
  \<^verbatim>\<open>src/src/storage/wal.rs\<close>, with the opening and the reads of \<^verbatim>\<open>src/src/storage/collection.rs\<close>: appending an entry,
  applying a replicated frame, truncating a replaced tail behind a recorded cut, replaying the log at
  boot, and reading a document back from the frame its index entry names.
\<close>

section \<open>Files\<close>

definition WAL_ROTATION_LIMIT :: nat where "WAL_ROTATION_LIMIT = 50 * 1024 * 1024"

definition file_of :: "nat \<Rightarrow> (nat \<times> u8 list) list \<Rightarrow> u8 list" where
  "file_of wal_id files = (case bm_get cmp_lin files wal_id of Some bytes \<Rightarrow> bytes | None \<Rightarrow> [])"

definition write_file :: "nat \<Rightarrow> u8 list \<Rightarrow> 'n collection \<Rightarrow> 'n collection" where
  "write_file wal_id bytes c =
     c\<lparr>co_disk := (co_disk c)\<lparr>dk_files := bm_insert cmp_lin wal_id (file_of wal_id (dk_files (co_disk c)) @ bytes) (dk_files (co_disk c))\<rparr>\<rparr>"

definition set_len :: "nat \<Rightarrow> u8 list \<Rightarrow> u8 list" where
  "set_len n bytes = take n bytes @ replicate (n - length bytes) 0"

text \<open>
  The writer's handle (\<open>co_handle\<close>, the id of the file it has open) and its current id (\<open>co_wal_id\<close>) are two
  fields: \<^verbatim>\<open>open_next_wal\<close> counts the id up before it opens the file, and keeps the old handle if that fails.
\<close>

definition open_next_wal :: "bool \<Rightarrow> 'n collection \<Rightarrow> (io_error, unit) result \<times> 'n collection" where
  "open_next_wal opens c =
     (let c1 = c\<lparr>co_wal_id := co_wal_id c + 1\<rparr>
      in if opens then (Ok (), (write_file (co_wal_id c1) [] c1)\<lparr>co_handle := co_wal_id c1, co_wal_size := 0\<rparr>) else (Err IoFailed, c1))"

section \<open>Truncation\<close>

text \<open>
  The answers to one truncation: whether the snapshot's tail could be rewound and the cut recorded, which
  of the later WAL files were emptied before a failure (None if there was none), whether the file could be
  reopened, and whether the record was removed.
\<close>

record cut_io =
  ct_rewind_index :: bool
  ct_record :: bool
  ct_truncate :: "(nat \<Rightarrow> bool) option"
  ct_reopen :: bool
  ct_clear :: bool

definition empty_above :: "(nat \<Rightarrow> bool) \<Rightarrow> nat \<Rightarrow> disk \<Rightarrow> disk" where
  "empty_above emptied wal_id d =
     d\<lparr>dk_files := map (\<lambda>(wid, bytes). (wid, if wid > wal_id \<and> emptied wid then [] else bytes)) (dk_files d),
       dk_synced := (\<lambda>wid. if wid > wal_id \<and> emptied wid then 0 else dk_synced d wid)\<rparr>"

definition truncate_files :: "(nat \<Rightarrow> bool) option \<Rightarrow> wal_cut \<Rightarrow> disk \<Rightarrow> (io_error, unit) result \<times> disk" where
  "truncate_files fails wc d =
     (case fails of
        Some emptied \<Rightarrow> (Err IoFailed, empty_above emptied (wc_wal_id wc) d)
      | None \<Rightarrow>
          (let d1 = empty_above (\<lambda>_. True) (wc_wal_id wc) d
           in case bm_get cmp_lin (dk_files d1) (wc_wal_id wc) of
                None \<Rightarrow> (Err NotFound, d1)
              | Some bytes \<Rightarrow>
                  (Ok (), d1\<lparr>dk_files := bm_insert cmp_lin (wc_wal_id wc) (set_len (wc_offset wc) bytes) (dk_files d1),
                            dk_synced := (dk_synced d1)(wc_wal_id wc := wc_offset wc)\<rparr>)))"

definition shrink_wal_to :: "cut_io \<Rightarrow> wal_cut \<Rightarrow> 'n collection \<Rightarrow> (io_error, unit) result \<times> 'n collection" where
  "shrink_wal_to io wc c =
     (case truncate_files (ct_truncate io) wc (co_disk c) of
        (Err e, d) \<Rightarrow> (Err e, c\<lparr>co_disk := d\<rparr>)
      | (Ok _, d) \<Rightarrow>
          if \<not> ct_reopen io then (Err IoFailed, c\<lparr>co_disk := d\<rparr>)
          else (Ok (), c\<lparr>co_disk := d, co_handle := wc_wal_id wc, co_wal_id := wc_wal_id wc, co_wal_size := wc_offset wc\<rparr>))"

definition apply_cut :: "cut_io \<Rightarrow> wal_cut \<Rightarrow> 'n collection \<Rightarrow> (io_error, unit) result \<times> 'n collection" where
  "apply_cut io wc c =
     (case shrink_wal_to io wc c of
        (Err e, c1) \<Rightarrow> (Err e, c1\<lparr>co_fence := Some wc\<rparr>)
      | (Ok _, c1) \<Rightarrow>
          if \<not> ct_clear io then (Err IoFailed, c1\<lparr>co_fence := Some wc\<rparr>)
          else (Ok (), c1\<lparr>co_disk := (co_disk c1)\<lparr>dk_cut := None\<rparr>, co_last_lsn := wc_prev_lsn wc, co_last_term := wc_prev_term wc,
                          co_recent := rf_cut (wc_prev_lsn wc) (co_recent c1), co_durable_lsn := wc_prev_lsn wc,
                          co_fence := None\<rparr>))"

definition heal_fenced_cut :: "cut_io \<Rightarrow> 'n collection \<Rightarrow> (io_error, unit) result \<times> 'n collection" where
  "heal_fenced_cut io c =
     (case co_fence c of
        None \<Rightarrow> (Ok (), c)
      | Some wc \<Rightarrow> apply_cut io wc (drop_pending_above (wc_prev_lsn wc) c))"

definition rewind_index_tail :: "bool \<Rightarrow> nat \<Rightarrow> nat \<Rightarrow> 'n collection \<Rightarrow> (io_error, unit) result \<times> 'n collection" where
  "rewind_index_tail writes lsn term c =
     (case dk_snapshot (co_disk c) of
        None \<Rightarrow> (Ok (), c)
      | Some snapshot \<Rightarrow>
          if is_last_lsn snapshot \<le> lsn then (Ok (), c)
          else if \<not> writes then (Err IoFailed, c)
          else (Ok (), c\<lparr>co_disk := (co_disk c)\<lparr>dk_snapshot := Some (snapshot\<lparr>is_last_lsn := lsn, is_last_term := term\<rparr>)\<rparr>\<rparr>))"

definition wal_rewind_to :: "cut_io \<Rightarrow> nat \<Rightarrow> nat \<Rightarrow> 'n collection \<Rightarrow> (io_error, unit option) result \<times> 'n collection" where
  "wal_rewind_to io prev_lsn prev_term c =
     (let applied = co_applied_lsn c;
          held = bm_get cmp_lin (co_pending c) prev_lsn;
          doomed = filter (\<lambda>(lsn, _). lsn > prev_lsn) (co_pending c)
      in if prev_lsn < applied then (Ok None, c)
         else if (case held of Some staged \<Rightarrow> sa_term staged \<noteq> prev_term | None \<Rightarrow> prev_lsn \<noteq> applied) then (Ok None, c)
         else (case doomed of
                 [] \<Rightarrow> (Ok None, c)
               | (_, first) # _ \<Rightarrow>
                   (let wc = \<lparr>wc_wal_id = sa_wal_id first, wc_offset = sa_offset first, wc_prev_lsn = prev_lsn, wc_prev_term = prev_term\<rparr>
                    in case rewind_index_tail (ct_rewind_index io) prev_lsn prev_term c of
                         (Err e, c1) \<Rightarrow> (Err e, c1)
                       | (Ok _, c1) \<Rightarrow>
                           if \<not> ct_record io then (Err IoFailed, c1)
                           else (case apply_cut io wc (drop_pending_above prev_lsn (c1\<lparr>co_disk := (co_disk c1)\<lparr>dk_cut := Some (wc_encode wc)\<rparr>\<rparr>)) of
                                   (Err e, c2) \<Rightarrow> (Err e, c2)
                                 | (Ok _, c2) \<Rightarrow> (Ok (Some ()), c2)))))"

section \<open>Appending\<close>

text \<open>
  The answers to one append: the watermark record, a fenced cut, the sync and open of a rotation, how many
  bytes were written before a failure (None if there was none), and the rotation past a torn frame.
\<close>

record append_io =
  ap_meta :: persist_io
  ap_cut :: cut_io
  ap_sync :: bool
  ap_open :: bool
  ap_write :: "nat option"
  ap_rotate :: bool

text \<open>A sync of the writer's handle makes the whole of its file safe.\<close>

definition note_synced :: "'n collection \<Rightarrow> 'n collection" where
  "note_synced c = c\<lparr>co_disk := (co_disk c)\<lparr>dk_synced := (dk_synced (co_disk c))(co_handle c := length (file_of (co_handle c) (dk_files (co_disk c))))\<rparr>\<rparr>"

definition rotate_if_full :: "append_io \<Rightarrow> 'n collection \<Rightarrow> (io_error, unit) result \<times> 'n collection" where
  "rotate_if_full io c =
     (if co_wal_size c < WAL_ROTATION_LIMIT then (Ok (), c)
      else if \<not> ap_sync io then (Err IoFailed, c)
      else open_next_wal (ap_open io) (note_synced c))"

definition write_frame :: "append_io \<Rightarrow> u8 list \<Rightarrow> 'n collection \<Rightarrow> (io_error, unit) result \<times> 'n collection" where
  "write_frame io frame c =
     (case ap_write io of
        Some n \<Rightarrow> (Err IoFailed, snd (open_next_wal (ap_rotate io) (write_file (co_handle c) (take n frame) c)))
      | None \<Rightarrow> (Ok (), write_file (co_handle c) frame c))"

definition note_appended :: "'n env \<Rightarrow> frame_header \<Rightarrow> 'n log_entry \<Rightarrow> u8 list \<Rightarrow> nat \<Rightarrow> nat \<Rightarrow> 'n collection \<Rightarrow> 'n collection" where
  "note_appended ev h entry payload wal_id offset c =
     stage_appended ev (fh_lsn h) (fh_term h) entry wal_id offset payload
       (c\<lparr>co_wal_size := offset + HEADER_LEN + length payload, co_last_lsn := fh_lsn h, co_last_term := fh_term h,
          co_recent := rf_push \<lparr>fs_lsn = fh_lsn h, fs_term = fh_term h, fs_wal_id = wal_id, fs_offset = offset\<rparr> (co_recent c),
          co_db_next_lsn := max (co_db_next_lsn c) (fh_lsn h), co_db_last_term := fh_term h\<rparr>)"

definition wal_append ::
  "'n env \<Rightarrow> append_io \<Rightarrow> 'n log_entry \<Rightarrow> nat \<Rightarrow> 'n collection \<Rightarrow> (io_error, u8 list \<times> nat \<times> nat \<times> nat) result \<times> 'n collection" where
  "wal_append ev io entry term c =
     (let payload = ev_ser ev entry
      in if length payload > MAX_RECORD_SIZE then (Err InvalidInput, c)
         else (case record_watermark_once (ap_meta io) c of
           (Err e, c1) \<Rightarrow> (Err e, c1)
         | (Ok _, c1) \<Rightarrow>
             if co_released c1 then (Err NotFound, c1)
             else (case heal_fenced_cut (ap_cut io) c1 of
               (Err e, c2) \<Rightarrow> (Err e, c2)
             | (Ok _, c2) \<Rightarrow>
                 (case rotate_if_full io c2 of
                   (Err e, c3) \<Rightarrow> (Err e, c3)
                 | (Ok _, c3) \<Rightarrow>
                     (let lsn = co_db_next_lsn c3 + 1;
                          h = \<lparr>fh_len = length payload, fh_crc = unat (ev_crc ev payload), fh_term = term, fh_lsn = lsn,
                               fh_prev_lsn = co_last_lsn c3, fh_prev_term = co_last_term c3\<rparr>;
                          frame = fh_encode h @ payload
                      in case write_frame io frame (c3\<lparr>co_db_next_lsn := lsn\<rparr>) of
                           (Err e, c4) \<Rightarrow> (Err e, c4)
                         | (Ok _, c4) \<Rightarrow>
                             (Ok (frame, co_wal_id c4, co_wal_size c4, lsn),
                              note_appended ev h entry payload (co_wal_id c4) (co_wal_size c4) c4))))))"

definition append_raw_frame ::
  "'n env \<Rightarrow> append_io \<Rightarrow> u8 list \<Rightarrow> 'n collection \<Rightarrow> (io_error, replica_apply) result \<times> 'n collection" where
  "append_raw_frame ev io frame_bytes c =
     (case fh_parse frame_bytes of
        None \<Rightarrow> (Err InvalidData, c)
      | Some h \<Rightarrow>
          if length frame_bytes < HEADER_LEN + fh_len h then (Err InvalidData, c)
          else (let payload = slice HEADER_LEN (HEADER_LEN + fh_len h) frame_bytes
                in if \<not> payload_valid (ev_crc ev) h payload then (Err InvalidData, c)
                   else (case ev_de ev payload of
                     None \<Rightarrow> (Err InvalidData, c)
                   | Some entry \<Rightarrow>
                       (case record_watermark_once (ap_meta io) c of
                         (Err e, c1) \<Rightarrow> (Err e, c1)
                       | (Ok _, c1) \<Rightarrow>
                           if co_released c1 then (Err NotFound, c1)
                           else (case heal_fenced_cut (ap_cut io) c1 of
                             (Err e, c2) \<Rightarrow> (Err e, c2)
                           | (Ok _, c2) \<Rightarrow>
                               (let tail_lsn = co_last_lsn c2; tail_term = co_last_term c2
                                in if fh_lsn h \<le> tail_lsn \<and> (fh_lsn h \<le> co_applied_lsn c2 \<or> staged_term c2 (fh_lsn h) = Some (fh_term h))
                                   then (Ok (Duplicate tail_lsn), c2)
                                   else if fh_prev_lsn h > tail_lsn then (Ok (Gap tail_lsn tail_term), c2)
                                   else (case (if fh_prev_lsn h < tail_lsn then wal_rewind_to (ap_cut io) (fh_prev_lsn h) (fh_prev_term h) c2
                                               else (Ok (if fh_prev_term h \<noteq> tail_term then None else Some ()), c2)) of
                                     (Err e, c3) \<Rightarrow> (Err e, c3)
                                   | (Ok None, c3) \<Rightarrow> (Ok (Divergent tail_lsn tail_term), c3)
                                   | (Ok (Some _), c3) \<Rightarrow>
                                       (case rotate_if_full io c3 of
                                         (Err e, c4) \<Rightarrow> (Err e, c4)
                                       | (Ok _, c4) \<Rightarrow>
                                           (case write_frame io (take (HEADER_LEN + fh_len h) frame_bytes) c4 of
                                             (Err e, c5) \<Rightarrow> (Err e, c5)
                                           | (Ok _, c5) \<Rightarrow>
                                               (Ok (Applied (fh_lsn h)),
                                                note_appended ev h entry payload (co_wal_id c5) (co_wal_size c5) c5))))))))))"

definition sync_wal :: "bool \<Rightarrow> 'n collection \<Rightarrow> (io_error, nat) result \<times> 'n collection" where
  "sync_wal syncs c =
     (if \<not> syncs then (Err IoFailed, c)
      else (Ok (co_last_lsn c), (note_synced c)\<lparr>co_durable_lsn := max (co_durable_lsn c) (co_last_lsn c),
                                 co_db_durable_lsn := max (co_db_durable_lsn c) (co_last_lsn c)\<rparr>))"

section \<open>Replay\<close>

record 'n replay_state =
  rp_index :: "(string \<times> index_entry) list"
  rp_pending :: "(nat \<times> 'n staged_apply) list"
  rp_inline_used :: nat
  rp_staged_inline :: nat
  rp_dropped :: bool
  rp_config :: "configuration option"
  rp_handover :: "handover_record option"
  rp_indexes :: "index_spec list"
  rp_ttl_secs :: "nat option"
  rp_max_lsn :: nat
  rp_max_term :: nat

definition note_max :: "frame_header \<Rightarrow> 'n replay_state \<Rightarrow> 'n replay_state" where
  "note_max h st = (if fh_lsn h > rp_max_lsn st then st\<lparr>rp_max_lsn := fh_lsn h, rp_max_term := fh_term h\<rparr> else st)"

definition replay_entry :: "frame_header \<Rightarrow> u8 list \<Rightarrow> nat \<Rightarrow> nat \<Rightarrow> nat \<Rightarrow> nat option \<Rightarrow> read_cache_config \<Rightarrow> nat \<Rightarrow> index_entry" where
  "replay_entry h payload wal_id offset ts expire_at cache used =
     \<lparr>ie_wal_id = wal_id, ie_offset = offset, ie_len = fh_len h,
      ie_inline = (if fh_len h \<le> inline_max_value_bytes cache \<and> used + fh_len h \<le> inline_budget_bytes cache then Some payload else None),
      ie_lsn = fh_lsn h, ie_term = fh_term h, ie_ts = ts, ie_expire_at = expire_at\<rparr>"

definition replay_staged :: "read_cache_config \<Rightarrow> nat \<Rightarrow> nat \<Rightarrow> frame_header \<Rightarrow> u8 list \<Rightarrow> 'n log_entry \<Rightarrow> 'n replay_state \<Rightarrow> 'n replay_state" where
  "replay_staged cache wal_id offset h payload entry st =
     (let (effect, st') =
            (case entry of
               Put _ key val ts expire_at \<Rightarrow>
                 (let e = replay_entry h payload wal_id offset ts expire_at cache (rp_inline_used st + rp_staged_inline st)
                  in (SPut key e (index_values (rp_indexes st) val), st\<lparr>rp_staged_inline := rp_staged_inline st + inline_bytes e\<rparr>))
             | Del _ key _ \<Rightarrow> (SRemove key, st)
             | Barrier _ \<Rightarrow> (SNothing, st)
             | Drop _ \<Rightarrow> (SClear, st\<lparr>rp_indexes := []\<rparr>)
             | Config config _ \<Rightarrow> (SConfigure (canonicalized config), st)
             | Handover handover _ \<Rightarrow> (SRecordHandover handover, st)
             | Index change _ \<Rightarrow> (SDefineIndex change, st\<lparr>rp_indexes := change_apply_to change (rp_indexes st)\<rparr>)
             | Ttl ttl_secs _ \<Rightarrow> (SSetTtl ttl_secs, st))
      in st'\<lparr>rp_pending := bm_insert cmp_lin (fh_lsn h) \<lparr>sa_wal_id = wal_id, sa_offset = offset, sa_term = fh_term h,
               sa_effect = effect, sa_migration = is_migration entry\<rparr> (rp_pending st')\<rparr>)"

definition replay_applied :: "read_cache_config \<Rightarrow> nat \<Rightarrow> nat \<Rightarrow> frame_header \<Rightarrow> u8 list \<Rightarrow> 'n log_entry \<Rightarrow> 'n replay_state \<Rightarrow> 'n replay_state" where
  "replay_applied cache wal_id offset h payload entry st =
     (case entry of
        Put _ key _ ts expire_at \<Rightarrow>
          (let e = replay_entry h payload wal_id offset ts expire_at cache (rp_inline_used st);
               replaced = (case bm_get str_cmp (rp_index st) key of Some old \<Rightarrow> inline_bytes old | None \<Rightarrow> 0)
           in st\<lparr>rp_index := bm_insert str_cmp key e (rp_index st),
                 rp_inline_used := rp_inline_used st + inline_bytes e - replaced, rp_dropped := False\<rparr>)
      | Del _ key _ \<Rightarrow>
          (case bm_get str_cmp (rp_index st) key of
             Some old \<Rightarrow> st\<lparr>rp_index := bm_remove str_cmp key (rp_index st),
                           rp_inline_used := rp_inline_used st - inline_bytes old, rp_dropped := False\<rparr>
           | None \<Rightarrow> st\<lparr>rp_dropped := False\<rparr>)
      | Barrier _ \<Rightarrow> st
      | Drop _ \<Rightarrow> st\<lparr>rp_index := [], rp_inline_used := 0, rp_dropped := True, rp_indexes := [], rp_ttl_secs := None\<rparr>
      | Config config _ \<Rightarrow> st\<lparr>rp_config := Some config\<rparr>
      | Handover handover _ \<Rightarrow> st\<lparr>rp_handover := Some handover\<rparr>
      | Index change _ \<Rightarrow> st\<lparr>rp_indexes := change_apply_to change (rp_indexes st)\<rparr>
      | Ttl ttl_secs _ \<Rightarrow> st\<lparr>rp_ttl_secs := ttl_secs\<rparr>)"

definition replay_frame :: "'n env \<Rightarrow> nat option \<Rightarrow> nat \<Rightarrow> nat \<Rightarrow> frame_header \<Rightarrow> u8 list \<Rightarrow> 'n replay_state \<Rightarrow> 'n replay_state" where
  "replay_frame ev applied_through wal_id offset h payload st =
     (case ev_de ev payload of
        None \<Rightarrow> st
      | Some entry \<Rightarrow>
          note_max h
            (if (case applied_through of Some t \<Rightarrow> fh_lsn h > t | None \<Rightarrow> False)
             then replay_staged (ev_cache ev) wal_id offset h payload entry st
             else replay_applied (ev_cache ev) wal_id offset h payload entry st))"

text \<open>The next whole, valid frame at the head of the bytes, with the bytes after it.\<close>

definition next_frame :: "checksum \<Rightarrow> u8 list \<Rightarrow> (frame_header \<times> u8 list \<times> u8 list) option" where
  "next_frame crc bytes =
     (case fh_parse bytes of
        None \<Rightarrow> None
      | Some h \<Rightarrow>
          if fh_len h = 0 \<or> fh_len h > MAX_RECORD_SIZE then None
          else if length bytes < HEADER_LEN + fh_len h then None
          else (let payload = slice HEADER_LEN (HEADER_LEN + fh_len h) bytes
                in if \<not> payload_valid crc h payload then None
                   else Some (h, payload, drop (HEADER_LEN + fh_len h) bytes)))"

lemma next_frame_shorter: "next_frame crc bytes = Some (h, payload, rest) \<Longrightarrow> length rest < length bytes"
  by (auto simp: next_frame_def HEADER_LEN_def Let_def split: option.splits if_splits)

function replay_loop :: "'n env \<Rightarrow> nat option \<Rightarrow> nat \<Rightarrow> nat \<Rightarrow> u8 list \<Rightarrow> 'n replay_state \<Rightarrow> nat \<times> 'n replay_state" where
  "replay_loop ev applied_through wal_id offset bytes st =
     (case next_frame (ev_crc ev) bytes of
        None \<Rightarrow> (offset, st)
      | Some (h, payload, rest) \<Rightarrow>
          replay_loop ev applied_through wal_id (offset + HEADER_LEN + fh_len h) rest
            (replay_frame ev applied_through wal_id offset h payload st))"
  by pat_completeness auto
termination by (relation "measure (\<lambda>(_, _, _, _, bytes, _). length bytes)") (auto dest: next_frame_shorter)

declare replay_loop.simps [simp del]

text \<open>One file: the state after its frames, the file truncated to the last whole one, and its own tail.\<close>

definition replay_file_from ::
  "'n env \<Rightarrow> nat option \<Rightarrow> nat \<Rightarrow> nat \<Rightarrow> u8 list \<Rightarrow> 'n replay_state \<Rightarrow> u8 list \<times> (nat \<times> nat) \<times> 'n replay_state" where
  "replay_file_from ev applied_through wal_id start_offset bytes st =
     (let start = (if start_offset > length bytes then 0 else start_offset)
      in case replay_loop ev applied_through wal_id start (drop start bytes) (st\<lparr>rp_max_lsn := 0, rp_max_term := 0\<rparr>) of
           (valid_end, st') \<Rightarrow> (take valid_end bytes, (rp_max_lsn st', rp_max_term st'), st'))"

definition replay_file ::
  "'n env \<Rightarrow> nat option \<Rightarrow> index_snapshot option \<Rightarrow> (nat \<times> u8 list) list \<times> (nat \<times> nat) \<times> 'n replay_state \<Rightarrow> nat \<times> u8 list \<Rightarrow>
     (nat \<times> u8 list) list \<times> (nat \<times> nat) \<times> 'n replay_state" where
  "replay_file ev applied_through snapshot acc file =
     (case (acc, file) of
        ((files, tail, st), (wid, bytes)) \<Rightarrow>
          if (case snapshot of Some s \<Rightarrow> wid < is_last_wal_id s | None \<Rightarrow> False) then (files @ [(wid, bytes)], tail, st)
          else (let start = (case snapshot of Some s \<Rightarrow> if wid = is_last_wal_id s then is_last_offset s else 0 | None \<Rightarrow> 0)
                in case replay_file_from ev applied_through wid start bytes st of
                     (bytes', r, st') \<Rightarrow> (files @ [(wid, bytes')], if fst r \<noteq> 0 then r else tail, st')))"

definition complete_recorded :: "(nat \<Rightarrow> bool) option \<Rightarrow> bool \<Rightarrow> disk \<Rightarrow> (io_error, unit) result \<times> disk" where
  "complete_recorded fails clears d =
     (case Option.bind (dk_cut d) wc_decode of
        None \<Rightarrow> (Ok (), d)
      | Some wc \<Rightarrow>
          (case truncate_files fails wc d of
             (Err e, d1) \<Rightarrow> (Err e, d1)
           | (Ok _, d1) \<Rightarrow> if clears then (Ok (), d1\<lparr>dk_cut := None\<rparr>) else (Err IoFailed, d1)))"

text \<open>The replayed files, each cut to its last whole frame. Nothing here is synced.\<close>

definition with_files :: "(nat \<times> u8 list) list \<Rightarrow> disk \<Rightarrow> disk" where
  "with_files files d = d\<lparr>dk_files := files, dk_synced := (\<lambda>wid. min (dk_synced d wid) (length (file_of wid files)))\<rparr>"

definition seed_replay :: "disk \<Rightarrow> 'n replay_state" where
  "seed_replay d =
     (let meta = dk_meta d; map0 = (case dk_snapshot d of Some s \<Rightarrow> is_map s | None \<Rightarrow> [])
      in \<lparr>rp_index = map0, rp_pending = [], rp_inline_used = sum_list (map (inline_bytes \<circ> snd) map0), rp_staged_inline = 0,
          rp_dropped = (case meta of Some m \<Rightarrow> am_dropped m | None \<Rightarrow> False),
          rp_config = map_option canonicalized (Option.bind meta am_config),
          rp_handover = Option.bind meta am_handover,
          rp_indexes = (case meta of Some m \<Rightarrow> am_indexes m | None \<Rightarrow> []),
          rp_ttl_secs = Option.bind meta am_ttl_secs, rp_max_lsn = 0, rp_max_term = 0\<rparr>)"

definition opened_state :: "'n replay_state \<Rightarrow> 'n committed_state" where
  "opened_state st =
     \<lparr>cs_index = rp_index st, cs_dropped = rp_dropped st, cs_config = rp_config st, cs_handover = rp_handover st,
      cs_specs = rp_indexes st, cs_ttl = rp_ttl_secs st, cs_secondary = ix_seed (rp_indexes st), cs_inline_bytes = rp_inline_used st,
      cs_expiring = length (filter (\<lambda>(_, e). ie_expire_at e \<noteq> None) (rp_index st)), cs_rich_gen = 0\<rparr>"

text \<open>
  \<^verbatim>\<open>Collection::open\<close> over a directory, given the database's next LSN and last term. None of
  \<open>recorded_watermark\<close> is the unmanaged log that replays in full.
\<close>

definition open_collection ::
  "'n env \<Rightarrow> (nat \<Rightarrow> bool) option \<Rightarrow> bool \<Rightarrow> nat \<Rightarrow> nat \<Rightarrow> nat \<Rightarrow> disk \<Rightarrow> (io_error, 'n collection) result \<times> disk" where
  "open_collection ev fails clears db_next_lsn db_last_term db_durable_lsn disk0 =
     (case complete_recorded fails clears disk0 of
        (Err e, d) \<Rightarrow> (Err e, d)
      | (Ok _, d) \<Rightarrow>
          (let through = recorded_watermark d;
               tail0 = (case dk_snapshot d of Some s \<Rightarrow> (is_last_lsn s, is_last_term s) | None \<Rightarrow> (0, 0))
           in case foldl (replay_file ev through (dk_snapshot d)) ([], tail0, seed_replay d) (dk_files d) of
                (files, (max_lsn, max_term), st) \<Rightarrow>
                  if (case through of Some t \<Rightarrow> max_lsn > t | None \<Rightarrow> False) \<and> rp_pending st = []
                  then (Err InvalidData, with_files files d)
                  else (let wal_id = (case files of [] \<Rightarrow> 0 | _ \<Rightarrow> fst (last files)) + 1;
                            d' = with_files (files @ [(wal_id, [])]) d
                        in (Ok \<lparr>co_disk = d', co_com = opened_state st, co_pending = rp_pending st,
                                co_staged_inline = rp_staged_inline st,
                                co_applied_lsn = (case through of Some t \<Rightarrow> t | None \<Rightarrow> max_lsn), co_durable_lsn = max_lsn,
                                co_handle = wal_id, co_wal_id = wal_id, co_wal_size = 0, co_last_lsn = max_lsn,
                                co_last_term = max_term, co_recent = rf_new max_lsn, co_fence = None, co_released = False,
                                co_recorded = (through \<noteq> None), co_saved = (case through of Some t \<Rightarrow> t | None \<Rightarrow> 0),
                                co_rich_saved = 0, co_db_next_lsn = max db_next_lsn max_lsn,
                                co_db_last_term = (if max_lsn > db_next_lsn then max_term else db_last_term),
                                co_db_durable_lsn = db_durable_lsn\<rparr>, d'))))"

section \<open>Reading\<close>

text \<open>
  \<^verbatim>\<open>read_located\<close> looks the entry up again when its frame has gone, which only a compaction between the two
  can cause; within one step the entry is the same and the read's error stands.
\<close>

definition read_frame_payload :: "checksum \<Rightarrow> nat \<Rightarrow> nat \<Rightarrow> nat \<Rightarrow> 'n collection \<Rightarrow> (io_error, u8 list) result" where
  "read_frame_payload crc wal_id offset expected_len c =
     (let bytes = drop offset (file_of wal_id (dk_files (co_disk c)))
      in case fh_parse bytes of
           None \<Rightarrow> Err IoFailed
         | Some h \<Rightarrow>
             if fh_len h \<noteq> expected_len \<or> fh_len h = 0 \<or> fh_len h > MAX_RECORD_SIZE then Err InvalidData
             else if length bytes < HEADER_LEN + fh_len h then Err IoFailed
             else (let payload = slice HEADER_LEN (HEADER_LEN + fh_len h) bytes
                   in if payload_valid crc h payload then Ok payload else Err InvalidData))"

definition value_from_payload :: "'n env \<Rightarrow> u8 list \<Rightarrow> 'n jvalue option" where
  "value_from_payload ev payload = (case ev_de ev payload of Some (Put _ _ val _ _) \<Rightarrow> Some val | _ \<Rightarrow> None)"

definition read_entry :: "'n env \<Rightarrow> index_entry \<Rightarrow> 'n collection \<Rightarrow> (io_error, 'n jvalue option) result" where
  "read_entry ev entry c =
     (case ie_inline entry of
        Some payload \<Rightarrow> Ok (value_from_payload ev payload)
      | None \<Rightarrow> (case read_frame_payload (ev_crc ev) (ie_wal_id entry) (ie_offset entry) (ie_len entry) c of
                   Ok payload \<Rightarrow> Ok (value_from_payload ev payload)
                 | Err e \<Rightarrow> Err e))"

definition get_versioned :: "'n env \<Rightarrow> string \<Rightarrow> 'n collection \<Rightarrow> (io_error, ('n jvalue \<times> version) option) result" where
  "get_versioned ev key c =
     (if co_released c then Err NotFound
      else (case bm_get str_cmp (cs_index (co_com c)) key of
              None \<Rightarrow> Ok None
            | Some entry \<Rightarrow>
                (case read_entry ev entry c of
                   Ok val \<Rightarrow> Ok (map_option (\<lambda>v. (v, ie_version entry)) val)
                 | Err e \<Rightarrow> Err e)))"

definition staged_resolution :: "string \<Rightarrow> 'n collection \<Rightarrow> index_entry option option" where
  "staged_resolution key c = find_map (\<lambda>(_, s). resolve (sa_effect s) key) (rev (co_pending c))"

definition get_including_staged_versioned :: "'n env \<Rightarrow> string \<Rightarrow> 'n collection \<Rightarrow> (io_error, ('n jvalue \<times> version) option) result" where
  "get_including_staged_versioned ev key c =
     (if co_released c then Err NotFound
      else (case staged_resolution key c of
              Some None \<Rightarrow> Ok None
            | Some (Some entry) \<Rightarrow>
                (case read_entry ev entry c of
                   Ok val \<Rightarrow> Ok (map_option (\<lambda>v. (v, ie_version entry)) val)
                 | Err e \<Rightarrow> Err e)
            | None \<Rightarrow> get_versioned ev key c))"

definition exists_including_staged :: "string \<Rightarrow> 'n collection \<Rightarrow> bool" where
  "exists_including_staged key c =
     (case staged_resolution key c of Some e \<Rightarrow> e \<noteq> None | None \<Rightarrow> bm_get str_cmp (cs_index (co_com c)) key \<noteq> None)"

definition version_including_staged :: "string \<Rightarrow> 'n collection \<Rightarrow> version option" where
  "version_including_staged key c =
     (case staged_resolution key c of
        Some e \<Rightarrow> map_option ie_version e
      | None \<Rightarrow> map_option ie_version (bm_get str_cmp (cs_index (co_com c)) key))"

definition expire_at_including_staged :: "string \<Rightarrow> 'n collection \<Rightarrow> nat option" where
  "expire_at_including_staged key c =
     (case staged_resolution key c of
        Some e \<Rightarrow> Option.bind e ie_expire_at
      | None \<Rightarrow> Option.bind (bm_get str_cmp (cs_index (co_com c)) key) ie_expire_at)"

definition active_ttl_secs :: "'n collection \<Rightarrow> nat option" where
  "active_ttl_secs c =
     foldl (\<lambda>ttl (_, s). case sa_effect s of SSetTtl nxt \<Rightarrow> nxt | SClear \<Rightarrow> None | _ \<Rightarrow> ttl) (cs_ttl (co_com c)) (co_pending c)"

definition latest_config :: "'n collection \<Rightarrow> configuration option" where
  "latest_config c =
     (case find_map (\<lambda>(_, s). case sa_effect s of SConfigure cfg \<Rightarrow> Some cfg | _ \<Rightarrow> None) (rev (co_pending c)) of
        Some cfg \<Rightarrow> Some cfg
      | None \<Rightarrow> cs_config (co_com c))"

definition expired_keys :: "nat \<Rightarrow> (string \<Rightarrow> bool) \<Rightarrow> 'n collection \<Rightarrow> (string \<times> version) list" where
  "expired_keys now owned c =
     (if cs_ttl (co_com c) = None \<and> cs_expiring (co_com c) = 0 then []
      else map (\<lambda>(key, e). (key, ie_version e))
             (filter (\<lambda>(key, e). owned key \<and> (case expires_at (cs_ttl (co_com c)) e of Some deadline \<Rightarrow> deadline \<le> now | None \<Rightarrow> False))
               (cs_index (co_com c))))"

definition save_index :: "'n collection \<Rightarrow> nat \<times> 'n collection" where
  "save_index c =
     (let (resume_wal, resume_offset) = (case pending_floor c of Some p \<Rightarrow> p | None \<Rightarrow> (co_wal_id c, co_wal_size c))
      in (co_last_lsn c,
          c\<lparr>co_disk := (co_disk c)\<lparr>dk_snapshot := Some \<lparr>is_last_wal_id = resume_wal, is_last_offset = resume_offset, is_last_lsn = co_last_lsn c,
                                is_last_term = co_last_term c, is_map = cs_index (co_com c)\<rparr>\<rparr>\<rparr>))"

end
