(* ===== verification/Commit.thy ===== *)
theory Commit
  imports Wal
begin

text \<open>
  Committing staged frames: however a committed prefix is split into batches the collection ends up the
  same, what a read that includes staged frames answers is what commits, and the memory accounting of
  inlined values is exact and within its budget.
\<close>

section \<open>Batches\<close>

lemma bm_sorted_nat: "bm_sorted cmp_lin (m :: (nat \<times> 'a) list) \<longleftrightarrow> sorted_wrt (<) (map fst m)"
proof -
  have "(cmp_lin (fst a) (fst b) = Less) = (fst a < fst b)" for a b :: "nat \<times> 'a" by (auto simp: cmp_lin_def)
  then show ?thesis unfolding bm_sorted_def sorted_wrt_map by simp
qed

lemma filter_prefix:
  assumes "bm_sorted cmp_lin (p :: (nat \<times> 'a) list)" "a \<le> b"
  shows "filter (\<lambda>(l, _). l \<le> b) p = filter (\<lambda>(l, _). l \<le> a) p @ filter (\<lambda>(l, _). a < l \<and> l \<le> b) p"
  using assms
proof (induction p)
  case (Cons x p)
  then have s: "bm_sorted cmp_lin p" "\<forall>y\<in>set p. fst x < fst y" by (auto simp: bm_sorted_nat)
  show ?case
  proof (cases "fst x \<le> a")
    case True
    then show ?thesis using Cons.IH s(1) assms(2) by (auto split: prod.splits)
  next
    case False
    then have "filter (\<lambda>(l, _). l \<le> a) p = []" using s(2) by (auto simp: filter_empty_conv)
    then show ?thesis using False Cons.IH s(1) assms(2) by (auto split: prod.splits)
  qed
qed simp

named_theorems effect_defs

lemmas [effect_defs] = apply_index_put_def apply_index_remove_def clear_index_def note_rich_def release_staged_def Let_def

lemma release_staged_sel [simp]:
  "co_com (release_staged e c) = co_com c" "co_disk (release_staged e c) = co_disk c"
  "co_pending (release_staged e c) = co_pending c" "co_applied_lsn (release_staged e c) = co_applied_lsn c"
  "co_released (release_staged e c) = co_released c" "co_last_lsn (release_staged e c) = co_last_lsn c"
  "co_last_term (release_staged e c) = co_last_term c" "co_fence (release_staged e c) = co_fence c"
  "co_staged_inline (release_staged e c) = co_staged_inline c - staged_bytes e"
  by (simp_all add: release_staged_def)

definition moved_to :: "(nat \<times> 'n staged_apply) list \<Rightarrow> nat \<Rightarrow> 'n collection \<Rightarrow> 'n collection" where
  "moved_to p a c = c\<lparr>co_pending := p, co_applied_lsn := a\<rparr>"

lemma apply_staged_commute:
  "apply_staged f w (ch, moved_to p a c) ls = map_prod id (moved_to p a) (apply_staged f w (ch, c) ls)"
  by (simp add: apply_staged_def moved_to_def release_staged_def)

lemma apply_staged_changes:
  "apply_staged f w (ch @ ch', c) ls = map_prod ((@) ch) id (apply_staged f w (ch', c) ls)"
  by (simp add: apply_staged_def)

lemma foldl_staged_commute:
  "foldl (apply_staged f w) (ch, moved_to p a c) xs = map_prod id (moved_to p a) (foldl (apply_staged f w) (ch, c) xs)"
proof (induction xs arbitrary: ch c)
  case (Cons x xs)
  obtain ch' c' where s: "apply_staged f w (ch, c) x = (ch', c')" by fastforce
  then show ?case using Cons by (simp add: apply_staged_commute)
qed simp

lemma foldl_staged_changes:
  "foldl (apply_staged f w) (ch @ ch', c) xs = map_prod ((@) ch) id (foldl (apply_staged f w) (ch', c) xs)"
proof (induction xs arbitrary: ch' c)
  case (Cons x xs)
  obtain ch'' c'' where s: "apply_staged f w (ch', c) x = (ch'', c'')" by fastforce
  then show ?case using Cons by (simp add: apply_staged_changes)
qed simp

lemma foldl_staged_frame:
  "foldl (apply_staged f w) (ch, c) xs = (ch', c') \<Longrightarrow>
     co_pending c' = co_pending c \<and> co_applied_lsn c' = co_applied_lsn c \<and> co_disk c' = co_disk c \<and> co_released c' = co_released c"
proof (induction xs arbitrary: ch c)
  case (Cons x xs)
  obtain ch1 c1 where s: "apply_staged f w (ch, c) x = (ch1, c1)" by fastforce
  from Cons.IH [of ch1 c1] Cons.prems s show ?case by (auto simp: apply_staged_def)
qed simp

lemma apply_batch_eq:
  assumes "foldl (apply_staged f w) ([], c) (filter (\<lambda>(l, _). l \<le> b) (co_pending c)) = (ch, c0)"
  shows "apply_batch f w b c =
    (ch, length (filter (\<lambda>(l, _). l \<le> b) (co_pending c)), moved_to (filter (\<lambda>(l, _). b < l) (co_pending c)) (max (co_applied_lsn c) b) c0)"
proof -
  have "c\<lparr>co_pending := p\<rparr> = moved_to p (co_applied_lsn c) c" for p by (simp add: moved_to_def)
  then show ?thesis unfolding apply_batch_def Let_def using assms by (simp add: foldl_staged_commute) (simp add: moved_to_def)
qed

text \<open>
  Commits batch freely: applying up to one position and then up to a later one publishes the same
  changes in the same order, drains the same frames and leaves the same collection -- index, secondary
  indexes, definitions, configuration, expiry, accounting -- as applying up to the later one at once.
\<close>

theorem commits_batch_freely:
  assumes "bm_sorted cmp_lin (co_pending c)" "a \<le> b"
    and "apply_batch f w a c = (ch1, n1, c1)" "apply_batch f w b c1 = (ch2, n2, c2)"
  shows "apply_batch f w b c = (ch1 @ ch2, n1 + n2, c2)"
proof -
  let ?p = "co_pending c"
  let ?lo = "filter (\<lambda>(l, _). l \<le> a) ?p" and ?mid = "filter (\<lambda>(l, _). a < l \<and> l \<le> b) ?p" and ?hi = "filter (\<lambda>(l, _). b < l) ?p"
  obtain ch c0 where lo: "foldl (apply_staged f w) ([], c) ?lo = (ch, c0)" by fastforce
  obtain ch' c0' where mid: "foldl (apply_staged f w) ([], c0) ?mid = (ch', c0')" by fastforce
  have c1: "ch1 = ch" "n1 = length ?lo" "c1 = moved_to (filter (\<lambda>(l, _). a < l) ?p) (max (co_applied_lsn c) a) c0"
    using assms(3) apply_batch_eq [OF lo] by auto
  have rest: "filter (\<lambda>(l, _). l \<le> b) (co_pending c1) = ?mid" "filter (\<lambda>(l, _). b < l) (co_pending c1) = ?hi"
    unfolding c1 moved_to_def using assms(2) by (auto intro!: filter_cong simp: filter_filter)
  have "foldl (apply_staged f w) ([], c1) (filter (\<lambda>(l, _). l \<le> b) (co_pending c1)) =
      (ch', moved_to (filter (\<lambda>(l, _). a < l) ?p) (max (co_applied_lsn c) a) c0')"
    unfolding rest unfolding c1(3) using mid by (simp add: foldl_staged_commute)
  from apply_batch_eq [OF this, unfolded rest] have c2: "ch2 = ch'" "n2 = length ?mid" "c2 = moved_to ?hi (max (co_applied_lsn c) b) c0'"
    using assms(2,4) by (auto simp: c1(3) moved_to_def)
  have "foldl (apply_staged f w) ([], c) (filter (\<lambda>(l, _). l \<le> b) ?p) = (ch @ ch', c0')"
    using filter_prefix [OF assms(1,2)] lo mid foldl_staged_changes [of f w ch "[]" c0 ?mid] by simp
  from apply_batch_eq [OF this] show ?thesis using filter_prefix [OF assms(1,2)] unfolding c1(1,2) c2 by simp
qed

section \<open>Staged reads\<close>

lemma index_apply_effect:
  "bm_get str_cmp (cs_index (apply_effect f e c)) key =
     (case resolve e key of Some x \<Rightarrow> x | None \<Rightarrow> bm_get str_cmp (cs_index c) key)"
proof (cases e)
  case (SRemove k)
  then show ?thesis
    by (cases "bm_get str_cmp (cs_index c) k") (auto simp: effect_defs str_cmp.bm_get_remove str_cmp.cmp_Equal_iff)
qed (auto simp: effect_defs str_cmp.bm_get_insert str_cmp.cmp_Equal_iff)

lemma kept_apply_effect:
  "cs_config (apply_effect f e c) = (case e of SConfigure cfg \<Rightarrow> Some cfg | _ \<Rightarrow> cs_config c)"
  "cs_ttl (apply_effect f e c) = (case e of SSetTtl t \<Rightarrow> t | SClear \<Rightarrow> None | _ \<Rightarrow> cs_ttl c)"
  "cs_specs (apply_effect f e c) = (case e of SDefineIndex ch \<Rightarrow> change_apply_to ch (cs_specs c) | SClear \<Rightarrow> [] | _ \<Rightarrow> cs_specs c)"
  by (cases e; simp add: effect_defs split: option.splits)+

lemma foldl_staged_com:
  "co_com (snd (foldl (apply_staged f w) (ch, c) xs)) = foldl (\<lambda>s x. apply_effect f (sa_effect (snd x)) s) (co_com c) xs"
  by (induction xs arbitrary: ch c) (simp_all add: apply_staged_def)

lemma apply_batch_com:
  assumes "\<forall>(l, _)\<in>set (co_pending c). l \<le> b"
  shows "co_com (snd (snd (apply_batch f w b c))) = foldl (\<lambda>s x. apply_effect f (sa_effect (snd x)) s) (co_com c) (co_pending c)"
    "co_pending (snd (snd (apply_batch f w b c))) = []" "co_disk (snd (snd (apply_batch f w b c))) = co_disk c"
    "co_released (snd (snd (apply_batch f w b c))) = co_released c"
proof -
  have all: "filter (\<lambda>(l, _). l \<le> b) (co_pending c) = co_pending c" "filter (\<lambda>(l, _). b < l) (co_pending c) = []"
    using assms by (auto simp: filter_id_conv filter_empty_conv)
  obtain ch c0 where fold: "foldl (apply_staged f w) ([], c) (co_pending c) = (ch, c0)" by fastforce
  have "co_com c0 = foldl (\<lambda>s x. apply_effect f (sa_effect (snd x)) s) (co_com c) (co_pending c)"
    using foldl_staged_com [of f w "[]" c "co_pending c"] fold by simp
  then show "co_com (snd (snd (apply_batch f w b c))) = foldl (\<lambda>s x. apply_effect f (sa_effect (snd x)) s) (co_com c) (co_pending c)"
    "co_pending (snd (snd (apply_batch f w b c))) = []" "co_disk (snd (snd (apply_batch f w b c))) = co_disk c"
    "co_released (snd (snd (apply_batch f w b c))) = co_released c"
    using apply_batch_eq [of f w c b ch c0] fold foldl_staged_frame [OF fold] unfolding all by (simp_all add: moved_to_def)
qed

lemma foldl_effects:
  fixes f and st :: "'n committed_state"
  defines "after \<equiv> foldl (\<lambda>s x. apply_effect f (sa_effect (snd x)) s) st"
  shows "bm_get str_cmp (cs_index (after xs)) key =
      (case find_map (\<lambda>(_, s). resolve (sa_effect s) key) (rev xs) of Some x \<Rightarrow> x | None \<Rightarrow> bm_get str_cmp (cs_index st) key)"
    "cs_config (after xs) = (case find_map (\<lambda>(_, s). case sa_effect s of SConfigure cfg \<Rightarrow> Some cfg | _ \<Rightarrow> None) (rev xs) of
        Some cfg \<Rightarrow> Some cfg | None \<Rightarrow> cs_config st)"
    "cs_ttl (after xs) = foldl (\<lambda>ttl (_, s). case sa_effect s of SSetTtl nxt \<Rightarrow> nxt | SClear \<Rightarrow> None | _ \<Rightarrow> ttl) (cs_ttl st) xs"
    "cs_specs (after xs) = overlay_index_specs (cs_specs st) xs"
proof (induction xs rule: rev_induct)
  case (snoc x xs)
  obtain l s where x: "x = (l, s)" by fastforce
  have step: "after (xs @ [(l, s)]) = apply_effect f (sa_effect s) (after xs)" by (simp add: after_def x)
  { case 1 then show ?case using snoc(1) unfolding x step index_apply_effect by (auto split: option.splits) }
  { case 2 then show ?case using snoc(2) by (simp add: step kept_apply_effect x split: staged_effect.splits) }
  { case 3 then show ?case using snoc(3) by (simp add: step kept_apply_effect x split: staged_effect.splits) }
  { case 4 then show ?case using snoc(4) by (simp add: step kept_apply_effect x overlay_index_specs_def overlay_step_def split: staged_effect.splits) }
qed (simp_all add: after_def overlay_index_specs_def)

lemma read_entry_disk:
  assumes "co_disk c = co_disk c'"
  shows "read_entry ev e c = read_entry ev e c'"
  unfolding read_entry_def read_frame_payload_def assms ..

lemma staged_lookup:
  fixes f w
  assumes "\<forall>(l, _)\<in>set (co_pending c). l \<le> b"
  defines "c' \<equiv> snd (snd (apply_batch f w b c))"
  shows "bm_get str_cmp (cs_index (co_com c')) key =
      (case staged_resolution key c of Some x \<Rightarrow> x | None \<Rightarrow> bm_get str_cmp (cs_index (co_com c)) key)"
    "get_including_staged_versioned ev key c = get_versioned ev key c'"
proof -
  note b = apply_batch_com [OF assms(1), of f w, folded c'_def]
  show idx: "bm_get str_cmp (cs_index (co_com c')) key =
      (case staged_resolution key c of Some x \<Rightarrow> x | None \<Rightarrow> bm_get str_cmp (cs_index (co_com c)) key)"
    using foldl_effects(1) [of f "co_com c" "co_pending c" key, folded b(1)] by (simp add: staged_resolution_def)
  show "get_including_staged_versioned ev key c = get_versioned ev key c'"
    using idx read_entry_disk [OF b(3), of ev] b(4)
    by (auto simp: get_including_staged_versioned_def get_versioned_def split: option.splits)
qed

text \<open>
  C33. What is staged is what commits: the answer a read-modify-write, a precondition, an expiry check or a
  reconfiguration takes from the staged frames is the answer the collection gives once they have all
  committed -- document and version, existence, deadline, configuration, expiry rule, index definitions.
\<close>

theorem staged_reads_predict_the_commit:
  assumes "\<forall>(l, _)\<in>set (co_pending c). l \<le> b"
  shows "case snd (snd (apply_batch f w b c)) of c' \<Rightarrow>
    get_including_staged_versioned ev key c = get_versioned ev key c' \<and>
    version_including_staged key c = map_option ie_version (bm_get str_cmp (cs_index (co_com c')) key) \<and>
    (exists_including_staged key c \<longleftrightarrow> bm_get str_cmp (cs_index (co_com c')) key \<noteq> None) \<and>
    expire_at_including_staged key c = Option.bind (bm_get str_cmp (cs_index (co_com c')) key) ie_expire_at \<and>
    latest_config c = cs_config (co_com c') \<and> active_ttl_secs c = cs_ttl (co_com c') \<and>
    active_index_specs c = cs_specs (co_com c') \<and> co_pending c' = []"
proof -
  let ?c = "snd (snd (apply_batch f w b c))"
  note b = apply_batch_com [OF assms, of f w] and idx = staged_lookup(1) [OF assms, where f = f and w = w and key = key] staged_lookup(2) [OF assms, where f = f and w = w and ev = ev and key = key]
  note e = foldl_effects [of f "co_com c" "co_pending c", folded b(1)]
  have "version_including_staged key c = map_option ie_version (bm_get str_cmp (cs_index (co_com ?c)) key)"
    "exists_including_staged key c \<longleftrightarrow> bm_get str_cmp (cs_index (co_com ?c)) key \<noteq> None"
    "expire_at_including_staged key c = Option.bind (bm_get str_cmp (cs_index (co_com ?c)) key) ie_expire_at"
    using idx(1) by (auto simp: version_including_staged_def exists_including_staged_def expire_at_including_staged_def split: option.splits)
  then show ?thesis
    using e(2-4) b(2) idx(2) by (simp add: latest_config_def active_ttl_secs_def active_index_specs_def)
qed

section \<open>Accounting\<close>

definition weight :: "('v \<Rightarrow> nat) \<Rightarrow> ('k \<times> 'v) list \<Rightarrow> nat" where
  "weight h m = sum_list (map (\<lambda>e. h (snd e)) m)"

lemma weight_simps [simp]: "weight h [] = 0" "weight h (e # m) = h (snd e) + weight h m" "weight h (xs @ ys) = weight h xs + weight h ys"
  by (simp_all add: weight_def)

definition weight_at :: "('v \<Rightarrow> nat) \<Rightarrow> 'v option \<Rightarrow> nat" where
  "weight_at h v = (case v of Some x \<Rightarrow> h x | None \<Rightarrow> 0)"

context cmp_preorder
begin

lemma bm_get_below: "\<forall>e\<in>set m. cmp k (fst e) = Less \<Longrightarrow> bm_get cmp m k = None"
  by (induction m) auto

lemma weight_insert:
  assumes "bm_sorted cmp m"
  shows "weight h (bm_insert cmp k v m) + weight_at h (bm_get cmp m k) = weight h m + h v"
  using assms
proof (induction m)
  case (Cons e m)
  obtain k' v' where e: "e = (k', v')" by (cases e)
  show ?case
  proof (cases "cmp k k'")
    case Less
    then have "bm_get cmp m k = None" using Cons.prems by (intro bm_get_below) (auto simp: e intro: cmp_less_trans)
    then show ?thesis using Less by (simp add: e weight_at_def)
  qed (use Cons in \<open>auto simp: e weight_at_def\<close>)
qed (simp add: weight_at_def)

lemma weight_remove:
  assumes "bm_sorted cmp m"
  shows "weight h (bm_remove cmp k m) + weight_at h (bm_get cmp m k) = weight h m"
  using assms
proof (induction m)
  case (Cons e m)
  obtain k' v' where e: "e = (k', v')" by (cases e)
  show ?case
  proof (cases "cmp k k' = Equal")
    case True
    then have "\<forall>x\<in>set m. cmp k (fst x) = Less" using Cons.prems cmp_eq_left [OF True] by (simp add: e)
    then have "bm_remove cmp k m = m" by (auto simp: bm_remove_def filter_id_conv)
    then show ?thesis using True by (simp add: e bm_remove_def weight_at_def)
  qed (use Cons in \<open>auto simp: e bm_remove_def\<close>)
qed (simp add: bm_remove_def weight_at_def)

end

lemma weight_partition: "weight h (filter P m) + weight h (filter (\<lambda>x. \<not> P x) m) = weight h m"
  by (induction m) auto

definition expires :: "index_entry \<Rightarrow> nat" where
  "expires e = (if ie_expire_at e \<noteq> None then 1 else 0)"

definition charged :: "'n committed_state \<Rightarrow> bool" where
  "charged s = (bm_sorted str_cmp (cs_index s) \<and> cs_inline_bytes s = weight inline_bytes (cs_index s) \<and>
     cs_expiring s = weight expires (cs_index s))"

definition staged_weight :: "(nat \<times> 'n staged_apply) list \<Rightarrow> nat" where
  "staged_weight p = weight (\<lambda>s. staged_bytes (sa_effect s)) p"

definition accounted :: "'n env \<Rightarrow> 'n collection \<Rightarrow> bool" where
  "accounted ev c = (charged (co_com c) \<and> bm_sorted cmp_lin (co_pending c) \<and>
     co_staged_inline c = staged_weight (co_pending c) \<and> inline_resident c \<le> inline_budget_bytes (ev_cache ev))"

lemma charged_put:
  assumes "charged s"
  shows "charged (apply_index_put k e s)" "cs_inline_bytes (apply_index_put k e s) \<le> cs_inline_bytes s + inline_bytes e"
proof -
  have srt: "bm_sorted str_cmp (cs_index s)" using assms by (simp add: charged_def)
  let ?old = "bm_get str_cmp (cs_index s) k"
  have w: "weight h (bm_insert str_cmp k e (cs_index s)) + weight_at h ?old = weight h (cs_index s) + h e" for h
    by (rule str_cmp.weight_insert [OF srt])
  note i = w [of inline_bytes] and x = w [of expires]
  have ib: "cs_inline_bytes (apply_index_put k e s) + weight_at inline_bytes ?old = cs_inline_bytes s + inline_bytes e"
    using i assms by (cases ?old) (auto simp: apply_index_put_def Let_def weight_at_def charged_def)
  moreover have "cs_expiring (apply_index_put k e s) + weight_at expires ?old = cs_expiring s + expires e"
    using x assms by (cases ?old) (auto simp: apply_index_put_def Let_def weight_at_def charged_def expires_def split: if_splits)
  ultimately show "charged (apply_index_put k e s)"
    using assms i x str_cmp.bm_sorted_insert [OF srt] by (simp add: charged_def apply_index_put_def Let_def)
  show "cs_inline_bytes (apply_index_put k e s) \<le> cs_inline_bytes s + inline_bytes e" using ib by simp
qed

lemma charged_remove:
  assumes "charged s"
  shows "charged (apply_index_remove k s)" "cs_inline_bytes (apply_index_remove k s) \<le> cs_inline_bytes s"
proof -
  have srt: "bm_sorted str_cmp (cs_index s)" using assms by (simp add: charged_def)
  note w = str_cmp.weight_remove [OF srt, of _ k]
  show "charged (apply_index_remove k s)"
  proof (cases "bm_get str_cmp (cs_index s) k")
    case (Some old)
    then show ?thesis using assms w [of inline_bytes] w [of expires] bm_sorted_remove [OF srt]
      by (auto simp: charged_def apply_index_remove_def weight_at_def expires_def split: if_splits)
  qed (use assms in \<open>simp add: apply_index_remove_def\<close>)
  show "cs_inline_bytes (apply_index_remove k s) \<le> cs_inline_bytes s"
    by (auto simp: apply_index_remove_def split: option.splits)
qed

lemma charged_cong:
  "cs_index s' = cs_index s \<Longrightarrow> cs_inline_bytes s' = cs_inline_bytes s \<Longrightarrow> cs_expiring s' = cs_expiring s \<Longrightarrow> charged s' = charged s"
  by (simp add: charged_def)

lemma note_rich_sel [simp]:
  "cs_index (note_rich b s) = cs_index s" "cs_inline_bytes (note_rich b s) = cs_inline_bytes s"
  "cs_expiring (note_rich b s) = cs_expiring s" "cs_specs (note_rich b s) = cs_specs s" "cs_ttl (note_rich b s) = cs_ttl s"
  "cs_secondary (note_rich b s) = cs_secondary s" "cs_dropped (note_rich b s) = cs_dropped s"
  by (simp_all add: note_rich_def)

lemma charged_effect:
  assumes "charged s"
  shows "charged (apply_effect f e s) \<and> cs_inline_bytes (apply_effect f e s) \<le> cs_inline_bytes s + staged_bytes e"
proof (cases e)
  case (SPut k x ix)
  then show ?thesis using charged_put [OF assms, of k x] by (simp add: Let_def charged_def)
next
  case (SRemove k)
  then show ?thesis using charged_remove [OF assms, of k] by (simp add: Let_def charged_def)
qed (use assms in \<open>simp_all add: charged_def clear_index_def Let_def\<close>)

lemma accounted_staged:
  assumes "charged (co_com c)" "co_staged_inline c = weight (\<lambda>s. staged_bytes (sa_effect s)) (xs @ rest)"
    and "cs_inline_bytes (co_com c) + co_staged_inline c \<le> B" "foldl (apply_staged f w) (ch, c) xs = (ch', c')"
  shows "charged (co_com c') \<and> co_staged_inline c' = weight (\<lambda>s. staged_bytes (sa_effect s)) rest \<and>
    cs_inline_bytes (co_com c') + co_staged_inline c' \<le> B"
  using assms
proof (induction xs arbitrary: ch c)
  case (Cons x xs)
  obtain ch1 c1 where s: "apply_staged f w (ch, c) x = (ch1, c1)" by fastforce
  then have c1: "co_com c1 = apply_effect f (sa_effect (snd x)) (co_com c)"
    "co_staged_inline c1 = co_staged_inline c - staged_bytes (sa_effect (snd x))"
    by (auto simp: apply_staged_def)
  have "charged (co_com c1) \<and> cs_inline_bytes (co_com c1) \<le> cs_inline_bytes (co_com c) + staged_bytes (sa_effect (snd x))"
    unfolding c1 by (rule charged_effect [OF Cons.prems(1)])
  then show ?case using Cons.IH [of c1 ch1] Cons.prems s c1(2) by simp
qed simp

lemma accounted_apply_batch:
  assumes "accounted ev c"
  shows "accounted ev (snd (snd (apply_batch f w b c)))"
proof -
  let ?lo = "filter (\<lambda>(l, _). l \<le> b) (co_pending c)" and ?hi = "filter (\<lambda>(l, _). b < l) (co_pending c)"
  obtain ch c0 where fold: "foldl (apply_staged f w) ([], c) ?lo = (ch, c0)" by fastforce
  have "(\<lambda>x :: nat \<times> 'a staged_apply. \<not> (case x of (l, _) \<Rightarrow> l \<le> b)) = (\<lambda>(l, _). b < l)" by auto
  then have "weight (\<lambda>s. staged_bytes (sa_effect s)) (?lo @ ?hi) = staged_weight (co_pending c)"
    using weight_partition [of _ "\<lambda>(l, _). l \<le> b" "co_pending c"] unfolding staged_weight_def by simp
  then have "charged (co_com c0) \<and> co_staged_inline c0 = staged_weight ?hi \<and> cs_inline_bytes (co_com c0) + co_staged_inline c0 \<le> inline_budget_bytes (ev_cache ev)"
    using accounted_staged [OF _ _ _ fold, of ?hi "inline_budget_bytes (ev_cache ev)"] assms
    by (simp add: accounted_def inline_resident_def staged_weight_def)
  then show ?thesis using assms apply_batch_eq [OF fold]
    by (auto simp: accounted_def moved_to_def inline_resident_def)
qed

lemma accounted_stage:
  assumes "accounted ev c"
  shows "accounted ev (stage_appended ev lsn term entry wal_id offset payload c)"
proof -
  obtain effect c1 where st: "staged_of ev lsn term entry wal_id offset payload c = (effect, c1)" by fastforce
  have c1: "c1 = c\<lparr>co_staged_inline := co_staged_inline c + staged_bytes effect\<rparr>"
    "inline_resident c + staged_bytes effect \<le> inline_budget_bytes (ev_cache ev)"
    using st assms by (auto simp: staged_of_def reserve_staged_entry_def build_entry_def inline_bytes_def accounted_def Let_def
        split: log_entry.splits if_splits option.splits)
  let ?s = "\<lparr>sa_wal_id = wal_id, sa_offset = offset, sa_term = term, sa_effect = effect, sa_migration = is_migration entry\<rparr>"
  let ?p = "bm_insert cmp_lin lsn ?s (co_pending c)" and ?old = "bm_get cmp_lin (co_pending c) lsn"
  let ?h = "\<lambda>s. staged_bytes (sa_effect s)"
  have srt: "bm_sorted cmp_lin (co_pending c)" using assms by (simp add: accounted_def)
  have w: "weight ?h ?p + weight_at ?h ?old = weight ?h (co_pending c) + staged_bytes effect"
    using cmp_lin.weight_insert [OF srt, of ?h lsn ?s] by simp
  have eq: "stage_appended ev lsn term entry wal_id offset payload c =
      c\<lparr>co_pending := ?p, co_staged_inline := co_staged_inline c + staged_bytes effect - weight_at ?h ?old\<rparr>"
    unfolding stage_appended_def st by (cases ?old) (simp_all add: c1(1) weight_at_def release_staged_def)
  show ?thesis unfolding eq
    using assms c1(2) w cmp_lin.bm_sorted_insert [OF srt, of lsn ?s]
    by (auto simp: accounted_def staged_weight_def inline_resident_def)
qed

lemma drop_pending_above_eq:
  assumes "bm_sorted cmp_lin (co_pending c)"
  shows "drop_pending_above l c = c\<lparr>co_pending := filter (\<lambda>(n, _). n \<le> l) (co_pending c),
    co_staged_inline := co_staged_inline c - staged_weight (filter (\<lambda>(n, _). n > l) (co_pending c))\<rparr>"
proof -
  let ?step = "\<lambda>c (lsn, staged). release_staged (sa_effect staged) (c\<lparr>co_pending := bm_remove cmp_lin lsn (co_pending c)\<rparr>)"
  have fold: "foldl ?step c xs = c\<lparr>co_pending := filter (\<lambda>e. fst e \<notin> fst ` set xs) (co_pending c),
      co_staged_inline := co_staged_inline c - staged_weight xs\<rparr>" for xs and c :: "'a collection"
  proof (induction xs arbitrary: c)
    case (Cons x xs)
    have "bm_remove cmp_lin (fst x) p = filter (\<lambda>e. fst e \<noteq> fst x) p" for p :: "(nat \<times> 'a staged_apply) list"
      unfolding bm_remove_def by (rule filter_cong) (auto simp: cmp_lin_def)
    then show ?case unfolding foldl_Cons Cons
      by (cases x) (simp add: release_staged_def staged_weight_def filter_filter conj_commute cong: filter_cong)
  qed (simp add: staged_weight_def filter_id_conv)
  have "filter (\<lambda>e. fst e \<notin> fst ` set (filter (\<lambda>(n, _). n > l) (co_pending c))) (co_pending c) = filter (\<lambda>(n, _). n \<le> l) (co_pending c)"
  proof (rule filter_cong [OF refl])
    fix x assume "x \<in> set (co_pending c)"
    then show "(fst x \<notin> fst ` set (filter (\<lambda>(n, _). n > l) (co_pending c))) = (case x of (n, _) \<Rightarrow> n \<le> l)"
      by (cases x) (auto simp: image_iff)
  qed
  then show ?thesis unfolding drop_pending_above_def fold by simp
qed

lemma accounted_drop:
  assumes "accounted ev c"
  shows "accounted ev (drop_pending_above l c)"
proof -
  have srt: "bm_sorted cmp_lin (co_pending c)" using assms by (simp add: accounted_def)
  have "(\<lambda>x :: nat \<times> 'a staged_apply. \<not> (case x of (n, _) \<Rightarrow> n \<le> l)) = (\<lambda>(n, _). n > l)" by auto
  then have "staged_weight (filter (\<lambda>(n, _). n \<le> l) (co_pending c)) + staged_weight (filter (\<lambda>(n, _). n > l) (co_pending c)) = staged_weight (co_pending c)"
    using weight_partition [of _ "\<lambda>(n, _). n \<le> l" "co_pending c"] unfolding staged_weight_def by simp
  then show ?thesis unfolding drop_pending_above_eq [OF srt] using assms bm_sorted_filter [OF srt, of "\<lambda>(n, _). n \<le> l"]
    by (auto simp: accounted_def inline_resident_def)
qed

text \<open>The parts of a collection the accounting reads.\<close>

definition charge :: "'n collection \<Rightarrow> 'n committed_state \<times> (nat \<times> 'n staged_apply) list \<times> nat" where
  "charge c = (co_com c, co_pending c, co_staged_inline c)"

lemma accounted_cong: "charge c' = charge c \<Longrightarrow> accounted ev c' = accounted ev c"
  by (simp add: charge_def accounted_def inline_resident_def)

lemma charge_quiet:
  "record_watermark_once pio c = (r0, c') \<Longrightarrow> charge c' = charge c"
  "persist_watermark pio b c = (r1, c') \<Longrightarrow> charge c' = charge c"
  "apply_cut cio wc c = (r2, c') \<Longrightarrow> charge c' = charge c"
  "rewind_index_tail ok l t c = (r3, c') \<Longrightarrow> charge c' = charge c"
  "rotate_if_full io c = (r4, c') \<Longrightarrow> charge c' = charge c"
  "write_frame io bytes c = (r5, c') \<Longrightarrow> charge c' = charge c"
  "sync_wal ok c = (r6, c') \<Longrightarrow> charge c' = charge c"
  by (auto simp: charge_def record_watermark_once_def persist_watermark_full_def persist_watermark_def apply_cut_def shrink_wal_to_def
      rewind_index_tail_def rotate_if_full_def write_frame_def open_next_wal_def write_file_def note_synced_def sync_wal_def Let_def
      split: if_splits option.splits sum.splits prod.splits)

lemma accounted_heal: "accounted ev c \<Longrightarrow> heal_fenced_cut cio c = (r, c') \<Longrightarrow> accounted ev c'"
  using charge_quiet(3) accounted_cong accounted_drop by (fastforce simp: heal_fenced_cut_def split: option.splits)

lemma accounted_rewind:
  assumes "accounted ev c" "wal_rewind_to cio l t c = (r, c')"
  shows "accounted ev c'"
proof -
  obtain r1 c1 where tail: "rewind_index_tail (ct_rewind_index cio) l t c = (r1, c1)" by fastforce
  then have c1: "accounted ev c1" using charge_quiet(4) accounted_cong assms(1) by blast
  have cut: "accounted ev c2" if "apply_cut cio wc (drop_pending_above n (c1\<lparr>co_disk := d\<rparr>)) = (r2, c2)" for wc n d r2 c2
  proof -
    have "accounted ev (c1\<lparr>co_disk := d\<rparr>)" using c1 accounted_cong [of "c1\<lparr>co_disk := d\<rparr>" c1] by (simp add: charge_def)
    then show ?thesis using that charge_quiet(3) accounted_cong accounted_drop by blast
  qed
  show ?thesis using assms tail c1
    by (auto simp: wal_rewind_to_def Let_def split: if_splits list.splits sum.splits prod.splits option.splits dest: cut)
qed

lemma accounted_appended:
  assumes "accounted ev c"
  shows "accounted ev (note_appended ev h entry payload wal_id offset c)"
  unfolding note_appended_def by (rule accounted_stage) (use assms in \<open>simp add: accounted_def inline_resident_def\<close>)

lemma accounted_quiet:
  assumes "accounted ev c"
  shows "record_watermark_once pio c = (r0, c') \<Longrightarrow> accounted ev c'" "rotate_if_full io c = (r4, c') \<Longrightarrow> accounted ev c'"
    "write_frame io bytes c = (r5, c') \<Longrightarrow> accounted ev c'"
  using charge_quiet(1,5,6) accounted_cong assms by blast+

lemma accounted_db: "accounted ev c \<Longrightarrow> accounted ev (c\<lparr>co_db_next_lsn := n\<rparr>)"
  by (simp add: accounted_def inline_resident_def)

lemma accounted_written:
  assumes "accounted ev c" "write_frame io bytes (c\<lparr>co_db_next_lsn := n\<rparr>) = (r, c')"
  shows "accounted ev c'"
  using assms accounted_quiet(3) accounted_db by blast

lemma accounted_append:
  assumes "accounted ev c" "wal_append ev io entry term c = (r, c')"
  shows "accounted ev c'"
proof -
  obtain r1 c1 where 1: "record_watermark_once (ap_meta io) c = (r1, c1)" by fastforce
  obtain r2 c2 where 2: "heal_fenced_cut (ap_cut io) c1 = (r2, c2)" by fastforce
  obtain r3 c3 where 3: "rotate_if_full io c2 = (r3, c3)" by fastforce
  have a1: "accounted ev c1" using accounted_quiet(1) assms(1) 1 by blast
  have a2: "accounted ev c2" using accounted_heal a1 2 by blast
  have a3: "accounted ev c3" using accounted_quiet(2) a2 3 by blast
  show ?thesis using assms(2) 1 2 3 a1 a2 a3 assms(1)
    by (auto simp: wal_append_def Let_def split: if_splits prod.splits sum.splits
        dest: accounted_written [OF a3] intro!: accounted_appended)
qed

lemma accounted_raw:
  assumes "accounted ev c" "append_raw_frame ev io bytes c = (r, c')"
  shows "accounted ev c'"
proof -
  obtain r1 c1 where 1: "record_watermark_once (ap_meta io) c = (r1, c1)" by fastforce
  obtain r2 c2 where 2: "heal_fenced_cut (ap_cut io) c1 = (r2, c2)" by fastforce
  have a1: "accounted ev c1" using accounted_quiet(1) assms(1) 1 by blast
  have a2: "accounted ev c2" using accounted_heal a1 2 by blast
  have a3: "accounted ev c3" if "wal_rewind_to (ap_cut io) l t c2 = (r3, c3)" for l t r3 c3 using accounted_rewind a2 that by blast
  show ?thesis using assms(2) 1 2 a1 a2 assms(1)
    by (auto simp: append_raw_frame_def Let_def split: if_splits prod.splits sum.splits option.splits
        dest!: a3 intro!: accounted_appended dest: accounted_quiet)
qed

section \<open>Every run of the store\<close>

inductive store_step :: "'n env \<Rightarrow> 'n collection \<Rightarrow> 'n collection \<Rightarrow> bool" for ev where
  append_step: "wal_append ev io entry term c = (r, c') \<Longrightarrow> store_step ev c c'"
| frame_step: "append_raw_frame ev io bytes c = (r, c') \<Longrightarrow> store_step ev c c'"
| commit_step: "apply_committed ev pio watched b c = (r, changes, c') \<Longrightarrow> store_step ev c c'"
| sync_step: "sync_wal ok c = (r, c') \<Longrightarrow> store_step ev c c'"
| save_step: "save_index c = (l, c') \<Longrightarrow> store_step ev c c'"

lemma accounted_commit:
  assumes "accounted ev c" "apply_committed ev pio watched b c = (r, changes, c')"
  shows "accounted ev c'"
proof -
  obtain ch n c1 where b: "apply_batch (ev_f64 ev) watched b c = (ch, n, c1)" by (metis prod.collapse)
  then have "accounted ev c1" using accounted_apply_batch [OF assms(1)] by (metis snd_conv)
  moreover have "charge c' = charge c1"
    using assms(2) b charge_quiet(2) by (fastforce simp: apply_committed_def split: prod.splits sum.splits)
  ultimately show ?thesis using accounted_cong by blast
qed

text \<open>
  C34. The memory inlined values take is counted exactly and stays within its budget: through any sequence
  of appends, replicated frames, truncations, commits and snapshots -- whichever file operations fail --
  the committed and staged counters equal the bytes actually held, their sum never passes the budget, and
  the expiry counter equals the number of committed entries that expire.
\<close>

theorem inline_memory_accounted:
  assumes "(store_step ev)\<^sup>*\<^sup>* c c'" "accounted ev c"
  shows "accounted ev c'"
  using assms
proof (induction rule: rtranclp_induct)
  case (step x y)
  note ih = step.IH [OF step.prems]
  from step.hyps(2) show ?case
  proof cases
    case append_step then show ?thesis by (rule accounted_append [OF ih])
  next
    case frame_step then show ?thesis by (rule accounted_raw [OF ih])
  next
    case commit_step then show ?thesis by (rule accounted_commit [OF ih])
  next
    case (sync_step ok r) then show ?thesis using charge_quiet(7) ih accounted_cong by metis
  next
    case save_step
    then show ?thesis using ih by (auto simp: save_index_def accounted_def inline_resident_def Let_def split: prod.splits)
  qed
qed

section \<open>A run\<close>

text \<open>A small store: entries of one number per key, a byte sum for the checksum, four bytes of inline budget.\<close>

fun ex_ser :: "nat log_entry \<Rightarrow> u8 list" where
  "ex_ser (Put _ key (JNumber n) _ _) = 1 # word_of_nat n # map (word_of_nat \<circ> of_char) key"
| "ex_ser (Del _ key _) = 2 # map (word_of_nat \<circ> of_char) key"
| "ex_ser (Index (DropIndex name) _) = 4 # map (word_of_nat \<circ> of_char) name"
| "ex_ser (Drop _) = [5]"
| "ex_ser _ = [3]"

fun ex_de :: "u8 list \<Rightarrow> nat log_entry option" where
  "ex_de (tag # rest) =
     (if tag = 1 then (case rest of n # key \<Rightarrow> Some (Put False (map (char_of \<circ> unat) key) (JNumber (unat n)) 0 None) | [] \<Rightarrow> None)
      else if tag = 2 then Some (Del False (map (char_of \<circ> unat) rest) 0)
      else if tag = 4 then Some (Index (DropIndex (map (char_of \<circ> unat) rest)) 0)
      else if tag = 5 then Some (Drop 0)
      else Some (Barrier 0))"
| "ex_de [] = None"

definition ex_env :: "nat env" where
  "ex_env = \<lparr>ev_ser = ex_ser, ev_de = ex_de, ev_crc = (\<lambda>bs. sum_list (map ucast bs)), ev_f64 = (\<lambda>_. None),
     ev_cache = \<lparr>inline_max_value_bytes = 4, inline_budget_bytes = 4\<rparr>\<rparr>"

definition ex_io :: append_io where
  "ex_io = \<lparr>ap_meta = \<lparr>pi_pos = Some True, pi_meta = True\<rparr>,
     ap_cut = \<lparr>ct_rewind_index = True, ct_record = True, ct_truncate = None, ct_reopen = True, ct_clear = True\<rparr>,
     ap_sync = True, ap_open = True, ap_write = None, ap_rotate = True\<rparr>"

definition ex_empty :: "nat collection" where
  "ex_empty = (case fst (open_collection ex_env None True 0 0 0 \<lparr>dk_files = [], dk_synced = (\<lambda>_. 0), dk_cut = None, dk_snapshot = None, dk_meta = None, dk_pos = None\<rparr>) of
     Ok c \<Rightarrow> c | Err _ \<Rightarrow> undefined)"

definition ex_put :: "string \<Rightarrow> nat \<Rightarrow> nat collection \<Rightarrow> nat collection" where
  "ex_put key n c = snd (wal_append ex_env ex_io (Put False key (JNumber n) 0 None) 1 c)"

text \<open>Two documents staged; only the first fits the inline budget.\<close>

definition ex_staged :: "nat collection" where
  "ex_staged = ex_put ''b'' 8 (ex_put ''a'' 7 ex_empty)"

lemmas ex_defs = ex_env_def ex_io_def ex_put_def

lemma ex_empty_eval:
  "ex_empty = \<lparr>co_disk = \<lparr>dk_files = [(1, [])], dk_synced = (\<lambda>_. 0), dk_cut = None, dk_snapshot = None, dk_meta = None, dk_pos = None\<rparr>,
     co_com = \<lparr>cs_index = [], cs_dropped = False, cs_config = None, cs_handover = None, cs_specs = [], cs_ttl = None, cs_secondary = [],
       cs_inline_bytes = 0, cs_expiring = 0, cs_rich_gen = 0\<rparr>,
     co_pending = [], co_staged_inline = 0, co_applied_lsn = 0, co_durable_lsn = 0, co_handle = 1, co_wal_id = 1, co_wal_size = 0,
     co_last_lsn = 0, co_last_term = 0, co_recent = rf_new 0, co_fence = None, co_released = False, co_recorded = False, co_saved = 0,
     co_rich_saved = 0, co_db_next_lsn = 0, co_db_last_term = 0, co_db_durable_lsn = 0\<rparr>"
  by (simp add: ex_empty_def open_collection_def with_files_def complete_recorded_def recorded_watermark_def seed_replay_def opened_state_def ix_seed_def Let_def)

lemmas store_defs = wal_append_def MAX_RECORD_SIZE_def WAL_ROTATION_LIMIT_def record_watermark_once_def persist_watermark_full_def
  heal_fenced_cut_def rotate_if_full_def write_frame_def write_file_def note_appended_def stage_appended_def staged_of_def Let_def
  reserve_staged_entry_def build_entry_def inline_resident_def cmp_lin_def HEADER_LEN_def

lemma ex_staged_eval:
  "map fst (co_pending ex_staged) = [1, 2]" "co_staged_inline ex_staged = 3" "cs_index (co_com ex_staged) = []"
  "map (\<lambda>(_, s). staged_bytes (sa_effect s)) (co_pending ex_staged) = [3, 0]"
  unfolding ex_staged_def ex_empty_eval by (simp_all add: ex_defs store_defs inline_bytes_def)

theorem commits_batch_freely_witness:
  "case apply_batch (ev_f64 ex_env) True 1 ex_staged of (ch1, n1, c1) \<Rightarrow>
   case apply_batch (ev_f64 ex_env) True 2 c1 of (ch2, n2, c2) \<Rightarrow>
     apply_batch (ev_f64 ex_env) True 2 ex_staged = (ch1 @ ch2, n1 + n2, c2)"
proof -
  have "bm_sorted cmp_lin (co_pending ex_staged)" by (simp add: bm_sorted_nat ex_staged_eval)
  from commits_batch_freely [OF this, of 1 2] show ?thesis by (auto split: prod.splits)
qed

theorem staged_reads_predict_the_commit_witness:
  "get_including_staged_versioned ex_env ''a'' ex_staged =
   get_versioned ex_env ''a'' (snd (snd (apply_batch (ev_f64 ex_env) True 2 ex_staged)))"
proof -
  have "\<forall>l\<in>set (map fst (co_pending ex_staged)). l \<le> 2" by (simp add: ex_staged_eval)
  then have "\<forall>(l, _)\<in>set (co_pending ex_staged). l \<le> 2" by auto
  from staged_reads_predict_the_commit [OF this, where f = "ev_f64 ex_env" and w = True and ev = ex_env and key = "''a''"] show ?thesis by simp
qed

theorem inline_memory_accounted_witness:
  "accounted ex_env ex_staged \<and> inline_resident ex_staged = 3 \<and> map fst (co_pending ex_staged) = [1, 2]"
proof -
  have "store_step ex_env c (ex_put key n c)" for key n c
    unfolding ex_put_def by (rule append_step [of _ _ _ _ _ "fst (wal_append ex_env ex_io (Put False key (JNumber n) 0 None) 1 c)"]) simp
  then have "(store_step ex_env)\<^sup>*\<^sup>* ex_empty ex_staged" unfolding ex_staged_def by (meson converse_rtranclp_into_rtranclp rtranclp.rtrancl_refl)
  moreover have "accounted ex_env ex_empty"
    by (simp add: ex_empty_eval accounted_def charged_def bm_sorted_def staged_weight_def inline_resident_def)
  ultimately have "accounted ex_env ex_staged" by (rule inline_memory_accounted)
  moreover have "cs_inline_bytes (co_com ex_staged) = 0" unfolding ex_staged_def ex_empty_eval by (simp add: ex_defs store_defs)
  ultimately show ?thesis by (simp add: ex_staged_eval inline_resident_def)
qed

end
