(* ===== verification/Log.thy ===== *)
theory Log
  imports Commit
begin

text \<open>
  The log a directory holds. The rows of a WAL file are the whole, valid frames a replay finds in it, in
  order and with their positions; the rest of the file is a torn tail. The logical state of a log is
  what its rows, applied one after another to an empty collection, leave behind.
\<close>

section \<open>Rows\<close>

record row =
  rw_wal_id :: nat
  rw_offset :: nat
  rw_head :: frame_header
  rw_payload :: "u8 list"

definition rw_end :: "row \<Rightarrow> nat" where
  "rw_end r = rw_offset r + HEADER_LEN + fh_len (rw_head r)"

abbreviation rw_lsn :: "row \<Rightarrow> nat" where "rw_lsn r \<equiv> fh_lsn (rw_head r)"
abbreviation rw_term :: "row \<Rightarrow> nat" where "rw_term r \<equiv> fh_term (rw_head r)"

function wal_rows :: "checksum \<Rightarrow> nat \<Rightarrow> nat \<Rightarrow> u8 list \<Rightarrow> row list" where
  "wal_rows crc wid off bytes =
     (case next_frame crc bytes of
        None \<Rightarrow> []
      | Some (h, payload, rest) \<Rightarrow>
          \<lparr>rw_wal_id = wid, rw_offset = off, rw_head = h, rw_payload = payload\<rparr> # wal_rows crc wid (off + HEADER_LEN + fh_len h) rest)"
  by pat_completeness auto
termination by (relation "measure (\<lambda>(_, _, _, bytes). length bytes)") (auto dest: next_frame_shorter)

declare wal_rows.simps [simp del]

definition valid_len :: "checksum \<Rightarrow> u8 list \<Rightarrow> nat" where
  "valid_len crc bytes = (case wal_rows crc 0 0 bytes of [] \<Rightarrow> 0 | rs \<Rightarrow> rw_end (last rs))"

abbreviation whole :: "checksum \<Rightarrow> u8 list \<Rightarrow> bool" where "whole crc bytes \<equiv> valid_len crc bytes = length bytes"

lemma wal_rows_None: "next_frame crc bytes = None \<Longrightarrow> wal_rows crc wid off bytes = []"
  by (simp add: wal_rows.simps [of crc wid off bytes])

lemma wal_rows_Some:
  "next_frame crc bytes = Some (h, payload, rest) \<Longrightarrow> wal_rows crc wid off bytes =
     \<lparr>rw_wal_id = wid, rw_offset = off, rw_head = h, rw_payload = payload\<rparr> # wal_rows crc wid (off + HEADER_LEN + fh_len h) rest"
  by (subst wal_rows.simps) simp

lemma next_frame_empty [simp]: "next_frame crc [] = None"
  by (simp add: next_frame_def fh_parse_def HEADER_LEN_def)

lemma wal_rows_empty [simp]: "wal_rows crc wid off [] = []"
  by (simp add: wal_rows_None)

lemma slice_append: "b \<le> length xs \<Longrightarrow> slice a b (xs @ ys) = slice a b xs"
  by (cases "a \<le> b") (auto simp: slice_def)

lemma fh_parse_append: "HEADER_LEN \<le> length xs \<Longrightarrow> fh_parse (xs @ ys) = fh_parse xs"
  by (simp add: fh_parse_def slice_append HEADER_LEN_def)

lemma next_frame_Some_iff:
  "next_frame crc bytes = Some (h, payload, rest) \<longleftrightarrow>
     fh_parse bytes = Some h \<and> 0 < fh_len h \<and> fh_len h \<le> MAX_RECORD_SIZE \<and> HEADER_LEN + fh_len h \<le> length bytes \<and>
     payload = slice HEADER_LEN (HEADER_LEN + fh_len h) bytes \<and> payload_valid crc h payload \<and> rest = drop (HEADER_LEN + fh_len h) bytes"
  by (auto simp: next_frame_def Let_def split: option.splits)

lemma next_frame_length: "next_frame crc bytes = Some (h, payload, rest) \<Longrightarrow> length bytes = HEADER_LEN + fh_len h + length rest"
  by (auto simp: next_frame_Some_iff)

lemma next_frame_append:
  "next_frame crc bytes = Some (h, payload, rest) \<Longrightarrow> next_frame crc (bytes @ extra) = Some (h, payload, rest @ extra)"
  by (auto simp: next_frame_Some_iff fh_parse_append slice_append)

lemma next_frame_take:
  assumes "next_frame crc bytes = Some (h, payload, rest)"
  shows "next_frame crc (take n bytes) =
    (if HEADER_LEN + fh_len h \<le> n then Some (h, payload, take (n - (HEADER_LEN + fh_len h)) rest) else None)"
proof (cases "HEADER_LEN + fh_len h \<le> n")
  case True
  then have "fh_parse (take n bytes) = fh_parse bytes"
    using assms fh_parse_append [of "take n bytes" "drop n bytes"] by (simp add: next_frame_Some_iff)
  moreover have "slice HEADER_LEN (HEADER_LEN + fh_len h) (take n bytes) = payload"
    using True assms slice_append [of "HEADER_LEN + fh_len h" "take n bytes" HEADER_LEN "drop n bytes"] by (simp add: next_frame_Some_iff)
  ultimately show ?thesis using True assms by (auto simp: next_frame_Some_iff drop_take)
next
  case False
  have "next_frame crc (take n bytes) \<noteq> Some (h', p', r')" for h' p' r'
    using next_frame_append [of crc "take n bytes" h' p' r' "drop n bytes"] next_frame_length [of crc "take n bytes"] assms False
    by fastforce
  then show ?thesis using False by (cases "next_frame crc (take n bytes)") auto
qed

lemma next_frame_take_None: "next_frame crc bytes = None \<Longrightarrow> next_frame crc (take n bytes) = None"
  using next_frame_append [of crc "take n bytes" _ _ _ "drop n bytes"] by (cases "next_frame crc (take n bytes)") auto

lemma rows_take:
  "wal_rows crc wid off (take n bytes) = takeWhile (\<lambda>r. rw_end r \<le> off + n) (wal_rows crc wid off bytes)"
proof (induction crc wid off bytes arbitrary: n rule: wal_rows.induct)
  case (1 crc wid off bytes)
  show ?case
  proof (cases "next_frame crc bytes")
    case None then show ?thesis by (simp add: wal_rows_None next_frame_take_None)
  next
    case (Some x)
    then obtain h p rest where nf: "next_frame crc bytes = Some (h, p, rest)" by (cases x) auto
    show ?thesis
    proof (cases "HEADER_LEN + fh_len h \<le> n")
      case True
      then show ?thesis using nf 1 [OF nf refl refl, of "n - (HEADER_LEN + fh_len h)"]
        by (simp add: wal_rows_Some next_frame_take rw_end_def algebra_simps)
    next
      case False
      then show ?thesis using nf by (simp add: wal_rows_Some wal_rows_None next_frame_take rw_end_def)
    qed
  qed
qed

lemma rows_shift:
  "wal_rows crc wid' (off + k) bytes = map (\<lambda>r. r\<lparr>rw_wal_id := wid', rw_offset := rw_offset r + k\<rparr>) (wal_rows crc wid off bytes)"
proof (induction crc wid off bytes rule: wal_rows.induct)
  case (1 crc wid off bytes)
  show ?case
  proof (cases "next_frame crc bytes")
    case (Some x)
    then obtain h p rest where nf: "next_frame crc bytes = Some (h, p, rest)" by (cases x) auto
    from 1 [OF nf refl refl] show ?thesis by (simp add: wal_rows_Some [OF nf] algebra_simps)
  qed (simp add: wal_rows_None)
qed

lemma valid_len_rec:
  "valid_len crc bytes = (case next_frame crc bytes of None \<Rightarrow> 0 | Some (h, _, rest) \<Rightarrow> HEADER_LEN + fh_len h + valid_len crc rest)"
proof (cases "next_frame crc bytes")
  case (Some x)
  then obtain h p rest where nf: "next_frame crc bytes = Some (h, p, rest)" by (cases x) auto
  have "wal_rows crc 0 (HEADER_LEN + fh_len h) rest =
      map (\<lambda>r. r\<lparr>rw_wal_id := 0, rw_offset := rw_offset r + (HEADER_LEN + fh_len h)\<rparr>) (wal_rows crc 0 0 rest)"
    using rows_shift [of crc 0 0 "HEADER_LEN + fh_len h" rest] by simp
  then show ?thesis using nf by (cases "wal_rows crc 0 0 rest") (auto simp: valid_len_def wal_rows_Some rw_end_def last_map)
qed (simp add: valid_len_def wal_rows_None)

lemma rows_append:
  "whole crc a \<Longrightarrow> wal_rows crc wid off (a @ b) = wal_rows crc wid off a @ wal_rows crc wid (off + length a) b"
proof (induction crc wid off a rule: wal_rows.induct)
  case (1 crc wid off bytes)
  show ?case
  proof (cases "next_frame crc bytes")
    case None
    then show ?thesis using "1.prems" by (simp add: valid_len_rec [of crc bytes])
  next
    case (Some x)
    then obtain h p rest where nf: "next_frame crc bytes = Some (h, p, rest)" by (cases x) auto
    have "whole crc rest" using "1.prems" nf next_frame_length [OF nf] by (simp add: valid_len_rec [of crc bytes])
    from "1.IH" [OF nf refl refl this] show ?thesis
      using nf next_frame_append [OF nf, of b] next_frame_length [OF nf] by (simp add: wal_rows_Some algebra_simps)
  qed
qed

lemma valid_len_append: "whole crc a \<Longrightarrow> valid_len crc (a @ b) = length a + valid_len crc b"
proof (induction "length a" arbitrary: a rule: less_induct)
  case less
  show ?case
  proof (cases "next_frame crc a")
    case None
    then show ?thesis using less.prems by (simp add: valid_len_rec [of crc a])
  next
    case (Some x)
    then obtain h p rest where nf: "next_frame crc a = Some (h, p, rest)" by (cases x) auto
    have "whole crc rest" using less.prems nf next_frame_length [OF nf] by (simp add: valid_len_rec [of crc a])
    from less.hyps [OF next_frame_shorter [OF nf] this] show ?thesis
      using nf next_frame_append [OF nf, of b] next_frame_length [OF nf] by (simp add: valid_len_rec [of crc "a @ b"])
  qed
qed

lemma valid_len_le: "valid_len crc bytes \<le> length bytes"
proof (induction "length bytes" arbitrary: bytes rule: less_induct)
  case less
  show ?case
  proof (cases "next_frame crc bytes")
    case (Some x)
    then obtain h p rest where nf: "next_frame crc bytes = Some (h, p, rest)" by (cases x) auto
    then show ?thesis using less.hyps [OF next_frame_shorter [OF nf]] next_frame_length [OF nf] by (simp add: valid_len_rec [of crc bytes])
  qed (simp add: valid_len_rec [of crc bytes])
qed

lemma rows_valid_part: "wal_rows crc wid off (take (valid_len crc bytes) bytes) = wal_rows crc wid off bytes \<and> whole crc (take (valid_len crc bytes) bytes)"
proof (induction "length bytes" arbitrary: bytes off rule: less_induct)
  case less
  show ?case
  proof (cases "next_frame crc bytes")
    case None
    then show ?thesis by (simp add: valid_len_rec [of crc bytes] wal_rows_None valid_len_rec [of crc "[]"])
  next
    case (Some x)
    then obtain h p rest where nf: "next_frame crc bytes = Some (h, p, rest)" by (cases x) auto
    let ?n = "HEADER_LEN + fh_len h"
    have v: "valid_len crc bytes = ?n + valid_len crc rest" using nf by (simp add: valid_len_rec [of crc bytes])
    have t: "next_frame crc (take (valid_len crc bytes) bytes) = Some (h, p, take (valid_len crc rest) rest)"
      using next_frame_take [OF nf, of "valid_len crc bytes"] by (simp add: v)
    have "valid_len crc (take (valid_len crc bytes) bytes) = ?n + valid_len crc (take (valid_len crc rest) rest)"
      using t by (subst valid_len_rec) simp
    then show ?thesis using less.hyps [OF next_frame_shorter [OF nf]] nf t v valid_len_le [of crc rest] valid_len_le [of crc bytes] by (simp add: wal_rows_Some)
  qed
qed

section \<open>Frames\<close>

definition frame_bytes :: "frame_header \<times> u8 list \<Rightarrow> u8 list" where
  "frame_bytes f = fh_encode (fst f) @ snd f"

definition frame_ok :: "checksum \<Rightarrow> frame_header \<times> u8 list \<Rightarrow> bool" where
  "frame_ok crc f = (header_fits (fst f) \<and> 0 < fh_len (fst f) \<and> fh_len (fst f) \<le> MAX_RECORD_SIZE \<and>
     length (snd f) = fh_len (fst f) \<and> payload_valid crc (fst f) (snd f))"

lemma next_frame_frame:
  assumes "frame_ok crc (h, p)"
  shows "next_frame crc (frame_bytes (h, p) @ rest) = Some (h, p, rest)"
  using assms parse_encode [of h "p @ rest"] by (auto simp: frame_ok_def frame_bytes_def next_frame_Some_iff slice_def)

lemma rows_frame:
  "frame_ok crc (h, p) \<Longrightarrow> wal_rows crc wid off (frame_bytes (h, p)) = [\<lparr>rw_wal_id = wid, rw_offset = off, rw_head = h, rw_payload = p\<rparr>]"
  using wal_rows_Some [OF next_frame_frame [of crc h p "[]"]] by simp

lemma whole_empty [simp]: "valid_len crc [] = 0"
  by (simp add: valid_len_rec [of crc "[]"])

lemma whole_frame: "frame_ok crc f \<Longrightarrow> whole crc (frame_bytes f)"
  using next_frame_frame [of crc "fst f" "snd f" "[]"]
  by (subst valid_len_rec) (auto simp: frame_bytes_def frame_ok_def)

lemma whole_append: "whole crc a \<Longrightarrow> whole crc b \<Longrightarrow> whole crc (a @ b)"
  by (simp add: valid_len_append)

lemma whole_frames: "\<forall>f\<in>set fs. frame_ok crc f \<Longrightarrow> whole crc (concat (map frame_bytes fs))"
  by (induction fs) (simp_all add: whole_append whole_frame)

lemma torn_frame: "frame_ok crc f \<Longrightarrow> n < length (frame_bytes f) \<Longrightarrow> next_frame crc (take n (frame_bytes f)) = None"
  using next_frame_take [OF next_frame_frame [of crc "fst f" "snd f" "[]"], of n] by (simp add: frame_bytes_def frame_ok_def)

section \<open>Replaying rows\<close>

abbreviation replay_row :: "'n env \<Rightarrow> nat option \<Rightarrow> row \<Rightarrow> 'n replay_state \<Rightarrow> 'n replay_state" where
  "replay_row ev through r \<equiv> replay_frame ev through (rw_wal_id r) (rw_offset r) (rw_head r) (rw_payload r)"

lemma replay_loop_rows:
  "replay_loop ev through wid off bytes st =
     (off + valid_len (ev_crc ev) bytes, fold (replay_row ev through) (wal_rows (ev_crc ev) wid off bytes) st)"
proof (induction ev through wid off bytes st rule: replay_loop.induct)
  case (1 ev through wid off bytes st)
  show ?case
  proof (cases "next_frame (ev_crc ev) bytes")
    case None then show ?thesis by (simp add: replay_loop.simps [of ev] wal_rows_None valid_len_rec [of _ bytes])
  next
    case (Some x)
    then obtain h p rest where nf: "next_frame (ev_crc ev) bytes = Some (h, p, rest)" by (cases x) auto
    from 1 [OF nf refl refl] show ?thesis using nf
      by (simp add: replay_loop.simps [of ev _ _ _ bytes] wal_rows_Some valid_len_rec [of _ bytes])
  qed
qed

lemma rows_frames:
  "\<forall>f\<in>set fs. frame_ok crc f \<Longrightarrow> map (\<lambda>r. (rw_head r, rw_payload r)) (wal_rows crc wid off (concat (map frame_bytes fs))) = fs"
proof (induction fs arbitrary: off)
  case (Cons f fs)
  then show ?case using rows_append [OF whole_frame, of crc f wid off] rows_frame [of crc "fst f" "snd f" wid off] by simp
qed simp

lemma torn_split:
  assumes "\<forall>f\<in>set fs. frame_ok crc f"
  shows "\<exists>k\<le>length fs. take (valid_len crc (take n (concat (map frame_bytes fs)))) (take n (concat (map frame_bytes fs))) =
      concat (map frame_bytes (take k fs)) \<and> (k < length fs \<longrightarrow> n < length (concat (map frame_bytes (take (Suc k) fs))))"
  using assms
proof (induction fs arbitrary: n)
  case (Cons f fs)
  show ?case
  proof (cases "n < length (frame_bytes f)")
    case True
    then have "next_frame crc (take n (frame_bytes f)) = None" using torn_frame Cons.prems by simp
    then have "valid_len crc (take n (frame_bytes f)) = 0" by (subst valid_len_rec) simp
    then show ?thesis using True by (intro exI [of _ 0]) simp
  next
    case False
    obtain k where k: "k \<le> length fs"
      "take (valid_len crc (take (n - length (frame_bytes f)) (concat (map frame_bytes fs)))) (take (n - length (frame_bytes f)) (concat (map frame_bytes fs))) =
         concat (map frame_bytes (take k fs))"
      "k < length fs \<longrightarrow> n - length (frame_bytes f) < length (concat (map frame_bytes (take (Suc k) fs)))"
      using Cons.IH [of "n - length (frame_bytes f)"] Cons.prems by auto
    have w: "whole crc (frame_bytes f)" using Cons.prems whole_frame by simp
    show ?thesis using k False valid_len_append [OF w] by (intro exI [of _ "Suc k"]) auto
  qed
qed simp

text \<open>
  A file cut off anywhere keeps every frame before the cut: replaying any prefix of a run of valid
  frames -- a torn write, a lost tail -- applies exactly the frames that lie in it whole, in order, and
  leaves the file holding exactly those.
\<close>

theorem torn_tail_keeps_whole_frames:
  assumes "\<forall>f\<in>set fs. frame_ok (ev_crc ev) f"
  shows "\<exists>k\<le>length fs. case replay_file_from ev through wid 0 (take n (concat (map frame_bytes fs))) st of
    (kept, tail, st') \<Rightarrow>
      kept = concat (map frame_bytes (take k fs)) \<and> (k < length fs \<longrightarrow> n < length (concat (map frame_bytes (take (Suc k) fs)))) \<and>
      map (\<lambda>r. (rw_head r, rw_payload r)) (wal_rows (ev_crc ev) wid 0 kept) = take k fs \<and>
      st' = fold (replay_row ev through) (wal_rows (ev_crc ev) wid 0 kept) (st\<lparr>rp_max_lsn := 0, rp_max_term := 0\<rparr>)"
proof -
  define B where "B = take n (concat (map frame_bytes fs))"
  obtain k where k: "k \<le> length fs" "take (valid_len (ev_crc ev) B) B = concat (map frame_bytes (take k fs))"
    "k < length fs \<longrightarrow> n < length (concat (map frame_bytes (take (Suc k) fs)))"
    using torn_split [OF assms] unfolding B_def by blast
  have rows: "map (\<lambda>r. (rw_head r, rw_payload r)) (wal_rows (ev_crc ev) wid 0 (concat (map frame_bytes (take k fs)))) = take k fs"
    using assms by (intro rows_frames) (auto dest: in_set_takeD)
  have kept: "wal_rows (ev_crc ev) wid 0 B = wal_rows (ev_crc ev) wid 0 (concat (map frame_bytes (take k fs)))"
    using rows_valid_part [of "ev_crc ev" wid 0 B] unfolding k(2) by simp
  have "replay_file_from ev through wid 0 B st = (let st' = fold (replay_row ev through) (wal_rows (ev_crc ev) wid 0 B) (st\<lparr>rp_max_lsn := 0, rp_max_term := 0\<rparr>)
      in (take (valid_len (ev_crc ev) B) B, (rp_max_lsn st', rp_max_term st'), st'))"
    by (simp add: replay_file_from_def replay_loop_rows Let_def)
  then show ?thesis using k(1,3) rows unfolding B_def [symmetric] k(2) kept Let_def by (intro exI [of _ k]) simp
qed

text \<open>The second of two frames torn in its payload.\<close>

definition ex_frame :: "nat \<Rightarrow> u8 \<Rightarrow> frame_header \<times> u8 list" where
  "ex_frame lsn b = (\<lparr>fh_len = 1, fh_crc = unat b, fh_term = 1, fh_lsn = lsn, fh_prev_lsn = lsn - 1, fh_prev_term = 1\<rparr>, [b])"

theorem torn_tail_keeps_whole_frames_witness:
  "\<exists>k\<le>2. case replay_file_from ex_env None 1 0 (take 60 (concat (map frame_bytes [ex_frame 1 3, ex_frame 2 3]))) (seed_replay (co_disk ex_empty)) of
     (kept, tail, st) \<Rightarrow> map (\<lambda>r. (rw_head r, rw_payload r)) (wal_rows (ev_crc ex_env) 1 0 kept) = take k [ex_frame 1 3, ex_frame 2 3]"
proof -
  have "\<forall>f\<in>set [ex_frame 1 3, ex_frame 2 3]. frame_ok (ev_crc ex_env) f"
    by (simp add: ex_frame_def frame_ok_def header_fits_def MAX_RECORD_SIZE_def payload_valid_def ex_env_def)
  from torn_tail_keeps_whole_frames [OF this, where through = None and wid = 1 and n = 60 and st = "seed_replay (co_disk ex_empty)"]
  obtain k where "k \<le> length [ex_frame 1 3, ex_frame 2 3]"
    "case replay_file_from ex_env None 1 0 (take 60 (concat (map frame_bytes [ex_frame 1 3, ex_frame 2 3]))) (seed_replay (co_disk ex_empty)) of
       (kept, tail, st) \<Rightarrow> map (\<lambda>r. (rw_head r, rw_payload r)) (wal_rows (ev_crc ex_env) 1 0 kept) = take k [ex_frame 1 3, ex_frame 2 3]"
    unfolding case_prod_beta by blast
  then show ?thesis by (intro exI [of _ k]) simp
qed

end
