(* ===== verification/Logical.thy ===== *)
theory Logical
  imports Log
begin

text \<open>
  What a log means. Each row of the log changes an abstract collection -- a partial map from keys to where
  their documents lie, the drop mark, the configuration, the handover and the expiry rule. A commit, which
  applies a staged effect, and a replay, which applies a frame read back, both change their concrete
  states the way the row changes the abstract one.
\<close>

section \<open>The logical state\<close>

record logical =
  lg_docs :: "string \<rightharpoonup> index_entry"
  lg_dropped :: bool
  lg_config :: "configuration option"
  lg_handover :: "handover_record option"
  lg_ttl :: "nat option"

definition lg_empty :: logical where
  "lg_empty = \<lparr>lg_docs = Map.empty, lg_dropped = False, lg_config = None, lg_handover = None, lg_ttl = None\<rparr>"

definition strip :: "index_entry \<Rightarrow> index_entry" where
  "strip e = e\<lparr>ie_inline := None\<rparr>"

definition row_entry :: "row \<Rightarrow> nat \<Rightarrow> nat option \<Rightarrow> index_entry" where
  "row_entry r ts expire_at =
     \<lparr>ie_wal_id = rw_wal_id r, ie_offset = rw_offset r, ie_len = fh_len (rw_head r), ie_inline = None, ie_lsn = rw_lsn r,
      ie_term = rw_term r, ie_ts = ts, ie_expire_at = expire_at\<rparr>"

fun lg_entry :: "row \<Rightarrow> 'n log_entry \<Rightarrow> logical \<Rightarrow> logical" where
  "lg_entry r (Put _ key _ ts expire_at) s = s\<lparr>lg_docs := (lg_docs s)(key \<mapsto> row_entry r ts expire_at), lg_dropped := False\<rparr>"
| "lg_entry r (Del _ key _) s = s\<lparr>lg_docs := (lg_docs s)(key := None), lg_dropped := False\<rparr>"
| "lg_entry r (Drop _) s = s\<lparr>lg_docs := Map.empty, lg_dropped := True, lg_ttl := None\<rparr>"
| "lg_entry r (Config config _) s = s\<lparr>lg_config := Some (canonicalized config)\<rparr>"
| "lg_entry r (Handover handover _) s = s\<lparr>lg_handover := Some handover\<rparr>"
| "lg_entry r (Ttl ttl_secs _) s = s\<lparr>lg_ttl := ttl_secs\<rparr>"
| "lg_entry r _ s = s"

definition lg_apply :: "'n env \<Rightarrow> row \<Rightarrow> logical \<Rightarrow> logical" where
  "lg_apply ev r s = (case ev_de ev (rw_payload r) of Some e \<Rightarrow> lg_entry r e s | None \<Rightarrow> s)"

definition logical :: "'n env \<Rightarrow> row list \<Rightarrow> logical" where
  "logical ev rs = fold (lg_apply ev) rs lg_empty"

lemma logical_append [simp]: "logical ev (rs @ rs') = fold (lg_apply ev) rs' (logical ev rs)"
  by (simp add: logical_def)

lemma logical_Nil [simp]: "logical ev [] = lg_empty"
  by (simp add: logical_def)

section \<open>Views\<close>

definition docs_at :: "(string \<times> index_entry) list \<Rightarrow> string \<rightharpoonup> index_entry" where
  "docs_at m = (\<lambda>k. map_option strip (bm_get str_cmp m k))"

definition cview :: "'n committed_state \<Rightarrow> logical" where
  "cview s = \<lparr>lg_docs = docs_at (cs_index s), lg_dropped = cs_dropped s, lg_config = map_option canonicalized (cs_config s),
     lg_handover = cs_handover s, lg_ttl = cs_ttl s\<rparr>"

definition rview :: "'n replay_state \<Rightarrow> logical" where
  "rview s = \<lparr>lg_docs = docs_at (rp_index s), lg_dropped = rp_dropped s, lg_config = map_option canonicalized (rp_config s),
     lg_handover = rp_handover s, lg_ttl = rp_ttl_secs s\<rparr>"

lemma docs_at_simps [simp]:
  "docs_at [] = Map.empty"
  "docs_at (bm_insert str_cmp k e m) = (docs_at m)(k \<mapsto> strip e)"
  "docs_at (bm_remove str_cmp k m) = (docs_at m)(k := None)"
  by (auto simp: docs_at_def str_cmp.bm_get_insert str_cmp.bm_get_remove str_cmp.cmp_Equal_iff fun_eq_iff)

lemma docs_at_absent: "bm_get str_cmp m k = None \<Longrightarrow> (docs_at m)(k := None) = docs_at m"
  by (auto simp: docs_at_def fun_eq_iff)

lemma fold_push_absorbed:
  "\<forall>u\<in>set xs. list_ex (\<lambda>v. same_endpoint v u) out \<Longrightarrow> foldl push_endpoint out xs = out"
  by (induction xs) (simp_all add: push_endpoint_def)

lemma push_endpoint_mono: "set out \<subseteq> set (foldl push_endpoint out xs)"
  by (induction xs arbitrary: out) (auto simp: push_endpoint_def subset_iff)

lemma canonical_idem [simp]: "canonical (canonical vs) = canonical vs"
proof -
  have "foldl push_endpoint [] (foldl push_endpoint out vs) = foldl push_endpoint out vs"
    if "foldl push_endpoint [] out = out" for out using that
  proof (induction vs arbitrary: out)
    case (Cons v vs)
    then show ?case by (auto simp: push_endpoint_def)
  qed simp
  from this [of "[]"] show ?thesis by (simp add: canonical_def)
qed

lemma canonicalized_idem [simp]: "canonicalized (canonicalized c) = canonicalized c"
  by (simp add: canonicalized_def cfg_joint_def cfg_simple_def split: option.splits)

lemma canonicalized_opt [simp]: "map_option canonicalized (map_option canonicalized x) = map_option canonicalized x"
  by (cases x) simp_all

section \<open>Effects\<close>

fun fits :: "row \<Rightarrow> 'n log_entry \<Rightarrow> 'n staged_effect \<Rightarrow> bool" where
  "fits r (Put _ key _ ts expire_at) eff = (case eff of SPut k e _ \<Rightarrow> k = key \<and> strip e = row_entry r ts expire_at | _ \<Rightarrow> False)"
| "fits r (Del _ key _) eff = (eff = SRemove key)"
| "fits r (Barrier _) eff = (eff = SNothing)"
| "fits r (Drop _) eff = (eff = SClear)"
| "fits r (Config config _) eff = (eff = SConfigure (canonicalized config))"
| "fits r (Handover handover _) eff = (eff = SRecordHandover handover)"
| "fits r (Index change _) eff = (eff = SDefineIndex change)"
| "fits r (Ttl ttl_secs _) eff = (eff = SSetTtl ttl_secs)"

definition realizes :: "'n env \<Rightarrow> row \<Rightarrow> nat \<times> 'n staged_apply \<Rightarrow> bool" where
  "realizes ev r p = (case p of (lsn, s) \<Rightarrow>
     lsn = rw_lsn r \<and> sa_wal_id s = rw_wal_id r \<and> sa_offset s = rw_offset r \<and> sa_term s = rw_term r \<and>
     (case ev_de ev (rw_payload r) of Some e \<Rightarrow> fits r e (sa_effect s) | None \<Rightarrow> False))"

lemma cview_note_rich [simp]: "cview (note_rich b s) = cview s"
  by (simp add: note_rich_def cview_def)

lemma cview_apply_effect:
  assumes "fits r e eff"
  shows "cview (apply_effect f eff s) = lg_entry r e (cview s)"
proof (cases e)
  case (Put m k v ts ex)
  then show ?thesis using assms by (auto simp: effect_defs cview_def split: staged_effect.splits)
next
  case (Del m k ts)
  then show ?thesis using assms
    by (cases "bm_get str_cmp (cs_index s) k") (auto simp: effect_defs cview_def docs_at_absent)
qed (use assms in \<open>auto simp: effect_defs cview_def\<close>)

lemma realizes_apply:
  "realizes ev r p \<Longrightarrow> cview (apply_effect f (sa_effect (snd p)) s) = lg_apply ev r (cview s)"
  by (auto simp: realizes_def lg_apply_def cview_apply_effect split: option.splits prod.splits)

lemma realizes_fold:
  "list_all2 (realizes ev) rs ps \<Longrightarrow> cview (foldl (\<lambda>s x. apply_effect f (sa_effect (snd x)) s) s ps) = fold (lg_apply ev) rs (cview s)"
  by (induction arbitrary: s rule: list_all2_induct) (simp_all add: realizes_apply)

section \<open>Replay\<close>

lemma strip_replay_entry:
  "strip (replay_entry h p w off ts ex cache used) =
     row_entry \<lparr>rw_wal_id = w, rw_offset = off, rw_head = h, rw_payload = p\<rparr> ts ex"
  by (simp add: strip_def replay_entry_def row_entry_def)

lemma row_entry_cong: "row_entry \<lparr>rw_wal_id = rw_wal_id r, rw_offset = rw_offset r, rw_head = rw_head r, rw_payload = p\<rparr> ts ex = row_entry r ts ex"
  by (simp add: row_entry_def)

lemma rview_note_max [simp]: "rview (note_max h st) = rview st" "rp_pending (note_max h st) = rp_pending st"
  by (simp_all add: note_max_def rview_def)

lemma rview_replay_applied:
  "rview (replay_applied cache (rw_wal_id r) (rw_offset r) (rw_head r) p e st) = lg_entry r e (rview st)"
proof (cases e)
  case (Del m k ts)
  then show ?thesis
    by (cases "bm_get str_cmp (rp_index st) k") (auto simp: replay_applied_def rview_def docs_at_absent)
qed (auto simp: replay_applied_def rview_def Let_def strip_replay_entry row_entry_cong)

lemma rview_replay_staged:
  "rview (replay_staged cache w off h p e st) = rview st"
  by (cases e) (auto simp: replay_staged_def rview_def Let_def)

lemma pending_replay_applied: "rp_pending (replay_applied cache w off h p e st) = rp_pending st"
  by (cases e) (auto simp: replay_applied_def Let_def split: option.splits)

lemma replay_row_committed:
  assumes "rw_lsn r \<le> t"
  shows "rview (replay_row ev (Some t) r st) = lg_apply ev r (rview st)" "rp_pending (replay_row ev (Some t) r st) = rp_pending st"
  using assms by (auto simp: replay_frame_def lg_apply_def rview_replay_applied pending_replay_applied split: option.splits)

lemma pending_replay_staged:
  assumes "ev_de ev (rw_payload r) = Some e"
  shows "\<exists>s. realizes ev r (rw_lsn r, s) \<and>
    rp_pending (replay_staged cache (rw_wal_id r) (rw_offset r) (rw_head r) p e st) = bm_insert cmp_lin (rw_lsn r) s (rp_pending st)"
  using assms by (cases e) (auto simp: replay_staged_def realizes_def Let_def strip_replay_entry row_entry_cong intro!: exI)

lemma bm_insert_top:
  "\<forall>(l, _)\<in>set m. l < k \<Longrightarrow> bm_insert cmp_lin (k :: nat) v m = m @ [(k, v)]"
  by (induction m) (auto simp: cmp_lin_def)

lemma replay_row_staged:
  assumes "t < rw_lsn r" "ev_de ev (rw_payload r) = Some e" "\<forall>(l, _)\<in>set (rp_pending st). l < rw_lsn r"
  shows "rview (replay_row ev (Some t) r st) = rview st"
    "\<exists>s. realizes ev r (rw_lsn r, s) \<and> rp_pending (replay_row ev (Some t) r st) = rp_pending st @ [(rw_lsn r, s)]"
  using assms pending_replay_staged [OF assms(2), of "ev_cache ev" "rw_payload r" st] bm_insert_top [OF assms(3)]
  by (auto simp: replay_frame_def rview_replay_staged)

end
