(* ===== verification/Recovery.thy ===== *)
theory Recovery
  imports Logical
begin

text \<open>
  Opening a directory. The rows of its WAL files form one chained log; opening replays the rows from the
  snapshot's resume point, those up to the recorded watermark into the index and the rest into the staging
  buffer, and cuts every file to its last whole frame.
\<close>

section \<open>Chained logs\<close>

fun linked :: "nat \<Rightarrow> nat \<Rightarrow> row list \<Rightarrow> bool" where
  "linked l t [] = True"
| "linked l t (r # rs) =
     (fh_prev_lsn (rw_head r) = l \<and> fh_prev_term (rw_head r) = t \<and> l < rw_lsn r \<and> linked (rw_lsn r) (rw_term r) rs)"

definition tail_of :: "nat \<times> nat \<Rightarrow> row list \<Rightarrow> nat \<times> nat" where
  "tail_of base rs = (if rs = [] then base else (rw_lsn (last rs), rw_term (last rs)))"

lemma tail_of_simps [simp]:
  "tail_of base [] = base" "tail_of base (r # rs) = tail_of (rw_lsn r, rw_term r) rs" "tail_of base (rs @ rs') = tail_of (tail_of base rs) rs'"
  by (simp_all add: tail_of_def)

lemma linked_append: "linked l t (rs @ rs') \<longleftrightarrow> linked l t rs \<and> linked (fst (tail_of (l, t) rs)) (snd (tail_of (l, t) rs)) rs'"
  by (induction rs arbitrary: l t) auto

lemma linked_above: "linked l t rs \<Longrightarrow> r \<in> set rs \<Longrightarrow> l < rw_lsn r"
  by (induction rs arbitrary: l t) (auto intro: less_trans)

lemma linked_sorted: "linked l t rs \<Longrightarrow> sorted_wrt (<) (map fh_lsn (map rw_head rs))"
  by (induction rs arbitrary: l t) (auto dest: linked_above)

lemma sorted_rows: "linked l t rs \<Longrightarrow> sorted_wrt (\<lambda>a b. rw_lsn a < rw_lsn b) rs"
  using linked_sorted [of l t rs] by (simp add: sorted_wrt_map)

text \<open>The rows at or below a position are a prefix, and the ones above it the rest.\<close>

definition rows_to :: "nat \<Rightarrow> row list \<Rightarrow> row list" where
  "rows_to n rs = filter (\<lambda>r. rw_lsn r \<le> n) rs"

definition rows_past :: "nat \<Rightarrow> row list \<Rightarrow> row list" where
  "rows_past n rs = filter (\<lambda>r. n < rw_lsn r) rs"

lemma rows_to_simps [simp]: "rows_to n [] = []" "rows_to n (rs @ rs') = rows_to n rs @ rows_to n rs'"
  "rows_past n [] = []" "rows_past n (rs @ rs') = rows_past n rs @ rows_past n rs'"
  by (simp_all add: rows_to_def rows_past_def)

lemma rows_to_past:
  assumes "sorted_wrt (\<lambda>a b. rw_lsn a < rw_lsn b) rs"
  shows "rs = rows_to n rs @ rows_past n rs"
  using assms
proof (induction rs)
  case (Cons r rs)
  show ?case
  proof (cases "rw_lsn r \<le> n")
    case False
    then have "rows_to n rs = []" using Cons.prems by (fastforce simp: rows_to_def filter_empty_conv)
    then show ?thesis using False Cons by (auto simp: rows_to_def rows_past_def)
  qed (use Cons in \<open>auto simp: rows_to_def rows_past_def\<close>)
qed simp

lemma rows_to_all: "\<forall>r\<in>set rs. rw_lsn r \<le> n \<Longrightarrow> rows_to n rs = rs" "\<forall>r\<in>set rs. n < rw_lsn r \<Longrightarrow> rows_to n rs = []"
  and rows_past_all: "\<forall>r\<in>set rs. n < rw_lsn r \<Longrightarrow> rows_past n rs = rs" "\<forall>r\<in>set rs. rw_lsn r \<le> n \<Longrightarrow> rows_past n rs = []"
  by (auto simp: rows_to_def rows_past_def filter_id_conv filter_empty_conv)

lemma rows_to_to: "rows_to m (rows_to n rs) = rows_to (min m n) rs" "rows_past m (rows_to n rs) = rows_to n (rows_past m rs)"
  by (auto simp: rows_to_def rows_past_def intro: filter_cong)

section \<open>Replaying a run of rows\<close>

definition decodes :: "'n env \<Rightarrow> row list \<Rightarrow> bool" where
  "decodes ev rs = (\<forall>r\<in>set rs. ev_de ev (rw_payload r) \<noteq> None)"

definition staged_below :: "(nat \<times> 'n staged_apply) list \<Rightarrow> row list \<Rightarrow> bool" where
  "staged_below ps rs = (\<forall>(l, _)\<in>set ps. \<forall>r\<in>set rs. l < rw_lsn r)"

lemma realizes_lsns: "list_all2 (realizes ev) rs ps \<Longrightarrow> map fst ps = map (\<lambda>r. rw_lsn r) rs"
  by (induction rule: list_all2_induct) (auto simp: realizes_def)

lemma staged_below_append: "staged_below ps (rs @ rs') \<longleftrightarrow> staged_below ps rs \<and> staged_below ps rs'"
  by (auto simp: staged_below_def)

lemma max_replay_frame:
  assumes "ev_de ev p \<noteq> None"
  shows "rp_max_lsn (replay_frame ev through w off h p st) = max (rp_max_lsn st) (fh_lsn h)"
    "rp_max_term (replay_frame ev through w off h p st) = (if rp_max_lsn st < fh_lsn h then fh_term h else rp_max_term st)"
proof -
  have "rp_max_lsn (replay_staged c w off h p e st) = rp_max_lsn st" "rp_max_term (replay_staged c w off h p e st) = rp_max_term st"
    "rp_max_lsn (replay_applied c w off h p e st) = rp_max_lsn st" "rp_max_term (replay_applied c w off h p e st) = rp_max_term st" for c and e :: "'a log_entry"
    by (cases e; simp add: replay_staged_def replay_applied_def Let_def split: option.splits)+
  then show "rp_max_lsn (replay_frame ev through w off h p st) = max (rp_max_lsn st) (fh_lsn h)"
    "rp_max_term (replay_frame ev through w off h p st) = (if rp_max_lsn st < fh_lsn h then fh_term h else rp_max_term st)"
    using assms by (auto simp: replay_frame_def note_max_def)
qed

lemma replay_max:
  assumes "sorted_wrt (\<lambda>a b. rw_lsn a < rw_lsn b) rs" "decodes ev rs" "\<forall>r\<in>set rs. rp_max_lsn st < rw_lsn r"
  shows "(rp_max_lsn (fold (replay_row ev through) rs st), rp_max_term (fold (replay_row ev through) rs st)) =
    tail_of (rp_max_lsn st, rp_max_term st) rs"
  using assms
proof (induction rs arbitrary: st)
  case (Cons r rs)
  note m = max_replay_frame [of ev "rw_payload r" through "rw_wal_id r" "rw_offset r" "rw_head r" st]
  have "rp_max_lsn (replay_row ev through r st) = rw_lsn r" "rp_max_term (replay_row ev through r st) = rw_term r"
    using m Cons.prems by (auto simp: decodes_def)
  then show ?case using Cons.IH [of "replay_row ev through r st"] Cons.prems by (simp add: decodes_def)
qed simp

lemma replay_rows:
  assumes "sorted_wrt (\<lambda>a b. rw_lsn a < rw_lsn b) rs" "decodes ev rs" "staged_below (rp_pending st) rs"
  shows "rview (fold (replay_row ev (Some t)) rs st) = fold (lg_apply ev) (rows_to t rs) (rview st)"
    "\<exists>ps. rp_pending (fold (replay_row ev (Some t)) rs st) = rp_pending st @ ps \<and> list_all2 (realizes ev) (rows_past t rs) ps"
proof -
  have "rview (fold (replay_row ev (Some t)) rs st) = fold (lg_apply ev) (rows_to t rs) (rview st) \<and>
    (\<exists>ps. rp_pending (fold (replay_row ev (Some t)) rs st) = rp_pending st @ ps \<and> list_all2 (realizes ev) (rows_past t rs) ps)"
    using assms
  proof (induction rs arbitrary: st)
    case (Cons r rs)
    let ?st = "replay_row ev (Some t) r st"
    have s: "sorted_wrt (\<lambda>a b. rw_lsn a < rw_lsn b) rs" "decodes ev rs" using Cons.prems by (auto simp: decodes_def)
    show ?case
    proof (cases "rw_lsn r \<le> t")
      case True
      have "staged_below (rp_pending ?st) rs" using Cons.prems(3) unfolding replay_row_committed(2) [OF True] by (auto simp: staged_below_def)
      from Cons.IH [OF s this] show ?thesis using True replay_row_committed [OF True, of ev st] by (simp add: rows_to_def rows_past_def)
    next
      case False
      obtain e where e: "ev_de ev (rw_payload r) = Some e" using Cons.prems(2) by (auto simp: decodes_def)
      obtain s where st: "rview ?st = rview st" "realizes ev r (rw_lsn r, s)" "rp_pending ?st = rp_pending st @ [(rw_lsn r, s)]"
        using replay_row_staged [of t r ev e st] False e Cons.prems(3) by (auto simp: staged_below_def)
      have "staged_below (rp_pending ?st) rs" using Cons.prems(1,3) st(3) by (auto simp: staged_below_def)
      from Cons.IH [OF s this] show ?thesis using False st by (auto simp: rows_to_def rows_past_def)
    qed
  qed simp
  then show "rview (fold (replay_row ev (Some t)) rs st) = fold (lg_apply ev) (rows_to t rs) (rview st)"
    "\<exists>ps. rp_pending (fold (replay_row ev (Some t)) rs st) = rp_pending st @ ps \<and> list_all2 (realizes ev) (rows_past t rs) ps" by auto
qed

section \<open>Replaying the files\<close>

definition log_rows :: "checksum \<Rightarrow> (nat \<times> u8 list) list \<Rightarrow> row list" where
  "log_rows crc files = concat (map (\<lambda>(wid, bytes). wal_rows crc wid 0 bytes) files)"

definition resume_at :: "index_snapshot option \<Rightarrow> nat \<Rightarrow> nat" where
  "resume_at snap wid = (case snap of Some s \<Rightarrow> if wid = is_last_wal_id s then is_last_offset s else 0 | None \<Rightarrow> 0)"

definition skipped :: "index_snapshot option \<Rightarrow> nat \<Rightarrow> bool" where
  "skipped snap wid = (case snap of Some s \<Rightarrow> wid < is_last_wal_id s | None \<Rightarrow> False)"

definition resumed :: "checksum \<Rightarrow> index_snapshot option \<Rightarrow> nat \<times> u8 list \<Rightarrow> row list" where
  "resumed crc snap file = (case file of (wid, bytes) \<Rightarrow>
     if skipped snap wid then [] else wal_rows crc wid (resume_at snap wid) (drop (resume_at snap wid) bytes))"

definition trimmed :: "checksum \<Rightarrow> index_snapshot option \<Rightarrow> nat \<times> u8 list \<Rightarrow> nat \<times> u8 list" where
  "trimmed crc snap file = (case file of (wid, bytes) \<Rightarrow>
     if skipped snap wid then (wid, bytes)
     else (wid, take (resume_at snap wid + valid_len crc (drop (resume_at snap wid) bytes)) bytes))"

lemma replay_file_eq:
  assumes "resume_at snap wid \<le> length bytes"
  shows "replay_file ev through snap (acc, tail, st) (wid, bytes) =
    (if skipped snap wid then (acc @ [(wid, bytes)], tail, st)
     else (let st' = fold (replay_row ev through) (resumed (ev_crc ev) snap (wid, bytes)) (st\<lparr>rp_max_lsn := 0, rp_max_term := 0\<rparr>)
           in (acc @ [trimmed (ev_crc ev) snap (wid, bytes)],
               if rp_max_lsn st' \<noteq> 0 then (rp_max_lsn st', rp_max_term st') else tail, st')))"
proof (cases snap)
  case None
  then show ?thesis by (simp add: replay_file_def skipped_def resumed_def trimmed_def resume_at_def replay_file_from_def replay_loop_rows Let_def)
next
  case (Some s)
  then show ?thesis using assms
    by (auto simp: replay_file_def skipped_def resumed_def trimmed_def resume_at_def replay_file_from_def replay_loop_rows Let_def)
qed

lemma rview_reset [simp]: "rview (st\<lparr>rp_max_lsn := n, rp_max_term := m\<rparr>) = rview st"
  by (simp add: rview_def)

lemma replay_files:
  assumes "\<forall>(wid, bytes)\<in>set files. resume_at snap wid \<le> length bytes"
    and "R = concat (map (resumed (ev_crc ev) snap) files)"
    and "sorted_wrt (\<lambda>a b. rw_lsn a < rw_lsn b) R" "decodes ev R" "staged_below (rp_pending st) R" "\<forall>r\<in>set R. 0 < rw_lsn r"
    and "through = Some t \<or> R = []"
    and "foldl (replay_file ev through snap) (acc, tail, st) files = (acc', tail', st')"
  shows "acc' = acc @ map (trimmed (ev_crc ev) snap) files \<and> tail' = tail_of tail R \<and>
    rview st' = fold (lg_apply ev) (rows_to t R) (rview st) \<and>
    (\<exists>ps. rp_pending st' = rp_pending st @ ps \<and> list_all2 (realizes ev) (rows_past t R) ps)"
  using assms
proof (induction files arbitrary: acc tail st R)
  case (Cons fl files)
  obtain wid bytes where fl: "fl = (wid, bytes)" by fastforce
  let ?R1 = "resumed (ev_crc ev) snap (wid, bytes)" and ?R2 = "concat (map (resumed (ev_crc ev) snap) files)"
  have R: "R = ?R1 @ ?R2" using Cons.prems(2) fl by simp
  have le: "resume_at snap wid \<le> length bytes" using Cons.prems(1) fl by simp
  define st0 where "st0 = st\<lparr>rp_max_lsn := 0, rp_max_term := 0\<rparr>"
  define st1 where "st1 = fold (replay_row ev through) ?R1 st0"
  have srt: "sorted_wrt (\<lambda>a b. rw_lsn a < rw_lsn b) ?R1" "sorted_wrt (\<lambda>a b. rw_lsn a < rw_lsn b) ?R2"
    "\<forall>a\<in>set ?R1. \<forall>b\<in>set ?R2. rw_lsn a < rw_lsn b" using Cons.prems(3) by (simp_all add: R sorted_wrt_append)
  have dec: "decodes ev ?R1" "decodes ev ?R2" using Cons.prems(4) by (auto simp: R decodes_def)
  have below: "staged_below (rp_pending st0) ?R1" "staged_below (rp_pending st) ?R2" using Cons.prems(5) by (simp_all add: R staged_below_append st0_def)
  have mx: "(rp_max_lsn st1, rp_max_term st1) = tail_of (0, 0) ?R1"
    using replay_max [OF srt(1) dec(1), of st0 through] Cons.prems(6) by (simp add: st0_def st1_def R)
  have max0: "(if rp_max_lsn st1 \<noteq> 0 then (rp_max_lsn st1, rp_max_term st1) else tail) = tail_of tail ?R1"
  proof (cases "?R1 = []")
    case False
    then have "0 < rw_lsn (last ?R1)" using Cons.prems(6) last_in_set [OF False] unfolding R by simp
    then show ?thesis using mx False by (simp add: tail_of_def)
  qed (use mx in simp)
  obtain ps where one: "rview st1 = fold (lg_apply ev) (rows_to t ?R1) (rview st)" "rp_pending st1 = rp_pending st @ ps"
    "list_all2 (realizes ev) (rows_past t ?R1) ps"
    using replay_rows [OF srt(1) dec(1) below(1), of t] Cons.prems(7) by (cases ?R1) (auto simp: st1_def st0_def R)
  have "set (map fst ps) \<subseteq> (\<lambda>r. rw_lsn r) ` set ?R1" unfolding realizes_lsns [OF one(3)] by (auto simp: rows_past_def)
  then have lsns: "\<exists>r\<in>set ?R1. l = rw_lsn r" if "(l, s) \<in> set ps" for l s using that by force
  have "staged_below ps ?R2" using srt(3) lsns unfolding staged_below_def by fast
  then have below1: "staged_below (rp_pending st1) ?R2" using below(2) unfolding one(2) staged_below_def by auto
  have rest: "through = Some t \<or> ?R2 = []" using Cons.prems(7) R by auto
  show ?case
  proof (cases "skipped snap wid")
    case True
    then have r1: "?R1 = []" "trimmed (ev_crc ev) snap (wid, bytes) = (wid, bytes)" by (simp_all add: resumed_def trimmed_def)
    have "foldl (replay_file ev through snap) (acc @ [(wid, bytes)], tail, st) files = (acc', tail', st')"
      using Cons.prems(8) True le by (simp add: fl replay_file_eq)
    from Cons.IH [OF _ refl srt(2) dec(2) below(2) _ rest this] Cons.prems(1,6) show ?thesis by (simp add: fl R r1)
  next
    case False
    have "foldl (replay_file ev through snap) (acc @ [trimmed (ev_crc ev) snap (wid, bytes)], tail_of tail ?R1, st1) files = (acc', tail', st')"
      using Cons.prems(8) False le max0 by (simp add: fl replay_file_eq Let_def st0_def [symmetric] st1_def [symmetric])
    from Cons.IH [OF _ refl srt(2) dec(2) below1 _ rest this] Cons.prems(1,6) one show ?thesis
      by (auto simp: fl R intro: list_all2_appendI)
  qed
qed simp

section \<open>What a snapshot covers\<close>

definition covered :: "checksum \<Rightarrow> index_snapshot option \<Rightarrow> (nat \<times> u8 list) list \<Rightarrow> row list" where
  "covered crc snap files =
     concat (map (\<lambda>(wid, bytes). if skipped snap wid then wal_rows crc wid 0 bytes else wal_rows crc wid 0 (take (resume_at snap wid) bytes)) files)"

definition uncovered :: "checksum \<Rightarrow> index_snapshot option \<Rightarrow> (nat \<times> u8 list) list \<Rightarrow> row list" where
  "uncovered crc snap files = concat (map (resumed crc snap) files)"

definition aligned :: "checksum \<Rightarrow> index_snapshot option \<Rightarrow> (nat \<times> u8 list) list \<Rightarrow> bool" where
  "aligned crc snap files =
     (\<forall>(wid, bytes)\<in>set files. resume_at snap wid \<le> length bytes \<and> whole crc (take (resume_at snap wid) bytes))"

lemma log_rows_simps [simp]:
  "log_rows crc [] = []" "log_rows crc ((w, b) # files) = wal_rows crc w 0 b @ log_rows crc files"
  "log_rows crc (fs @ gs) = log_rows crc fs @ log_rows crc gs"
  by (simp_all add: log_rows_def)

lemma file_split:
  assumes "n \<le> length bytes" "whole crc (take n bytes)"
  shows "wal_rows crc wid 0 bytes = wal_rows crc wid 0 (take n bytes) @ wal_rows crc wid n (drop n bytes)"
  using rows_append [OF assms(2), of wid 0 "drop n bytes"] assms(1) by simp

lemma uncovered_above:
  assumes "\<forall>(wid, bytes)\<in>set files. \<not> skipped snap wid \<and> resume_at snap wid = 0"
  shows "covered crc snap files = []" "uncovered crc snap files = log_rows crc files"
  using assms by (induction files) (auto simp: covered_def uncovered_def resumed_def)

lemma covered_split:
  assumes "bm_sorted cmp_lin files" "aligned crc snap files"
  shows "log_rows crc files = covered crc snap files @ uncovered crc snap files"
  using assms
proof (induction files)
  case (Cons fl files)
  obtain wid bytes where fl: "fl = (wid, bytes)" by fastforce
  have srt: "bm_sorted cmp_lin files" "\<forall>(w, _)\<in>set files. wid < w" using Cons.prems(1) by (auto simp: fl bm_sorted_nat)
  have ih: "log_rows crc files = covered crc snap files @ uncovered crc snap files"
    using Cons.IH srt(1) Cons.prems(2) by (simp add: aligned_def)
  show ?case
  proof (cases "skipped snap wid")
    case True
    then show ?thesis using ih by (simp add: fl covered_def uncovered_def resumed_def)
  next
    case False
    then have "\<forall>(w, b)\<in>set files. \<not> skipped snap w \<and> resume_at snap w = 0"
      using srt(2) by (auto simp: skipped_def resume_at_def split: option.splits)
    note above = uncovered_above [OF this, of crc]
    have "wal_rows crc wid 0 bytes = wal_rows crc wid 0 (take (resume_at snap wid) bytes) @ wal_rows crc wid (resume_at snap wid) (drop (resume_at snap wid) bytes)"
      using Cons.prems(2) by (intro file_split) (auto simp: fl aligned_def)
    then show ?thesis using False above by (simp add: fl covered_def uncovered_def resumed_def)
  qed
qed (simp add: covered_def uncovered_def)

lemma rows_trimmed:
  assumes "resume_at snap wid \<le> length bytes" "whole crc (take (resume_at snap wid) bytes)"
  shows "wal_rows crc wid 0 (snd (trimmed crc snap (wid, bytes))) = wal_rows crc wid 0 bytes" "fst (trimmed crc snap (wid, bytes)) = wid"
    "\<not> skipped snap wid \<Longrightarrow> whole crc (snd (trimmed crc snap (wid, bytes)))"
proof -
  let ?n = "resume_at snap wid"
  define d where "d = drop ?n bytes"
  have t: "take (?n + valid_len crc d) bytes = take ?n bytes @ take (valid_len crc d) d" by (simp add: take_add d_def)
  note v = rows_valid_part [of crc wid ?n d]
  show "wal_rows crc wid 0 (snd (trimmed crc snap (wid, bytes))) = wal_rows crc wid 0 bytes"
    using v file_split [OF assms, of wid] rows_append [OF assms(2), of wid 0 "take (valid_len crc d) d"] assms(1)
    by (simp add: trimmed_def d_def [symmetric] t)
  show "fst (trimmed crc snap (wid, bytes)) = wid" by (simp add: trimmed_def)
  show "whole crc (snd (trimmed crc snap (wid, bytes)))" if "\<not> skipped snap wid"
    using that whole_append [OF assms(2)] v by (simp add: trimmed_def d_def [symmetric] t)
qed

lemma fst_trimmed [simp]: "fst (trimmed crc snap fl) = fst fl"
  by (auto simp: trimmed_def split: prod.splits)

lemma log_rows_trimmed:
  assumes "aligned crc snap files"
  shows "log_rows crc (map (trimmed crc snap) files) = log_rows crc files" "map fst (map (trimmed crc snap) files) = map fst files"
proof -
  show "map fst (map (trimmed crc snap) files) = map fst files" by simp
  have "wal_rows crc (fst fl) 0 (snd (trimmed crc snap fl)) = wal_rows crc (fst fl) 0 (snd fl)" if "fl \<in> set files" for fl
    using that assms rows_trimmed(1) [of snap "fst fl" "snd fl" crc] by (auto simp: aligned_def)
  then show "log_rows crc (map (trimmed crc snap) files) = log_rows crc files"
    unfolding log_rows_def map_map comp_def case_prod_beta fst_trimmed by (metis (no_types, lifting) map_eq_conv)
qed

section \<open>A well-formed directory\<close>

definition rich :: "logical \<Rightarrow> logical" where
  "rich s = s\<lparr>lg_docs := Map.empty\<rparr>"

definition meta_view :: "applied_meta \<Rightarrow> logical" where
  "meta_view m = \<lparr>lg_docs = Map.empty, lg_dropped = am_dropped m, lg_config = map_option canonicalized (am_config m),
     lg_handover = am_handover m, lg_ttl = am_ttl_secs m\<rparr>"

definition watermark :: "disk \<Rightarrow> nat" where
  "watermark d = (case recorded_watermark d of Some t \<Rightarrow> t | None \<Rightarrow> 0)"

definition snap_map :: "index_snapshot option \<Rightarrow> (string \<times> index_entry) list" where
  "snap_map snap = (case snap of Some s \<Rightarrow> is_map s | None \<Rightarrow> [])"

definition snap_tail :: "index_snapshot option \<Rightarrow> nat \<times> nat" where
  "snap_tail snap = (case snap of Some s \<Rightarrow> (is_last_lsn s, is_last_term s) | None \<Rightarrow> (0, 0))"

abbreviation disk_rows :: "'n env \<Rightarrow> disk \<Rightarrow> row list" where
  "disk_rows ev d \<equiv> log_rows (ev_crc ev) (dk_files d)"

definition reaches :: "nat \<times> nat \<Rightarrow> nat \<times> nat \<Rightarrow> bool" where
  "reaches high low = (fst low \<le> fst high \<and> (fst high = fst low \<longrightarrow> high = low))"

definition disk_ok :: "'n env \<Rightarrow> disk \<Rightarrow> bool" where
  "disk_ok ev d =
     (bm_sorted cmp_lin (dk_files d) \<and> dk_cut d = None \<and> linked 0 0 (disk_rows ev d) \<and> decodes ev (disk_rows ev d) \<and>
      (case dk_meta d of
         None \<Rightarrow> disk_rows ev d = [] \<and> dk_pos d = None
       | Some m \<Rightarrow> meta_view m = rich (logical ev (rows_to (watermark d) (disk_rows ev d)))) \<and>
      watermark d \<le> fst (tail_of (0, 0) (disk_rows ev d)) \<and> aligned (ev_crc ev) (dk_snapshot d) (dk_files d) \<and>
      (\<forall>s\<in>set_option (dk_snapshot d). is_last_wal_id s \<in> fst ` set (dk_files d)) \<and>
      docs_at (snap_map (dk_snapshot d)) = lg_docs (logical ev (covered (ev_crc ev) (dk_snapshot d) (dk_files d))) \<and>
      (\<forall>r\<in>set (covered (ev_crc ev) (dk_snapshot d) (dk_files d)). rw_lsn r \<le> watermark d) \<and>
      reaches (snap_tail (dk_snapshot d)) (tail_of (0, 0) (covered (ev_crc ev) (dk_snapshot d) (dk_files d))) \<and>
      (uncovered (ev_crc ev) (dk_snapshot d) (dk_files d) = [] \<longrightarrow> snap_tail (dk_snapshot d) = tail_of (0, 0) (disk_rows ev d)))"

text \<open>Each component of the state but the documents is overwritten or kept, so applying rows twice is applying them once.\<close>

definition overwrites :: "('s \<Rightarrow> 'v) \<Rightarrow> ('s \<Rightarrow> 's) \<Rightarrow> bool" where
  "overwrites part f = ((\<exists>x. \<forall>s. part (f s) = x) \<or> (\<forall>s. part (f s) = part s))"

lemma overwrites_fold: "\<forall>r\<in>set rs. overwrites part (F r) \<Longrightarrow> overwrites part (fold F rs)"
proof (induction rs)
  case (Cons r rs)
  then have "overwrites part (fold F rs)" "overwrites part (F r)" by simp_all
  then show ?case unfolding overwrites_def by auto
qed (simp add: overwrites_def)

lemma overwrites_row:
  "overwrites lg_dropped (lg_apply ev r)" "overwrites lg_config (lg_apply ev r)" "overwrites lg_handover (lg_apply ev r)"
  "overwrites lg_ttl (lg_apply ev r)"
proof -
  have "overwrites lg_dropped (lg_entry r e) \<and> overwrites lg_config (lg_entry r e) \<and> overwrites lg_handover (lg_entry r e) \<and>
      overwrites lg_ttl (lg_entry r e)" for e :: "'a log_entry"
    by (cases e) (auto simp: overwrites_def)
  then show "overwrites lg_dropped (lg_apply ev r)" "overwrites lg_config (lg_apply ev r)" "overwrites lg_handover (lg_apply ev r)"
    "overwrites lg_ttl (lg_apply ev r)"
    by (cases "ev_de ev (rw_payload r)"; simp add: lg_apply_def [abs_def] overwrites_def)+
qed

lemma docs_apply_cong: "lg_docs s = lg_docs s' \<Longrightarrow> lg_docs (fold (lg_apply ev) rs s) = lg_docs (fold (lg_apply ev) rs s')"
proof (induction rs arbitrary: s s')
  case (Cons r rs)
  have "lg_docs (lg_entry r e s) = lg_docs (lg_entry r e s')" for e :: "'a log_entry" using Cons.prems by (cases e) auto
  then have "lg_docs (lg_apply ev r s) = lg_docs (lg_apply ev r s')" using Cons.prems by (auto simp: lg_apply_def split: option.splits)
  from Cons.IH [OF this] show ?case by simp
qed simp

lemma rich_eq_iff: "rich s = rich s' \<longleftrightarrow> lg_dropped s = lg_dropped s' \<and> lg_config s = lg_config s' \<and> lg_handover s = lg_handover s' \<and> lg_ttl s = lg_ttl s'"
  by (cases s; cases s') (auto simp: rich_def)

lemma reapply:
  assumes "lg_docs s = lg_docs s0" "rich s = rich (fold (lg_apply ev) rs s0)"
  shows "fold (lg_apply ev) rs s = fold (lg_apply ev) rs s0"
proof -
  have ow: "part (fold (lg_apply ev) rs s) = part (fold (lg_apply ev) rs s0)"
    if "\<And>r. overwrites part (lg_apply ev r)" "part s = part (fold (lg_apply ev) rs s0)" for part :: "logical \<Rightarrow> 'b"
    using overwrites_fold [of rs part "lg_apply ev"] that unfolding overwrites_def by metis
  have "lg_docs (fold (lg_apply ev) rs s) = lg_docs (fold (lg_apply ev) rs s0)" by (rule docs_apply_cong [OF assms(1)])
  moreover have "lg_dropped (fold (lg_apply ev) rs s) = lg_dropped (fold (lg_apply ev) rs s0)"
    "lg_config (fold (lg_apply ev) rs s) = lg_config (fold (lg_apply ev) rs s0)"
    "lg_handover (fold (lg_apply ev) rs s) = lg_handover (fold (lg_apply ev) rs s0)"
    "lg_ttl (fold (lg_apply ev) rs s) = lg_ttl (fold (lg_apply ev) rs s0)"
    using assms(2) overwrites_row [of ev] by (auto intro!: ow simp: rich_eq_iff)
  ultimately show ?thesis by (intro logical.equality) simp_all
qed

section \<open>Opening it\<close>

lemma open_unfold:
  assumes "dk_cut d = None"
    and "foldl (replay_file ev (recorded_watermark d) (dk_snapshot d)) ([], snap_tail (dk_snapshot d), seed_replay d) (dk_files d) = (files, (max_lsn, max_term), st)"
    and "\<not> ((case recorded_watermark d of Some t \<Rightarrow> max_lsn > t | None \<Rightarrow> False) \<and> rp_pending st = [])"
  shows "\<exists>c. open_collection ev fails clears n lt dl d = (Ok c, co_disk c) \<and>
    co_wal_id c = (case files of [] \<Rightarrow> 0 | _ \<Rightarrow> fst (last files)) + 1 \<and> co_handle c = co_wal_id c \<and> co_wal_size c = 0 \<and>
    co_disk c = with_files (files @ [(co_wal_id c, [])]) d \<and> co_com c = opened_state st \<and> co_pending c = rp_pending st \<and>
    co_applied_lsn c = (case recorded_watermark d of Some t \<Rightarrow> t | None \<Rightarrow> max_lsn) \<and> co_last_lsn c = max_lsn \<and> co_last_term c = max_term \<and>
    co_fence c = None \<and> co_released c = False \<and> co_recorded c = (recorded_watermark d \<noteq> None) \<and> co_saved c = watermark d \<and> co_rich_saved c = 0 \<and>
    co_db_next_lsn c = max n max_lsn \<and> co_durable_lsn c = max_lsn"
  using assms unfolding open_collection_def complete_recorded_def snap_tail_def Let_def watermark_def
  by (cases "recorded_watermark d") (auto split: option.splits)

lemma trimmed_same:
  assumes "aligned crc snap files"
  shows "aligned crc snap (map (trimmed crc snap) files)" "covered crc snap (map (trimmed crc snap) files) = covered crc snap files"
    "uncovered crc snap (map (trimmed crc snap) files) = uncovered crc snap files"
proof -
  have one: "resume_at snap w \<le> length b' \<and> take (resume_at snap w) b' = take (resume_at snap w) b \<and>
      (skipped snap w \<longrightarrow> b' = b) \<and> wal_rows crc w (resume_at snap w) (drop (resume_at snap w) b') = wal_rows crc w (resume_at snap w) (drop (resume_at snap w) b)"
    if "(w, b) \<in> set files" "trimmed crc snap (w, b) = (w, b')" for w b b'
  proof -
    have le: "resume_at snap w \<le> length b" using that(1) assms by (auto simp: aligned_def)
    show ?thesis
    proof (cases "skipped snap w")
      case False
      then have b': "b' = take (resume_at snap w + valid_len crc (drop (resume_at snap w) b)) b" using that(2) by (simp add: trimmed_def)
      have "drop (resume_at snap w) b' = take (valid_len crc (drop (resume_at snap w) b)) (drop (resume_at snap w) b)" by (simp add: b' drop_take)
      then show ?thesis using False le rows_valid_part [of crc w "resume_at snap w" "drop (resume_at snap w) b"] by (simp add: b' min_def)
    qed (use that le in \<open>simp add: trimmed_def\<close>)
  qed
  have pair: "trimmed crc snap fl = (fst fl, snd (trimmed crc snap fl))" for fl by (auto simp: trimmed_def split: prod.splits)
  note all = one [of "fst fl" "snd fl" "snd (trimmed crc snap fl)" for fl, unfolded prod.collapse, OF _ pair]
  show "aligned crc snap (map (trimmed crc snap) files)"
    unfolding aligned_def
  proof (clarsimp simp: case_prod_beta)
    fix w b assume m: "(w, b) \<in> set files"
    then have "resume_at snap w \<le> length b" "whole crc (take (resume_at snap w) b)" using assms by (auto simp: aligned_def)
    then show "resume_at snap w \<le> length (snd (trimmed crc snap (w, b))) \<and>
        valid_len crc (take (resume_at snap w) (snd (trimmed crc snap (w, b)))) = min (length (snd (trimmed crc snap (w, b)))) (resume_at snap w)"
      using all [OF m] by (simp add: min_absorb2)
  qed
  show "covered crc snap (map (trimmed crc snap) files) = covered crc snap files"
    unfolding covered_def map_map comp_def case_prod_beta fst_trimmed using all by (intro arg_cong [of _ _ concat] map_cong) auto
  show "uncovered crc snap (map (trimmed crc snap) files) = uncovered crc snap files"
    unfolding uncovered_def map_map comp_def resumed_def case_prod_beta fst_trimmed using all by (intro arg_cong [of _ _ concat] map_cong) auto
qed

text \<open>The live collection and its directory agree about the log.\<close>

definition log_inv :: "'n env \<Rightarrow> 'n collection \<Rightarrow> bool" where
  "log_inv ev c =
     (let d = co_disk c; rs = disk_rows ev d
      in disk_ok ev d \<and> co_fence c = None \<and> co_handle c = co_wal_id c \<and>
         (\<exists>b. bm_get cmp_lin (dk_files d) (co_wal_id c) = Some b \<and> whole (ev_crc ev) b \<and> co_wal_size c = length b) \<and>
         (\<forall>(w, b)\<in>set (dk_files d). co_wal_id c < w \<longrightarrow> b = []) \<and>
         (co_last_lsn c, co_last_term c) = tail_of (0, 0) rs \<and> co_last_lsn c \<le> co_db_next_lsn c \<and>
         watermark d \<le> co_applied_lsn c \<and> co_applied_lsn c \<le> co_last_lsn c \<and> co_saved c \<le> watermark d \<and> (co_recorded c \<longrightarrow> dk_meta d \<noteq> None) \<and>
         cview (co_com c) = logical ev (rows_to (co_applied_lsn c) rs) \<and>
         list_all2 (realizes ev) (rows_past (co_applied_lsn c) rs) (co_pending c) \<and>
         (\<forall>s\<in>set_option (dk_snapshot d). is_last_wal_id s \<le> co_wal_id c) \<and> co_rich_saved c \<le> cs_rich_gen (co_com c) \<and>
         (\<forall>m. dk_meta d = Some m \<and> cs_rich_gen (co_com c) = co_rich_saved c \<longrightarrow> meta_view m = rich (cview (co_com c))))"

lemma with_files_sel [simp]:
  "dk_files (with_files fs d) = fs" "dk_cut (with_files fs d) = dk_cut d" "dk_snapshot (with_files fs d) = dk_snapshot d"
  "dk_meta (with_files fs d) = dk_meta d" "dk_pos (with_files fs d) = dk_pos d"
  by (simp_all add: with_files_def)

lemma watermark_cong: "dk_meta d' = dk_meta d \<Longrightarrow> dk_pos d' = dk_pos d \<Longrightarrow> watermark d' = watermark d"
  by (simp add: watermark_def recorded_watermark_def)

lemma new_file_same:
  assumes "resume_at snap w = 0"
  shows "covered crc snap (files @ [(w, [])]) = covered crc snap files" "uncovered crc snap (files @ [(w, [])]) = uncovered crc snap files"
    "aligned crc snap (files @ [(w, [])]) = aligned crc snap files" "log_rows crc (files @ [(w, [])]) = log_rows crc files"
  using assms by (auto simp: covered_def uncovered_def aligned_def resumed_def)

lemma disk_ok_opened:
  fixes ev :: "'n env"
  assumes "disk_ok ev d" "\<forall>w\<in>fst ` set (dk_files d). w < new"
  defines "fs \<equiv> map (trimmed (ev_crc ev) (dk_snapshot d)) (dk_files d) @ [(new, [])]"
  shows "disk_ok ev (with_files fs d)" "log_rows (ev_crc ev) fs = disk_rows ev d"
proof -
  let ?snap = "dk_snapshot d" and ?crc = "ev_crc ev"
  have al: "aligned ?crc ?snap (dk_files d)" using assms(1) by (simp add: disk_ok_def)
  have "\<forall>s\<in>set_option ?snap. is_last_wal_id s < new" using assms(1,2) unfolding disk_ok_def by blast
  then have r0: "resume_at ?snap new = 0" by (auto simp: resume_at_def split: option.splits)
  note t = trimmed_same [OF al] log_rows_trimmed [OF al] and n = new_file_same [OF r0]
  show rows: "log_rows ?crc fs = disk_rows ev d" unfolding fs_def n t ..
  have "sorted_wrt (<) (map fst (dk_files d))" using assms(1) by (simp add: disk_ok_def bm_sorted_nat)
  then have "bm_sorted cmp_lin fs" unfolding bm_sorted_nat fs_def map_append t(5) using assms(2) by (auto simp: sorted_wrt_append)
  moreover have "fst ` set (dk_files d) \<subseteq> fst ` set fs" unfolding fs_def using t(5) by (metis image_Un set_append set_map sup_ge1)
  moreover have "covered ?crc ?snap fs = covered ?crc ?snap (dk_files d)" "uncovered ?crc ?snap fs = uncovered ?crc ?snap (dk_files d)"
    "aligned ?crc ?snap fs" unfolding fs_def n t(2,3) using t(1) by simp_all
  ultimately show "disk_ok ev (with_files fs d)"
    using assms(1) unfolding disk_ok_def watermark_cong [of "with_files fs d" d, simplified] with_files_sel rows
    by (elim conjE) (intro conjI; simp add: subset_iff image_iff)
qed

lemma next_id_fresh:
  assumes "bm_sorted cmp_lin files"
  shows "\<forall>w\<in>fst ` set files. w < (case map (trimmed crc snap) files of [] \<Rightarrow> 0 | _ \<Rightarrow> fst (last (map (trimmed crc snap) files))) + 1"
proof (cases files rule: rev_cases)
  case (snoc xs x)
  then have "\<forall>w\<in>fst ` set files. w \<le> fst x" using assms by (auto simp: bm_sorted_nat sorted_wrt_append dest: less_imp_le)
  moreover have "(case ys of [] \<Rightarrow> 0 | _ \<Rightarrow> fst (last ys)) = fst x" if "ys \<noteq> []" "fst (last ys) = fst x" for ys :: "(nat \<times> u8 list) list"
    using that by (cases ys) auto
  from this [of "map (trimmed crc snap) files"] have "(case map (trimmed crc snap) files of [] \<Rightarrow> 0 | _ \<Rightarrow> fst (last (map (trimmed crc snap) files))) = fst x"
    using snoc by simp
  ultimately show ?thesis by (metis Suc_eq_plus1 le_imp_less_Suc)
qed simp

lemma trimmed_ids: "fst ` set (map (trimmed crc snap) files) = fst ` set files"
  by (simp add: image_image)

lemma new_file_get:
  assumes "\<forall>w\<in>fst ` set files. w < new"
  shows "bm_get cmp_lin (map (trimmed crc snap) files @ [(new, [])]) new = Some []"
proof -
  have "bm_get cmp_lin (xs @ [(new, v)]) new = Some v" if "\<forall>w\<in>fst ` set xs. w < new" for xs and v :: "u8 list"
    using that by (induction xs) (auto simp: cmp_lin_def)
  then show ?thesis using assms trimmed_ids [of crc snap files] by metis
qed

lemma seed_view:
  "lg_docs (rview (seed_replay d)) = docs_at (snap_map (dk_snapshot d))"
  "rich (rview (seed_replay d)) = (case dk_meta d of Some m \<Rightarrow> meta_view m | None \<Rightarrow> rich lg_empty)"
  by (simp_all add: rview_def seed_replay_def snap_map_def rich_def meta_view_def lg_empty_def Let_def split: option.splits)

lemma opened_view: "cview (opened_state st) = rview st"
  by (simp add: cview_def opened_state_def rview_def)

lemma open_recovers:
  fixes ev :: "'n env"
  assumes "disk_ok ev d"
  shows "\<exists>c. open_collection ev fails clears n lt dl d = (Ok c, co_disk c) \<and> log_inv ev c \<and>
    disk_rows ev (co_disk c) = disk_rows ev d \<and> watermark (co_disk c) = watermark d \<and> co_applied_lsn c = watermark d \<and>
    cs_rich_gen (co_com c) = co_rich_saved c \<and> co_released c = False \<and> co_durable_lsn c = co_last_lsn c"
proof -
  let ?s0 = "seed_replay d :: 'n replay_state" and ?snap = "dk_snapshot d" and ?crc = "ev_crc ev" and ?t = "watermark d"
  let ?R = "uncovered ?crc ?snap (dk_files d)" and ?B = "covered ?crc ?snap (dk_files d)" and ?rs = "disk_rows ev d"
  note ok = assms [unfolded disk_ok_def]
  have al: "aligned ?crc ?snap (dk_files d)" using ok by blast
  have rs: "?rs = ?B @ ?R" using covered_split [OF _ al] ok by blast
  have srt: "sorted_wrt (\<lambda>a b. rw_lsn a < rw_lsn b) ?rs" using sorted_rows ok by blast
  obtain files tl st where fold: "foldl (replay_file ev (recorded_watermark d) ?snap) ([], snap_tail ?snap, ?s0) (dk_files d) = (files, tl, st)"
    using prod_cases3 by blast
  obtain ml mt where tl: "tl = (ml, mt)" by fastforce
  have thr: "recorded_watermark d = Some ?t \<or> ?rs = []"
    using ok by (auto simp: watermark_def recorded_watermark_def split: option.splits)
  have pos: "\<forall>r\<in>set ?rs. 0 < rw_lsn r" using linked_above ok by blast
  have "files = [] @ map (trimmed ?crc ?snap) (dk_files d) \<and> tl = tail_of (snap_tail ?snap) ?R \<and>
    rview st = fold (lg_apply ev) (rows_to ?t ?R) (rview ?s0) \<and>
    (\<exists>ps. rp_pending st = rp_pending ?s0 @ ps \<and> list_all2 (realizes ev) (rows_past ?t ?R) ps)"
  proof (rule replay_files [OF _ uncovered_def _ _ _ _ _ fold])
    show "\<forall>(wid, bytes)\<in>set (dk_files d). resume_at ?snap wid \<le> length bytes" using al by (auto simp: aligned_def)
    show "sorted_wrt (\<lambda>a b. rw_lsn a < rw_lsn b) ?R" using srt by (simp add: rs sorted_wrt_append)
    show "decodes ev ?R" using ok rs by (auto simp: decodes_def)
    show "staged_below (rp_pending ?s0) ?R" by (simp add: staged_below_def seed_replay_def Let_def)
    show "\<forall>r\<in>set ?R. 0 < rw_lsn r" using pos rs by auto
    show "recorded_watermark d = Some ?t \<or> ?R = []" using thr rs by auto
  qed
  then have files: "files = map (trimmed ?crc ?snap) (dk_files d)" and tail: "tl = tail_of (snap_tail ?snap) ?R"
    and view: "rview st = fold (lg_apply ev) (rows_to ?t ?R) (rview ?s0)"
    and pend: "list_all2 (realizes ev) (rows_past ?t ?R) (rp_pending st)" by (auto simp: seed_replay_def Let_def)
  have B: "rows_to ?t ?B = ?B" "rows_past ?t ?B = []" using ok rows_to_all(1) rows_past_all(2) by blast+
  have tail': "tl = tail_of (0, 0) ?rs" using tail ok by (cases "?R = []") (auto simp: rs tail_of_def)
  have view': "rview st = logical ev (rows_to ?t ?rs)"
  proof -
    have docs: "lg_docs (rview ?s0) = lg_docs (logical ev ?B)" using ok seed_view(1) by metis
    have "rich (rview ?s0) = rich (logical ev (rows_to ?t ?rs))"
      using ok by (auto simp: seed_view(2) split: option.splits)
    then have "rich (rview ?s0) = rich (fold (lg_apply ev) (rows_to ?t ?R) (logical ev ?B))" by (simp add: rs B)
    from reapply [OF docs this] show ?thesis by (simp add: view rs B)
  qed
  have pend': "list_all2 (realizes ev) (rows_past ?t ?rs) (rp_pending st)" using pend by (simp add: rs B)
  have opens: "\<not> ((case recorded_watermark d of Some t \<Rightarrow> ml > t | None \<Rightarrow> False) \<and> rp_pending st = [])"
  proof
    assume bad: "(case recorded_watermark d of Some t \<Rightarrow> ml > t | None \<Rightarrow> False) \<and> rp_pending st = []"
    then have "?t < ml" by (auto simp: watermark_def split: option.splits)
    moreover from this have "?rs \<noteq> []" using tail' tl by (auto simp: tail_of_def)
    ultimately have "last ?rs \<in> set (rows_past ?t ?rs)" using tail' tl by (auto simp: tail_of_def rows_past_def)
    then show False using bad pend' by auto
  qed
  have uncut: "dk_cut d = None" using ok by blast
  obtain c where c: "open_collection ev fails clears n lt dl d = (Ok c, co_disk c)"
      "co_wal_id c = (case files of [] \<Rightarrow> 0 | _ \<Rightarrow> fst (last files)) + 1" "co_handle c = co_wal_id c" "co_wal_size c = 0"
      "co_disk c = with_files (files @ [(co_wal_id c, [])]) d" "co_com c = opened_state st" "co_pending c = rp_pending st"
      "co_applied_lsn c = (case recorded_watermark d of Some t \<Rightarrow> t | None \<Rightarrow> ml)" "co_last_lsn c = ml" "co_last_term c = mt"
      "co_fence c = None" "co_released c = False" "co_recorded c = (recorded_watermark d \<noteq> None)" "co_saved c = ?t" "co_rich_saved c = 0"
      "co_db_next_lsn c = max n ml" "co_durable_lsn c = ml"
    using open_unfold [OF uncut fold [unfolded tl] opens, of fails clears n lt dl] by (elim exE conjE) (rule that)
  have new: "\<forall>w\<in>fst ` set (dk_files d). w < co_wal_id c"
    unfolding c(2) files by (rule next_id_fresh) (use ok in blast)
  note d' = disk_ok_opened [OF assms new, folded files, folded c(5)]
  have applied: "co_applied_lsn c = ?t"
    using thr tail' tl unfolding c(8) watermark_def by (cases "recorded_watermark d") (auto simp: tail_of_def)
  have w': "watermark (co_disk c) = ?t" unfolding c(5) by (rule watermark_cong) simp_all
  have meta: "dk_meta (co_disk c) = dk_meta d" by (simp add: c(5))
  have rows': "disk_rows ev (co_disk c) = ?rs" using d'(2) by (simp add: c(5))
  have "log_inv ev c"
    unfolding log_inv_def Let_def rows' w' meta applied
  proof (intro conjI)
    show "disk_ok ev (co_disk c)" by (rule d'(1))
    show "\<exists>b. bm_get cmp_lin (dk_files (co_disk c)) (co_wal_id c) = Some b \<and> whole (ev_crc ev) b \<and> co_wal_size c = length b"
      using new_file_get [OF new] by (simp add: c(4,5) files)
    show "\<forall>(w, b)\<in>set (dk_files (co_disk c)). co_wal_id c < w \<longrightarrow> b = []"
    proof clarify
      fix w b assume m: "(w, b) \<in> set (dk_files (co_disk c))" and "co_wal_id c < w"
      then have "(w, b) \<in> set (map (trimmed ?crc ?snap) (dk_files d))" unfolding c(5) files with_files_sel set_append by auto
      then have "w \<in> fst ` set (dk_files d)" unfolding trimmed_ids [of ?crc ?snap "dk_files d", symmetric] by (metis fst_conv image_eqI)
      with new \<open>co_wal_id c < w\<close> show "b = []" by (meson less_asym)
    qed
    show "(co_last_lsn c, co_last_term c) = tail_of (0, 0) ?rs" using tail' tl c(9,10) by simp
    show "co_recorded c \<longrightarrow> dk_meta d \<noteq> None" by (auto simp: c(13) recorded_watermark_def)
    show "?t \<le> co_last_lsn c" using tail' tl c(9) ok by (metis fst_conv)
    show "\<forall>s\<in>set_option (dk_snapshot (co_disk c)). is_last_wal_id s \<le> co_wal_id c"
      using ok new unfolding c(5) with_files_sel by (metis less_imp_le)
    show "cview (co_com c) = logical ev (rows_to ?t ?rs)" by (simp add: c(6) opened_view view')
    show "\<forall>m. dk_meta d = Some m \<and> cs_rich_gen (co_com c) = co_rich_saved c \<longrightarrow> meta_view m = rich (cview (co_com c))"
      using ok by (auto simp: c(6) opened_view view')
  qed (simp_all add: c pend')
  then show ?thesis using c(1,12) applied w' rows' by (intro exI [of _ c]) (simp add: c opened_state_def)
qed

end
