(* ===== verification/Log_files.thy ===== *)
theory Log_files
  imports Recovery
begin

text \<open>
  How the log on disk changes with its files: bytes appended to the head file add rows at the end, a new
  file adds none, and a cut at a row removes exactly that row and the ones after it. None of them changes
  what the index snapshot covers.
\<close>

section \<open>One file changes\<close>

definition lower :: "nat \<Rightarrow> (nat \<times> 'a) list \<Rightarrow> (nat \<times> 'a) list" where
  "lower w files = filter (\<lambda>fl. fst fl < w) files"

definition upper :: "nat \<Rightarrow> (nat \<times> 'a) list \<Rightarrow> (nat \<times> 'a) list" where
  "upper w files = filter (\<lambda>fl. w < fst fl) files"

lemma insert_split: "bm_sorted cmp_lin files \<Longrightarrow> bm_insert cmp_lin w v files = lower w files @ (w, v) # upper w files"
proof (induction files)
  case (Cons fl files)
  obtain x b where fl: "fl = (x, b)" by fastforce
  have "filter (\<lambda>fl. fst fl < w) files = []" "filter (\<lambda>fl. w < fst fl) files = files" if "w \<le> x"
    using Cons.prems that by (auto simp: fl bm_sorted_nat filter_empty_conv filter_id_conv)
  then show ?case using Cons by (auto simp: fl cmp_lin_def lower_def upper_def bm_sorted_nat)
qed (simp add: lower_def upper_def)

lemma files_split:
  "bm_sorted cmp_lin files \<Longrightarrow> files = lower w files @ (case bm_get cmp_lin files w of Some b \<Rightarrow> [(w, b)] | None \<Rightarrow> []) @ upper w files"
proof (induction files)
  case (Cons fl files)
  obtain x b where fl: "fl = (x, b)" by fastforce
  have "filter (\<lambda>fl. fst fl < w) files = []" "filter (\<lambda>fl. w < fst fl) files = files" if "w \<le> x"
    using Cons.prems that by (auto simp: fl bm_sorted_nat filter_empty_conv filter_id_conv)
  moreover have "bm_get cmp_lin files w = None" if "w < x"
    using Cons.prems that unfolding bm_sorted_nat fl by (intro cmp_lin.bm_get_below) (auto simp: cmp_lin_def)
  ultimately show ?case using Cons by (auto simp: fl cmp_lin_def lower_def upper_def bm_sorted_nat)
qed (simp add: lower_def upper_def)

definition cov1 :: "checksum \<Rightarrow> index_snapshot option \<Rightarrow> nat \<times> u8 list \<Rightarrow> row list" where
  "cov1 crc snap fl = (case fl of (wid, bytes) \<Rightarrow>
     if skipped snap wid then wal_rows crc wid 0 bytes else wal_rows crc wid 0 (take (resume_at snap wid) bytes))"

lemma covered_simps [simp]:
  "covered crc snap [] = []" "covered crc snap (fl # files) = cov1 crc snap fl @ covered crc snap files"
  "covered crc snap (fs @ gs) = covered crc snap fs @ covered crc snap gs"
  by (simp_all add: covered_def cov1_def case_prod_beta)

lemma uncovered_simps [simp]:
  "uncovered crc snap [] = []" "uncovered crc snap (fl # files) = resumed crc snap fl @ uncovered crc snap files"
  "uncovered crc snap (fs @ gs) = uncovered crc snap fs @ uncovered crc snap gs"
  by (simp_all add: uncovered_def)

lemma aligned_simps [simp]:
  "aligned crc snap []"
  "aligned crc snap ((w, b) # files) \<longleftrightarrow> resume_at snap w \<le> length b \<and> whole crc (take (resume_at snap w) b) \<and> aligned crc snap files"
  "aligned crc snap (fs @ gs) \<longleftrightarrow> aligned crc snap fs \<and> aligned crc snap gs"
  by (auto simp: aligned_def)

lemma blank_files:
  assumes "\<forall>(w, b)\<in>set files. b = [] "
  shows "log_rows crc files = []" "covered crc snap files = []" "uncovered crc snap files = []"
    "(\<forall>w\<in>fst ` set files. resume_at snap w = 0) \<Longrightarrow> aligned crc snap files"
  using assms by (induction files) (auto simp: cov1_def resumed_def)

text \<open>The directory a writer appends to: its file is whole and the ones above it are empty.\<close>

definition head_file :: "checksum \<Rightarrow> nat \<Rightarrow> u8 list \<Rightarrow> (nat \<times> u8 list) list \<Rightarrow> bool" where
  "head_file crc w b files =
     (bm_sorted cmp_lin files \<and> bm_get cmp_lin files w = Some b \<and> whole crc b \<and> (\<forall>(x, y)\<in>set files. w < x \<longrightarrow> y = []))"

lemma head_split:
  assumes "head_file crc w b files"
  shows "files = lower w files @ (w, b) # upper w files" "\<forall>(x, y)\<in>set (upper w files). y = []" "bm_sorted cmp_lin files"
    "\<forall>x\<in>fst ` set (upper w files). w < x"
  using assms files_split [of files w] by (auto simp: head_file_def upper_def)

lemma file_of_head: "head_file crc w b files \<Longrightarrow> file_of w files = b"
  by (simp add: head_file_def file_of_def)

lemma snapshot_below:
  assumes "\<forall>s\<in>set_option snap. is_last_wal_id s \<le> w"
  shows "\<not> skipped snap w" "\<forall>x>w. \<not> skipped snap x \<and> resume_at snap x = 0"
  using assms by (auto simp: skipped_def resume_at_def split: option.splits)

text \<open>Bytes added to the head file add their rows to the end of the log and change nothing a snapshot covers.\<close>

lemma grow_head:
  fixes x :: "u8 list"
  assumes "head_file crc w b files" "aligned crc snap files" "\<forall>s\<in>set_option snap. is_last_wal_id s \<le> w"
  defines "files' \<equiv> bm_insert cmp_lin w (b @ x) files" and "new \<equiv> wal_rows crc w (length b) x"
  shows "log_rows crc files' = log_rows crc files @ new" "covered crc snap files' = covered crc snap files"
    "uncovered crc snap files' = uncovered crc snap files @ new" "aligned crc snap files'" "bm_sorted cmp_lin files'"
    "fst ` set files' = fst ` set files" "whole crc (b @ x) \<Longrightarrow> head_file crc w (b @ x) files'"
proof -
  note sp = head_split [OF assms(1)] and below = snapshot_below [OF assms(3)]
  have w: "whole crc b" using assms(1) by (simp add: head_file_def)
  have f: "files' = lower w files @ (w, b @ x) # upper w files" unfolding files'_def by (rule insert_split [OF sp(3)])
  note blank = blank_files [OF sp(2)]
  have al: "resume_at snap w \<le> length b" "whole crc (take (resume_at snap w) b)" using assms(2) by (subst (asm) sp(1), simp)+
  have cov: "cov1 crc snap (w, b @ x) = cov1 crc snap (w, b)" using below(1) al(1) by (simp add: cov1_def)
  have tail: "whole crc (drop (resume_at snap w) b)"
    using valid_len_append [OF al(2), of "drop (resume_at snap w) b"] w al(1) by simp
  have res: "resumed crc snap (w, b @ x) = resumed crc snap (w, b) @ new"
    using below(1) al(1) rows_append [OF tail, of w "resume_at snap w" x] by (simp add: resumed_def new_def)
  show "log_rows crc files' = log_rows crc files @ new"
    unfolding f by (subst (3) sp(1)) (simp add: blank rows_append [OF w] new_def)
  show "covered crc snap files' = covered crc snap files" unfolding f by (subst (3) sp(1)) (simp add: cov)
  show "uncovered crc snap files' = uncovered crc snap files @ new" unfolding f by (subst (3) sp(1)) (simp add: blank res)
  show "aligned crc snap files'" unfolding f using assms(2) al by (subst (asm) sp(1)) simp
  show "bm_sorted cmp_lin files'" unfolding files'_def by (rule cmp_lin.bm_sorted_insert [OF sp(3)])
  show "fst ` set files' = fst ` set files" unfolding f by (subst (3) sp(1)) simp
  show "head_file crc w (b @ x) files'" if "whole crc (b @ x)"
    using that assms(1) cmp_lin.bm_sorted_insert [OF sp(3)] unfolding head_file_def files'_def
    by (auto simp: cmp_lin.bm_get_insert_same) (use f files'_def assms(1) in \<open>auto simp: head_file_def lower_def upper_def\<close>)
qed

lemma next_file:
  assumes "bm_sorted cmp_lin files" "\<forall>(x, y)\<in>set files. w < x \<longrightarrow> y = []" "aligned crc snap files"
    "\<forall>s\<in>set_option snap. is_last_wal_id s \<le> w"
  defines "files' \<equiv> bm_insert cmp_lin (Suc w) (file_of (Suc w) files) files"
  shows "log_rows crc files' = log_rows crc files" "covered crc snap files' = covered crc snap files"
    "uncovered crc snap files' = uncovered crc snap files" "aligned crc snap files'" "fst ` set files \<subseteq> fst ` set files'"
    "head_file crc (Suc w) [] files'"
proof -
  have "y = []" if "bm_get cmp_lin files (Suc w) = Some y" for y
    using that assms(2) bm_get_Some_in [of cmp_lin files "Suc w" y] by (auto simp: cmp_lin.cmp_Equal_iff)
  then have blank: "file_of (Suc w) files = []" "bm_get cmp_lin files (Suc w) \<in> {None, Some []}"
    by (cases "bm_get cmp_lin files (Suc w)"; auto simp: file_of_def)+
  have f: "files' = lower (Suc w) files @ (Suc w, []) # upper (Suc w) files"
    unfolding files'_def blank(1) by (rule insert_split [OF assms(1)])
  note sp = files_split [OF assms(1), of "Suc w"] and r0 = snapshot_below(2) [OF assms(4)]
  have one: "cov1 crc snap (Suc w, []) = []" "resumed crc snap (Suc w, []) = []" by (simp_all add: cov1_def resumed_def)
  show "log_rows crc files' = log_rows crc files" "covered crc snap files' = covered crc snap files"
    "uncovered crc snap files' = uncovered crc snap files"
    unfolding f using blank(2) one by (subst (3) sp, auto)+
  show "aligned crc snap files'" unfolding f using assms(3) r0 blank(2) by (subst (asm) sp) auto
  show "fst ` set files \<subseteq> fst ` set files'" unfolding f by (subst sp) (use blank(2) in auto)
  show "head_file crc (Suc w) [] files'"
    unfolding head_file_def using cmp_lin.bm_sorted_insert [OF assms(1)] blank(1)
    by (auto simp: files'_def cmp_lin.bm_get_insert_same) (use f assms(2) in \<open>auto simp: files'_def blank(1) lower_def upper_def\<close>)
qed

section \<open>Cutting the log\<close>

lemma wal_rows_id: "r \<in> set (wal_rows crc wid off bytes) \<Longrightarrow> rw_wal_id r = wid \<and> off \<le> rw_offset r"
proof (induction crc wid off bytes rule: wal_rows.induct)
  case (1 crc wid off bytes)
  then show ?case by (cases "next_frame crc bytes") (fastforce simp: wal_rows_None wal_rows_Some)+
qed

lemma rows_cut:
  "wal_rows crc wid off bytes = A @ r # B \<Longrightarrow> wal_rows crc wid off (take (rw_offset r - off) bytes) = A \<and>
     whole crc (take (rw_offset r - off) bytes) \<and> rw_offset r - off \<le> length bytes"
proof (induction crc wid off bytes arbitrary: A rule: wal_rows.induct)
  case (1 crc wid off bytes)
  obtain h p rest where nf: "next_frame crc bytes = Some (h, p, rest)"
    using "1.prems" by (cases "next_frame crc bytes") (auto simp: wal_rows_None)
  let ?n = "HEADER_LEN + fh_len h"
  show ?case
  proof (cases A)
    case Nil
    then have "rw_offset r = off" using "1.prems" by (auto simp: wal_rows_Some [OF nf])
    then show ?thesis using Nil by simp
  next
    case (Cons a A')
    then have rest: "wal_rows crc wid (off + ?n) rest = A' @ r # B" and a: "a = \<lparr>rw_wal_id = wid, rw_offset = off, rw_head = h, rw_payload = p\<rparr>"
      using "1.prems" by (auto simp: wal_rows_Some [OF nf] add.assoc)
    then have ge: "off + ?n \<le> rw_offset r" using wal_rows_id [of r crc wid "off + ?n" rest] by simp
    let ?m = "rw_offset r - (off + ?n)"
    have ih: "wal_rows crc wid (off + ?n) (take ?m rest) = A'" "whole crc (take ?m rest)" "?m \<le> length rest"
      using "1.IH" [OF nf refl refl, of A'] rest by (auto simp: add.assoc)
    have nft: "next_frame crc (take (rw_offset r - off) bytes) = Some (h, p, take ?m rest)"
      using next_frame_take [OF nf, of "rw_offset r - off"] ge by (simp add: algebra_simps)
    have "whole crc (take (rw_offset r - off) bytes)"
      using ih(2,3) nft ge next_frame_length [OF nf] by (subst valid_len_rec) auto
    then show ?thesis using ih nft a Cons next_frame_length [OF nf] ge by (auto simp: wal_rows_Some [OF nft] add.assoc)
  qed
qed

lemma row_in_file:
  assumes "bm_sorted cmp_lin files" "r \<in> set (log_rows crc files)"
  shows "\<exists>b. bm_get cmp_lin files (rw_wal_id r) = Some b \<and> r \<in> set (wal_rows crc (rw_wal_id r) 0 b)"
proof -
  obtain w b where wb: "(w, b) \<in> set files" "r \<in> set (wal_rows crc w 0 b)" using assms(2) by (auto simp: log_rows_def)
  then show ?thesis using wal_rows_id [OF wb(2)] cmp_lin.bm_get_in [OF assms(1) wb(1)] by auto
qed

definition emptied :: "nat \<Rightarrow> (nat \<times> u8 list) list \<Rightarrow> (nat \<times> u8 list) list" where
  "emptied w files = map (\<lambda>(x, b). (x, if w < x then [] else b)) files"

lemma emptied_eq:
  assumes "bm_sorted cmp_lin files" "bm_get cmp_lin files w = Some b"
  shows "emptied w files = lower w files @ (w, b) # map (\<lambda>(x, _). (x, [])) (upper w files)"
proof -
  have "emptied w (lower w files) = lower w files" by (auto simp: emptied_def lower_def intro!: map_idI)
  moreover have "emptied w (upper w files) = map (\<lambda>(x, _). (x, [])) (upper w files)" by (auto simp: emptied_def upper_def)
  moreover have sp: "lower w files @ (w, b) # upper w files = files" using files_split [OF assms(1), of w] assms(2) by simp
  have "emptied w (X @ (w, b) # Y) = emptied w X @ (w, b) # emptied w Y" for X Y by (simp add: emptied_def)
  from this [of "lower w files" "upper w files", unfolded sp]
  have "emptied w files = emptied w (lower w files) @ (w, b) # emptied w (upper w files)" .
  ultimately show ?thesis by simp
qed

lemma sorted_emptied: "bm_sorted cmp_lin files \<Longrightarrow> bm_sorted cmp_lin (emptied w files)"
proof -
  have "map fst (emptied w files) = map fst files" by (simp add: emptied_def comp_def case_prod_beta)
  then show "bm_sorted cmp_lin files \<Longrightarrow> bm_sorted cmp_lin (emptied w files)" by (simp add: bm_sorted_nat)
qed

lemma sorted_distinct: "sorted_wrt (\<lambda>a b. rw_lsn a < rw_lsn b) rs \<Longrightarrow> distinct rs"
  by (induction rs) auto

lemma split_unique:
  assumes "distinct zs" "zs = xs @ x # ys" "zs = xs' @ x # ys'"
  shows "xs = xs'"
proof -
  have until: "takeWhile (\<lambda>y. y \<noteq> x) zs = us" if "zs = us @ x # vs" for us vs
  proof -
    have "x \<notin> set us" using assms(1) unfolding that by simp
    then show ?thesis unfolding that by (induction us) auto
  qed
  show ?thesis using until [OF assms(2)] until [OF assms(3)] by simp
qed

lemma cut_files:
  fixes r :: row
  assumes files: "bm_sorted cmp_lin files" "aligned crc snap files"
    and rs: "sorted_wrt (\<lambda>a b. rw_lsn a < rw_lsn b) (log_rows crc files)" "rows_past n (log_rows crc files) = r # rest"
    and cov: "\<forall>x\<in>set (covered crc snap files). rw_lsn x \<le> n"
    and get: "bm_get cmp_lin files (rw_wal_id r) = Some b"
  defines "files' \<equiv> bm_insert cmp_lin (rw_wal_id r) (set_len (rw_offset r) b) (emptied (rw_wal_id r) files)"
  shows "log_rows crc files' = rows_to n (log_rows crc files)" "covered crc snap files' = covered crc snap files"
    "aligned crc snap files'" "head_file crc (rw_wal_id r) (take (rw_offset r) b) files'" "rw_offset r \<le> length b"
    "\<forall>s\<in>set_option snap. is_last_wal_id s \<le> rw_wal_id r" "fst ` set files' = fst ` set files"
    "log_rows crc (lower (rw_wal_id r) files) @ wal_rows crc (rw_wal_id r) 0 (take (rw_offset r) b) = rows_to n (log_rows crc files)"
proof -
  let ?w = "rw_wal_id r"
  have split: "log_rows crc files = rows_to n (log_rows crc files) @ r # rest" using rows_to_past [OF rs(1), of n] rs(2) by simp
  have rin: "r \<in> set (log_rows crc files)" by (subst split) simp
  have rgt: "n < rw_lsn r" using rs(2) by (auto simp: rows_past_def filter_eq_Cons_iff)
  obtain A B where AB: "wal_rows crc ?w 0 b = A @ r # B"
    using row_in_file [OF files(1) rin] get by (metis option.inject split_list)
  note cut = rows_cut [OF AB, simplified]
  have len: "set_len (rw_offset r) b = take (rw_offset r) b" using cut by (simp add: set_len_def)
  have sp: "files = lower ?w files @ (?w, b) # upper ?w files" using files_split [OF files(1), of ?w] get by simp
  let ?up = "map (\<lambda>(x, _). (x, [] :: u8 list)) (upper ?w files)"
  have em: "emptied ?w files = lower ?w files @ (?w, b) # ?up" by (rule emptied_eq [OF files(1) get])
  have lo: "lower ?w (emptied ?w files) = lower ?w files" and up: "upper ?w (emptied ?w files) = ?up"
    unfolding em by (auto simp: lower_def upper_def filter_map comp_def case_prod_beta filter_empty_conv)
  have f: "files' = lower ?w files @ (?w, take (rw_offset r) b) # ?up"
    unfolding files'_def len insert_split [OF sorted_emptied [OF files(1)]] lo up ..
  show "rw_offset r \<le> length b" using cut by simp
  show "fst ` set files' = fst ` set files" 
  proof -
    have "fst ` set ?up = fst ` set (upper ?w files)" by (simp add: image_image case_prod_beta)
    then show ?thesis unfolding f by (subst (3) sp) (simp only: set_append list.set image_Un image_insert fst_conv)
  qed
  have alt: "log_rows crc files = (log_rows crc (lower ?w files) @ A) @ r # B @ log_rows crc (upper ?w files)"
    by (subst sp) (simp add: AB)
  have pre: "rows_to n (log_rows crc files) = log_rows crc (lower ?w files) @ A"
    by (rule split_unique [OF sorted_distinct [OF rs(1)] split alt])
  have upb: "log_rows crc ?up = []" "covered crc snap ?up = []" by (rule blank_files; auto)+
  show "log_rows crc files' = rows_to n (log_rows crc files)" unfolding f pre using cut upb by simp
  show "log_rows crc (lower ?w files) @ wal_rows crc ?w 0 (take (rw_offset r) b) = rows_to n (log_rows crc files)" unfolding pre using cut by simp
  have "r \<notin> set (covered crc snap files)" using cov rgt by force
  then have "r \<in> set (uncovered crc snap files)" using rin covered_split [OF files] by simp
  then obtain w' b' where "(w', b') \<in> set files" "r \<in> set (resumed crc snap (w', b'))" by (auto simp: uncovered_def)
  then have at: "\<not> skipped snap ?w" "resume_at snap ?w \<le> rw_offset r"
    using wal_rows_id by (auto simp: resumed_def split: if_splits)
  show below: "\<forall>s\<in>set_option snap. is_last_wal_id s \<le> ?w" using at(1) by (auto simp: skipped_def split: option.splits)
  have r0: "\<forall>x>?w. \<not> skipped snap x \<and> resume_at snap x = 0" by (rule snapshot_below(2) [OF below])
  have "covered crc snap (upper ?w files) = []"
    by (rule uncovered_above(1)) (use r0 in \<open>auto simp: upper_def\<close>)
  moreover have "cov1 crc snap (?w, take (rw_offset r) b) = cov1 crc snap (?w, b)" using at by (simp add: cov1_def min_absorb2)
  ultimately show "covered crc snap files' = covered crc snap files" unfolding f by (subst (3) sp) (simp add: upb)
  have al: "aligned crc snap (lower ?w files)" "resume_at snap ?w \<le> length b" "whole crc (take (resume_at snap ?w) b)"
    using files(2) by (subst (asm) sp, simp)+
  have "aligned crc snap ?up" by (rule blank_files(4)) (use r0 in \<open>auto simp: upper_def\<close>)
  then show "aligned crc snap files'" unfolding f using al at cut by (simp add: min_absorb2)
  show "head_file crc ?w (take (rw_offset r) b) files'"
    using cut cmp_lin.bm_sorted_insert [OF sorted_emptied [OF files(1)]] unfolding head_file_def files'_def len
    by (auto simp: cmp_lin.bm_get_insert_same) (use f len in \<open>auto simp: files'_def lower_def upper_def\<close>)
qed

end
