(* ===== verification/Live.thy ===== *)
theory Live
  imports Log_files
begin

text \<open>
  The running collection keeps its directory recoverable: every append, replicated frame, truncation,
  rotation, commit and snapshot preserves the agreement between the collection and the log on disk, so a
  process that dies anywhere recovers by \<^verbatim>\<open>open\<close> what it had committed and what it had staged.
\<close>

section \<open>The invariant\<close>

lemma log_inv_head:
  assumes "log_inv ev c"
  shows "\<exists>b. head_file (ev_crc ev) (co_wal_id c) b (dk_files (co_disk c)) \<and> co_wal_size c = length b \<and> file_of (co_wal_id c) (dk_files (co_disk c)) = b"
  using assms unfolding log_inv_def Let_def disk_ok_def head_file_def by (elim conjE exE) (auto simp: file_of_def)

lemma log_inv_disk: "log_inv ev c \<Longrightarrow> disk_ok ev (co_disk c)"
  by (simp add: log_inv_def Let_def)

lemma log_inv_facts:
  assumes "log_inv ev c"
  shows "(co_last_lsn c, co_last_term c) = tail_of (0, 0) (disk_rows ev (co_disk c))" "co_last_lsn c \<le> co_db_next_lsn c"
    "watermark (co_disk c) \<le> co_applied_lsn c" "co_applied_lsn c \<le> co_last_lsn c" "co_saved c \<le> watermark (co_disk c)"
    "cview (co_com c) = logical ev (rows_to (co_applied_lsn c) (disk_rows ev (co_disk c)))"
    "list_all2 (realizes ev) (rows_past (co_applied_lsn c) (disk_rows ev (co_disk c))) (co_pending c)"
    "\<forall>s\<in>set_option (dk_snapshot (co_disk c)). is_last_wal_id s \<le> co_wal_id c" "co_rich_saved c \<le> cs_rich_gen (co_com c)"
    "\<forall>m. dk_meta (co_disk c) = Some m \<and> cs_rich_gen (co_com c) = co_rich_saved c \<longrightarrow> meta_view m = rich (cview (co_com c))"
    "co_fence c = None" "co_handle c = co_wal_id c" "co_recorded c \<longrightarrow> dk_meta (co_disk c) \<noteq> None"
  using assms unfolding log_inv_def Let_def by blast+

lemma disk_ok_facts:
  assumes "disk_ok ev d"
  shows "bm_sorted cmp_lin (dk_files d)" "dk_cut d = None" "linked 0 0 (disk_rows ev d)" "decodes ev (disk_rows ev d)"
    "aligned (ev_crc ev) (dk_snapshot d) (dk_files d)" "\<forall>s\<in>set_option (dk_snapshot d). is_last_wal_id s \<in> fst ` set (dk_files d)"
    "docs_at (snap_map (dk_snapshot d)) = lg_docs (logical ev (covered (ev_crc ev) (dk_snapshot d) (dk_files d)))"
    "\<forall>r\<in>set (covered (ev_crc ev) (dk_snapshot d) (dk_files d)). rw_lsn r \<le> watermark d"
    "uncovered (ev_crc ev) (dk_snapshot d) (dk_files d) = [] \<longrightarrow> snap_tail (dk_snapshot d) = tail_of (0, 0) (disk_rows ev d)"
    "watermark d \<le> fst (tail_of (0, 0) (disk_rows ev d))"
    "dk_meta d = None \<Longrightarrow> disk_rows ev d = [] \<and> dk_pos d = None"
    "dk_meta d = Some m \<Longrightarrow> meta_view m = rich (logical ev (rows_to (watermark d) (disk_rows ev d)))"
    "reaches (snap_tail (dk_snapshot d)) (tail_of (0, 0) (covered (ev_crc ev) (dk_snapshot d) (dk_files d)))"
proof -
  note ok = assms [unfolded disk_ok_def]
  show "bm_sorted cmp_lin (dk_files d)" "dk_cut d = None" "linked 0 0 (disk_rows ev d)" "decodes ev (disk_rows ev d)"
    "aligned (ev_crc ev) (dk_snapshot d) (dk_files d)" "\<forall>s\<in>set_option (dk_snapshot d). is_last_wal_id s \<in> fst ` set (dk_files d)"
    "docs_at (snap_map (dk_snapshot d)) = lg_docs (logical ev (covered (ev_crc ev) (dk_snapshot d) (dk_files d)))"
    "\<forall>r\<in>set (covered (ev_crc ev) (dk_snapshot d) (dk_files d)). rw_lsn r \<le> watermark d"
    "uncovered (ev_crc ev) (dk_snapshot d) (dk_files d) = [] \<longrightarrow> snap_tail (dk_snapshot d) = tail_of (0, 0) (disk_rows ev d)"
    "watermark d \<le> fst (tail_of (0, 0) (disk_rows ev d))"
    "reaches (snap_tail (dk_snapshot d)) (tail_of (0, 0) (covered (ev_crc ev) (dk_snapshot d) (dk_files d)))" using ok by blast+
  show "dk_meta d = None \<Longrightarrow> disk_rows ev d = [] \<and> dk_pos d = None"
    "dk_meta d = Some m \<Longrightarrow> meta_view m = rich (logical ev (rows_to (watermark d) (disk_rows ev d)))" using ok by auto
qed

text \<open>The invariant reads the fields named here and no others.\<close>

lemma log_inv_cong:
  assumes "co_disk c' = co_disk c" "co_com c' = co_com c" "co_pending c' = co_pending c" "co_applied_lsn c' = co_applied_lsn c"
    "co_handle c' = co_handle c" "co_wal_id c' = co_wal_id c" "co_wal_size c' = co_wal_size c" "co_last_lsn c' = co_last_lsn c"
    "co_last_term c' = co_last_term c" "co_fence c' = co_fence c" "co_recorded c' = co_recorded c" "co_saved c' = co_saved c"
    "co_rich_saved c' = co_rich_saved c" "co_last_lsn c \<le> co_db_next_lsn c'"
  shows "log_inv ev c \<Longrightarrow> log_inv ev c'"
  unfolding log_inv_def Let_def assms using assms(14) by blast

section \<open>The watermark\<close>

lemma applied_meta_view: "meta_view (applied_meta_of c) = rich (cview (co_com c))"
  by (simp add: meta_view_def applied_meta_of_def rich_def cview_def)

text \<open>Either watermark write leaves the recorded position at the applied one.\<close>

lemma log_inv_marked:
  assumes inv: "log_inv ev c" and wm: "watermark d' = co_applied_lsn c"
    and same: "dk_files d' = dk_files (co_disk c)" "dk_cut d' = dk_cut (co_disk c)" "dk_snapshot d' = dk_snapshot (co_disk c)"
    and meta: "dk_meta d' = Some m" "meta_view m = rich (cview (co_com c))"
    and c': "co_disk c' = d'" "co_saved c' \<le> co_applied_lsn c" "co_rich_saved c' \<le> cs_rich_gen (co_com c)" "co_com c' = co_com c"
      "co_pending c' = co_pending c" "co_applied_lsn c' = co_applied_lsn c" "co_handle c' = co_handle c" "co_wal_id c' = co_wal_id c"
      "co_wal_size c' = co_wal_size c" "co_last_lsn c' = co_last_lsn c" "co_last_term c' = co_last_term c" "co_fence c' = co_fence c"
      "co_db_next_lsn c' = co_db_next_lsn c"
  shows "log_inv ev c'"
proof -
  note f = log_inv_facts [OF inv] and d = disk_ok_facts [OF log_inv_disk [OF inv]]
  have "disk_ok ev d'"
    unfolding disk_ok_def wm same
  proof (intro conjI)
    show "case dk_meta d' of None \<Rightarrow> disk_rows ev (co_disk c) = [] \<and> dk_pos d' = None
       | Some m \<Rightarrow> meta_view m = rich (logical ev (rows_to (co_applied_lsn c) (disk_rows ev (co_disk c))))" using meta f(6) by simp
    show "co_applied_lsn c \<le> fst (tail_of (0, 0) (disk_rows ev (co_disk c)))" using f(1,4) by (metis fst_conv)
    show "\<forall>r\<in>set (covered (ev_crc ev) (dk_snapshot (co_disk c)) (dk_files (co_disk c))). rw_lsn r \<le> co_applied_lsn c"
      using d(8) f(3) le_trans by blast
  qed (use d in blast)+
  then show ?thesis using inv meta wm c'(2,3) unfolding log_inv_def Let_def c' same wm by auto
qed

lemma watermark_full:
  assumes "log_inv ev c" "persist_watermark_full io c = (r, c')"
  shows "log_inv ev c'" "r = Ok () \<Longrightarrow> dk_meta (co_disk c') \<noteq> None \<and> watermark (co_disk c') = co_applied_lsn c"
proof -
  note f = log_inv_facts [OF assms(1)] and d = disk_ok_facts [OF log_inv_disk [OF assms(1)]]
  have pos: "(case dk_pos (co_disk c) of Some p \<Rightarrow> p | None \<Rightarrow> 0) \<le> co_applied_lsn c"
    using f(3) d(11) by (cases "dk_meta (co_disk c)") (auto simp: watermark_def recorded_watermark_def)
  show "log_inv ev c'"
  proof (cases "pi_meta io")
    case True
    then have c': "c' = c\<lparr>co_disk := (co_disk c)\<lparr>dk_meta := Some (applied_meta_of c)\<rparr>, co_rich_saved := cs_rich_gen (co_com c),
        co_saved := max (co_saved c) (co_applied_lsn c)\<rparr>" using assms(2) by (simp add: persist_watermark_full_def)
    show ?thesis
      by (rule log_inv_marked [OF assms(1), of "co_disk c'" "applied_meta_of c"])
        (use pos f(3,5) in \<open>auto simp: c' watermark_def recorded_watermark_def applied_meta_of_def applied_meta_view [unfolded applied_meta_of_def]\<close>)
  qed (use assms in \<open>simp add: persist_watermark_full_def\<close>)
  show "r = Ok () \<Longrightarrow> dk_meta (co_disk c') \<noteq> None \<and> watermark (co_disk c') = co_applied_lsn c"
    using assms(2) pos by (auto simp: persist_watermark_full_def watermark_def recorded_watermark_def applied_meta_of_def split: if_splits)
qed

lemma watermark_once:
  assumes "log_inv ev c" "record_watermark_once io c = (r, c')"
  shows "log_inv ev c'" "r = Ok () \<Longrightarrow> dk_meta (co_disk c') \<noteq> None"
    "disk_rows ev (co_disk c') = disk_rows ev (co_disk c)" "co_applied_lsn c' = co_applied_lsn c" "co_last_lsn c' = co_last_lsn c"
    "co_last_term c' = co_last_term c" "co_pending c' = co_pending c"
proof -
  obtain r1 c1 where p: "persist_watermark_full io c = (r1, c1)" by fastforce
  note full = watermark_full [OF assms(1) p]
  have "log_inv ev (c1\<lparr>co_recorded := True\<rparr>)" if "r1 = Ok ()"
    using full that unfolding log_inv_def Let_def by auto
  then show "log_inv ev c'" using assms p full by (auto simp: record_watermark_once_def split: if_splits sum.splits)
  show "r = Ok () \<Longrightarrow> dk_meta (co_disk c') \<noteq> None"
    using assms p full log_inv_facts(13) [OF assms(1)] by (auto simp: record_watermark_once_def split: if_splits sum.splits)
  show "disk_rows ev (co_disk c') = disk_rows ev (co_disk c)" "co_applied_lsn c' = co_applied_lsn c" "co_last_lsn c' = co_last_lsn c"
    "co_last_term c' = co_last_term c" "co_pending c' = co_pending c"
    using assms(2) by (auto simp: record_watermark_once_def persist_watermark_full_def split: if_splits sum.splits)
qed

text \<open>A commit position within the log is written down whichever file takes it.\<close>

lemma watermark_persisted:
  assumes inv: "log_inv ev c" and p: "persist_watermark io b c = (r, c')" and b: "b \<le> co_applied_lsn c"
  shows "log_inv ev c'" "r = Ok () \<Longrightarrow> b \<le> watermark (co_disk c') \<and> cs_rich_gen (co_com c') = co_rich_saved c'"
    "disk_rows ev (co_disk c') = disk_rows ev (co_disk c)" "co_com c' = co_com c" "co_pending c' = co_pending c"
    "co_applied_lsn c' = co_applied_lsn c"
proof -
  note f = log_inv_facts [OF inv] and d = disk_ok_facts [OF log_inv_disk [OF inv]]
  obtain r1 c1 where pf: "persist_watermark_full io c = (r1, c1)" by fastforce
  note w = watermark_full [OF inv pf]
  have gen: "r1 = Ok () \<Longrightarrow> cs_rich_gen (co_com c1) = co_rich_saved c1" using pf by (auto simp: persist_watermark_full_def split: if_splits)
  consider (full) "r = r1" "c' = c1" | (same) "c' = c" "b \<le> co_saved c" "cs_rich_gen (co_com c) = co_rich_saved c"
    | (pos) "cs_rich_gen (co_com c) = co_rich_saved c" "co_saved c < b"
        "c' = c\<lparr>co_disk := (co_disk c)\<lparr>dk_pos := Some (co_applied_lsn c)\<rparr>, co_saved := max (co_saved c) (co_applied_lsn c)\<rparr>"
    using p unfolding persist_watermark_def pf by (auto split: if_splits)
  then have "log_inv ev c' \<and> (r = Ok () \<longrightarrow> b \<le> watermark (co_disk c') \<and> cs_rich_gen (co_com c') = co_rich_saved c')"
  proof cases
    case full
    then show ?thesis using p w gen b by auto
  next
    case same
    then show ?thesis using inv f(5) by auto
  next
    case pos
    have "dk_meta (co_disk c) \<noteq> None"
    proof
      assume none: "dk_meta (co_disk c) = None"
      then have "co_last_lsn c = 0" using f(1) d(11) by simp
      then show False using b f(4) pos(2) by simp
    qed
    then obtain m where m: "dk_meta (co_disk c) = Some m" by blast
    have wm: "watermark (co_disk c') = co_applied_lsn c"
      using f(3) m by (simp add: pos(3) watermark_def recorded_watermark_def)
    have "log_inv ev c'"
      by (rule log_inv_marked [OF inv wm, of m]) (use m f(3,5,9,10) pos(1) in \<open>auto simp: pos(3)\<close>)
    then show ?thesis using wm b pos by simp
  qed
  then show "log_inv ev c'" "r = Ok () \<Longrightarrow> b \<le> watermark (co_disk c') \<and> cs_rich_gen (co_com c') = co_rich_saved c'" by auto
  show "disk_rows ev (co_disk c') = disk_rows ev (co_disk c)" "co_com c' = co_com c" "co_pending c' = co_pending c"
    "co_applied_lsn c' = co_applied_lsn c"
    using p by (auto simp: persist_watermark_def persist_watermark_full_def split: if_splits)
qed

section \<open>Commits\<close>

lemma rich_apply_effect:
  "cs_rich_gen s \<le> cs_rich_gen (apply_effect f e s)"
  "cs_rich_gen (apply_effect f e s) = cs_rich_gen s \<Longrightarrow> rich (cview (apply_effect f e s)) = rich (cview s)"
  by (cases e; auto simp: effect_defs rich_def cview_def split: option.splits if_splits)+

lemma rich_foldl:
  "cs_rich_gen s \<le> cs_rich_gen (foldl (\<lambda>s x. apply_effect f (sa_effect (snd x)) s) s ps) \<and>
   (cs_rich_gen (foldl (\<lambda>s x. apply_effect f (sa_effect (snd x)) s) s ps) = cs_rich_gen s \<longrightarrow>
    rich (cview (foldl (\<lambda>s x. apply_effect f (sa_effect (snd x)) s) s ps)) = rich (cview s))"
proof (induction ps arbitrary: s)
  case (Cons p ps)
  let ?s = "apply_effect f (sa_effect (snd p)) s"
  note h = Cons [of ?s] and m = rich_apply_effect [where s = s and f = f and e = "sa_effect (snd p)"]
  show ?case using h m by (auto intro: le_trans)
qed simp

lemma list_all2_filter:
  "list_all2 R xs ys \<Longrightarrow> (\<And>x y. R x y \<Longrightarrow> P x = Q y) \<Longrightarrow> list_all2 R (filter P xs) (filter Q ys)"
  by (induction rule: list_all2_induct) auto

lemma foldl_staged_form:
  "\<exists>n. snd (foldl (apply_staged f w) (ch, c) xs) =
     c\<lparr>co_com := foldl (\<lambda>s x. apply_effect f (sa_effect (snd x)) s) (co_com c) xs, co_staged_inline := n\<rparr>"
proof (induction xs arbitrary: ch c)
  case Nil
  show ?case by (intro exI [of _ "co_staged_inline c"]) simp
next
  case (Cons x xs)
  define c1 where "c1 = release_staged (sa_effect (snd x)) (c\<lparr>co_com := apply_effect f (sa_effect (snd x)) (co_com c)\<rparr>)"
  obtain n where "snd (foldl (apply_staged f w) (ch @ change_of w (co_com c) x, c1) xs) =
      c1\<lparr>co_com := foldl (\<lambda>s x. apply_effect f (sa_effect (snd x)) s) (co_com c1) xs, co_staged_inline := n\<rparr>"
    using Cons by blast
  moreover have "apply_staged f w (ch, c) x = (ch @ change_of w (co_com c) x, c1)" by (simp add: apply_staged_def c1_def)
  ultimately show ?case by (intro exI [of _ n]) (simp add: c1_def release_staged_def)
qed

lemma rows_to_max:
  assumes "sorted_wrt (\<lambda>a b. rw_lsn a < rw_lsn b) rs"
  shows "rows_to (max a b) rs = rows_to a rs @ filter (\<lambda>r. rw_lsn r \<le> b) (rows_past a rs)"
    "rows_past (max a b) rs = filter (\<lambda>r. b < rw_lsn r) (rows_past a rs)"
proof -
  have "rows_to (max a b) rs = rows_to (max a b) (rows_to a rs) @ rows_to (max a b) (rows_past a rs)"
    using rows_to_past [OF assms, of a] rows_to_simps(2) [of "max a b" "rows_to a rs" "rows_past a rs"] by simp
  moreover have "rows_to (max a b) (rows_past a rs) = filter (\<lambda>r. rw_lsn r \<le> b) (rows_past a rs)"
    by (auto simp: rows_to_def rows_past_def intro!: filter_cong)
  ultimately show "rows_to (max a b) rs = rows_to a rs @ filter (\<lambda>r. rw_lsn r \<le> b) (rows_past a rs)"
    by (simp add: rows_to_to)
  show "rows_past (max a b) rs = filter (\<lambda>r. b < rw_lsn r) (rows_past a rs)" by (auto simp: rows_past_def intro: filter_cong)
qed

lemma log_inv_batch:
  assumes inv: "log_inv ev c" and b: "b \<le> co_last_lsn c" and batch: "apply_batch f w b c = (ch, n, c1)"
  shows "log_inv ev c1" "co_applied_lsn c1 = max (co_applied_lsn c) b" "co_disk c1 = co_disk c" "co_last_lsn c1 = co_last_lsn c"
    "co_last_term c1 = co_last_term c"
proof -
  let ?rs = "disk_rows ev (co_disk c)" and ?ready = "filter (\<lambda>(l, _). l \<le> b) (co_pending c)"
  note f = log_inv_facts [OF inv] and d = disk_ok_facts [OF log_inv_disk [OF inv]]
  have srt: "sorted_wrt (\<lambda>a b. rw_lsn a < rw_lsn b) ?rs" using d(3) by (rule sorted_rows)
  define com where "com = foldl (\<lambda>s x. apply_effect f (sa_effect (snd x)) s) (co_com c) ?ready"
  obtain k where k: "snd (foldl (apply_staged f w) ([], c) ?ready) = c\<lparr>co_com := com, co_staged_inline := k\<rparr>"
    unfolding com_def using foldl_staged_form by blast
  obtain ch' where fold: "foldl (apply_staged f w) ([], c) ?ready = (ch', c\<lparr>co_com := com, co_staged_inline := k\<rparr>)"
    using k by (metis prod.collapse)
  have c1: "c1 = c\<lparr>co_com := com, co_staged_inline := k, co_pending := filter (\<lambda>(l, _). b < l) (co_pending c),
      co_applied_lsn := max (co_applied_lsn c) b\<rparr>"
    using batch unfolding apply_batch_eq [OF fold] by (auto simp: moved_to_def)
  have ready: "list_all2 (realizes ev) (filter (\<lambda>r. rw_lsn r \<le> b) (rows_past (co_applied_lsn c) ?rs)) ?ready"
    by (rule list_all2_filter [OF f(7)]) (auto simp: realizes_def)
  have rest: "list_all2 (realizes ev) (rows_past (max (co_applied_lsn c) b) ?rs) (co_pending c1)"
    unfolding c1 rows_to_max(2) [OF srt] by (simp add: case_prod_beta) (rule list_all2_filter [OF f(7)], auto simp: realizes_def)
  have view: "cview com = logical ev (rows_to (max (co_applied_lsn c) b) ?rs)"
    unfolding com_def realizes_fold [OF ready] f(6) rows_to_max(1) [OF srt] by simp
  have gen: "cs_rich_gen (co_com c) \<le> cs_rich_gen com" "cs_rich_gen com = cs_rich_gen (co_com c) \<Longrightarrow> rich (cview com) = rich (cview (co_com c))"
    using rich_foldl [of "co_com c" f ?ready] by (auto simp: com_def)
  have meta: "\<forall>m. dk_meta (co_disk c) = Some m \<and> cs_rich_gen com = co_rich_saved c \<longrightarrow> meta_view m = rich (cview com)"
    using f(9,10) gen by (metis antisym)
  show "log_inv ev c1" using inv rest view gen(1) meta b f(9) unfolding log_inv_def Let_def c1 by (auto simp: max_def)
  show "co_applied_lsn c1 = max (co_applied_lsn c) b" "co_disk c1 = co_disk c" "co_last_lsn c1 = co_last_lsn c"
    "co_last_term c1 = co_last_term c" by (simp_all add: c1)
qed

text \<open>A commit moves the index and what was recorded of it together.\<close>

lemma log_inv_commit:
  assumes inv: "log_inv ev c" and b: "b \<le> co_last_lsn c" and commit: "apply_committed ev io watched b c = (r, changes, c')"
  shows "log_inv ev c'" "co_applied_lsn c' = max (co_applied_lsn c) b" "disk_rows ev (co_disk c') = disk_rows ev (co_disk c)"
    "r = Ok k \<Longrightarrow> b \<le> watermark (co_disk c') \<and> cs_rich_gen (co_com c') = co_rich_saved c'"
proof -
  obtain ch n c1 where batch: "apply_batch (ev_f64 ev) watched b c = (ch, n, c1)" by (metis prod.collapse)
  obtain r2 c2 where p: "persist_watermark io b c1 = (r2, c2)" by fastforce
  note i = log_inv_batch [OF inv b batch]
  note w = watermark_persisted [OF i(1) p, unfolded i(2), OF max.cobounded2]
  have c': "c' = c2" "r = Ok k \<Longrightarrow> r2 = Ok ()"
    using commit by (auto simp: apply_committed_def batch p split: sum.splits)
  show "log_inv ev c'" "co_applied_lsn c' = max (co_applied_lsn c) b" "disk_rows ev (co_disk c') = disk_rows ev (co_disk c)"
    "r = Ok k \<Longrightarrow> b \<le> watermark (co_disk c') \<and> cs_rich_gen (co_com c') = co_rich_saved c'"
    using w i(3) c' by auto
qed

section \<open>Appends\<close>

text \<open>The fields of the directory that are not WAL files.\<close>

definition beside :: "disk \<Rightarrow> u8 list option \<times> index_snapshot option \<times> applied_meta option \<times> nat option" where
  "beside d = (dk_cut d, dk_snapshot d, dk_meta d, dk_pos d)"

lemma beside_eq:
  "beside d' = beside d \<longleftrightarrow> dk_cut d' = dk_cut d \<and> dk_snapshot d' = dk_snapshot d \<and> dk_meta d' = dk_meta d \<and> dk_pos d' = dk_pos d"
  by (simp add: beside_def)

lemma beside_watermark: "beside d' = beside d \<Longrightarrow> watermark d' = watermark d"
  by (rule watermark_cong) (simp_all add: beside_def)

text \<open>What the invariant reads beside the disk and the writer's position.\<close>

definition tracked where
  "tracked c = (co_com c, co_applied_lsn c, co_fence c, co_recorded c, co_saved c, co_rich_saved c)"

lemma log_inv_refiled:
  assumes inv: "log_inv ev c" and b: "beside (co_disk c') = beside (co_disk c)" and t: "tracked c' = tracked c"
    and rows: "log_rows (ev_crc ev) fs = disk_rows ev (co_disk c)"
      "covered (ev_crc ev) (dk_snapshot (co_disk c)) fs = covered (ev_crc ev) (dk_snapshot (co_disk c)) (dk_files (co_disk c))"
      "uncovered (ev_crc ev) (dk_snapshot (co_disk c)) fs = uncovered (ev_crc ev) (dk_snapshot (co_disk c)) (dk_files (co_disk c))"
      "aligned (ev_crc ev) (dk_snapshot (co_disk c)) fs" "fst ` set (dk_files (co_disk c)) \<subseteq> fst ` set fs"
    and hd: "head_file (ev_crc ev) w bytes fs" "co_wal_id c \<le> w"
    and c': "dk_files (co_disk c') = fs" "co_wal_id c' = w" "co_handle c' = w" "co_wal_size c' = length bytes" "co_last_lsn c' = co_last_lsn c"
      "co_last_term c' = co_last_term c" "co_pending c' = co_pending c" "co_last_lsn c \<le> co_db_next_lsn c'"
  shows "log_inv ev c'"
proof -
  note f = log_inv_facts [OF inv] and d = disk_ok_facts [OF log_inv_disk [OF inv]]
  have s: "dk_cut (co_disk c') = dk_cut (co_disk c)" "dk_snapshot (co_disk c') = dk_snapshot (co_disk c)" "dk_meta (co_disk c') = dk_meta (co_disk c)"
    "dk_pos (co_disk c') = dk_pos (co_disk c)" using b by (auto simp: beside_eq)
  note wm = beside_watermark [OF b]
  have tr: "co_com c' = co_com c" "co_applied_lsn c' = co_applied_lsn c" "co_fence c' = co_fence c" "co_recorded c' = co_recorded c"
    "co_saved c' = co_saved c" "co_rich_saved c' = co_rich_saved c" using t by (auto simp: tracked_def)
  have "disk_ok ev (co_disk c')"
    unfolding disk_ok_def s wm c'(1) rows(1,2,3)
    using log_inv_disk [OF inv, unfolded disk_ok_def] rows(4,5) hd(1) unfolding head_file_def by (elim conjE) (intro conjI; blast?)
  then show ?thesis
    using f inv hd(2) c'(8) hd(1) unfolding log_inv_def Let_def c'(1-7) s wm tr rows(1) head_file_def by (auto intro: le_trans)
qed

lemma log_inv_rotated:
  assumes inv: "log_inv ev c" and r: "rotate_if_full io c = (Ok (), c')"
  shows "log_inv ev c' \<and> disk_rows ev (co_disk c') = disk_rows ev (co_disk c) \<and> beside (co_disk c') = beside (co_disk c) \<and> tracked c' = tracked c \<and>
    co_last_lsn c' = co_last_lsn c \<and> co_last_term c' = co_last_term c \<and> co_pending c' = co_pending c \<and> co_db_next_lsn c' = co_db_next_lsn c"
proof (cases "co_wal_size c < WAL_ROTATION_LIMIT")
  case False
  note f = log_inv_facts [OF inv] and d = disk_ok_facts [OF log_inv_disk [OF inv]]
  define fs where "fs = bm_insert cmp_lin (Suc (co_wal_id c)) (file_of (Suc (co_wal_id c)) (dk_files (co_disk c))) (dk_files (co_disk c))"
  have blank: "\<forall>(x, y)\<in>set (dk_files (co_disk c)). co_wal_id c < x \<longrightarrow> y = []" using inv by (simp add: log_inv_def Let_def)
  note nf = next_file [OF d(1) blank d(5) f(8), folded fs_def]
  have c': "c' = c\<lparr>co_wal_id := Suc (co_wal_id c), co_disk := (co_disk (note_synced c))\<lparr>dk_files := fs\<rparr>, co_handle := Suc (co_wal_id c), co_wal_size := 0\<rparr>"
    using r False by (auto simp: rotate_if_full_def open_next_wal_def write_file_def note_synced_def Let_def fs_def split: if_splits)
  have "log_inv ev c'"
    by (rule log_inv_refiled [OF inv, of c' fs "Suc (co_wal_id c)" "[]"])
      (use nf f(2) in \<open>simp_all add: c' beside_def note_synced_def tracked_def\<close>)
  then show ?thesis using nf(1) by (simp add: c' beside_def note_synced_def tracked_def)
qed (use assms in \<open>simp add: rotate_if_full_def\<close>)

text \<open>A frame torn part-way is left behind in its file; the log is what it was.\<close>

lemma log_inv_torn:
  assumes inv: "log_inv ev c" and n: "frame_ok (ev_crc ev) (h, p)" "ap_write io = Some n" "n < length (frame_bytes (h, p))" "ap_rotate io"
    and w: "write_frame io (frame_bytes (h, p)) c = (r, c')"
  shows "log_inv ev c'" "disk_rows ev (co_disk c') = disk_rows ev (co_disk c)" "r = Err IoFailed"
proof -
  note f = log_inv_facts [OF inv] and d = disk_ok_facts [OF log_inv_disk [OF inv]]
  let ?x = "take n (frame_bytes (h, p))" and ?w = "co_wal_id c" and ?snap = "dk_snapshot (co_disk c)" and ?crc = "ev_crc ev"
  obtain b where b: "head_file ?crc ?w b (dk_files (co_disk c))" "co_wal_size c = length b" "file_of ?w (dk_files (co_disk c)) = b"
    using log_inv_head [OF inv] by blast
  define fs1 where "fs1 = bm_insert cmp_lin ?w (b @ ?x) (dk_files (co_disk c))"
  define fs where "fs = bm_insert cmp_lin (Suc ?w) (file_of (Suc ?w) fs1) fs1"
  have none: "wal_rows ?crc ?w (length b) ?x = []" using torn_frame [OF n(1,3)] by (rule wal_rows_None)
  note g = grow_head [OF b(1) d(5) f(8), of ?x, folded fs1_def, unfolded none append_Nil2]
  have "\<forall>(x, y)\<in>set fs1. ?w < x \<longrightarrow> y = []"
    using inv unfolding fs1_def insert_split [OF d(1)] log_inv_def Let_def by (auto simp: lower_def upper_def)
  note nf = next_file [OF g(5) this g(4) f(8), folded fs_def, unfolded g(1-3)]
  have c': "c' = c\<lparr>co_wal_id := Suc ?w, co_disk := (co_disk c)\<lparr>dk_files := fs\<rparr>, co_handle := Suc ?w, co_wal_size := 0\<rparr>" and "r = Err IoFailed"
    using w n(2,4) f(12) b(3) by (auto simp: write_frame_def open_next_wal_def write_file_def Let_def fs_def fs1_def)
  have "log_inv ev c'"
    by (rule log_inv_refiled [OF inv, of c' fs "Suc ?w" "[]"])
      (use nf g(6) f(2) in \<open>auto simp: c' beside_def tracked_def\<close>)
  then show "log_inv ev c'" "disk_rows ev (co_disk c') = disk_rows ev (co_disk c)" "r = Err IoFailed"
    using nf(1) \<open>r = Err IoFailed\<close> by (simp_all add: c')
qed

lemma staged_of_state:
  "snd (staged_of ev lsn term entry w off p c) =
     c\<lparr>co_staged_inline := co_staged_inline c + staged_bytes (fst (staged_of ev lsn term entry w off p c))\<rparr>"
  by (cases entry) (simp_all add: staged_of_def reserve_staged_entry_def Let_def)

lemma fits_staged:
  assumes "ev_de ev p = Some entry" "length p = fh_len (rw_head r)"
  shows "fits r entry (fst (staged_of ev (rw_lsn r) (rw_term r) entry (rw_wal_id r) (rw_offset r) p c))"
  using assms by (cases entry) (simp_all add: staged_of_def reserve_staged_entry_def build_entry_def strip_def row_entry_def Let_def)

lemma stage_form:
  fixes c :: "'n collection"
  assumes "ev_de ev p = Some entry" "length p = fh_len (rw_head r)" "rw_payload r = p" "\<forall>(l, _)\<in>set (co_pending c). l < rw_lsn r"
  shows "\<exists>s n. stage_appended ev (rw_lsn r) (rw_term r) entry (rw_wal_id r) (rw_offset r) p c =
    c\<lparr>co_pending := co_pending c @ [(rw_lsn r, s)], co_staged_inline := n\<rparr> \<and> realizes ev r (rw_lsn r, s)"
proof -
  obtain eff c1 where st: "staged_of ev (rw_lsn r) (rw_term r) entry (rw_wal_id r) (rw_offset r) p c = (eff, c1)" by fastforce
  then obtain n where e: "fits r entry eff" "c1 = c\<lparr>co_staged_inline := n\<rparr>"
    using fits_staged [OF assms(1,2), of c] staged_of_state [of ev "rw_lsn r" "rw_term r" entry "rw_wal_id r" "rw_offset r" p c] by auto
  have none: "bm_get cmp_lin (co_pending c) (rw_lsn r) = None"
    using assms(4) bm_get_Some_in [of cmp_lin "co_pending c" "rw_lsn r"] by (cases "bm_get cmp_lin (co_pending c) (rw_lsn r)") (auto simp: cmp_lin.cmp_Equal_iff)
  let ?s = "\<lparr>sa_wal_id = rw_wal_id r, sa_offset = rw_offset r, sa_term = rw_term r, sa_effect = eff, sa_migration = is_migration entry\<rparr>"
  show ?thesis using e none assms bm_insert_top [OF assms(4), of ?s]
    by (intro exI [of _ ?s] exI [of _ n]) (simp add: stage_appended_def st Let_def realizes_def)
qed

lemma linked_tail: "linked l t rs \<Longrightarrow> l \<le> fst (tail_of (l, t) rs) \<and> (\<forall>r\<in>set rs. rw_lsn r \<le> fst (tail_of (l, t) rs))"
  by (induction rs arbitrary: l t) (auto dest: less_imp_le intro: le_trans)

lemma pending_le_tail:
  assumes "log_inv ev c" "(l, s) \<in> set (co_pending c)"
  shows "l \<le> co_last_lsn c" "co_applied_lsn c < l"
proof -
  note f = log_inv_facts [OF assms(1)] and d = disk_ok_facts [OF log_inv_disk [OF assms(1)]]
  have "l \<in> set (map fst (co_pending c))" using assms(2) by force
  then have "l \<in> (\<lambda>r. rw_lsn r) ` set (rows_past (co_applied_lsn c) (disk_rows ev (co_disk c)))" unfolding realizes_lsns [OF f(7)] by simp
  then obtain y where y: "y \<in> set (disk_rows ev (co_disk c))" "l = rw_lsn y" "co_applied_lsn c < l" by (auto simp: rows_past_def)
  then show "l \<le> co_last_lsn c" "co_applied_lsn c < l" using linked_tail [OF d(3)] f(1) by (metis fst_conv)+
qed

lemma log_inv_appended:
  fixes c :: "'n collection"
  assumes inv: "log_inv ev c" and ok: "frame_ok (ev_crc ev) (h, p)" and de: "ev_de ev p = Some entry"
    and chain: "fh_prev_lsn h = co_last_lsn c" "fh_prev_term h = co_last_term c" "co_last_lsn c < fh_lsn h"
    and meta: "dk_meta (co_disk c) \<noteq> None"
  defines "r \<equiv> \<lparr>rw_wal_id = co_wal_id c, rw_offset = co_wal_size c, rw_head = h, rw_payload = p\<rparr>"
    and "c' \<equiv> note_appended ev h entry p (co_wal_id c) (co_wal_size c) (write_file (co_handle c) (frame_bytes (h, p)) c)"
  shows "log_inv ev c'" "disk_rows ev (co_disk c') = disk_rows ev (co_disk c) @ [r]" "beside (co_disk c') = beside (co_disk c)"
    "tracked c' = tracked c"
proof -
  note f = log_inv_facts [OF inv] and d = disk_ok_facts [OF log_inv_disk [OF inv]]
  let ?rs = "disk_rows ev (co_disk c)" and ?w = "co_wal_id c" and ?snap = "dk_snapshot (co_disk c)" and ?crc = "ev_crc ev"
  obtain b where b: "head_file ?crc ?w b (dk_files (co_disk c))" "co_wal_size c = length b" "file_of ?w (dk_files (co_disk c)) = b"
    using log_inv_head [OF inv] by blast
  define fs where "fs = bm_insert cmp_lin ?w (b @ frame_bytes (h, p)) (dk_files (co_disk c))"
  have new: "wal_rows ?crc ?w (length b) (frame_bytes (h, p)) = [r]" using rows_frame [OF ok] b(2) by (simp add: r_def)
  note g = grow_head [OF b(1) d(5) f(8), of "frame_bytes (h, p)", folded fs_def, unfolded new]
  have whole: "head_file ?crc ?w (b @ frame_bytes (h, p)) fs" using g(7) whole_append whole_frame [OF ok] b(1) by (simp add: head_file_def)
  have last: "tail_of (0, 0) ?rs = (co_last_lsn c, co_last_term c)" using f(1) by simp
  define c0 where "c0 = (write_file (co_handle c) (frame_bytes (h, p)) c)\<lparr>co_wal_size := length b + HEADER_LEN + length p, co_last_lsn := fh_lsn h,
      co_last_term := fh_term h, co_recent := rf_push \<lparr>fs_lsn = fh_lsn h, fs_term = fh_term h, fs_wal_id = ?w, fs_offset = length b\<rparr> (co_recent c),
      co_db_next_lsn := max (co_db_next_lsn c) (fh_lsn h), co_db_last_term := fh_term h\<rparr>"
  have disk: "co_disk c0 = (co_disk c)\<lparr>dk_files := fs\<rparr>" using f(12) b(3) by (simp add: c0_def write_file_def fs_def)
  have c': "c' = stage_appended ev (rw_lsn r) (rw_term r) entry (rw_wal_id r) (rw_offset r) p c0"
    unfolding c'_def note_appended_def by (simp add: r_def c0_def b(2) write_file_def)
  have "\<forall>(l, _)\<in>set (co_pending c0). l < rw_lsn r"
    using pending_le_tail(1) [OF inv] chain(3) by (fastforce simp: c0_def write_file_def r_def)
  then obtain s n where st: "c' = c0\<lparr>co_pending := co_pending c0 @ [(fh_lsn h, s)], co_staged_inline := n\<rparr>" "realizes ev r (fh_lsn h, s)"
    using stage_form [of ev p entry r c0] de ok unfolding c' by (auto simp: r_def frame_ok_def)
  have sel: "co_disk c' = (co_disk c)\<lparr>dk_files := fs\<rparr>" "co_com c' = co_com c" "co_pending c' = co_pending c @ [(fh_lsn h, s)]"
      "co_applied_lsn c' = co_applied_lsn c" "co_handle c' = co_wal_id c" "co_wal_id c' = co_wal_id c" "co_wal_size c' = length (b @ frame_bytes (h, p))"
      "co_last_lsn c' = fh_lsn h" "co_last_term c' = fh_term h" "co_fence c' = co_fence c" "co_recorded c' = co_recorded c" "co_saved c' = co_saved c"
      "co_rich_saved c' = co_rich_saved c" "co_db_next_lsn c' = max (co_db_next_lsn c) (fh_lsn h)"
    using f(12) ok by (simp_all add: st(1) disk) (simp_all add: c0_def write_file_def frame_ok_def frame_bytes_def)
  have wm: "watermark (co_disk c') = watermark (co_disk c)" by (rule watermark_cong) (simp_all add: sel)
  have le: "watermark (co_disk c) < rw_lsn r" "co_applied_lsn c < rw_lsn r" using f(3,4) chain(3) by (auto simp: r_def)
  have tos: "rows_to (watermark (co_disk c)) (?rs @ [r]) = rows_to (watermark (co_disk c)) ?rs"
    "rows_to (co_applied_lsn c) (?rs @ [r]) = rows_to (co_applied_lsn c) ?rs" "rows_past (co_applied_lsn c) (?rs @ [r]) = rows_past (co_applied_lsn c) ?rs @ [r]"
    using le by (simp_all add: rows_to_def rows_past_def)
  have tail: "tail_of (0, 0) (?rs @ [r]) = (fh_lsn h, fh_term h)" by (simp add: r_def)
  have dsel: "dk_files (co_disk c') = fs" "dk_cut (co_disk c') = dk_cut (co_disk c)" "dk_snapshot (co_disk c') = ?snap"
    "dk_meta (co_disk c') = dk_meta (co_disk c)" "dk_pos (co_disk c') = dk_pos (co_disk c)" by (simp_all add: sel)
  have ok': "disk_ok ev (co_disk c')"
    unfolding disk_ok_def wm dsel g(1-3,6) tos tail
  proof (intro conjI)
    show "linked 0 0 (?rs @ [r])" using d(3) last chain by (simp add: linked_append r_def)
    show "decodes ev (?rs @ [r])" using d(4) de by (auto simp: decodes_def r_def)
    show "case dk_meta (co_disk c) of None \<Rightarrow> ?rs @ [r] = [] \<and> dk_pos (co_disk c) = None
      | Some m \<Rightarrow> meta_view m = rich (logical ev (rows_to (watermark (co_disk c)) ?rs))" using meta d(12) by (auto split: option.splits)
    show "watermark (co_disk c) \<le> fst (fh_lsn h, fh_term h)" using le(1) by (simp add: r_def)
  qed (use d g in \<open>simp_all\<close>)
  show "log_inv ev c'"
    unfolding log_inv_def Let_def wm dsel g(1) tail tos sel(2-14)
    using ok' f whole meta le st(2) chain(3) unfolding head_file_def by (auto simp: r_def intro: list_all2_appendI)
  show "disk_rows ev (co_disk c') = disk_rows ev (co_disk c) @ [r]" using g(1) by (simp add: sel)
  show "beside (co_disk c') = beside (co_disk c)" by (simp add: beside_def sel)
  show "tracked c' = tracked c" by (simp add: tracked_def sel)
qed

section \<open>Truncation\<close>

definition rewound :: "nat \<Rightarrow> nat \<Rightarrow> index_snapshot option \<Rightarrow> index_snapshot option" where
  "rewound l t snap = map_option (\<lambda>s. if is_last_lsn s \<le> l then s else s\<lparr>is_last_lsn := l, is_last_term := t\<rparr>) snap"

lemma rewound_same [simp]:
  "skipped (rewound l t snap) w = skipped snap w" "resume_at (rewound l t snap) w = resume_at snap w" "snap_map (rewound l t snap) = snap_map snap"
  by (auto simp: rewound_def skipped_def resume_at_def snap_map_def split: option.splits)

lemma rewound_cover [simp]:
  "covered crc (rewound l t snap) files = covered crc snap files" "uncovered crc (rewound l t snap) files = uncovered crc snap files"
  "aligned crc (rewound l t snap) files = aligned crc snap files"
  by (simp_all add: covered_def uncovered_def aligned_def resumed_def [abs_def] cong: if_cong)

lemma rewound_wal: "(\<forall>s\<in>set_option (rewound l t snap). P (is_last_wal_id s)) \<longleftrightarrow> (\<forall>s\<in>set_option snap. P (is_last_wal_id s))"
  by (auto simp: rewound_def split: if_splits)

lemma truncate_ok:
  assumes "truncate_files fails wc d = (Ok u, d')"
  shows "\<exists>bytes. bm_get cmp_lin (dk_files d) (wc_wal_id wc) = Some bytes \<and> beside d' = beside d \<and>
    dk_files d' = bm_insert cmp_lin (wc_wal_id wc) (set_len (wc_offset wc) bytes) (emptied (wc_wal_id wc) (dk_files d))"
proof -
  have "bm_get cmp_lin (emptied w files) w = bm_get cmp_lin files w" for w and files :: "(nat \<times> u8 list) list"
    by (induction files) (auto simp: emptied_def cmp_lin.cmp_Equal_iff)
  then show ?thesis using assms
    by (auto simp: truncate_files_def empty_above_def emptied_def [symmetric] beside_def Let_def split: option.splits)
qed

lemma rewind_form:
  assumes "wal_rewind_to io l t c = (Ok (Some ()), c')" "bm_sorted cmp_lin (co_pending c)"
  obtains x first rest bytes where "co_applied_lsn c \<le> l"
    "l = co_applied_lsn c \<or> (\<exists>s. bm_get cmp_lin (co_pending c) l = Some s \<and> sa_term s = t)"
    "filter (\<lambda>(n, _). n > l) (co_pending c) = (x, first) # rest"
    "bm_get cmp_lin (dk_files (co_disk c)) (sa_wal_id first) = Some bytes"
    "dk_files (co_disk c') = bm_insert cmp_lin (sa_wal_id first) (set_len (sa_offset first) bytes) (emptied (sa_wal_id first) (dk_files (co_disk c)))"
    "beside (co_disk c') = (None, rewound l t (dk_snapshot (co_disk c)), dk_meta (co_disk c), dk_pos (co_disk c))"
    "co_handle c' = sa_wal_id first" "co_wal_id c' = sa_wal_id first" "co_wal_size c' = sa_offset first" "co_last_lsn c' = l" "co_last_term c' = t"
    "co_pending c' = filter (\<lambda>(n, _). n \<le> l) (co_pending c)" "tracked c' = (co_com c, co_applied_lsn c, None, co_recorded c, co_saved c, co_rich_saved c)"
    "co_db_next_lsn c' = co_db_next_lsn c"
proof -
  let ?held = "bm_get cmp_lin (co_pending c) l"
  have a: "\<not> l < co_applied_lsn c" "\<not> (case ?held of Some staged \<Rightarrow> sa_term staged \<noteq> t | None \<Rightarrow> l \<noteq> co_applied_lsn c)"
    using assms(1) by (auto simp: wal_rewind_to_def Let_def split: if_splits)
  obtain x first rest where doomed: "filter (\<lambda>(n, _). n > l) (co_pending c) = (x, first) # rest"
    using assms(1) a by (cases "filter (\<lambda>(n, _). n > l) (co_pending c)") (auto simp: wal_rewind_to_def Let_def)
  define wc where "wc = \<lparr>wc_wal_id = sa_wal_id first, wc_offset = sa_offset first, wc_prev_lsn = l, wc_prev_term = t\<rparr>"
  obtain r1 c1 where rt: "rewind_index_tail (ct_rewind_index io) l t c = (r1, c1)" by fastforce
  define c2 where "c2 = drop_pending_above l (c1\<lparr>co_disk := (co_disk c1)\<lparr>dk_cut := Some (wc_encode wc)\<rparr>\<rparr>)"
  obtain r3 c3 where cut: "apply_cut io wc c2 = (r3, c3)" by fastforce
  have r: "r1 = Ok ()" "r3 = Ok ()" "c' = c3"
    using assms(1) a doomed rt cut by (auto simp: wal_rewind_to_def Let_def wc_def c2_def split: sum.splits if_splits option.splits)
  have c1: "c1 = c\<lparr>co_disk := (co_disk c)\<lparr>dk_snapshot := rewound l t (dk_snapshot (co_disk c))\<rparr>\<rparr>"
    using rt r(1) by (cases "dk_snapshot (co_disk c)") (auto simp: rewind_index_tail_def rewound_def split: if_splits)
  have c2: "c2 = c\<lparr>co_disk := (co_disk c)\<lparr>dk_snapshot := rewound l t (dk_snapshot (co_disk c)), dk_cut := Some (wc_encode wc)\<rparr>,
      co_pending := filter (\<lambda>(n, _). n \<le> l) (co_pending c),
      co_staged_inline := co_staged_inline c - staged_weight (filter (\<lambda>(n, _). n > l) (co_pending c))\<rparr>"
    unfolding c2_def c1 using assms(2) by (subst drop_pending_above_eq) simp_all
  obtain d where d: "truncate_files (ct_truncate io) wc (co_disk c2) = (Ok (), d)"
    and c3: "c3 = c2\<lparr>co_disk := d\<lparr>dk_cut := None\<rparr>, co_handle := sa_wal_id first, co_wal_id := sa_wal_id first, co_wal_size := sa_offset first,
      co_last_lsn := l, co_last_term := t, co_recent := rf_cut l (co_recent c2), co_durable_lsn := l, co_fence := None\<rparr>"
    using cut r(2) by (auto simp: apply_cut_def shrink_wal_to_def wc_def split: if_splits prod.splits sum.splits)
  from truncate_ok [OF d] obtain bytes where tr: "bm_get cmp_lin (dk_files (co_disk c)) (sa_wal_id first) = Some bytes" "beside d = beside (co_disk c2)"
      "dk_files d = bm_insert cmp_lin (sa_wal_id first) (set_len (sa_offset first) bytes) (emptied (sa_wal_id first) (dk_files (co_disk c)))"
    by (auto simp: wc_def c2)
  show ?thesis
    by (rule that [OF _ _ doomed tr(1)])
      (use a tr(2,3) in \<open>auto simp: r(3) c3 beside_def c2 tracked_def split: option.splits\<close>)
qed

lemma log_inv_sorted:
  assumes "log_inv ev c"
  shows "bm_sorted cmp_lin (co_pending c)"
proof -
  have "sorted_wrt (\<lambda>a b. rw_lsn a < rw_lsn b) (rows_past (co_applied_lsn c) (disk_rows ev (co_disk c)))"
    unfolding rows_past_def by (rule sorted_wrt_filter) (rule sorted_rows [OF disk_ok_facts(3) [OF log_inv_disk [OF assms]]])
  then show ?thesis unfolding bm_sorted_nat realizes_lsns [OF log_inv_facts(7) [OF assms]] sorted_wrt_map by simp
qed

lemma snap_tail_rewound: "snap_tail (rewound l t snap) = (if fst (snap_tail snap) \<le> l then snap_tail snap else (l, t))"
  by (simp add: snap_tail_def rewound_def split: option.splits)

lemma reaches_prefix:
  assumes "linked l t (A @ B)"
  shows "reaches (tail_of (l, t) (A @ B)) (tail_of (l, t) A)"
proof (cases B)
  case (Cons r B')
  then have "linked (fst (tail_of (l, t) A)) (snd (tail_of (l, t) A)) B" "r \<in> set B" using assms by (simp_all add: linked_append)
  then have "fst (tail_of (l, t) A) < fst (tail_of (tail_of (l, t) A) B)"
    using linked_above [of _ _ B r] linked_tail [of _ _ B] by (metis less_le_trans prod.collapse)
  then show ?thesis by (simp add: reaches_def)
qed (simp add: reaches_def)

lemma list_all2_right: "list_all2 R xs ys \<Longrightarrow> y \<in> set ys \<Longrightarrow> \<exists>x\<in>set xs. R x y"
  by (induction rule: list_all2_induct) auto

lemma tail_at:
  assumes "linked l t rs" "y \<in> set rs"
  shows "tail_of (l, t) (rows_to (rw_lsn y) rs) = (rw_lsn y, rw_term y)"
proof -
  obtain A B where rs: "rs = A @ y # B" using assms(2) by (meson split_list)
  have "\<forall>a\<in>set A. rw_lsn a < rw_lsn y" "\<forall>b\<in>set B. rw_lsn y < rw_lsn b"
    using sorted_rows [OF assms(1)] by (auto simp: rs sorted_wrt_append)
  then have "filter (\<lambda>r. rw_lsn r \<le> rw_lsn y) A = A" "filter (\<lambda>r. rw_lsn r \<le> rw_lsn y) B = []"
    by (auto simp: filter_id_conv filter_empty_conv)
  then have "rows_to (rw_lsn y) rs = A @ [y]" by (simp add: rs rows_to_def)
  then show ?thesis by simp
qed

lemma linked_prefix: "linked l t (A @ B) \<Longrightarrow> linked l t A"
  by (simp add: linked_append)

lemma log_inv_cut:
  assumes inv: "log_inv ev c" and cut: "wal_rewind_to io l t c = (Ok (Some ()), c')"
    and agree: "l = co_applied_lsn c \<Longrightarrow> tail_of (0, 0) (rows_to l (disk_rows ev (co_disk c))) = (l, t)"
  shows "log_inv ev c'" "disk_rows ev (co_disk c') = rows_to l (disk_rows ev (co_disk c))" "co_last_lsn c' = l" "co_last_term c' = t"
    "dk_meta (co_disk c') = dk_meta (co_disk c)" "co_applied_lsn c' = co_applied_lsn c"
proof -
  note f = log_inv_facts [OF inv] and d = disk_ok_facts [OF log_inv_disk [OF inv]]
  let ?rs = "disk_rows ev (co_disk c)" and ?snap = "dk_snapshot (co_disk c)" and ?crc = "ev_crc ev" and ?files = "dk_files (co_disk c)"
  from rewind_form [OF cut log_inv_sorted [OF inv]] obtain x first rest bytes where
    k: "co_applied_lsn c \<le> l" "l = co_applied_lsn c \<or> (\<exists>s. bm_get cmp_lin (co_pending c) l = Some s \<and> sa_term s = t)"
    "filter (\<lambda>(n, _). n > l) (co_pending c) = (x, first) # rest"
    "bm_get cmp_lin ?files (sa_wal_id first) = Some bytes"
    "dk_files (co_disk c') = bm_insert cmp_lin (sa_wal_id first) (set_len (sa_offset first) bytes) (emptied (sa_wal_id first) ?files)"
    and b: "beside (co_disk c') = (None, rewound l t ?snap, dk_meta (co_disk c), dk_pos (co_disk c))"
    and c': "co_handle c' = sa_wal_id first" "co_wal_id c' = sa_wal_id first" "co_wal_size c' = sa_offset first" "co_last_lsn c' = l" "co_last_term c' = t"
    "co_pending c' = filter (\<lambda>(n, _). n \<le> l) (co_pending c)" "tracked c' = (co_com c, co_applied_lsn c, None, co_recorded c, co_saved c, co_rich_saved c)"
    "co_db_next_lsn c' = co_db_next_lsn c" by blast
  have srt: "sorted_wrt (\<lambda>a b. rw_lsn a < rw_lsn b) ?rs" by (rule sorted_rows [OF d(3)])
  have past: "rows_past l ?rs = filter (\<lambda>r. l < rw_lsn r) (rows_past (co_applied_lsn c) ?rs)"
    using rows_to_max(2) [OF srt, of "co_applied_lsn c" l] k(1) by (simp add: max_absorb2)
  have "list_all2 (realizes ev) (rows_past l ?rs) ((x, first) # rest)"
    unfolding past k(3) [symmetric] by (rule list_all2_filter [OF f(7)]) (auto simp: realizes_def)
  then obtain r rest' where r: "rows_past l ?rs = r # rest'" "sa_wal_id first = rw_wal_id r" "sa_offset first = rw_offset r"
    by (auto simp: list_all2_Cons2 realizes_def)
  have cov: "\<forall>y\<in>set (covered ?crc ?snap ?files). rw_lsn y \<le> l" using d(8) f(3) k(1) le_trans by blast
  note cf = cut_files [OF d(1,5) srt r(1) cov k(4) [unfolded r], folded r(2,3), folded k(5)]
  have split: "?rs = rows_to l ?rs @ r # rest'" using rows_to_past [OF srt, of l] r(1) by simp
  have tail: "tail_of (0, 0) (rows_to l ?rs) = (l, t)"
  proof (cases "l = co_applied_lsn c")
    case False
    then obtain s where s: "(l, s) \<in> set (co_pending c)" "sa_term s = t"
      using k(2) bm_get_Some_in [of cmp_lin "co_pending c" l] by (auto simp: cmp_lin.cmp_Equal_iff)
    then obtain y where "y \<in> set ?rs" "realizes ev y (l, s)" using list_all2_right [OF f(7)] by (auto simp: rows_past_def)
    then show ?thesis using tail_at [OF d(3), of y] s(2) by (simp add: realizes_def)
  qed (use agree in simp)
  show "disk_rows ev (co_disk c') = rows_to l ?rs" by (rule cf(1))
  have dsel: "dk_cut (co_disk c') = None" "dk_snapshot (co_disk c') = rewound l t ?snap" "dk_meta (co_disk c') = dk_meta (co_disk c)"
    "dk_pos (co_disk c') = dk_pos (co_disk c)" using b by (auto simp: beside_def)
  have wm: "watermark (co_disk c') = watermark (co_disk c)" by (rule watermark_cong) (simp_all add: dsel)
  have wl: "watermark (co_disk c) \<le> l" using f(3) k(1) by simp
  have tos: "rows_to (watermark (co_disk c)) (rows_to l ?rs) = rows_to (watermark (co_disk c)) ?rs"
    "rows_to (co_applied_lsn c) (rows_to l ?rs) = rows_to (co_applied_lsn c) ?rs"
    "rows_past (co_applied_lsn c) (rows_to l ?rs) = filter (\<lambda>r. rw_lsn r \<le> l) (rows_past (co_applied_lsn c) ?rs)"
    using wl k(1) by (simp_all add: rows_to_to min_absorb1) (simp add: rows_to_def)
  have unc: "uncovered ?crc ?snap (dk_files (co_disk c')) = [] \<Longrightarrow> tail_of (0, 0) (covered ?crc ?snap ?files) = (l, t)"
    using covered_split [OF _ cf(3)] cf(1,2,4) tail by (simp add: head_file_def)
  have "disk_ok ev (co_disk c')"
    unfolding disk_ok_def wm dsel cf(1,2) tos tail rewound_cover rewound_same cf(7)
  proof (intro conjI)
    show "linked 0 0 (rows_to l ?rs)" using d(3) split linked_prefix by metis
    show "decodes ev (rows_to l ?rs)" using d(4) by (auto simp: decodes_def rows_to_def)
    show "\<forall>s\<in>set_option (rewound l t ?snap). is_last_wal_id s \<in> fst ` set ?files" using d(6) rewound_wal [of l t ?snap "\<lambda>w. w \<in> fst ` set ?files"] by blast
    show "reaches (snap_tail (rewound l t ?snap)) (tail_of (0, 0) (covered ?crc ?snap ?files))"
      using d(13) reaches_prefix [of 0 0 "covered ?crc ?snap ?files" "uncovered ?crc ?snap (dk_files (co_disk c'))"]
        linked_prefix [of 0 0 "rows_to l ?rs" "r # rest'"] d(3) split covered_split [OF _ cf(3)] cf(1,2,4) tail
      by (auto simp: snap_tail_rewound head_file_def)
    show "uncovered ?crc ?snap (dk_files (co_disk c')) = [] \<longrightarrow> snap_tail (rewound l t ?snap) = (l, t)"
      using unc d(13) by (auto simp: snap_tail_rewound reaches_def)
  qed (use d cf wl in \<open>auto simp: head_file_def rows_to_def split: option.splits\<close>)
  moreover have "list_all2 (realizes ev) (filter (\<lambda>r. rw_lsn r \<le> l) (rows_past (co_applied_lsn c) ?rs)) (co_pending c')"
    unfolding c'(6) by (rule list_all2_filter [OF f(7)]) (auto simp: realizes_def)
  moreover have "l \<le> co_db_next_lsn c"
    using f(1,2) linked_tail [OF d(3)] reaches_prefix [of 0 0 "rows_to l ?rs" "r # rest'"] split tail d(3) by (metis fst_conv le_trans reaches_def)
  moreover have "\<forall>s\<in>set_option (rewound l t ?snap). is_last_wal_id s \<le> sa_wal_id first"
    using cf(6) rewound_wal [of l t ?snap "\<lambda>w. w \<le> sa_wal_id first"] by blast
  moreover have tr: "co_com c' = co_com c" "co_applied_lsn c' = co_applied_lsn c" "co_fence c' = None" "co_recorded c' = co_recorded c"
    "co_saved c' = co_saved c" "co_rich_saved c' = co_rich_saved c" using c'(7) by (auto simp: tracked_def)
  ultimately show "log_inv ev c'"
    unfolding log_inv_def Let_def wm dsel cf(1) tail tos c'(1-5,8) tr
    using f k(1) cf(4,5) unfolding head_file_def by (auto simp: min_absorb2)
  show "co_last_lsn c' = l" "co_last_term c' = t" "dk_meta (co_disk c') = dk_meta (co_disk c)" "co_applied_lsn c' = co_applied_lsn c"
    using c' b by (auto simp: tracked_def beside_def)
qed

end
