(* ===== verification/Reads.thy ===== *)
theory Reads
  imports Live
begin

text \<open>
  What a read returns. A document kept in memory is the payload of the frame its index entry names, so a
  read answers from the log whether the entry is inlined or not, and the answers of a recovered collection
  are the answers of the one that died.
\<close>

section \<open>Inlined documents\<close>

definition grounded :: "row list \<Rightarrow> index_entry \<Rightarrow> bool" where
  "grounded rs e = (\<forall>p. ie_inline e = Some p \<longrightarrow>
     (\<exists>r\<in>set rs. rw_wal_id r = ie_wal_id e \<and> rw_offset r = ie_offset e \<and> rw_lsn r = ie_lsn e \<and> rw_payload r = p))"

definition grounded_map :: "row list \<Rightarrow> (string \<times> index_entry) list \<Rightarrow> bool" where
  "grounded_map rs m = (\<forall>k e. bm_get str_cmp m k = Some e \<longrightarrow> grounded rs e)"

fun grounded_effect :: "row list \<Rightarrow> 'n staged_effect \<Rightarrow> bool" where
  "grounded_effect rs (SPut _ e _) = grounded rs e"
| "grounded_effect rs _ = True"

definition grounded_staged :: "row list \<Rightarrow> (nat \<times> 'n staged_apply) list \<Rightarrow> bool" where
  "grounded_staged rs ps = (\<forall>p\<in>set ps. grounded_effect rs (sa_effect (snd p)))"

definition faithful :: "'n env \<Rightarrow> 'n collection \<Rightarrow> bool" where
  "faithful ev c = (grounded_map (disk_rows ev (co_disk c)) (cs_index (co_com c)) \<and>
     grounded_staged (disk_rows ev (co_disk c)) (co_pending c) \<and>
     grounded_map (disk_rows ev (co_disk c)) (snap_map (dk_snapshot (co_disk c))))"

lemma grounded_mono: "set rs \<subseteq> set rs' \<Longrightarrow> grounded rs e \<Longrightarrow> grounded rs' e"
  by (fastforce simp: grounded_def)

lemma grounded_mono_all:
  assumes "set rs \<subseteq> set rs'"
  shows "grounded_map rs m \<Longrightarrow> grounded_map rs' m" "grounded_effect rs eff \<Longrightarrow> grounded_effect rs' eff" "grounded_staged rs ps \<Longrightarrow> grounded_staged rs' ps"
proof -
  note b = grounded_mono [OF assms]
  show "grounded_map rs m \<Longrightarrow> grounded_map rs' m" using b by (auto simp: grounded_map_def)
  have eff: "grounded_effect rs x \<Longrightarrow> grounded_effect rs' x" for x using b by (cases x) auto
  then show "grounded_effect rs eff \<Longrightarrow> grounded_effect rs' eff" .
  show "grounded_staged rs ps \<Longrightarrow> grounded_staged rs' ps" using eff by (auto simp: grounded_staged_def)
qed

lemma grounded_map_simps:
  "grounded_map rs []" "grounded rs e \<Longrightarrow> grounded_map rs m \<Longrightarrow> grounded_map rs (bm_insert str_cmp k e m)"
  "grounded_map rs m \<Longrightarrow> grounded_map rs (bm_remove str_cmp k m)"
  by (auto simp: grounded_map_def str_cmp.bm_get_insert str_cmp.bm_get_remove split: if_splits)

lemma grounded_apply:
  assumes "grounded_effect rs eff" "grounded_map rs (cs_index s)"
  shows "grounded_map rs (cs_index (apply_effect f eff s))"
  using assms by (cases eff) (auto simp: effect_defs grounded_map_simps split: option.splits)

lemma grounded_foldl:
  "grounded_staged rs ps \<Longrightarrow> grounded_map rs (cs_index s) \<Longrightarrow> grounded_map rs (cs_index (foldl (\<lambda>s x. apply_effect f (sa_effect (snd x)) s) s ps))"
  by (induction ps arbitrary: s) (auto simp: grounded_staged_def grounded_apply)

section \<open>Replay\<close>

lemma grounded_replay_entry:
  assumes "r \<in> set rs"
  shows "grounded rs (replay_entry (rw_head r) (rw_payload r) (rw_wal_id r) (rw_offset r) ts ex cache used)"
  using assms by (auto simp: grounded_def replay_entry_def)

lemma grounded_replay_row:
  assumes "r \<in> set rs" "grounded_map rs (rp_index st)" "grounded_staged rs (rp_pending st)"
  shows "grounded_map rs (rp_index (replay_row ev through r st)) \<and> grounded_staged rs (rp_pending (replay_row ev through r st))"
proof -
  note b = grounded_replay_entry [OF assms(1)]
  have ins: "grounded_staged rs (bm_insert cmp_lin k s ps)" if "grounded_effect rs (sa_effect s)" "grounded_staged rs ps"
    for k s and ps :: "(nat \<times> 'a staged_apply) list" using that set_bm_insert [of cmp_lin k s ps] by (fastforce simp: grounded_staged_def)
  have "grounded_map rs (rp_index (replay_applied (ev_cache ev) (rw_wal_id r) (rw_offset r) (rw_head r) (rw_payload r) e st)) \<and>
      rp_pending (replay_applied (ev_cache ev) (rw_wal_id r) (rw_offset r) (rw_head r) (rw_payload r) e st) = rp_pending st" for e
    using assms(2) b by (cases e) (auto simp: replay_applied_def Let_def grounded_map_simps split: option.splits)
  moreover have "rp_index (replay_staged (ev_cache ev) (rw_wal_id r) (rw_offset r) (rw_head r) (rw_payload r) e st) = rp_index st \<and>
      grounded_staged rs (rp_pending (replay_staged (ev_cache ev) (rw_wal_id r) (rw_offset r) (rw_head r) (rw_payload r) e st))" for e
    using assms(3) b by (cases e) (auto simp: replay_staged_def Let_def intro!: ins)
  moreover have "rp_index (note_max h x) = rp_index x" for h and x :: "'a replay_state" by (simp add: note_max_def)
  ultimately show ?thesis using assms by (auto simp: replay_frame_def split: option.splits)
qed

lemma grounded_replay_rows:
  "set R \<subseteq> set rs \<Longrightarrow> grounded_map rs (rp_index st) \<Longrightarrow> grounded_staged rs (rp_pending st) \<Longrightarrow>
     grounded_map rs (rp_index (fold (replay_row ev through) R st)) \<and> grounded_staged rs (rp_pending (fold (replay_row ev through) R st))"
proof (induction R arbitrary: st)
  case (Cons r R)
  then show ?case using grounded_replay_row [of r rs st ev through] by simp
qed simp

lemma grounded_replay_files:
  assumes "\<forall>(wid, bytes)\<in>set files. resume_at snap wid \<le> length bytes" "set (concat (map (resumed (ev_crc ev) snap) files)) \<subseteq> set rs"
    "grounded_map rs (rp_index st)" "grounded_staged rs (rp_pending st)"
    "foldl (replay_file ev through snap) (acc, tail, st) files = (acc', tail', st')"
  shows "grounded_map rs (rp_index st') \<and> grounded_staged rs (rp_pending st')"
  using assms
proof (induction files arbitrary: acc tail st)
  case (Cons fl files)
  obtain wid bytes where fl: "fl = (wid, bytes)" by fastforce
  have le: "resume_at snap wid \<le> length bytes" using Cons.prems(1) fl by simp
  let ?st = "fold (replay_row ev through) (resumed (ev_crc ev) snap (wid, bytes)) (st\<lparr>rp_max_lsn := 0, rp_max_term := 0\<rparr>)"
  have b: "grounded_map rs (rp_index ?st) \<and> grounded_staged rs (rp_pending ?st)"
    using Cons.prems(2-4) by (intro grounded_replay_rows) (auto simp: fl)
  show ?case
  proof (cases "skipped snap wid")
    case True
    then show ?thesis using Cons le by (simp add: fl replay_file_eq)
  next
    case False
    then show ?thesis using Cons.IH [where st = ?st] Cons.prems(1,2,5) b le
      by (simp add: fl replay_file_eq Let_def)
  qed
qed simp

lemma open_faithful:
  fixes ev :: "'n env"
  assumes ok: "disk_ok ev d" and snap: "grounded_map (disk_rows ev d) (snap_map (dk_snapshot d))"
    and op: "open_collection ev fails clears n lt dl d = (Ok c, d')"
  shows "faithful ev c"
proof -
  let ?s0 = "seed_replay d :: 'n replay_state" and ?snap = "dk_snapshot d" and ?rs = "disk_rows ev d"
  note o = disk_ok_facts [OF ok]
  obtain files ml mt st where fold: "foldl (replay_file ev (recorded_watermark d) ?snap) ([], snap_tail ?snap, ?s0) (dk_files d) = (files, (ml, mt), st)"
    by (metis prod.collapse)
  have unc: "set (concat (map (resumed (ev_crc ev) ?snap) (dk_files d))) \<subseteq> set ?rs"
    using covered_split [OF o(1,5)] by (auto simp: uncovered_def)
  have b: "grounded_map ?rs (rp_index st) \<and> grounded_staged ?rs (rp_pending st)"
    by (rule grounded_replay_files [OF _ unc _ _ fold])
      (use o(5) snap in \<open>auto simp: aligned_def seed_replay_def snap_map_def grounded_staged_def Let_def split: option.splits\<close>)
  obtain c0 where c0: "open_collection ev fails clears n lt dl d = (Ok c0, co_disk c0)" "disk_rows ev (co_disk c0) = ?rs"
    using open_recovers [OF ok] by blast
  have c: "c = c0" using c0 op by simp
  have sel: "co_com c = opened_state st" "co_pending c = rp_pending st" "dk_snapshot (co_disk c) = ?snap"
    using op fold o(2) by (auto simp: open_collection_def complete_recorded_def snap_tail_def Let_def split: if_splits option.splits)
  show ?thesis using b snap c0(2) unfolding faithful_def c [symmetric] sel by (simp add: opened_state_def)
qed

section \<open>The running collection\<close>

lemma faithful_cong:
  assumes "faithful ev c" "set (disk_rows ev (co_disk c)) \<subseteq> set (disk_rows ev (co_disk c'))" "cs_index (co_com c') = cs_index (co_com c)"
    "co_pending c' = co_pending c" "snap_map (dk_snapshot (co_disk c')) = snap_map (dk_snapshot (co_disk c))"
  shows "faithful ev c'"
  unfolding faithful_def assms(3-5) using assms(1) grounded_mono_all [OF assms(2)] by (auto simp: faithful_def)

lemma batch_faithful:
  assumes inv: "faithful ev c" and batch: "apply_batch f watched b c = (ch, n, c1)"
  shows "faithful ev c1"
proof -
  let ?ready = "filter (\<lambda>(l, _). l \<le> b) (co_pending c)"
  define com where "com = foldl (\<lambda>s x. apply_effect f (sa_effect (snd x)) s) (co_com c) ?ready"
  obtain ch' c0 where fold: "foldl (apply_staged f watched) ([], c) ?ready = (ch', c0)" by fastforce
  obtain k where k: "c0 = c\<lparr>co_com := com, co_staged_inline := k\<rparr>"
    using foldl_staged_form [of f watched "[]" c ?ready] fold unfolding com_def by auto
  have c1: "co_com c1 = com" "co_pending c1 = filter (\<lambda>(l, _). b < l) (co_pending c)" "co_disk c1 = co_disk c"
    using apply_batch_eq [OF fold] batch by (auto simp: moved_to_def k)
  have "grounded_staged (disk_rows ev (co_disk c)) ?ready" "grounded_staged (disk_rows ev (co_disk c)) (co_pending c1)"
    using inv by (auto simp: faithful_def grounded_staged_def c1)
  then show ?thesis using inv grounded_foldl [of "disk_rows ev (co_disk c)" ?ready "co_com c" f]
    by (simp add: faithful_def c1 com_def)
qed

lemma commit_faithful:
  assumes inv: "faithful ev c" and commit: "apply_committed ev io watched b c = (r, changes, c')"
  shows "faithful ev c'"
proof -
  obtain ch n c1 where batch: "apply_batch (ev_f64 ev) watched b c = (ch, n, c1)" by (metis prod.collapse)
  have "co_com c' = co_com c1" "co_pending c' = co_pending c1" "dk_files (co_disk c') = dk_files (co_disk c1)" "dk_snapshot (co_disk c') = dk_snapshot (co_disk c1)"
    using commit by (auto simp: apply_committed_def batch persist_watermark_def persist_watermark_full_def split: if_splits)
  then show ?thesis using batch_faithful [OF inv batch] by (simp add: faithful_def)
qed

lemma sync_save_faithful:
  assumes "faithful ev c"
  shows "sync_wal ok c = (s, c') \<Longrightarrow> faithful ev c'" "save_index c = (l, c') \<Longrightarrow> faithful ev c'"
    "record_watermark_once io c = (r, c') \<Longrightarrow> faithful ev c'"
  using assms by (auto simp: faithful_def sync_wal_def note_synced_def save_index_def snap_map_def record_watermark_once_def persist_watermark_full_def
      split: if_splits sum.splits prod.splits)

text \<open>Entries of rows that survive a cut keep the frames behind them.\<close>

lemma logical_lsn: "lg_docs (logical ev rs) k = Some e \<Longrightarrow> \<exists>r\<in>set rs. ie_lsn e = rw_lsn r"
proof (induction rs arbitrary: k e rule: rev_induct)
  case (snoc r rs)
  have "lg_docs (lg_entry r x (logical ev rs)) k = Some e \<Longrightarrow> ie_lsn e = rw_lsn r \<or> lg_docs (logical ev rs) k = Some e" for x :: "'a log_entry"
    by (cases x) (auto simp: row_entry_def split: if_splits)
  then have "ie_lsn e = rw_lsn r \<or> lg_docs (logical ev rs) k = Some e" using snoc.prems by (auto simp: lg_apply_def split: option.splits)
  then show ?case using snoc.IH by auto
qed (simp add: lg_empty_def)

lemma grounded_cut: "grounded rs e \<Longrightarrow> ie_lsn e \<le> l \<Longrightarrow> grounded (rows_to l rs) e"
  by (fastforce simp: grounded_def rows_to_def)

lemma grounded_map_cut:
  assumes "grounded_map rs m" "docs_at m = lg_docs (logical ev xs)" "\<forall>r\<in>set xs. rw_lsn r \<le> l"
  shows "grounded_map (rows_to l rs) m"
  unfolding grounded_map_def
proof (intro allI impI)
  fix k e assume e: "bm_get str_cmp m k = Some e"
  then have "lg_docs (logical ev xs) k = Some (strip e)" using assms(2) by (metis docs_at_def option.simps(9))
  then have "ie_lsn e \<le> l" using logical_lsn [of ev xs k] assms(3) by (fastforce simp: strip_def)
  then show "grounded (rows_to l rs) e" using e assms(1) grounded_cut by (auto simp: grounded_map_def)
qed

lemma grounded_staged_cut:
  assumes "grounded_staged rs ps" "list_all2 (realizes ev) ys ps"
  shows "grounded_staged (rows_to l rs) (filter (\<lambda>(n, _). n \<le> l) ps)"
proof -
  have "grounded_effect (rows_to l rs) (sa_effect s)" if p: "(n, s) \<in> set ps" "n \<le> l" for n s
  proof -
    obtain y where y: "realizes ev y (n, s)" using list_all2_right [OF assms(2) p(1)] by blast
    have "ie_lsn e = n" if "sa_effect s = SPut k e v" for k e v
      using y that by (auto simp: realizes_def row_entry_def strip_def split: option.splits elim!: fits.elims) (metis index_entry.ext_inject index_entry.surjective index_entry.update_convs(4))
    then show ?thesis using assms(1) p grounded_cut by (cases "sa_effect s") (fastforce simp: grounded_staged_def)+
  qed
  then show ?thesis by (auto simp: grounded_staged_def)
qed

section \<open>Steady collections\<close>

text \<open>Beside the invariant: the log at or below a recorded commit position stays what it was.\<close>

definition upholds :: "'n env \<Rightarrow> nat \<times> row list \<Rightarrow> 'n collection \<Rightarrow> bool" where
  "upholds ev m c = (fst m \<le> watermark (co_disk c) \<and> rows_to (fst m) (disk_rows ev (co_disk c)) = snd m)"

definition steady :: "'n env \<Rightarrow> nat \<times> row list \<Rightarrow> 'n collection \<Rightarrow> bool" where
  "steady ev m c = (log_inv ev c \<and> faithful ev c \<and> upholds ev m c)"

lemma upholds_same:
  "upholds ev m c \<Longrightarrow> watermark (co_disk c) \<le> watermark (co_disk c') \<Longrightarrow> disk_rows ev (co_disk c') = disk_rows ev (co_disk c) \<Longrightarrow> upholds ev m c'"
  by (simp add: upholds_def)

lemma upholds_grown:
  "upholds ev m c \<Longrightarrow> watermark (co_disk c') = watermark (co_disk c) \<Longrightarrow> disk_rows ev (co_disk c') = disk_rows ev (co_disk c) @ [r] \<Longrightarrow>
     watermark (co_disk c) < rw_lsn r \<Longrightarrow> upholds ev m c'"
  by (simp add: upholds_def rows_to_def)

lemma upholds_cut:
  "upholds ev m c \<Longrightarrow> watermark (co_disk c') = watermark (co_disk c) \<Longrightarrow> disk_rows ev (co_disk c') = rows_to l (disk_rows ev (co_disk c)) \<Longrightarrow>
     watermark (co_disk c) \<le> l \<Longrightarrow> upholds ev m c'"
  by (auto simp: upholds_def rows_to_to min_def)

lemma watermark_mono:
  assumes "log_inv ev c"
  shows "record_watermark_once io c = (r, c') \<Longrightarrow> watermark (co_disk c) \<le> watermark (co_disk c')"
    "apply_committed ev io w b c = (r', changes, c') \<Longrightarrow> b \<le> co_last_lsn c \<Longrightarrow> watermark (co_disk c) \<le> watermark (co_disk c')"
proof -
  have full: "watermark (co_disk x) \<le> watermark (co_disk x')" if "log_inv ev x" "persist_watermark_full pio x = (q, x')" for pio q and x x' :: "'a collection"
    using watermark_full(2) [OF that] log_inv_facts(3) [OF that(1)] that(2) by (auto simp: persist_watermark_full_def split: if_splits)
  obtain q x where f: "persist_watermark_full io c = (q, x)" by fastforce
  show "record_watermark_once io c = (r, c') \<Longrightarrow> watermark (co_disk c) \<le> watermark (co_disk c')"
    using full [OF assms f] by (auto simp: record_watermark_once_def f split: if_splits sum.splits)
  assume commit: "apply_committed ev io w b c = (r', changes, c')" and b: "b \<le> co_last_lsn c"
  obtain ch n c1 where batch: "apply_batch (ev_f64 ev) w b c = (ch, n, c1)" by (metis prod.collapse)
  note i = log_inv_batch [OF assms b batch]
  obtain q x where f: "persist_watermark_full io c1 = (q, x)" by fastforce
  have "recorded_watermark (co_disk c1) = Some t \<Longrightarrow> t \<le> co_applied_lsn c1" for t
    using log_inv_facts(3) [OF i(1)] by (simp add: watermark_def)
  then have "watermark (co_disk c1) \<le> watermark ((co_disk c1)\<lparr>dk_pos := Some (co_applied_lsn c1)\<rparr>)"
    by (cases "dk_meta (co_disk c1)") (auto simp: watermark_def recorded_watermark_def split: option.splits)
  then show "watermark (co_disk c) \<le> watermark (co_disk c')"
    using commit full [OF i(1) f] i(3) by (auto simp: apply_committed_def batch persist_watermark_def f split: if_splits sum.splits)
qed

lemma steady_inv: "steady ev m c \<Longrightarrow> log_inv ev c"
  by (simp add: steady_def)

lemma steady_next: "steady ev m c \<Longrightarrow> co_db_next_lsn c \<le> n \<Longrightarrow> steady ev m (c\<lparr>co_db_next_lsn := n\<rparr>)"
  using log_inv_cong [of "c\<lparr>co_db_next_lsn := n\<rparr>" c ev] log_inv_facts(2) [of ev c] by (auto simp: steady_def faithful_def upholds_def)

lemma steady_once: "steady ev m c \<Longrightarrow> record_watermark_once io c = (r, c') \<Longrightarrow> steady ev m c'"
  unfolding steady_def using watermark_once(1,3) sync_save_faithful(3) watermark_mono(1) upholds_same by metis

lemma steady_rotated:
  assumes "steady ev m c" "rotate_if_full io c = (Ok (), c')"
  shows "steady ev m c' \<and> disk_rows ev (co_disk c') = disk_rows ev (co_disk c) \<and> beside (co_disk c') = beside (co_disk c) \<and> tracked c' = tracked c \<and>
    co_last_lsn c' = co_last_lsn c \<and> co_last_term c' = co_last_term c \<and> co_pending c' = co_pending c \<and> co_db_next_lsn c' = co_db_next_lsn c"
proof -
  note r = log_inv_rotated [OF steady_inv [OF assms(1)] assms(2)]
  have "faithful ev c'" by (rule faithful_cong [of ev c]) (use assms(1) r in \<open>auto simp: steady_def tracked_def beside_def\<close>)
  moreover have "upholds ev m c'" using assms(1) upholds_same [of ev m c c'] beside_watermark [of "co_disk c'" "co_disk c"] r by (simp add: steady_def)
  ultimately show ?thesis using r by (simp add: steady_def)
qed

lemma steady_torn:
  assumes "steady ev m c" "frame_ok (ev_crc ev) (h, p)" "ap_write io = Some n" "n < length (frame_bytes (h, p))" "ap_rotate io"
    "write_frame io (frame_bytes (h, p)) c = (r, c')"
  shows "steady ev m c'"
proof -
  note t = log_inv_torn [OF steady_inv [OF assms(1)] assms(2-6)]
  have sel: "co_com c' = co_com c" "co_pending c' = co_pending c" "dk_snapshot (co_disk c') = dk_snapshot (co_disk c)" "beside (co_disk c') = beside (co_disk c)"
    using assms(3,6) by (auto simp: write_frame_def open_next_wal_def write_file_def beside_def Let_def split: if_splits)
  then have "faithful ev c'" "upholds ev m c'"
    using faithful_cong [of ev c c'] upholds_same [of ev m c c'] beside_watermark [OF sel(4)] assms(1) t(2) by (auto simp: steady_def)
  then show ?thesis using t(1) by (simp add: steady_def)
qed

lemma grounded_staged_of:
  assumes "r \<in> set rs" "staged_of ev (rw_lsn r) t entry (rw_wal_id r) (rw_offset r) (rw_payload r) c = (eff, c')"
  shows "grounded_effect rs eff"
  using assms by (cases entry) (auto simp: staged_of_def reserve_staged_entry_def build_entry_def grounded_def Let_def split: prod.splits if_splits)

lemma steady_appended:
  fixes c :: "'n collection"
  assumes inv: "steady ev m c" and ok: "frame_ok (ev_crc ev) (h, p)" "ev_de ev p = Some entry" "fh_prev_lsn h = co_last_lsn c" "fh_prev_term h = co_last_term c"
    "co_last_lsn c < fh_lsn h" "dk_meta (co_disk c) \<noteq> None"
    and c': "c' = note_appended ev h entry p (co_wal_id c) (co_wal_size c) (write_file (co_handle c) (frame_bytes (h, p)) c)"
  shows "steady ev m c'"
proof -
  note a = log_inv_appended [OF steady_inv [OF inv] ok, folded c']
  let ?r = "\<lparr>rw_wal_id = co_wal_id c, rw_offset = co_wal_size c, rw_head = h, rw_payload = p\<rparr>" and ?rs = "disk_rows ev (co_disk c')"
  have mono: "set (disk_rows ev (co_disk c)) \<subseteq> set ?rs" "?r \<in> set ?rs" using a(2) by auto
  note m = grounded_mono_all [OF mono(1)]
  have old: "grounded_staged ?rs (co_pending c)" "grounded_map ?rs (cs_index (co_com c))" "grounded_map ?rs (snap_map (dk_snapshot (co_disk c)))"
    using inv m(1,3) by (auto simp: steady_def faithful_def)
  obtain c1 where c1: "c' = stage_appended ev (rw_lsn ?r) (fh_term h) entry (rw_wal_id ?r) (rw_offset ?r) (rw_payload ?r) c1" "co_pending c1 = co_pending c"
  proof (rule that)
    show "c' = stage_appended ev (rw_lsn ?r) (fh_term h) entry (rw_wal_id ?r) (rw_offset ?r) (rw_payload ?r)
        ((write_file (co_handle c) (frame_bytes (h, p)) c)\<lparr>co_wal_size := co_wal_size c + HEADER_LEN + length p, co_last_lsn := fh_lsn h, co_last_term := fh_term h,
          co_recent := rf_push \<lparr>fs_lsn = fh_lsn h, fs_term = fh_term h, fs_wal_id = co_wal_id c, fs_offset = co_wal_size c\<rparr> (co_recent (write_file (co_handle c) (frame_bytes (h, p)) c)),
          co_db_next_lsn := max (co_db_next_lsn (write_file (co_handle c) (frame_bytes (h, p)) c)) (fh_lsn h), co_db_last_term := fh_term h\<rparr>)"
      by (simp add: c' note_appended_def)
  qed (simp add: write_file_def)
  obtain eff c2 where st: "staged_of ev (rw_lsn ?r) (fh_term h) entry (rw_wal_id ?r) (rw_offset ?r) (rw_payload ?r) c1 = (eff, c2)" by fastforce
  have "co_pending c2 = co_pending c1" using staged_of_state [of ev "rw_lsn ?r" "fh_term h" entry "rw_wal_id ?r" "rw_offset ?r" "rw_payload ?r" c1] st by simp
  then have "\<exists>s. co_pending c' = bm_insert cmp_lin (fh_lsn h) s (co_pending c) \<and> sa_effect s = eff"
    using c1(2) st unfolding c1(1) stage_appended_def
    by (auto simp: Let_def release_staged_def split: option.splits)
  then obtain s where s: "co_pending c' = bm_insert cmp_lin (fh_lsn h) s (co_pending c)" "sa_effect s = eff" by blast
  have "grounded_staged ?rs (co_pending c')"
    using old(1) grounded_staged_of [OF mono(2) st] set_bm_insert [of cmp_lin "fh_lsn h" s "co_pending c"] s by (fastforce simp: grounded_staged_def)
  moreover have "upholds ev m c'"
    using upholds_grown [OF _ beside_watermark [OF a(3)] a(2)] inv log_inv_facts(3,4) [OF steady_inv [OF inv]] ok(5) by (simp add: steady_def)
  ultimately show ?thesis using a(1,3,4) old by (simp add: steady_def faithful_def beside_def tracked_def)
qed

lemma steady_cut:
  assumes inv: "steady ev m c" and cut: "wal_rewind_to io l t c = (Ok (Some ()), c')"
    and agree: "l = co_applied_lsn c \<Longrightarrow> tail_of (0, 0) (rows_to l (disk_rows ev (co_disk c))) = (l, t)"
  shows "steady ev m c'"
proof -
  note li = steady_inv [OF inv]
  note k = log_inv_cut [OF li cut agree] and f = log_inv_facts [OF li] and d = disk_ok_facts [OF log_inv_disk [OF li]]
  let ?rs = "disk_rows ev (co_disk c)"
  from rewind_form [OF cut log_inv_sorted [OF li]] have le: "co_applied_lsn c \<le> l" and
    b: "beside (co_disk c') = (None, rewound l t (dk_snapshot (co_disk c)), dk_meta (co_disk c), dk_pos (co_disk c))" and
    c': "co_pending c' = filter (\<lambda>(n, _). n \<le> l) (co_pending c)" "tracked c' = (co_com c, co_applied_lsn c, None, co_recorded c, co_saved c, co_rich_saved c)"
    by blast+
  have fa: "faithful ev c" using inv by (simp add: steady_def)
  have "grounded_map (rows_to l ?rs) (cs_index (co_com c))"
    by (rule grounded_map_cut [of _ _ ev "rows_to (co_applied_lsn c) ?rs"])
      (use fa f(6) le in \<open>auto simp: faithful_def cview_def rows_to_def dest: arg_cong [of _ _ lg_docs]\<close>)
  moreover have "grounded_map (rows_to l ?rs) (snap_map (dk_snapshot (co_disk c)))"
    by (rule grounded_map_cut [of _ _ ev, OF _ d(7)]) (use fa d(8) f(3) le in \<open>auto simp: faithful_def intro: le_trans\<close>)
  moreover have "grounded_staged (rows_to l ?rs) (co_pending c')"
    unfolding c'(1) by (rule grounded_staged_cut [OF _ f(7)]) (use fa in \<open>simp add: faithful_def\<close>)
  moreover have "upholds ev m c'"
    by (rule upholds_cut [OF _ _ k(2)]) (use inv f(3) le b in \<open>auto simp: steady_def beside_def intro: watermark_cong\<close>)
  ultimately show ?thesis using k(1,2) b c'(2) by (simp add: steady_def faithful_def beside_def tracked_def)
qed

lemmas once_kept = steady_once watermark_once(2-) [OF steady_inv]
lemmas torn_kept = steady_torn log_inv_torn(2-) [OF steady_inv]
lemmas cut_kept = steady_cut log_inv_cut(2-) [OF steady_inv]

end
