(* ===== verification/Crash.thy ===== *)
theory Crash
  imports Reads
begin

text \<open>
  Every run of a collection: appends and replicated frames, with torn writes; commits, whether or not
  their watermark could be written; syncs, snapshots and restarts. Each keeps the collection and its
  directory in agreement, so whenever the process dies the next open recovers exactly the recorded commit
  position and the staged frames above it.
\<close>

section \<open>Frames as bytes\<close>

lemma from_le_bound: "from_le bs < 256 ^ length bs"
proof (induction bs)
  case (Cons b bs)
  have "unat b < 256" using unsigned_less [of b, where ?'a = nat] by simp
  then show ?case using Cons by simp
qed simp

lemma le_bytes_from_le: "le_bytes (length bs) (from_le bs) = bs"
proof (induction bs)
  case (Cons b bs)
  have "unat b < 256" using unsigned_less [of b, where ?'a = nat] by simp
  then have "(unat b + 256 * from_le bs) div 256 = from_le bs" by simp
  moreover have "(word_of_nat (unat b + 256 * from_le bs) :: u8) = b"
    using \<open>unat b < 256\<close> by (simp add: word_unat_eq_iff unat_of_nat del: of_nat_add of_nat_mult)
  ultimately show ?case using Cons by (simp add: le_bytes_Suc)
qed (simp add: le_bytes_def)

lemma slice_length: "b \<le> length xs \<Longrightarrow> length (slice a b xs) = b - a"
  by (auto simp: slice_def)

lemma parse_fits:
  assumes "fh_parse bytes = Some h"
  shows "header_fits h" "fh_encode h = take HEADER_LEN bytes" "HEADER_LEN \<le> length bytes"
proof -
  have len: "40 \<le> length bytes" using assms by (auto simp: fh_parse_def HEADER_LEN_def split: if_splits)
  then show "HEADER_LEN \<le> length bytes" by (simp add: HEADER_LEN_def)
  have w: "from_le (slice a b bytes) < 256 ^ (b - a)" "le_bytes (b - a) (from_le (slice a b bytes)) = slice a b bytes" if "b \<le> 40" for a b
    using from_le_bound [of "slice a b bytes"] le_bytes_from_le [of "slice a b bytes"] slice_length [of b bytes a] that len by auto
  have h: "h = \<lparr>fh_len = from_le (slice 0 4 bytes), fh_crc = from_le (slice 4 8 bytes), fh_term = from_le (slice 8 16 bytes),
      fh_lsn = from_le (slice 16 24 bytes), fh_prev_lsn = from_le (slice 24 32 bytes), fh_prev_term = from_le (slice 32 40 bytes)\<rparr>"
    using assms by (auto simp: fh_parse_def split: if_splits)
  show "header_fits h" using w(1) [of 4 0] w(1) [of 8 4] w(1) [of 16 8] w(1) [of 24 16] w(1) [of 32 24] w(1) [of 40 32]
    by (simp add: h header_fits_def)
  have "slice 0 4 bytes @ slice 4 8 bytes @ slice 8 16 bytes @ slice 16 24 bytes @ slice 24 32 bytes @ slice 32 40 bytes = take 40 bytes"
  proof -
    have cat: "slice a b xs @ slice b c xs = slice a c xs" if "a \<le> b" "b \<le> c" for a b c and xs :: "u8 list"
    proof -
      have "take (c - a) (drop a xs) = take (b - a) (drop a xs) @ take (c - b) (drop (b - a) (drop a xs))"
        using take_add [of "b - a" "c - b" "drop a xs"] that by simp
      then show ?thesis using that by (simp add: slice_def)
    qed
    show ?thesis by (simp add: cat append.assoc [symmetric] del: append.assoc) (simp add: slice_def)
  qed
  then show "fh_encode h = take HEADER_LEN bytes"
    using w(2) [of 4 0] w(2) [of 8 4] w(2) [of 16 8] w(2) [of 24 16] w(2) [of 32 24] w(2) [of 40 32]
    by (simp add: h fh_encode_def HEADER_LEN_def)
qed

lemma raw_frame:
  assumes "fh_parse bytes = Some h" "HEADER_LEN + fh_len h \<le> length bytes"
  shows "take (HEADER_LEN + fh_len h) bytes = frame_bytes (h, slice HEADER_LEN (HEADER_LEN + fh_len h) bytes)"
  using parse_fits [OF assms(1)] by (simp add: frame_bytes_def slice_def take_add)

lemma rows_headers: "r \<in> set (wal_rows crc wid off bytes) \<Longrightarrow> header_fits (rw_head r)"
proof (induction crc wid off bytes rule: wal_rows.induct)
  case (1 crc wid off bytes)
  show ?case
  proof (cases "next_frame crc bytes")
    case (Some x)
    then obtain h p rest where nf: "next_frame crc bytes = Some (h, p, rest)" by (cases x) auto
    then have "header_fits h" using parse_fits(1) by (auto simp: next_frame_Some_iff)
    then show ?thesis using 1 nf by (auto simp: wal_rows_Some)
  qed (use 1 in \<open>simp add: wal_rows_None\<close>)
qed

lemma last_fits:
  assumes "log_inv ev c"
  shows "co_last_lsn c < 2 ^ 64" "co_last_term c < 2 ^ 64"
proof -
  have "header_fits (rw_head r)" if "r \<in> set (disk_rows ev (co_disk c))" for r using that rows_headers by (fastforce simp: log_rows_def)
  then have "fst (tail_of (0, 0) (disk_rows ev (co_disk c))) < 2 ^ 64 \<and> snd (tail_of (0, 0) (disk_rows ev (co_disk c))) < 2 ^ 64"
    using last_in_set by (auto simp: tail_of_def header_fits_def)
  then show "co_last_lsn c < 2 ^ 64" "co_last_term c < 2 ^ 64" using log_inv_facts(1) [OF assms] by (metis fst_conv, metis snd_conv)
qed

section \<open>Whole operations\<close>

text \<open>
  File operations that answer: a rotation opens its file and a truncation completes. A write may fail
  part-way as long as the rotation past the torn frame succeeds, and a sync may fail.
\<close>

definition sound_io :: "append_io \<Rightarrow> bool" where
  "sound_io io = (ap_open io \<and> ct_rewind_index (ap_cut io) \<and> ct_record (ap_cut io) \<and> ct_truncate (ap_cut io) = None \<and>
     ct_reopen (ap_cut io) \<and> ct_clear (ap_cut io) \<and> (ap_write io \<noteq> None \<longrightarrow> ap_rotate io))"

definition torn_within :: "append_io \<Rightarrow> nat \<Rightarrow> bool" where
  "torn_within io n = (case ap_write io of Some k \<Rightarrow> k < HEADER_LEN + n | None \<Rightarrow> True)"

lemma rotate_result:
  assumes "steady ev m c" "sound_io io" "rotate_if_full io c = (r, c')"
  shows "r = Ok () \<or> c' = c"
  using assms by (auto simp: rotate_if_full_def open_next_wal_def sound_io_def Let_def split: if_splits)

text \<open>One frame written after the last one: the tail of both ways to append.\<close>

definition place_frame :: "'n env \<Rightarrow> append_io \<Rightarrow> frame_header \<Rightarrow> 'n log_entry \<Rightarrow> u8 list \<Rightarrow> 'n collection \<Rightarrow> (io_error, unit) result \<times> 'n collection" where
  "place_frame ev io h entry p c =
     (case write_frame io (frame_bytes (h, p)) c of
        (Err e, c1) \<Rightarrow> (Err e, c1)
      | (Ok _, c1) \<Rightarrow> (Ok (), note_appended ev h entry p (co_wal_id c1) (co_wal_size c1) c1))"

definition grows :: "'n env \<Rightarrow> ('e, 'a) result \<Rightarrow> 'n collection \<Rightarrow> 'n collection \<Rightarrow> (row \<Rightarrow> bool) \<Rightarrow> bool" where
  "grows ev r c c' P = (case r of
     Ok _ \<Rightarrow> \<exists>x. disk_rows ev (co_disk c') = disk_rows ev (co_disk c) @ [x] \<and> P x
   | Err _ \<Rightarrow> disk_rows ev (co_disk c') = disk_rows ev (co_disk c))"

lemma place_keeps:
  assumes inv: "steady ev m c" and io: "sound_io io" "torn_within io (length p)"
    and h: "frame_ok (ev_crc ev) (h, p)" "ev_de ev p = Some entry" "fh_prev_lsn h = co_last_lsn c" "fh_prev_term h = co_last_term c"
      "co_last_lsn c < fh_lsn h" "dk_meta (co_disk c) \<noteq> None"
    and place: "place_frame ev io h entry p c = (r, c')"
  shows "steady ev m c'" "grows ev r c c' (\<lambda>x. rw_head x = h \<and> rw_payload x = p)"
proof -
  have "steady ev m c' \<and> grows ev r c c' (\<lambda>x. rw_head x = h \<and> rw_payload x = p)"
  proof (cases "ap_write io")
    case None
    have c': "r = Ok ()" "c' = note_appended ev h entry p (co_wal_id c) (co_wal_size c) (write_file (co_handle c) (frame_bytes (h, p)) c)"
      using place None by (auto simp: place_frame_def write_frame_def write_file_def)
    show ?thesis using steady_appended [OF inv h refl] log_inv_appended(2) [OF steady_inv [OF inv] h] unfolding c' grows_def by (auto simp: c')
  next
    case (Some n)
    then have n: "n < length (frame_bytes (h, p))" "ap_rotate io"
      using io by (simp_all add: torn_within_def sound_io_def frame_bytes_def)
    obtain r1 c1 where w: "write_frame io (frame_bytes (h, p)) c = (r1, c1)" by fastforce
    note t = torn_kept [OF inv h(1) Some n w]
    show ?thesis using t place w by (auto simp: place_frame_def grows_def)
  qed
  then show "steady ev m c'" "grows ev r c c' (\<lambda>x. rw_head x = h \<and> rw_payload x = p)" by auto
qed

lemma append_keeps:
  assumes inv: "steady ev m c" and io: "sound_io io" "torn_within io (length (ev_ser ev entry))"
    and entry: "ev_de ev (ev_ser ev entry) = Some entry" "ev_ser ev entry \<noteq> []" "term < 2 ^ 64" "co_db_next_lsn c + 1 < 2 ^ 64"
    and append: "wal_append ev io entry term c = (r, c')"
  shows "steady ev m c'" "grows ev r c c' (\<lambda>x. rw_payload x = ev_ser ev entry \<and> rw_term x = term)"
proof -
  let ?p = "ev_ser ev entry"
  obtain r1 c1 where once: "record_watermark_once (ap_meta io) c = (r1, c1)" by fastforce
  note o = once_kept [OF inv once]
  have next1: "co_db_next_lsn c1 = co_db_next_lsn c"
    using once by (auto simp: record_watermark_once_def persist_watermark_full_def split: if_splits sum.splits)
  have heal: "heal_fenced_cut (ap_cut io) c1 = (Ok (), c1)" using log_inv_facts(11) [OF steady_inv [OF o(1)]] by (simp add: heal_fenced_cut_def)
  obtain r3 c3 where rot: "rotate_if_full io c1 = (r3, c3)" by fastforce
  consider (early) "length ?p > MAX_RECORD_SIZE" | (once) "length ?p \<le> MAX_RECORD_SIZE" "r1 \<noteq> Ok () \<or> co_released c1"
    | (rot) "length ?p \<le> MAX_RECORD_SIZE" "r1 = Ok ()" "\<not> co_released c1" "r3 \<noteq> Ok ()"
    | (go) "length ?p \<le> MAX_RECORD_SIZE" "r1 = Ok ()" "\<not> co_released c1" "r3 = Ok ()" by fastforce
  then have "steady ev m c' \<and> grows ev r c c' (\<lambda>x. rw_payload x = ?p \<and> rw_term x = term)"
  proof cases
    case early
    then show ?thesis using append inv by (auto simp: wal_append_def grows_def Let_def)
  next
    case once
    then show ?thesis using append \<open>record_watermark_once (ap_meta io) c = (r1, c1)\<close> o(1,3)
      by (cases r1) (auto simp: wal_append_def grows_def Let_def)
  next
    case rot
    then have "c3 = c1" using rotate_result [OF o(1) io(1) \<open>rotate_if_full io c1 = (r3, c3)\<close>] by blast
    then show ?thesis using append once heal rot \<open>rotate_if_full io c1 = (r3, c3)\<close> o(1,3)
      by (cases r3) (auto simp: wal_append_def grows_def Let_def)
  next
    case go
    note rr = steady_rotated [OF o(1) rot [unfolded go(4)]]
    define lsn where "lsn = co_db_next_lsn c3 + 1"
    define c4 where "c4 = c3\<lparr>co_db_next_lsn := lsn\<rparr>"
    define h where "h = \<lparr>fh_len = length ?p, fh_crc = unat (ev_crc ev ?p), fh_term = term, fh_lsn = lsn, fh_prev_lsn = co_last_lsn c3, fh_prev_term = co_last_term c3\<rparr>"
    have inv4: "steady ev m c4" unfolding c4_def lsn_def using rr by (intro steady_next) auto
    have lsn: "lsn = co_db_next_lsn c + 1" using rr next1 by (simp add: lsn_def)
    have ok: "frame_ok (ev_crc ev) (h, ?p)"
      using go(1) entry last_fits [of ev c3, OF steady_inv [of ev m]] rr lsn unsigned_less [of "ev_crc ev ?p", where ?'a = nat]
      by (auto simp: frame_ok_def h_def header_fits_def MAX_RECORD_SIZE_def payload_valid_def)
    obtain r5 c5 where place: "place_frame ev io h entry ?p c4 = (r5, c5)" by fastforce
    have meta: "dk_meta (co_disk c4) \<noteq> None" using o(2) go(2) rr by (simp add: c4_def beside_eq)
    note k = place_keeps [OF inv4 io ok entry(1) _ _ _ meta place]
    have k': "steady ev m c5" "grows ev r5 c4 c5 (\<lambda>x. rw_head x = h \<and> rw_payload x = ?p)"
      using k log_inv_facts(2) [of ev c3, OF steady_inv [of ev m]] rr by (auto simp: h_def c4_def lsn_def)
    have res: "c' = c5 \<and> isl r = isl r5"
      using append go(1,3) place
      by (auto simp: wal_append_def Let_def once [unfolded go(2)] heal rot [unfolded go(4)] place_frame_def h_def c4_def lsn_def frame_bytes_def
          split: sum.splits prod.splits)
    have rows: "disk_rows ev (co_disk c4) = disk_rows ev (co_disk c)" using rr o(3) by (simp add: c4_def)
    show ?thesis using k' res unfolding grows_def rows by (cases r; cases r5) (auto simp: h_def)
  qed
  then show "steady ev m c'" "grows ev r c c' (\<lambda>x. rw_payload x = ?p \<and> rw_term x = term)" by auto
qed

lemma rewind_result:
  assumes inv: "steady ev m c" and io: "sound_io io" and r: "wal_rewind_to (ap_cut io) l t c = (r, c')"
  shows "r = Ok None \<and> c' = c \<or> r = Ok (Some ())"
proof -
  note f = log_inv_facts [OF steady_inv [OF inv]] and d = disk_ok_facts [OF log_inv_disk [OF steady_inv [OF inv]]]
  show ?thesis
  proof (cases "filter (\<lambda>(n, _). n > l) (co_pending c)")
    case Nil
    then show ?thesis using r by (auto simp: wal_rewind_to_def Let_def split: if_splits)
  next
    case (Cons p ps)
    obtain x first where p: "p = (x, first)" by fastforce
    then have "(x, first) \<in> set (co_pending c)" using Cons by (auto simp: filter_eq_Cons_iff)
    then obtain y where "y \<in> set (disk_rows ev (co_disk c))" "realizes ev y (x, first)" using list_all2_right [OF f(7)] by (auto simp: rows_past_def)
    then obtain bytes where get: "bm_get cmp_lin (dk_files (co_disk c)) (sa_wal_id first) = Some bytes"
      using row_in_file [OF d(1)] by (auto simp: realizes_def)
    have em: "bm_get cmp_lin (emptied w files) w = bm_get cmp_lin files w" for w and files :: "(nat \<times> u8 list) list"
      by (induction files) (auto simp: emptied_def cmp_lin.cmp_Equal_iff)
    obtain r1 c1 where rt: "rewind_index_tail True l t c = (r1, c1)" by fastforce
    then have "r1 = Ok ()" "dk_files (co_disk c1) = dk_files (co_disk c)" "co_pending c1 = co_pending c"
      by (auto simp: rewind_index_tail_def split: option.splits if_splits)
    moreover have "bm_sorted cmp_lin (co_pending c)" by (rule log_inv_sorted [OF steady_inv [OF inv]])
    ultimately show ?thesis using r io get rt em [of "sa_wal_id first" "dk_files (co_disk c)"]
      by (auto simp: wal_rewind_to_def Let_def Cons p sound_io_def apply_cut_def shrink_wal_to_def truncate_files_def empty_above_def
          emptied_def [symmetric] drop_pending_above_eq split: if_splits)
  qed
qed

definition frame_guard :: "'n env \<Rightarrow> 'n collection \<Rightarrow> u8 list \<Rightarrow> bool" where
  "frame_guard ev c bytes = (case fh_parse bytes of
     None \<Rightarrow> True
   | Some h \<Rightarrow> fh_prev_lsn h < fh_lsn h \<and> fh_len h \<le> MAX_RECORD_SIZE \<and>
       (fh_prev_lsn h = co_applied_lsn c \<longrightarrow> tail_of (0, 0) (rows_to (co_applied_lsn c) (disk_rows ev (co_disk c))) = (fh_prev_lsn h, fh_prev_term h)))"

text \<open>What each answer to a replicated frame says of the log.\<close>

definition frame_effect :: "'n env \<Rightarrow> u8 list \<Rightarrow> (io_error, replica_apply) result \<Rightarrow> row list \<Rightarrow> row list \<Rightarrow> bool" where
  "frame_effect ev bytes r rs rs' = (case r of
     Ok (Applied lsn) \<Rightarrow> \<exists>h x. fh_parse bytes = Some h \<and> fh_lsn h = lsn \<and> rs' = rows_to (fh_prev_lsn h) rs @ [x] \<and>
       tail_of (0, 0) (rows_to (fh_prev_lsn h) rs) = (fh_prev_lsn h, fh_prev_term h) \<and>
       rw_head x = h \<and> rw_payload x = slice HEADER_LEN (HEADER_LEN + fh_len h) bytes
   | Ok _ \<Rightarrow> rs' = rs
   | Err _ \<Rightarrow> rs' = rs \<or> (\<exists>h. fh_parse bytes = Some h \<and> rs' = rows_to (fh_prev_lsn h) rs))"

lemma frame_placed:
  assumes inv: "steady ev m c" and io: "sound_io io" "torn_within io (fh_len h)" and meta: "dk_meta (co_disk c) \<noteq> None"
    and h: "fh_parse bytes = Some h" "HEADER_LEN + fh_len h \<le> length bytes" "p = slice HEADER_LEN (HEADER_LEN + fh_len h) bytes"
      "payload_valid (ev_crc ev) h p" "ev_de ev p = Some entry" "fh_len h \<le> MAX_RECORD_SIZE" "ev_de ev [] = None"
    and chain: "fh_prev_lsn h = co_last_lsn c" "fh_prev_term h = co_last_term c" "fh_prev_lsn h < fh_lsn h"
    and rot: "rotate_if_full io c = (Ok (), c1)" and place: "place_frame ev io h entry p c1 = (r, c')"
  shows "steady ev m c'" "grows ev r c c' (\<lambda>x. rw_head x = h \<and> rw_payload x = p)"
proof -
  note rr = steady_rotated [OF inv rot]
  have len: "length p = fh_len h" using h(2) slice_length [of "HEADER_LEN + fh_len h" bytes HEADER_LEN] by (simp add: h(3))
  moreover have "p \<noteq> []" using h(5,7) by auto
  ultimately have ok: "frame_ok (ev_crc ev) (h, p)" using h(4,6) parse_fits(1) [OF h(1)] by (simp add: frame_ok_def) (metis length_greater_0_conv)
  have "steady ev m c1" "dk_meta (co_disk c1) \<noteq> None" "torn_within io (length p)" "fh_prev_lsn h = co_last_lsn c1" "fh_prev_term h = co_last_term c1"
    "co_last_lsn c1 < fh_lsn h" "disk_rows ev (co_disk c1) = disk_rows ev (co_disk c)"
    using rr meta io(2) len chain by (simp_all add: beside_eq)
  then show "steady ev m c'" "grows ev r c c' (\<lambda>x. rw_head x = h \<and> rw_payload x = p)"
    using place_keeps [of ev m c1 io p h entry r c'] io(1) ok h(5) place by (auto simp: grows_def split: sum.splits)
qed

text \<open>The frame's predecessor is our tail, directly or after a truncation.\<close>

lemma link_found:
  assumes inv: "steady ev m c" and io: "sound_io io"
    and agree: "l = co_applied_lsn c \<longrightarrow> tail_of (0, 0) (rows_to (co_applied_lsn c) (disk_rows ev (co_disk c))) = (l, t)"
    and le: "l \<le> co_last_lsn c"
    and link: "(if l < co_last_lsn c then wal_rewind_to (ap_cut io) l t c else (Ok (if t \<noteq> co_last_term c then None else Some ()), c)) = (r, c')"
  shows "r = Ok None \<and> c' = c \<or> r = Ok (Some ()) \<and> steady ev m c' \<and> disk_rows ev (co_disk c') = rows_to l (disk_rows ev (co_disk c)) \<and>
    co_last_lsn c' = l \<and> co_last_term c' = t \<and> dk_meta (co_disk c') = dk_meta (co_disk c) \<and>
    tail_of (0, 0) (rows_to l (disk_rows ev (co_disk c))) = (l, t)"
proof (cases "l < co_last_lsn c")
  case True
  then have rw: "wal_rewind_to (ap_cut io) l t c = (r, c')" using link by simp
  show ?thesis
  proof (cases "r = Ok (Some ())")
    case ok: True
    have "steady ev m c'" "disk_rows ev (co_disk c') = rows_to l (disk_rows ev (co_disk c))" "co_last_lsn c' = l" "co_last_term c' = t"
      "dk_meta (co_disk c') = dk_meta (co_disk c)" using cut_kept [OF inv rw [unfolded ok]] agree by auto
    then show ?thesis using ok log_inv_facts(1) [of ev c', OF steady_inv [of ev m]] by auto
  qed (use rewind_result [OF inv io rw] in auto)
next
  case False
  then have l: "l = co_last_lsn c" using le by simp
  have "rows_to l (disk_rows ev (co_disk c)) = disk_rows ev (co_disk c)"
    using linked_tail [OF disk_ok_facts(3) [OF log_inv_disk [OF steady_inv [OF inv]]]] log_inv_facts(1) [OF steady_inv [OF inv]] l by (intro rows_to_all(1)) (metis fst_conv)
  then show ?thesis using link inv l log_inv_facts(1) [OF steady_inv [OF inv]] by (auto split: if_splits)
qed

text \<open>A valid frame, once the watermark is recorded and no cut is outstanding.\<close>

lemma raw_body:
  assumes h: "fh_parse bytes = Some h" "HEADER_LEN + fh_len h \<le> length bytes" "p = slice HEADER_LEN (HEADER_LEN + fh_len h) bytes"
      "payload_valid (ev_crc ev) h p" "ev_de ev p = Some entry"
    and once: "record_watermark_once (ap_meta io) c = (Ok (), c1)" and live: "\<not> co_released c1" and fence: "co_fence c1 = None"
    and news: "\<not> (fh_lsn h \<le> co_last_lsn c1 \<and> (fh_lsn h \<le> co_applied_lsn c1 \<or> staged_term c1 (fh_lsn h) = Some (fh_term h)))"
      "fh_prev_lsn h \<le> co_last_lsn c1"
    and link: "(if fh_prev_lsn h < co_last_lsn c1 then wal_rewind_to (ap_cut io) (fh_prev_lsn h) (fh_prev_term h) c1
          else (Ok (if fh_prev_term h \<noteq> co_last_term c1 then None else Some ()), c1)) = (r2, c2)"
  shows "append_raw_frame ev io bytes c =
    (case r2 of
       Err e \<Rightarrow> (Err e, c2)
     | Ok None \<Rightarrow> (Ok (Divergent (co_last_lsn c1) (co_last_term c1)), c2)
     | Ok (Some _) \<Rightarrow>
         (case rotate_if_full io c2 of
            (Err e, c3) \<Rightarrow> (Err e, c3)
          | (Ok _, c3) \<Rightarrow> (case place_frame ev io h entry p c3 of (Err e, c4) \<Rightarrow> (Err e, c4) | (Ok _, c4) \<Rightarrow> (Ok (Applied (fh_lsn h)), c4))))"
proof -
  have heal: "heal_fenced_cut (ap_cut io) c1 = (Ok (), c1)" using fence by (simp add: heal_fenced_cut_def)
  show ?thesis
    using h(2,4,5) live news link
    by (auto simp: append_raw_frame_def h(1) h(3) [symmetric] raw_frame [OF h(1,2)] once heal place_frame_def Let_def split: sum.splits option.splits prod.splits if_splits)
qed

lemma raw_quiet:
  assumes h: "fh_parse bytes = Some h" "HEADER_LEN + fh_len h \<le> length bytes" "p = slice HEADER_LEN (HEADER_LEN + fh_len h) bytes"
      "payload_valid (ev_crc ev) h p" "ev_de ev p = Some entry"
    and once: "record_watermark_once (ap_meta io) c = (r1, c1)" and fence: "co_fence c1 = None"
    and stop: "r1 \<noteq> Ok () \<or> co_released c1 \<or> fh_lsn h \<le> co_last_lsn c1 \<and> (fh_lsn h \<le> co_applied_lsn c1 \<or> staged_term c1 (fh_lsn h) = Some (fh_term h)) \<or>
      co_last_lsn c1 < fh_prev_lsn h"
    and raw: "append_raw_frame ev io bytes c = (r, c')"
  shows "c' = c1 \<and> (\<forall>lsn. r \<noteq> Ok (Applied lsn))"
proof -
  have heal: "heal_fenced_cut (ap_cut io) c1 = (Ok (), c1)" using fence by (simp add: heal_fenced_cut_def)
  show ?thesis
  proof (cases r1)
    case (Inl e)
    then show ?thesis using raw h(2,4,5) by (auto simp: append_raw_frame_def h(1) h(3) [symmetric] once Let_def)
  next
    case (Inr u)
    then have once': "record_watermark_once (ap_meta io) c = (Ok (), c1)" using once by simp
    show ?thesis
    proof (cases "co_released c1")
      case True
      then show ?thesis using raw h(2,4,5) by (auto simp: append_raw_frame_def h(1) h(3) [symmetric] once' Let_def)
    next
      case False
      then show ?thesis using raw h(2,4,5) stop Inr
        by (auto simp: append_raw_frame_def h(1) h(3) [symmetric] once' heal Let_def split: if_split_asm)
    qed
  qed
qed

lemma frame_keeps:
  assumes inv: "steady ev m c" and io: "sound_io io" "\<forall>h. fh_parse bytes = Some h \<longrightarrow> torn_within io (fh_len h)"
    and guard: "frame_guard ev c bytes" and codec: "ev_de ev [] = None"
    and raw: "append_raw_frame ev io bytes c = (r, c')"
  shows "steady ev m c' \<and> frame_effect ev bytes r (disk_rows ev (co_disk c)) (disk_rows ev (co_disk c'))"
proof (cases "fh_parse bytes")
  case None
  then show ?thesis using raw inv by (auto simp: append_raw_frame_def frame_effect_def)
next
  case h: (Some h)
  define p where "p = slice HEADER_LEN (HEADER_LEN + fh_len h) bytes"
  have quiet: ?thesis if "steady ev m c1" "disk_rows ev (co_disk c1) = disk_rows ev (co_disk c)" "c' = c1" "\<forall>lsn. r \<noteq> Ok (Applied lsn)" for c1
    using that by (auto simp: frame_effect_def split: sum.splits replica_apply.splits)
  show ?thesis
  proof (cases "length bytes < HEADER_LEN + fh_len h \<or> \<not> payload_valid (ev_crc ev) h p \<or> ev_de ev p = None")
    case True
    then show ?thesis using raw inv h by (auto simp: append_raw_frame_def frame_effect_def Let_def p_def [symmetric] split: if_splits)
  next
    case False
    then obtain entry where e: "HEADER_LEN + fh_len h \<le> length bytes" "payload_valid (ev_crc ev) h p" "ev_de ev p = Some entry" by auto
    obtain r1 c1 where once: "record_watermark_once (ap_meta io) c = (r1, c1)" by fastforce
    note o = once_kept [OF inv once] and fence = log_inv_facts(11) [OF steady_inv [OF steady_once [OF inv once]]]
    let ?stop = "r1 \<noteq> Ok () \<or> co_released c1 \<or> fh_lsn h \<le> co_last_lsn c1 \<and> (fh_lsn h \<le> co_applied_lsn c1 \<or> staged_term c1 (fh_lsn h) = Some (fh_term h)) \<or>
      co_last_lsn c1 < fh_prev_lsn h"
    show ?thesis
    proof (cases ?stop)
      case True
      from raw_quiet [OF h e(1) p_def e(2,3) once fence this raw] show ?thesis using quiet [OF o(1,3)] by blast
    next
      case False
      then have go: "r1 = Ok ()" "\<not> co_released c1" "fh_prev_lsn h \<le> co_last_lsn c1" and news: "\<not> (fh_lsn h \<le> co_last_lsn c1 \<and> (fh_lsn h \<le> co_applied_lsn c1 \<or> staged_term c1 (fh_lsn h) = Some (fh_term h)))" by auto
      obtain r2 c2 where link: "(if fh_prev_lsn h < co_last_lsn c1 then wal_rewind_to (ap_cut io) (fh_prev_lsn h) (fh_prev_term h) c1
          else (Ok (if fh_prev_term h \<noteq> co_last_term c1 then None else Some ()), c1)) = (r2, c2)" by (metis prod.collapse)
      have agree: "fh_prev_lsn h = co_applied_lsn c1 \<longrightarrow>
          tail_of (0, 0) (rows_to (co_applied_lsn c1) (disk_rows ev (co_disk c1))) = (fh_prev_lsn h, fh_prev_term h)"
        using guard h o(3,4) by (simp add: frame_guard_def)
      note body = raw_body [where ev = ev and entry = entry, OF h e(1) p_def e(2,3) once [unfolded go(1)] go(2) fence news go(3) link, unfolded raw]
      from link_found [OF o(1) io(1) agree go(3) link] show ?thesis
      proof
        assume "r2 = Ok None \<and> c2 = c1"
        then show ?thesis using body quiet [OF o(1,3)] by simp
      next
        assume k: "r2 = Ok (Some ()) \<and> steady ev m c2 \<and> disk_rows ev (co_disk c2) = rows_to (fh_prev_lsn h) (disk_rows ev (co_disk c1)) \<and>
          co_last_lsn c2 = fh_prev_lsn h \<and> co_last_term c2 = fh_prev_term h \<and> dk_meta (co_disk c2) = dk_meta (co_disk c1) \<and>
          tail_of (0, 0) (rows_to (fh_prev_lsn h) (disk_rows ev (co_disk c1))) = (fh_prev_lsn h, fh_prev_term h)"
        then have inv2: "steady ev m c2" and meta: "dk_meta (co_disk c2) \<noteq> None" using o(2) go(1) by auto
        obtain r3 c3 where rot: "rotate_if_full io c2 = (r3, c3)" by fastforce
        show ?thesis
        proof (cases "r3 = Ok ()")
          case False
          then have "c3 = c2" using rotate_result [OF inv2 io(1) rot] by blast
          then show ?thesis using body k rot False h o(3) by (cases r3) (auto simp: frame_effect_def)
        next
          case True
          obtain r4 c4 where place: "place_frame ev io h entry p c3 = (r4, c4)" by fastforce
          have "steady ev m c4" "grows ev r4 c2 c4 (\<lambda>x. rw_head x = h \<and> rw_payload x = p)"
            using frame_placed [OF inv2 io(1) _ meta h e(1) p_def e(2,3) _ codec _ _ _ rot [unfolded True] place] io(2) h guard k
            by (auto simp: frame_guard_def)
          then show ?thesis using body k rot True place h o(3) by (cases r4) (auto simp: frame_effect_def grows_def p_def)
        qed
      qed
    qed
  qed
qed

section \<open>Snapshots\<close>

lemma covered_at:
  assumes "bm_sorted cmp_lin files" "bm_get cmp_lin files w = Some b" "off \<le> length b" "whole crc (take off b)"
    and s: "is_last_wal_id s = w" "is_last_offset s = off"
  shows "covered crc (Some s) files = log_rows crc (lower w files) @ wal_rows crc w 0 (take off b)" "aligned crc (Some s) files"
proof -
  have sp: "files = lower w files @ (w, b) # upper w files" using files_split [OF assms(1), of w] assms(2) by simp
  have low: "covered crc (Some s) fs = log_rows crc fs \<and> aligned crc (Some s) fs" if "\<forall>fl\<in>set fs. fst fl < w" for fs
    using that by (induction fs) (auto simp: cov1_def skipped_def resume_at_def s)
  have up: "covered crc (Some s) fs = [] \<and> aligned crc (Some s) fs" if "\<forall>fl\<in>set fs. w < fst fl" for fs
    using that by (induction fs) (auto simp: cov1_def skipped_def resume_at_def s)
  have "cov1 crc (Some s) (w, b) = wal_rows crc w 0 (take off b)" by (simp add: cov1_def skipped_def resume_at_def s)
  then show "covered crc (Some s) files = log_rows crc (lower w files) @ wal_rows crc w 0 (take off b)"
    using low [of "lower w files"] up [of "upper w files"] by (subst sp) (simp add: lower_def upper_def)
  show "aligned crc (Some s) files"
    using low [of "lower w files"] up [of "upper w files"] assms(3,4) by (subst sp) (simp add: lower_def upper_def resume_at_def s)
qed

text \<open>Where a snapshot resumes separates the applied rows from the staged ones.\<close>

lemma resume_point:
  assumes inv: "log_inv ev c"
    and at: "(case pending_floor c of Some p \<Rightarrow> p | None \<Rightarrow> (co_wal_id c, co_wal_size c)) = (w, off)"
    and s: "is_last_wal_id s = w" "is_last_offset s = off"
  shows "covered (ev_crc ev) (Some s) (dk_files (co_disk c)) = rows_to (co_applied_lsn c) (disk_rows ev (co_disk c))"
    "aligned (ev_crc ev) (Some s) (dk_files (co_disk c))" "w \<in> fst ` set (dk_files (co_disk c))" "w \<le> co_wal_id c"
proof -
  note f = log_inv_facts [OF inv] and d = disk_ok_facts [OF log_inv_disk [OF inv]]
  let ?rs = "disk_rows ev (co_disk c)" and ?files = "dk_files (co_disk c)" and ?crc = "ev_crc ev"
  have srt: "sorted_wrt (\<lambda>a b. rw_lsn a < rw_lsn b) ?rs" by (rule sorted_rows [OF d(3)])
  have "\<exists>b. bm_get cmp_lin ?files w = Some b \<and> off \<le> length b \<and> whole ?crc (take off b) \<and> w \<le> co_wal_id c \<and>
    log_rows ?crc (lower w ?files) @ wal_rows ?crc w 0 (take off b) = rows_to (co_applied_lsn c) ?rs"
  proof (cases "co_pending c")
    case Nil
    then have wo: "w = co_wal_id c" "off = co_wal_size c" and "rows_past (co_applied_lsn c) ?rs = []"
      using at f(7) by (simp_all add: pending_floor_def)
    obtain b where b: "head_file ?crc w b ?files" "off = length b" using log_inv_head [OF inv] wo by blast
    have "?rs = log_rows ?crc (lower w ?files) @ wal_rows ?crc w 0 b"
      using head_split(1) [OF b(1)] blank_files(1) [OF head_split(2) [OF b(1)]] by (metis append_Nil2 log_rows_simps(2,3))
    moreover have "rows_to (co_applied_lsn c) ?rs = ?rs" using rows_to_past [OF srt, of "co_applied_lsn c"] \<open>rows_past _ _ = []\<close> by simp
    ultimately show ?thesis using b wo by (auto simp: head_file_def)
  next
    case (Cons p ps)
    obtain x first where p: "p = (x, first)" by fastforce
    obtain r rest where r: "rows_past (co_applied_lsn c) ?rs = r # rest" "realizes ev r (x, first)"
      using f(7) Cons p by (auto simp: list_all2_Cons2)
    have wo: "w = rw_wal_id r" "off = rw_offset r" using at r(2) by (auto simp: pending_floor_def Cons p realizes_def)
    have rin: "r \<in> set ?rs" using r(1) by (auto simp: rows_past_def filter_eq_Cons_iff)
    then obtain b where b: "bm_get cmp_lin ?files w = Some b" "r \<in> set (wal_rows ?crc w 0 b)" using row_in_file [OF d(1) rin] wo by auto
    have cov: "\<forall>y\<in>set (covered ?crc (dk_snapshot (co_disk c)) ?files). rw_lsn y \<le> co_applied_lsn c" using d(8) f(3) le_trans by blast
    note cf = cut_files [OF d(1,5) srt r(1) cov b(1) [unfolded wo], folded wo]
    have "w \<le> co_wal_id c"
    proof (rule ccontr)
      assume "\<not> w \<le> co_wal_id c"
      then have "b = []" using inv b(1) bm_get_Some_in [of cmp_lin ?files w b] by (auto simp: log_inv_def Let_def cmp_lin.cmp_Equal_iff)
      then show False using b(2) by simp
    qed
    moreover have "log_rows ?crc (lower w ?files) @ wal_rows ?crc w 0 (take off b) = rows_to (co_applied_lsn c) ?rs" by (rule cf(8))
    ultimately show ?thesis using b(1) cf(4,5) by (auto simp: head_file_def)
  qed
  then obtain b where b: "bm_get cmp_lin ?files w = Some b" "off \<le> length b" "whole ?crc (take off b)" "w \<le> co_wal_id c"
    "log_rows ?crc (lower w ?files) @ wal_rows ?crc w 0 (take off b) = rows_to (co_applied_lsn c) ?rs" by blast
  show "covered ?crc (Some s) ?files = rows_to (co_applied_lsn c) ?rs" "aligned ?crc (Some s) ?files" "w \<le> co_wal_id c"
    using covered_at [OF d(1) b(1-3) s] b(4,5) by auto
  show "w \<in> fst ` set ?files" using bm_get_Some_in [OF b(1)] by (force simp: cmp_lin.cmp_Equal_iff)
qed

lemma save_keeps:
  assumes inv: "log_inv ev c" and clean: "watermark (co_disk c) = co_applied_lsn c" and save: "save_index c = (l, c')"
  shows "log_inv ev c'" "disk_rows ev (co_disk c') = disk_rows ev (co_disk c)"
proof -
  note f = log_inv_facts [OF inv] and d = disk_ok_facts [OF log_inv_disk [OF inv]]
  let ?rs = "disk_rows ev (co_disk c)" and ?files = "dk_files (co_disk c)" and ?crc = "ev_crc ev"
  obtain w off where at: "(case pending_floor c of Some p \<Rightarrow> p | None \<Rightarrow> (co_wal_id c, co_wal_size c)) = (w, off)" by fastforce
  define s where "s = \<lparr>is_last_wal_id = w, is_last_offset = off, is_last_lsn = co_last_lsn c, is_last_term = co_last_term c, is_map = cs_index (co_com c)\<rparr>"
  have c': "c' = c\<lparr>co_disk := (co_disk c)\<lparr>dk_snapshot := Some s\<rparr>\<rparr>" using save at by (auto simp: save_index_def s_def)
  note rp = resume_point [OF inv at, of s, unfolded s_def, simplified, folded s_def]
  have tail: "snap_tail (Some s) = tail_of (0, 0) ?rs" using f(1) by (simp add: snap_tail_def s_def)
  have "reaches (tail_of (0, 0) ?rs) (tail_of (0, 0) (rows_to (co_applied_lsn c) ?rs))"
    using reaches_prefix [of 0 0 "rows_to (co_applied_lsn c) ?rs" "rows_past (co_applied_lsn c) ?rs"]
      rows_to_past [OF sorted_rows [OF d(3)], of "co_applied_lsn c"] d(3) by metis
  moreover have "docs_at (snap_map (Some s)) = lg_docs (logical ev (rows_to (co_applied_lsn c) ?rs))"
    using f(6) by (simp add: snap_map_def s_def cview_def) (metis logical.select_convs(1))
  moreover have wm: "watermark ((co_disk c)\<lparr>dk_snapshot := Some s\<rparr>) = co_applied_lsn c"
    unfolding clean [symmetric] by (rule watermark_cong) simp_all
  moreover have "\<forall>r\<in>set (rows_to (co_applied_lsn c) ?rs). rw_lsn r \<le> co_applied_lsn c" by (simp add: rows_to_def)
  ultimately have "disk_ok ev (co_disk c')"
    using d(1-4,10-12) clean rp tail unfolding disk_ok_def c' by (auto simp: wm s_def split: option.splits)
  moreover have "is_last_wal_id s = w" by (simp add: s_def)
  ultimately show "log_inv ev c'" using inv clean rp(4) unfolding log_inv_def Let_def c' by (auto simp: wm)
  show "disk_rows ev (co_disk c') = ?rs" by (simp add: c')
qed

section \<open>Runs\<close>

text \<open>
  One step of a collection's life. Frames come from a leader that agrees with what this node has applied;
  a commit position is one the log holds; an index snapshot is taken when the last commit is on disk; a
  restart opens whatever the directory holds.
\<close>

inductive log_step :: "'n env \<Rightarrow> 'n collection \<Rightarrow> 'n collection \<Rightarrow> bool" for ev where
  log_append: "\<lbrakk>sound_io io; torn_within io (length (ev_ser ev entry)); ev_de ev (ev_ser ev entry) = Some entry; ev_ser ev entry \<noteq> [];
     term < 2 ^ 64; co_db_next_lsn c + 1 < 2 ^ 64; wal_append ev io entry term c = (r, c')\<rbrakk> \<Longrightarrow> log_step ev c c'"
| log_frame: "\<lbrakk>sound_io io; \<forall>h. fh_parse bytes = Some h \<longrightarrow> torn_within io (fh_len h); frame_guard ev c bytes;
     append_raw_frame ev io bytes c = (r', c')\<rbrakk> \<Longrightarrow> log_step ev c c'"
| log_commit: "\<lbrakk>b \<le> co_last_lsn c; apply_committed ev pio watched b c = (r'', changes, c')\<rbrakk> \<Longrightarrow> log_step ev c c'"
| log_sync: "sync_wal ok c = (s, c') \<Longrightarrow> log_step ev c c'"
| log_save: "\<lbrakk>watermark (co_disk c) = co_applied_lsn c; save_index c = (l, c')\<rbrakk> \<Longrightarrow> log_step ev c c'"
| log_restart: "open_collection ev None True n lt dl (co_disk c) = (Ok c', d) \<Longrightarrow> log_step ev c c'"

lemma log_inv_synced:
  assumes inv: "log_inv ev c" and sync: "sync_wal ok c = (s, c')"
  shows "log_inv ev c'"
proof -
  obtain b where b: "head_file (ev_crc ev) (co_wal_id c) b (dk_files (co_disk c))" "co_wal_size c = length b" using log_inv_head [OF inv] by blast
  show ?thesis
    by (rule log_inv_refiled [OF inv, of c' "dk_files (co_disk c)" "co_wal_id c" b])
      (use b sync log_inv_facts(2,12) [OF inv] disk_ok_facts(5) [OF log_inv_disk [OF inv]] in
        \<open>auto simp: sync_wal_def note_synced_def beside_def tracked_def split: if_splits\<close>)
qed

lemma steady_commit:
  assumes "steady ev m c" "b \<le> co_last_lsn c" "apply_committed ev io watched b c = (r, changes, c')"
  shows "steady ev m c'"
  using assms log_inv_commit(1) [OF steady_inv [OF assms(1)] assms(2,3)] log_inv_commit(3) [OF steady_inv [OF assms(1)] assms(2,3)]
    watermark_mono(2) [OF steady_inv [OF assms(1)] assms(3,2)] commit_faithful [OF _ assms(3)] upholds_same [of ev m c c'] by (auto simp: steady_def)

lemma steady_synced: "steady ev m c \<Longrightarrow> sync_wal ok c = (s, c') \<Longrightarrow> steady ev m c'"
  using log_inv_synced sync_save_faithful(1) upholds_same [of ev m c c'] watermark_cong [of "co_disk c'" "co_disk c"]
  by (fastforce simp: steady_def sync_wal_def note_synced_def split: if_splits)

lemma steady_saved:
  assumes "steady ev m c" "watermark (co_disk c) = co_applied_lsn c" "save_index c = (l, c')"
  shows "steady ev m c'"
proof -
  note k = save_keeps [OF steady_inv [OF assms(1)] assms(2,3)]
  have "watermark (co_disk c') = watermark (co_disk c)" using assms(3) by (intro watermark_cong) (auto simp: save_index_def Let_def split: prod.splits)
  then have "upholds ev m c'" using upholds_same [of ev m c c'] k(2) assms(1) by (simp add: steady_def)
  then show ?thesis using k(1) assms(1) sync_save_faithful(2) [OF _ assms(3)] by (simp add: steady_def)
qed

lemma steady_opened:
  assumes "steady ev m c" "open_collection ev fails clears n lt dl (co_disk c) = (Ok c', d)"
  shows "steady ev m c'"
proof -
  note ok = log_inv_disk [OF steady_inv [OF assms(1)]]
  show ?thesis using open_recovers [OF ok, of fails clears n lt dl] open_faithful [OF ok _ assms(2)] assms by (auto simp: steady_def faithful_def upholds_def)
qed

lemma log_step_keeps:
  assumes "log_step ev c c'" "steady ev m c" "ev_de ev [] = None"
  shows "steady ev m c'"
  using assms(1)
proof cases
  case log_append
  then show ?thesis using append_keeps(1) [OF assms(2)] by blast
next
  case log_frame
  then show ?thesis using frame_keeps [OF assms(2)] assms(3) by blast
next
  case log_commit
  then show ?thesis using steady_commit [OF assms(2)] by blast
next
  case (log_sync ok s)
  then show ?thesis using assms(2) steady_synced by blast
next
  case log_save
  then show ?thesis using steady_saved [OF assms(2)] by blast
next
  case (log_restart n lt dl d)
  then show ?thesis using steady_opened [OF assms(2)] by blast
qed

lemma log_keeps:
  assumes "(log_step ev)\<^sup>*\<^sup>* c c'" "steady ev m c" "ev_de ev [] = None"
  shows "steady ev m c'"
  using assms by (induction rule: rtranclp_induct) (auto intro: log_step_keeps)

text \<open>The life of a collection, from the first open of its empty directory.\<close>

definition empty_disk :: disk where
  "empty_disk = \<lparr>dk_files = [], dk_synced = (\<lambda>_. 0), dk_cut = None, dk_snapshot = None, dk_meta = None, dk_pos = None\<rparr>"

inductive log_reach :: "'n env \<Rightarrow> 'n collection \<Rightarrow> bool" for ev where
  reach_first: "open_collection ev None True n lt dl empty_disk = (Ok c, d) \<Longrightarrow> log_reach ev c"
| reach_step: "\<lbrakk>log_reach ev c; log_step ev c c'\<rbrakk> \<Longrightarrow> log_reach ev c'"

lemma empty_directory:
  assumes "open_collection ev None True n lt dl empty_disk = (Ok c, d)"
  shows "steady ev (0, []) c"
proof -
  have "disk_ok ev empty_disk"
    by (simp add: empty_disk_def disk_ok_def bm_sorted_def decodes_def watermark_def recorded_watermark_def snap_map_def snap_tail_def lg_empty_def reaches_def covered_def aligned_def)
  from open_recovers [OF this, of None True n lt dl] open_faithful [OF this _ assms] show "steady ev (0, []) c"
    using assms by (auto simp: steady_def upholds_def snap_map_def grounded_map_simps empty_disk_def)
qed

lemma reach_steady:
  assumes "log_reach ev c" "ev_de ev [] = None"
  shows "steady ev (0, []) c"
  using assms by (induction rule: log_reach.induct) (auto intro: empty_directory log_step_keeps)

end
