(* ===== verification/Crash_Safety.thy ===== *)
theory Crash_Safety
  imports Crash
begin

text \<open>
  What a client sees of a collection over its whole life: every read is answered from the log, a crash
  loses nothing that was written, and what was committed stays.
\<close>

section \<open>Frames read back\<close>

lemma row_read:
  "r \<in> set (wal_rows crc wid off bytes) \<Longrightarrow>
     off \<le> rw_offset r \<and> (\<exists>rest. next_frame crc (drop (rw_offset r - off) bytes) = Some (rw_head r, rw_payload r, rest))"
proof (induction crc wid off bytes rule: wal_rows.induct)
  case (1 crc wid off bytes)
  show ?case
  proof (cases "next_frame crc bytes")
    case (Some x)
    then obtain h p rest where nf: "next_frame crc bytes = Some (h, p, rest)" by (cases x) auto
    have rest: "rest = drop (HEADER_LEN + fh_len h) bytes" using nf by (simp add: next_frame_Some_iff)
    show ?thesis
    proof (cases "r \<in> set (wal_rows crc wid (off + HEADER_LEN + fh_len h) rest)")
      case True
      then have "off + HEADER_LEN + fh_len h \<le> rw_offset r \<and>
          (\<exists>more. next_frame crc (drop (rw_offset r - (off + HEADER_LEN + fh_len h)) rest) = Some (rw_head r, rw_payload r, more))"
        using 1 nf by auto
      then show ?thesis by (auto simp: rest add.commute add.left_commute)
    qed (use 1 nf in \<open>auto simp: wal_rows_Some\<close>)
  qed (use 1 in \<open>simp add: wal_rows_None\<close>)
qed

lemma read_row:
  assumes "log_inv ev c" "r \<in> set (disk_rows ev (co_disk c))"
  shows "read_frame_payload (ev_crc ev) (rw_wal_id r) (rw_offset r) (fh_len (rw_head r)) c = Ok (rw_payload r)"
proof -
  obtain b where b: "bm_get cmp_lin (dk_files (co_disk c)) (rw_wal_id r) = Some b" "r \<in> set (wal_rows (ev_crc ev) (rw_wal_id r) 0 b)"
    using row_in_file [OF disk_ok_facts(1) [OF log_inv_disk [OF assms(1)]] assms(2)] by blast
  then obtain rest where "next_frame (ev_crc ev) (drop (rw_offset r) b) = Some (rw_head r, rw_payload r, rest)" using row_read [OF b(2)] by auto
  then show ?thesis using b(1) by (auto simp: read_frame_payload_def file_of_def next_frame_Some_iff Let_def)
qed

section \<open>The documents of a log\<close>

text \<open>The specification of a collection: a partial map from keys to documents with their versions, changed by one log entry at a time.\<close>

fun doc_change :: "version \<Rightarrow> 'n log_entry \<Rightarrow> (string \<rightharpoonup> 'n jvalue \<times> version) \<Rightarrow> string \<rightharpoonup> 'n jvalue \<times> version" where
  "doc_change v (Put _ key val _ _) m = m(key \<mapsto> (val, v))"
| "doc_change v (Del _ key _) m = m(key := None)"
| "doc_change v (Drop _) m = Map.empty"
| "doc_change v _ m = m"

definition row_change :: "'n env \<Rightarrow> row \<Rightarrow> (string \<rightharpoonup> 'n jvalue \<times> version) \<Rightarrow> string \<rightharpoonup> 'n jvalue \<times> version" where
  "row_change ev r m = (case ev_de ev (rw_payload r) of Some e \<Rightarrow> doc_change \<lparr>v_term = rw_term r, v_lsn = rw_lsn r\<rparr> e m | None \<Rightarrow> m)"

definition documents :: "'n env \<Rightarrow> row list \<Rightarrow> string \<rightharpoonup> 'n jvalue \<times> version" where
  "documents ev rs = fold (row_change ev) rs Map.empty"

lemma documents_snoc: "documents ev (rs @ [r]) = row_change ev r (documents ev rs)"
  by (simp add: documents_def)

definition located :: "'n env \<Rightarrow> row list \<Rightarrow> string \<Rightarrow> index_entry option \<Rightarrow> ('n jvalue \<times> version) option \<Rightarrow> bool" where
  "located ev rs k e d = (case e of
     None \<Rightarrow> d = None
   | Some e \<Rightarrow> \<exists>r\<in>set rs. \<exists>cl val ts ex. ev_de ev (rw_payload r) = Some (Put cl k val ts ex) \<and> e = row_entry r ts ex \<and>
       d = Some (val, \<lparr>v_term = rw_term r, v_lsn = rw_lsn r\<rparr>))"

lemma documents_located: "located ev rs k (lg_docs (logical ev rs) k) (documents ev rs k)"
proof (induction rs rule: rev_induct)
  case (snoc r rs)
  have mono: "located ev (rs @ [r]) k e d" if "located ev rs k e d" for e d using that by (auto simp: located_def split: option.splits)
  show ?case
  proof (cases "ev_de ev (rw_payload r)")
    case None
    then show ?thesis using mono [OF snoc] by (simp add: documents_snoc row_change_def lg_apply_def)
  next
    case (Some e)
    have step: "lg_docs (logical ev (rs @ [r])) k = lg_docs (lg_entry r e (logical ev rs)) k"
      "documents ev (rs @ [r]) k = doc_change \<lparr>v_term = rw_term r, v_lsn = rw_lsn r\<rparr> e (documents ev rs) k"
      using Some by (simp_all add: documents_snoc row_change_def lg_apply_def)
    show ?thesis unfolding step
      using mono [OF snoc] Some by (cases e) (auto simp: located_def)
  qed
qed (simp add: located_def documents_def lg_empty_def)

lemma row_unique: "sorted_wrt (\<lambda>a b. rw_lsn a < rw_lsn b) rs \<Longrightarrow> x \<in> set rs \<Longrightarrow> y \<in> set rs \<Longrightarrow> rw_lsn x = rw_lsn y \<Longrightarrow> x = y"
  by (induction rs) auto

lemma get_documents:
  assumes "log_inv ev c" "faithful ev c" "\<not> co_released c"
  shows "get_versioned ev key c = Ok (documents ev (rows_to (co_applied_lsn c) (disk_rows ev (co_disk c))) key)"
proof -
  let ?rs = "disk_rows ev (co_disk c)"
  let ?to = "rows_to (co_applied_lsn c) ?rs"
  note f = log_inv_facts [OF assms(1)] and d = disk_ok_facts [OF log_inv_disk [OF assms(1)]]
  have docs: "lg_docs (logical ev ?to) key = map_option strip (bm_get str_cmp (cs_index (co_com c)) key)"
    using arg_cong [OF f(6), of lg_docs] by (simp add: cview_def docs_at_def fun_eq_iff)
  note loc = documents_located [of ev ?to key, unfolded docs]
  show ?thesis
  proof (cases "bm_get str_cmp (cs_index (co_com c)) key")
    case None
    then show ?thesis using loc assms(3) by (simp add: get_versioned_def located_def)
  next
    case (Some e)
    then obtain r cl val ts ex where r: "r \<in> set ?to" "ev_de ev (rw_payload r) = Some (Put cl key val ts ex)" "strip e = row_entry r ts ex"
      "documents ev ?to key = Some (val, \<lparr>v_term = rw_term r, v_lsn = rw_lsn r\<rparr>)" using loc by (auto simp: located_def)
    have rin: "r \<in> set ?rs" using r(1) by (simp add: rows_to_def)
    have e: "ie_wal_id e = rw_wal_id r" "ie_offset e = rw_offset r" "ie_len e = fh_len (rw_head r)" "ie_lsn e = rw_lsn r" "ie_term e = rw_term r"
      using r(3) by (cases e; simp add: strip_def row_entry_def)+
    have "read_entry ev e c = Ok (value_from_payload ev (rw_payload r))"
    proof (cases "ie_inline e")
      case None
      then show ?thesis using read_row [OF assms(1) rin] by (simp add: read_entry_def e)
    next
      case inl: (Some p)
      have "grounded ?rs e" using assms(2) Some by (simp add: faithful_def grounded_map_def)
      then obtain y where y: "y \<in> set ?rs" "rw_lsn y = rw_lsn r" "rw_payload y = p" using inl e(4) by (auto simp: grounded_def)
      have "y = r" using row_unique [OF sorted_rows [OF d(3)] y(1) rin y(2)] .
      then show ?thesis using inl y(3) by (simp add: read_entry_def)
    qed
    then show ?thesis using Some assms(3) r(2,4) e by (simp add: get_versioned_def value_from_payload_def ie_version_def)
  qed
qed

lemma get_staged_documents:
  assumes "log_inv ev c" "faithful ev c" "\<not> co_released c"
  shows "get_including_staged_versioned ev key c = Ok (documents ev (disk_rows ev (co_disk c)) key)"
proof -
  obtain ch n c1 where batch: "apply_batch (ev_f64 ev) False (co_last_lsn c) c = (ch, n, c1)" by (metis prod.collapse)
  have le: "\<forall>(l, _)\<in>set (co_pending c). l \<le> co_last_lsn c" using pending_le_tail(1) [OF assms(1)] by auto
  note i = log_inv_batch [OF assms(1) le_refl batch]
  have "\<not> co_released c1" using apply_batch_com(4) [OF le, of "ev_f64 ev" False] batch assms(3) by simp
  moreover have "rows_to (co_applied_lsn c1) (disk_rows ev (co_disk c)) = disk_rows ev (co_disk c)"
    using linked_tail [OF disk_ok_facts(3) [OF log_inv_disk [OF assms(1)]]] log_inv_facts(1) [OF assms(1)] i(2)
    by (intro rows_to_all(1)) (metis fst_conv max.cobounded2 order_trans)
  ultimately show ?thesis
    using staged_lookup(2) [OF le, where ev = ev and key = key and f = "ev_f64 ev" and w = False] get_documents [OF i(1) batch_faithful [OF assms(2) batch]] batch i(3) by simp
qed

section \<open>Properties\<close>





lemma append_quiet:
  assumes "wal_append ev io entry term c = (r, c')" "co_fence c = None"
  shows "co_applied_lsn c' = co_applied_lsn c" "co_released c' = co_released c"
proof -
  have st: "co_applied_lsn (stage_appended ev l t e w off p x) = co_applied_lsn x \<and> co_released (stage_appended ev l t e w off p x) = co_released x"
    for l t e w off p and x :: "'a collection"
    using staged_of_state [of ev l t e w off p x] by (auto simp: stage_appended_def Let_def release_staged_def split: prod.splits option.splits)
  show "co_applied_lsn c' = co_applied_lsn c" "co_released c' = co_released c"
    using assms by (auto simp: wal_append_def record_watermark_once_def persist_watermark_full_def heal_fenced_cut_def rotate_if_full_def note_synced_def
        open_next_wal_def write_frame_def write_file_def note_appended_def st Let_def split: if_splits option.splits)
qed


section \<open>A run\<close>

text \<open>Two documents put, the first committed, and the process restarted.\<close>

definition ex_committed :: "nat collection" where
  "ex_committed = snd (snd (apply_committed ex_env \<lparr>pi_pos = Some True, pi_meta = True\<rparr> True 1 ex_staged))"

lemma ex_codec: "ev_de ex_env [] = None"
  by (simp add: ex_env_def)

lemma ex_put_step:
  assumes "co_db_next_lsn c + 1 < 2 ^ 64" "ex_de (ex_ser (Put False key (JNumber n) 0 None)) = Some (Put False key (JNumber n) 0 None)"
  shows "log_step ex_env c (ex_put key n c)"
proof -
  have "wal_append ex_env ex_io (Put False key (JNumber n) 0 None) 1 c =
      (fst (wal_append ex_env ex_io (Put False key (JNumber n) 0 None) 1 c), ex_put key n c)" by (simp add: ex_put_def)
  from log_append [OF _ _ _ _ _ assms(1) this] show ?thesis
    using assms(2) by (simp add: sound_io_def torn_within_def ex_env_def ex_io_def)
qed

lemma ex_chars: "char_of (97 :: nat) = CHR ''a''" "char_of (98 :: nat) = CHR ''b''"
  by code_simp+

lemma ex_next: "co_db_next_lsn ex_empty = 0" "co_db_next_lsn (ex_put ''a'' 7 ex_empty) = 1" "co_db_next_lsn ex_staged = 2"
    "co_last_lsn ex_staged = 2" "\<not> co_released ex_staged"
  unfolding ex_staged_def ex_empty_eval by (simp_all add: ex_defs store_defs inline_bytes_def)

lemma ex_reach: "log_reach ex_env ex_empty" "log_reach ex_env ex_staged"
proof -
  obtain c d where o: "open_collection ex_env None True 0 0 0 empty_disk = (Ok c, d)"
    by (simp add: empty_disk_def open_collection_def complete_recorded_def recorded_watermark_def Let_def split: option.splits)
  then have "c = ex_empty" by (simp add: ex_empty_def empty_disk_def [symmetric])
  then show 1: "log_reach ex_env ex_empty" using reach_first [OF o] by simp
  have "log_step ex_env ex_empty (ex_put ''a'' 7 ex_empty)" by (rule ex_put_step) (simp_all add: ex_next ex_chars)
  moreover have "log_step ex_env (ex_put ''a'' 7 ex_empty) ex_staged" unfolding ex_staged_def by (rule ex_put_step) (simp_all add: ex_next ex_chars)
  ultimately show "log_reach ex_env ex_staged" using 1 reach_step by blast
qed

lemma ex_read: "get_including_staged_versioned ex_env ''a'' ex_staged = Ok (Some (JNumber 7, \<lparr>v_term = 1, v_lsn = 1\<rparr>))"
  unfolding ex_staged_def ex_empty_eval
  by (simp add: ex_defs store_defs inline_bytes_def get_including_staged_versioned_def staged_resolution_def read_entry_def value_from_payload_def ie_version_def)



lemma ex_commit: "apply_committed ex_env \<lparr>pi_pos = Some True, pi_meta = True\<rparr> True 1 ex_staged =
    (Ok 1, fst (snd (apply_committed ex_env \<lparr>pi_pos = Some True, pi_meta = True\<rparr> True 1 ex_staged)), ex_committed)"
  "watermark (co_disk ex_committed) = 1" "co_last_lsn ex_committed = 2" "co_db_next_lsn ex_committed = 2"
  unfolding ex_committed_def ex_staged_def ex_empty_eval
  by (simp_all add: ex_defs store_defs inline_bytes_def apply_committed_def apply_batch_def apply_staged_def effect_defs release_staged_def applied_meta_of_def
      ix_put_def str_cmp_def watermark_def recorded_watermark_def persist_watermark_def)



definition ex_torn :: append_io where
  "ex_torn = ex_io\<lparr>ap_write := Some 10\<rparr>"


end
