(* ===== verification/Replicate.thy ===== *)
theory Replicate
  imports Crash_Safety Consensus
begin

text \<open>
  The follower's side of replication: \<^verbatim>\<open>replicate_handler\<close> of \<^verbatim>\<open>src/src/api/internal.rs\<close>, which gates a batch of
  frames by role and term, appends it to the first refusal, syncs it and publishes what the leader has
  committed of it. The replication lock, the append gate and the collection's install lock make each
  part one step.
\<close>

section \<open>The batch\<close>

text \<open>The highest frame newly appended, the highest frame known to be in our log, and what stopped the batch.\<close>

type_synonym batch_result = "nat \<times> nat option \<times> (io_error, replica_apply) result option"

fun replicate_loop ::
  "'n env \<Rightarrow> nat \<Rightarrow> nat option \<Rightarrow> (nat \<times> nat) option \<Rightarrow> (append_io \<times> u8 list) list \<Rightarrow> 'n collection \<Rightarrow> batch_result \<times> 'n collection" where
  "replicate_loop ev highest_applied held previous [] c = ((highest_applied, held, None), c)"
| "replicate_loop ev highest_applied held previous ((io, frame) # batch) c =
     (case fh_parse frame of
        None \<Rightarrow> ((highest_applied, held, Some (Err InvalidData)), c)
      | Some h \<Rightarrow>
          if \<not> (fh_lsn h > fh_prev_lsn h \<and> (case previous of None \<Rightarrow> True | Some p \<Rightarrow> p = (fh_prev_term h, fh_prev_lsn h)))
          then ((highest_applied, held, Some (Err InvalidData)), c)
          else (case append_raw_frame ev io frame c of
                  (Ok (Applied lsn), c1) \<Rightarrow>
                    replicate_loop ev (max highest_applied lsn) (Some (fh_lsn h)) (Some (fh_term h, fh_lsn h)) batch c1
                | (Ok (Duplicate _), c1) \<Rightarrow> replicate_loop ev highest_applied (Some (fh_lsn h)) (Some (fh_term h, fh_lsn h)) batch c1
                | (Ok other, c1) \<Rightarrow> ((highest_applied, held, Some (Ok other)), c1)
                | (Err e, c1) \<Rightarrow> ((highest_applied, held, Some (Err e)), c1)))"

section \<open>The handler\<close>

record replicate_request =
  rq_collection :: string
  rq_term :: nat
  rq_lsn :: nat
  rq_prev_lsn :: nat
  rq_commit_index :: "nat option"
  rq_wal_frame :: "u8 list"
  rq_frames :: "u8 list list"

datatype replicate_reply =
    NotAReplica nat
  | ResyncInProgress
  | StaleTerm nat
  | BadRequest
  | InternalError
  | DuplicateReply nat
  | AppliedReply nat
  | GapReply nat nat
  | DivergentReply nat nat nat

text \<open>
  A follower and one of its collections. \<open>fo_owed\<close> collects the term records the node set out to save:
  the handler goes on whether or not a save succeeds.
\<close>

record 'n follower =
  fo_repl :: replication_state
  fo_owed :: "replication_meta list"
  fo_col :: "'n collection"

text \<open>
  What a request meets: the node's role, a snapshot installation, the clock, its URL, whether the collection
  opens, the file operations of each append, the sync and the commit.
\<close>

record handler_io =
  hi_shard :: bool
  hi_resyncing :: bool
  hi_now :: nat
  hi_own :: string
  hi_opens :: bool
  hi_appends :: "nat \<Rightarrow> append_io"
  hi_sync :: bool
  hi_apply :: persist_io
  hi_watched :: bool

definition replica_meta :: "nat \<Rightarrow> replication_meta" where
  "replica_meta t = \<lparr>rm_term = t, rm_is_leader = False, rm_voted_for = None\<rparr>"

definition replicate_gate :: "handler_io \<Rightarrow> replicate_request \<Rightarrow> 'n follower \<Rightarrow> (replicate_reply, unit) result \<times> 'n follower" where
  "replicate_gate io req s =
     (let s1 = (if rs_is_leader (fo_repl s) \<and> rq_term req > rs_term (fo_repl s)
                then (case apply_demotion (hi_now io) (rq_term req) (fo_repl s) of
                        Some (_, g) \<Rightarrow> s\<lparr>fo_repl := g, fo_owed := replica_meta (rq_term req) # fo_owed s\<rparr>
                      | None \<Rightarrow> s)
                else s);
          our_term = rs_term (fo_repl s1)
      in if \<not> hi_shard io \<or> rs_is_leader (fo_repl s1) then (Err (NotAReplica our_term), s1)
         else if hi_resyncing io then (Err ResyncInProgress, s1)
         else if rq_term req < our_term then (Err (StaleTerm our_term), s1)
         else if rq_term req > our_term
         then (Ok (), s1\<lparr>fo_repl := adopt_term (rq_term req) (fo_repl s1), fo_owed := replica_meta (rq_term req) # fo_owed s1\<rparr>)
         else (Ok (), s1))"

definition refresh_if_config :: "handler_io \<Rightarrow> replicate_request \<Rightarrow> 'n follower \<Rightarrow> 'n follower" where
  "refresh_if_config io req s =
     (if rq_collection req = CONFIG_LOG
      then s\<lparr>fo_repl := refresh_configuration (hi_own io) (latest_config (fo_col s)) (fo_repl s)\<rparr> else s)"

definition replicate_frames :: "handler_io \<Rightarrow> replicate_request \<Rightarrow> (append_io \<times> u8 list) list" where
  "replicate_frames io req =
     (let frames = rq_wal_frame req # rq_frames req in zip (map (hi_appends io) [0..<length frames]) frames)"

text \<open>The commit index the leader announced, as far as this node may publish it.\<close>

definition replicate_publish ::
  "'n env \<Rightarrow> handler_io \<Rightarrow> replicate_request \<Rightarrow> nat option \<Rightarrow> 'n follower \<Rightarrow> (replicate_reply, unit) result \<times> 'n follower" where
  "replicate_publish ev io req held s =
     (if held = None then (Ok (), s)
      else (case note_leader_committed (co_durable_lsn (fo_col s)) (rq_collection req) (rq_term req)
                   (case rq_commit_index req of Some i \<Rightarrow> i | None \<Rightarrow> 0) held (fo_repl s) of
              (None, g) \<Rightarrow> (Ok (), s\<lparr>fo_repl := g\<rparr>)
            | (Some b, g) \<Rightarrow>
                if b = 0 then (Ok (), s\<lparr>fo_repl := g\<rparr>)
                else (case apply_committed ev (hi_apply io) (hi_watched io) b (fo_col s) of
                        (Err _, _, c) \<Rightarrow> (Err InternalError, s\<lparr>fo_repl := g, fo_col := c\<rparr>)
                      | (Ok _, _, c) \<Rightarrow> (Ok (), refresh_if_config io req (s\<lparr>fo_repl := g, fo_col := c\<rparr>)))))"

definition note_replicated :: "handler_io \<Rightarrow> replicate_request \<Rightarrow> nat option \<Rightarrow> replication_state \<Rightarrow> replication_state" where
  "note_replicated io req held g =
     (let g1 = (case rq_commit_index req of
                  Some i \<Rightarrow> if held \<noteq> None \<and> rs_term g = rq_term req then g\<lparr>rs_last_known_primary_position := Some i\<rparr> else g
                | None \<Rightarrow> g)
      in g1\<lparr>rs_last_replication := Some (hi_now io), rs_was_receiving_replication := True\<rparr>)"

definition replicate_answer :: "nat \<Rightarrow> (io_error, replica_apply) result option \<Rightarrow> 'n collection \<Rightarrow> replicate_reply" where
  "replicate_answer highest refusal c =
     (case refusal of
        None \<Rightarrow> if highest = 0 then DuplicateReply (co_last_lsn c) else AppliedReply highest
      | Some (Ok (Gap last_lsn last_term)) \<Rightarrow> GapReply last_lsn last_term
      | Some (Ok (Divergent last_lsn last_term)) \<Rightarrow> DivergentReply last_lsn last_term (co_applied_lsn c)
      | Some (Ok _) \<Rightarrow> AppliedReply highest
      | Some (Err _) \<Rightarrow> InternalError)"

definition replicate_handler ::
  "'n env \<Rightarrow> handler_io \<Rightarrow> replicate_request \<Rightarrow> 'n follower \<Rightarrow> replicate_reply \<times> 'n follower" where
  "replicate_handler ev io req s =
     (case replicate_gate io req s of
        (Err r, s1) \<Rightarrow> (r, s1)
      | (Ok _, s1) \<Rightarrow>
          if \<not> hi_opens io then (InternalError, s1)
          else if (case fh_parse (rq_wal_frame req) of
                     Some h \<Rightarrow> fh_lsn h \<noteq> rq_lsn req \<or> fh_prev_lsn h \<noteq> rq_prev_lsn req | None \<Rightarrow> False) then (BadRequest, s1)
          else (case replicate_loop ev 0 None None (replicate_frames io req) (fo_col s1) of
                  ((highest, held, refusal), c) \<Rightarrow>
                    (case (if highest > 0 then sync_wal (hi_sync io) c else (Ok 0, c)) of
                       (Err _, c1) \<Rightarrow> (InternalError, s1\<lparr>fo_col := c1\<rparr>)
                     | (Ok _, c1) \<Rightarrow>
                         (let s2 = (if highest > 0 then refresh_if_config io req (s1\<lparr>fo_col := c1\<rparr>) else s1\<lparr>fo_col := c1\<rparr>)
                          in case replicate_publish ev io req held s2 of
                               (Err r, s3) \<Rightarrow> (r, s3)
                             | (Ok _, s3) \<Rightarrow> (replicate_answer highest refusal (fo_col s3), s3\<lparr>fo_repl := note_replicated io req held (fo_repl s3)\<rparr>)))))"

section \<open>Logs that match\<close>

definition contents :: "row list \<Rightarrow> (frame_header \<times> u8 list) list" where
  "contents rs = map (\<lambda>r. (rw_head r, rw_payload r)) rs"

lemma contents_simps [simp]: "contents [] = []" "contents (r # rs) = (rw_head r, rw_payload r) # contents rs" "contents (rs @ rs') = contents rs @ contents rs'"
  by (simp_all add: contents_def)

text \<open>
  What elections guarantee of two logs: one leader per term, and a leader writes one frame at a position,
  so frames of the same position and term are the same frame.
\<close>

definition one_frame_per_position :: "row list \<Rightarrow> row list \<Rightarrow> bool" where
  "one_frame_per_position A B = (\<forall>x\<in>set A. \<forall>y\<in>set B. rw_lsn x = rw_lsn y \<and> rw_term x = rw_term y \<longrightarrow> rw_head x = rw_head y \<and> rw_payload x = rw_payload y)"

lemma tail_contents: "contents A = contents B \<Longrightarrow> tail_of z A = tail_of z B"
proof (cases A rule: rev_cases)
  case (snoc A' x)
  assume eq: "contents A = contents B"
  then obtain B' y where "B = B' @ [y]" using snoc by (cases B rule: rev_cases) auto
  then show ?thesis using eq snoc by simp
qed (cases B rule: rev_cases, auto)

lemma tail_positive: "linked 0 0 A \<Longrightarrow> A \<noteq> [] \<Longrightarrow> 0 < fst (tail_of (0, 0) A)"
  by (cases A rule: rev_cases) (auto simp: linked_append)

lemma matching_tails:
  "linked 0 0 A \<Longrightarrow> linked 0 0 B \<Longrightarrow> one_frame_per_position A B \<Longrightarrow> tail_of (0, 0) A = tail_of (0, 0) B \<Longrightarrow> contents A = contents B"
proof (induction A arbitrary: B rule: rev_induct)
  case Nil
  then show ?case using tail_positive [of B] by fastforce
next
  case (snoc x A)
  then have "B \<noteq> []" using tail_positive [of "A @ [x]"] by auto
  then obtain B' y where B: "B = B' @ [y]" by (metis rev_exhaust)
  have same: "rw_head x = rw_head y" "rw_payload x = rw_payload y"
    using snoc.prems(3,4) by (auto simp: one_frame_per_position_def B)
  have "tail_of (0, 0) A = (fh_prev_lsn (rw_head x), fh_prev_term (rw_head x))" "tail_of (0, 0) B' = (fh_prev_lsn (rw_head y), fh_prev_term (rw_head y))"
    using snoc.prems(1,2) unfolding B by (auto simp: linked_append prod_eq_iff)
  then have "contents A = contents B'"
    using snoc.IH [of B'] snoc.prems same unfolding B by (auto simp: linked_append one_frame_per_position_def)
  then show ?case using same B by simp
qed

lemma linked_to: "linked 0 0 rs \<Longrightarrow> linked 0 0 (rows_to n rs)"
  using rows_to_past [OF sorted_rows, of 0 0 rs n] linked_prefix [of 0 0 "rows_to n rs" "rows_past n rs"] by simp

lemma contents_to: "contents A = contents B \<Longrightarrow> contents (rows_to n A) = contents (rows_to n B)"
proof (induction A arbitrary: B)
  case (Cons x A)
  then show ?case by (cases B) (auto simp: rows_to_def)
qed (auto simp: contents_def rows_to_def)

text \<open>A frame two logs share makes them agree up to it.\<close>

lemma log_matching:
  assumes "linked 0 0 A" "linked 0 0 B" "one_frame_per_position A B" "x \<in> set A" "y \<in> set B" "rw_lsn x = rw_lsn y" "rw_term x = rw_term y"
  shows "contents (rows_to (rw_lsn x) A) = contents (rows_to (rw_lsn x) B)"
proof (rule matching_tails [OF linked_to [OF assms(1)] linked_to [OF assms(2)]])
  show "one_frame_per_position (rows_to (rw_lsn x) A) (rows_to (rw_lsn x) B)" using assms(3) by (auto simp: one_frame_per_position_def rows_to_def)
  show "tail_of (0, 0) (rows_to (rw_lsn x) A) = tail_of (0, 0) (rows_to (rw_lsn x) B)"
    using tail_at [OF assms(1,4)] tail_at [OF assms(2,5)] assms(6,7) by simp
qed

lemma tail_before:
  assumes "linked 0 0 L" "r \<in> set L"
  shows "tail_of (0, 0) (rows_to (fh_prev_lsn (rw_head r)) L) = (fh_prev_lsn (rw_head r), fh_prev_term (rw_head r))"
    "fh_prev_lsn (rw_head r) \<le> n \<Longrightarrow> n < rw_lsn r \<Longrightarrow> rows_to n L = rows_to (fh_prev_lsn (rw_head r)) L"
    "fh_prev_lsn (rw_head r) < rw_lsn r"
proof -
  obtain A B where L: "L = A @ r # B" using assms(2) by (meson split_list)
  have k: "linked 0 0 A" "tail_of (0, 0) A = (fh_prev_lsn (rw_head r), fh_prev_term (rw_head r))" "fh_prev_lsn (rw_head r) < rw_lsn r" "linked (rw_lsn r) (rw_term r) B"
    using assms(1) unfolding L by (auto simp: linked_append prod_eq_iff)
  have "\<forall>x\<in>set A. rw_lsn x \<le> fh_prev_lsn (rw_head r)" using linked_tail [OF k(1)] k(2) by simp
  moreover have "\<forall>x\<in>set B. rw_lsn r < rw_lsn x" using linked_above [OF k(4)] by blast
  ultimately have "\<forall>x\<in>set A. rw_lsn x \<le> n" "\<forall>x\<in>set (r # B). n < rw_lsn x" if "fh_prev_lsn (rw_head r) \<le> n" "n < rw_lsn r" for n
    using that by fastforce+
  then have "rows_to n A = A" "rows_to n (r # B) = []" if "fh_prev_lsn (rw_head r) \<le> n" "n < rw_lsn r" for n
    using that rows_to_all by blast+
  then have "rows_to n L = A" if "fh_prev_lsn (rw_head r) \<le> n" "n < rw_lsn r" for n using that unfolding L rows_to_simps by simp
  then show "tail_of (0, 0) (rows_to (fh_prev_lsn (rw_head r)) L) = (fh_prev_lsn (rw_head r), fh_prev_term (rw_head r))"
    "fh_prev_lsn (rw_head r) \<le> n \<Longrightarrow> n < rw_lsn r \<Longrightarrow> rows_to n L = rows_to (fh_prev_lsn (rw_head r)) L" using k(2,3) by auto
  show "fh_prev_lsn (rw_head r) < rw_lsn r" by (rule k(3))
qed

section \<open>One frame of the leader's log\<close>

lemma rows_valid:
  "r \<in> set (wal_rows crc wid off bytes) \<Longrightarrow> frame_ok crc (rw_head r, rw_payload r)"
proof -
  assume r: "r \<in> set (wal_rows crc wid off bytes)"
  obtain rest where "next_frame crc (drop (rw_offset r - off) bytes) = Some (rw_head r, rw_payload r, rest)" using row_read [OF r] by blast
  then show ?thesis using rows_headers [OF r] by (auto simp: next_frame_Some_iff frame_ok_def slice_length)
qed

definition row_bytes :: "row \<Rightarrow> u8 list" where
  "row_bytes r = frame_bytes (rw_head r, rw_payload r)"

lemma row_bytes_parse:
  assumes "frame_ok crc (rw_head r, rw_payload r)"
  shows "fh_parse (row_bytes r) = Some (rw_head r)" "slice HEADER_LEN (HEADER_LEN + fh_len (rw_head r)) (row_bytes r) = rw_payload r"
    "length (row_bytes r) = HEADER_LEN + fh_len (rw_head r)"
  using next_frame_frame [of crc "rw_head r" "rw_payload r" "[]"] assms by (auto simp: row_bytes_def next_frame_Some_iff frame_ok_def frame_bytes_def)

text \<open>What no append touches: the applied position and whether the collection was released.\<close>

definition seat :: "'n collection \<Rightarrow> nat \<times> bool" where
  "seat c = (co_applied_lsn c, co_released c)"

lemma seat_parts:
  "record_watermark_once pio c = (r0, c') \<Longrightarrow> seat c' = seat c" "apply_cut cio wc c = (r1, c') \<Longrightarrow> seat c' = seat c"
  "rewind_index_tail ok l t c = (r2, c') \<Longrightarrow> seat c' = seat c" "rotate_if_full io c = (r3, c') \<Longrightarrow> seat c' = seat c"
  "write_frame io bytes c = (r4, c') \<Longrightarrow> seat c' = seat c" "seat (drop_pending_above l c) = seat c"
  "seat (note_appended ev h e p w off c) = seat c" "seat (c\<lparr>co_disk := d\<rparr>) = seat c"
proof -
  show "record_watermark_once pio c = (r0, c') \<Longrightarrow> seat c' = seat c" "apply_cut cio wc c = (r1, c') \<Longrightarrow> seat c' = seat c"
    "rewind_index_tail ok l t c = (r2, c') \<Longrightarrow> seat c' = seat c" "rotate_if_full io c = (r3, c') \<Longrightarrow> seat c' = seat c"
    "write_frame io bytes c = (r4, c') \<Longrightarrow> seat c' = seat c" "seat (c\<lparr>co_disk := d\<rparr>) = seat c"
    by (auto simp: seat_def record_watermark_once_def persist_watermark_full_def apply_cut_def shrink_wal_to_def rewind_index_tail_def
        rotate_if_full_def write_frame_def open_next_wal_def write_file_def note_synced_def Let_def split: if_splits option.splits sum.splits prod.splits)
  have step: "seat (release_staged eff (c\<lparr>co_pending := ps\<rparr>)) = seat c" for eff ps and c :: "'a collection"
    by (simp add: release_staged_def seat_def)
  have "seat (foldl (\<lambda>c (lsn, staged). release_staged (sa_effect staged) (c\<lparr>co_pending := bm_remove cmp_lin lsn (co_pending c)\<rparr>)) c xs) = seat c"
    for xs and c :: "'a collection"
    by (induction xs arbitrary: c) (simp_all add: step split_beta)
  then show "seat (drop_pending_above l c) = seat c" by (simp add: drop_pending_above_def)
  have "seat (stage_appended ev l t e w off p x) = seat x" for l t and x :: "'a collection"
    using staged_of_state [of ev l t e w off p x] by (auto simp: stage_appended_def Let_def release_staged_def seat_def split: prod.splits option.splits)
  then show "seat (note_appended ev h e p w off c) = seat c" by (simp add: note_appended_def seat_def)
qed

lemma seat_rewind: "wal_rewind_to cio l t c = (r, c') \<Longrightarrow> seat c' = seat c"
proof -
  assume a: "wal_rewind_to cio l t c = (r, c')"
  obtain r1 c1 where tail: "rewind_index_tail (ct_rewind_index cio) l t c = (r1, c1)" by fastforce
  have "seat c2 = seat c" if "apply_cut cio wc (drop_pending_above n (c1\<lparr>co_disk := d\<rparr>)) = (r2, c2)" for wc n d r2 c2
    using seat_parts(2) [OF that] seat_parts(3) [OF tail] seat_parts(6,8) by metis
  then show ?thesis using a tail seat_parts(3) [OF tail]
    by (auto simp: wal_rewind_to_def Let_def split: if_splits list.splits sum.splits prod.splits option.splits)
qed

lemma seat_frame:
  assumes "append_raw_frame ev io bytes c = (r, c')"
  shows "seat c' = seat c"
proof -
  have heal: "seat y = seat x" if "heal_fenced_cut cio x = (q, y)" for cio q and x y :: "'a collection"
    using that by (auto simp: heal_fenced_cut_def seat_parts(6) split: option.splits dest: seat_parts(2))
  show ?thesis using assms
    by (auto simp: append_raw_frame_def Let_def split: option.splits if_splits sum.splits prod.splits dest!: seat_parts(1,4,5) heal seat_rewind) (simp_all add: seat_parts)
qed

section \<open>Agreement\<close>

definition agrees :: "'n env \<Rightarrow> row list \<Rightarrow> nat \<Rightarrow> 'n collection \<Rightarrow> bool" where
  "agrees ev L n c = (contents (rows_to n (disk_rows ev (co_disk c))) = contents (rows_to n L))"

lemma agrees_below: "agrees ev L n c \<Longrightarrow> k \<le> n \<Longrightarrow> agrees ev L k c"
  using contents_to [of "rows_to n (disk_rows ev (co_disk c))" "rows_to n L" k] by (simp add: agrees_def rows_to_to min_absorb1)

lemma agrees_holds:
  assumes "agrees ev L n c" "r \<in> set L" "rw_lsn r \<le> n"
  shows "\<exists>x\<in>set (disk_rows ev (co_disk c)). rw_head x = rw_head r"
proof -
  have "(rw_head r, rw_payload r) \<in> set (contents (rows_to n L))" using assms(2,3) by (auto simp: contents_def rows_to_def)
  then have "(rw_head r, rw_payload r) \<in> set (contents (rows_to n (disk_rows ev (co_disk c))))" using assms(1) by (simp add: agrees_def)
  then show ?thesis by (auto simp: contents_def rows_to_def)
qed

lemma held_staged:
  assumes inv: "log_inv ev c" and x: "x \<in> set (disk_rows ev (co_disk c))"
  shows "rw_lsn x \<le> co_last_lsn c" "rw_lsn x \<le> co_applied_lsn c \<or> staged_term c (rw_lsn x) = Some (rw_term x)"
proof -
  note f = log_inv_facts [OF inv] and d = disk_ok_facts [OF log_inv_disk [OF inv]]
  show "rw_lsn x \<le> co_last_lsn c" using linked_tail [OF d(3)] x f(1) by (metis fst_conv)
  show "rw_lsn x \<le> co_applied_lsn c \<or> staged_term c (rw_lsn x) = Some (rw_term x)"
  proof (cases "rw_lsn x \<le> co_applied_lsn c")
    case False
    then have "x \<in> set (rows_past (co_applied_lsn c) (disk_rows ev (co_disk c)))" using x by (simp add: rows_past_def)
    then obtain p where p: "p \<in> set (co_pending c)" "realizes ev x p" using f(7) by (metis in_set_conv_nth list_all2_conv_all_nth)
    obtain l s where ls: "p = (l, s)" by fastforce
    have "bm_get cmp_lin (co_pending c) l = Some s" using cmp_lin.bm_get_in [OF log_inv_sorted [OF inv] p(1) [unfolded ls], of l] by (simp add: cmp_lin.cmp_Equal_iff)
    then show ?thesis using p(2) by (auto simp: realizes_def ls staged_term_def)
  qed simp
qed

lemma staged_held:
  assumes inv: "log_inv ev c" and "staged_term c l = Some t"
  shows "\<exists>x\<in>set (disk_rows ev (co_disk c)). rw_lsn x = l \<and> rw_term x = t"
proof -
  obtain s where s: "bm_get cmp_lin (co_pending c) l = Some s" "sa_term s = t" using assms(2) by (auto simp: staged_term_def)
  then have "(l, s) \<in> set (co_pending c)" using bm_get_Some_in [OF s(1)] by (auto simp: cmp_lin.cmp_Equal_iff)
  then obtain y where "y \<in> set (rows_past (co_applied_lsn c) (disk_rows ev (co_disk c)))" "realizes ev y (l, s)"
    using list_all2_right [OF log_inv_facts(7) [OF inv]] by blast
  then show ?thesis using s(2) by (auto simp: realizes_def rows_past_def)
qed

lemma duplicate_reason:
  assumes inv: "log_inv ev c" and a: "append_raw_frame ev io bytes c = (Ok (Duplicate t), c')" and h: "fh_parse bytes = Some h"
  shows "fh_lsn h \<le> co_applied_lsn c \<or> staged_term c (fh_lsn h) = Some (fh_term h)"
proof -
  obtain r1 c1 where once: "record_watermark_once (ap_meta io) c = (r1, c1)" by fastforce
  note o = watermark_once [OF inv once]
  have heal: "heal_fenced_cut (ap_cut io) c1 = (Ok (), c1)" using log_inv_facts(11) [OF o(1)] by (simp add: heal_fenced_cut_def)
  show ?thesis using a h
    by (auto simp: append_raw_frame_def once heal o(4,7) staged_term_def Let_def split: option.splits if_splits sum.splits prod.splits)
qed

text \<open>The leader's log as a follower meets it.\<close>

definition leader_log :: "'n env \<Rightarrow> row list \<Rightarrow> bool" where
  "leader_log ev L = (linked 0 0 L \<and> decodes ev L \<and> (\<forall>r\<in>set L. frame_ok (ev_crc ev) (rw_head r, rw_payload r)))"

lemma leader_log_reach:
  assumes "log_reach ev c" "ev_de ev [] = None"
  shows "leader_log ev (disk_rows ev (co_disk c))"
proof -
  note d = disk_ok_facts [OF log_inv_disk [OF steady_inv [OF reach_steady [OF assms]]]]
  have "frame_ok (ev_crc ev) (rw_head r, rw_payload r)" if "r \<in> set (disk_rows ev (co_disk c))" for r
    using that rows_valid by (fastforce simp: log_rows_def)
  then show ?thesis using d(3,4) by (simp add: leader_log_def)
qed

lemma held_is_quiet:
  assumes inv: "log_inv ev c" and L: "leader_log ev L" "r \<in> set L"
    and x: "x \<in> set (disk_rows ev (co_disk c))" "rw_lsn x = rw_lsn r" "rw_term x = rw_term r"
    and a: "append_raw_frame ev io (row_bytes r) c = (res, c')"
  shows "disk_rows ev (co_disk c') = disk_rows ev (co_disk c)"
proof -
  have ok: "frame_ok (ev_crc ev) (rw_head r, rw_payload r)" "ev_de ev (rw_payload r) \<noteq> None" using L by (auto simp: leader_log_def decodes_def)
  then obtain entry where de: "ev_de ev (rw_payload r) = Some entry" by blast
  obtain r1 c1 where once: "record_watermark_once (ap_meta io) c = (r1, c1)" by fastforce
  note o = watermark_once [OF inv once] and b = row_bytes_parse [OF ok(1)]
  have "rw_lsn r \<le> co_last_lsn c1 \<and> (rw_lsn r \<le> co_applied_lsn c1 \<or> staged_term c1 (rw_lsn r) = Some (rw_term r))"
    using held_staged [OF inv x(1)] x(2,3) o(4,5,7) by (simp add: staged_term_def)
  then have "c' = c1"
    using raw_quiet [OF b(1) _ b(2) [symmetric] _ de once log_inv_facts(11) [OF o(1)] _ a] ok(1) b(3) by (simp add: frame_ok_def)
  then show ?thesis using o(3) by simp
qed

lemma frame_agrees:
  assumes st: "steady ev m c" and de: "ev_de ev [] = None" and L: "leader_log ev L" "r \<in> set L"
    and U: "one_frame_per_position L (disk_rows ev (co_disk c))" and LC: "agrees ev L (co_applied_lsn c) c"
    and io: "sound_io io" "torn_within io (fh_len (rw_head r))" and a: "append_raw_frame ev io (row_bytes r) c = (res, c')"
  shows "log_step ev c c'" "one_frame_per_position L (disk_rows ev (co_disk c'))" "agrees ev L n c \<Longrightarrow> agrees ev L n c'"
    "res = Ok (Applied l) \<or> res = Ok (Duplicate l) \<Longrightarrow> agrees ev L (rw_lsn r) c'"
proof -
  let ?rs = "disk_rows ev (co_disk c)" and ?rs' = "disk_rows ev (co_disk c')" and ?prev = "fh_prev_lsn (rw_head r)"
  have link: "linked 0 0 L" and ok: "frame_ok (ev_crc ev) (rw_head r, rw_payload r)" using L by (auto simp: leader_log_def)
  note inv = steady_inv [OF st] and b = row_bytes_parse [OF ok] and tb = tail_before [OF link L(2)]
  have "tail_of (0, 0) (rows_to ?prev ?rs) = (?prev, fh_prev_term (rw_head r))" if "?prev = co_applied_lsn c"
    using tail_contents [OF LC [unfolded agrees_def], of "(0, 0)"] tb(1) that by simp
  then have guard: "frame_guard ev c (row_bytes r)" using b(1) tb(3) ok by (simp add: frame_guard_def frame_ok_def)
  have torn: "\<forall>h. fh_parse (row_bytes r) = Some h \<longrightarrow> torn_within io (fh_len h)" using b(1) io(2) by simp
  show "log_step ev c c'" by (rule log_frame [OF io(1) torn guard a])
  have k: "steady ev m c'" "frame_effect ev (row_bytes r) res ?rs ?rs'" using frame_keeps [OF st io(1) torn guard de a] by auto
  have link': "linked 0 0 ?rs" "linked 0 0 ?rs'" using disk_ok_facts(3) [OF log_inv_disk [OF steady_inv]] st k(1) by blast+
  have "one_frame_per_position L ?rs' \<and> (agrees ev L n c \<longrightarrow> agrees ev L n c') \<and> (res = Ok (Applied l) \<or> res = Ok (Duplicate l) \<longrightarrow> agrees ev L (rw_lsn r) c')"
  proof (cases "\<exists>x\<in>set ?rs. rw_lsn x = rw_lsn r \<and> rw_term x = rw_term r")
    case True
    then obtain x where x: "x \<in> set ?rs" "rw_lsn x = rw_lsn r" "rw_term x = rw_term r" by blast
    have same: "?rs' = ?rs" by (rule held_is_quiet [OF inv L x a])
    show ?thesis using U log_matching [OF link link'(1) U L(2) x(1)] x(2,3) unfolding agrees_def same by simp
  next
    case fresh: False
    have below: "n < rw_lsn r" if "agrees ev L n c" for n using agrees_holds [OF that L(2)] fresh by (metis leI)
    have not_dup: "res \<noteq> Ok (Duplicate t)" for t
      using duplicate_reason [OF inv _ b(1)] a staged_held [OF inv] below [OF LC] fresh by (metis leD)
    consider (same) "?rs' = ?rs" "\<forall>lsn. res \<noteq> Ok (Applied lsn)" | (cut) "?rs' = rows_to ?prev ?rs" "\<forall>lsn. res \<noteq> Ok (Applied lsn)"
      | (new) x where "?rs' = rows_to ?prev ?rs @ [x]" "rw_head x = rw_head r" "rw_payload x = rw_payload r"
      using k(2) b(1,2) by (fastforce simp: frame_effect_def split: sum.splits replica_apply.splits)
    then show ?thesis
    proof cases
      case same
      then show ?thesis using U not_dup by (simp add: agrees_def)
    next
      case cut
      have "agrees ev L n c'" if n: "agrees ev L n c"
      proof (cases "n \<le> ?prev")
        case True
        then show ?thesis using n cut(1) by (simp add: agrees_def rows_to_to min_absorb1)
      next
        case False
        then have "rows_to n L = rows_to ?prev L" using tb(2) [of n] below [OF n] by simp
        then show ?thesis using agrees_below [OF n, of ?prev] False cut(1) by (simp add: agrees_def rows_to_to min_absorb2)
      qed
      moreover have "one_frame_per_position L ?rs'" using U unfolding cut(1) by (auto simp: one_frame_per_position_def rows_to_def)
      ultimately show ?thesis using cut(2) not_dup by auto
    next
      case new
      have "z = r" if "z \<in> set L" "rw_lsn z = rw_lsn r" for z using row_unique [OF sorted_rows [OF link] that(1) L(2) that(2)] .
      then have U': "one_frame_per_position L ?rs'" using U new(2,3) unfolding new(1) by (auto simp: one_frame_per_position_def rows_to_def)
      have "x \<in> set ?rs'" using new(1) by simp
      from log_matching [OF link link'(2) U' L(2) this] have at: "agrees ev L (rw_lsn r) c'" using new(2) by (simp add: agrees_def)
      then show ?thesis using U' below agrees_below [OF at] less_imp_le by blast
    qed
  qed
  then show "one_frame_per_position L ?rs'" "agrees ev L n c \<Longrightarrow> agrees ev L n c'" "res = Ok (Applied l) \<or> res = Ok (Duplicate l) \<Longrightarrow> agrees ev L (rw_lsn r) c'"
    by auto
qed

section \<open>What is durable is in the log\<close>

definition tails :: "'n collection \<Rightarrow> nat \<times> nat" where
  "tails c = (co_durable_lsn c, co_last_lsn c)"

lemma tails_parts:
  "record_watermark_once pio c = (r0, c') \<Longrightarrow> tails c' = tails c" "rewind_index_tail ok l t c = (r2, c') \<Longrightarrow> tails c' = tails c"
  "rotate_if_full io c = (r3, c') \<Longrightarrow> tails c' = tails c" "write_frame io bytes c = (r4, c') \<Longrightarrow> tails c' = tails c"
  "tails (drop_pending_above n c) = tails c" "co_durable_lsn (note_appended ev h e p w off c) = co_durable_lsn c"
  "co_last_lsn (note_appended ev h e p w off c) = fh_lsn h" "tails (c\<lparr>co_disk := d\<rparr>) = tails c" "tails (c\<lparr>co_db_next_lsn := n\<rparr>) = tails c"
proof -
  show "record_watermark_once pio c = (r0, c') \<Longrightarrow> tails c' = tails c" "rewind_index_tail ok l t c = (r2, c') \<Longrightarrow> tails c' = tails c"
    "rotate_if_full io c = (r3, c') \<Longrightarrow> tails c' = tails c" "write_frame io bytes c = (r4, c') \<Longrightarrow> tails c' = tails c"
    "tails (c\<lparr>co_disk := d\<rparr>) = tails c" "tails (c\<lparr>co_db_next_lsn := n\<rparr>) = tails c"
    by (auto simp: tails_def record_watermark_once_def persist_watermark_full_def rewind_index_tail_def
        rotate_if_full_def write_frame_def open_next_wal_def write_file_def note_synced_def Let_def split: if_splits option.splits sum.splits prod.splits)
  have step: "tails (release_staged eff (c\<lparr>co_pending := ps\<rparr>)) = tails c" for eff ps and c :: "'a collection"
    by (simp add: release_staged_def tails_def)
  have "tails (foldl (\<lambda>c (lsn, staged). release_staged (sa_effect staged) (c\<lparr>co_pending := bm_remove cmp_lin lsn (co_pending c)\<rparr>)) c xs) = tails c"
    for xs and c :: "'a collection" by (induction xs arbitrary: c) (simp_all add: step split_beta)
  then show "tails (drop_pending_above n c) = tails c" by (simp add: drop_pending_above_def)
  have "co_durable_lsn (stage_appended ev l t e w off p x) = co_durable_lsn x \<and> co_last_lsn (stage_appended ev l t e w off p x) = co_last_lsn x"
    for l t and x :: "'a collection"
    using staged_of_state [of ev l t e w off p x] by (auto simp: stage_appended_def Let_def release_staged_def split: prod.splits option.splits)
  then show "co_durable_lsn (note_appended ev h e p w off c) = co_durable_lsn c" "co_last_lsn (note_appended ev h e p w off c) = fh_lsn h"
    by (simp_all add: note_appended_def)
qed

lemma tails_cut: "apply_cut cio wc c = (r, c') \<Longrightarrow> tails c' = (if r = Ok () then (wc_prev_lsn wc, wc_prev_lsn wc) else tails c)"
  by (auto simp: tails_def apply_cut_def shrink_wal_to_def split: if_splits option.splits sum.splits prod.splits)

lemma tails_rewind: "wal_rewind_to cio l t c = (r, c') \<Longrightarrow> tails c' = (if r = Ok (Some ()) then (l, l) else tails c)"
proof -
  assume a: "wal_rewind_to cio l t c = (r, c')"
  obtain r1 c1 where tail: "rewind_index_tail (ct_rewind_index cio) l t c = (r1, c1)" by fastforce
  have "tails c2 = (if r2 = Ok () then (wc_prev_lsn wc, wc_prev_lsn wc) else tails c)"
    if "apply_cut cio wc (drop_pending_above n (c1\<lparr>co_disk := d\<rparr>)) = (r2, c2)" for wc n d r2 c2
    using tails_cut [OF that] tails_parts(2) [OF tail] tails_parts(5,8) by metis
  then show ?thesis using a tail tails_parts(2) [OF tail]
    by (fastforce simp: wal_rewind_to_def Let_def split: if_splits list.splits sum.splits prod.splits option.splits)
qed

lemma durable_append:
  assumes inv: "log_inv ev c" "log_inv ev c'" and le: "co_durable_lsn c \<le> co_last_lsn c" and g: "grows ev r c c' P"
    and a: "wal_append ev io entry term c = (r, c')"
  shows "co_durable_lsn c' \<le> co_last_lsn c'"
proof -
  have "co_durable_lsn c' = co_durable_lsn c" using a log_inv_facts(11) [OF inv(1)]
    by (auto simp: wal_append_def heal_fenced_cut_def record_watermark_once_def persist_watermark_full_def Let_def tails_parts(6)
        split: if_splits option.splits sum.splits prod.splits dest!: tails_parts(3,4)) (simp_all add: tails_def)
  moreover have "co_last_lsn c \<le> co_last_lsn c'"
  proof -
    have "\<exists>ys. disk_rows ev (co_disk c') = disk_rows ev (co_disk c) @ ys" using g by (auto simp: grows_def split: sum.splits)
    then show ?thesis using reaches_prefix [of 0 0 "disk_rows ev (co_disk c)"] disk_ok_facts(3) [OF log_inv_disk [OF inv(2)]]
        log_inv_facts(1) [OF inv(1)] log_inv_facts(1) [OF inv(2)] by (metis reaches_def fst_conv)
  qed
  ultimately show ?thesis using le by simp
qed

lemma durable_frame:
  assumes le: "co_durable_lsn c \<le> co_last_lsn c" and fence: "co_fence c = None" and a: "append_raw_frame ev io bytes c = (r, c')"
    and guard: "frame_guard ev c bytes"
  shows "co_durable_lsn c' \<le> co_last_lsn c'"
proof -
  have link: "co_durable_lsn y \<le> co_last_lsn y \<and> (q = Ok (Some ()) \<longrightarrow> co_last_lsn y = l)"
    if "(if l < co_last_lsn x then wal_rewind_to cio l t x else (Ok (if t \<noteq> co_last_term x then None else Some ()), x)) = (q, y)"
      "co_durable_lsn x \<le> co_last_lsn x" "\<not> co_last_lsn x < l" for cio l t q and x y :: "'a collection"
    using that tails_rewind [of cio l t x q y] by (auto simp: tails_def split: if_splits)
  show ?thesis
  proof (cases "fh_parse bytes")
    case None
    then show ?thesis using a le by (simp add: append_raw_frame_def)
  next
    case h: (Some h)
    then have lt: "fh_prev_lsn h < fh_lsn h" using guard by (simp add: frame_guard_def)
    obtain r1 c1 where once: "record_watermark_once (ap_meta io) c = (r1, c1)" by fastforce
    have c1: "co_durable_lsn c1 \<le> co_last_lsn c1" using tails_parts(1) [OF once] le by (simp add: tails_def)
    have heal: "heal_fenced_cut (ap_cut io) c1 = (Ok (), c1)"
      using once fence by (auto simp: heal_fenced_cut_def record_watermark_once_def persist_watermark_full_def split: if_splits sum.splits)
    obtain r2 c2 where l: "(if fh_prev_lsn h < co_last_lsn c1 then wal_rewind_to (ap_cut io) (fh_prev_lsn h) (fh_prev_term h) c1
        else (Ok (if fh_prev_term h \<noteq> co_last_term c1 then None else Some ()), c1)) = (r2, c2)" by (metis prod.collapse)
    obtain r3 c3 where rot: "rotate_if_full io c2 = (r3, c3)" by fastforce
    obtain r4 c4 where w: "write_frame io (take (HEADER_LEN + fh_len h) bytes) c3 = (r4, c4)" by fastforce
    have same: "tails c3 = tails c2" "tails c4 = tails c2" using tails_parts(3) [OF rot] tails_parts(4) [OF w] by simp_all
    show ?thesis
    proof (cases "co_last_lsn c1 < fh_prev_lsn h")
      case True
      then show ?thesis using a le c1 by (auto simp: append_raw_frame_def h once heal Let_def split: if_splits sum.splits option.splits)
    next
      case False
      note k = link [OF l c1 False]
      have d: "co_durable_lsn c3 \<le> co_last_lsn c3" "co_durable_lsn c4 \<le> co_last_lsn c4" "r2 = Ok (Some ()) \<Longrightarrow> co_durable_lsn c4 \<le> fh_lsn h"
        using k same lt by (auto simp: tails_def)
      show ?thesis
      proof (cases "fh_prev_lsn h < co_last_lsn c1")
        case True
        then have "wal_rewind_to (ap_cut io) (fh_prev_lsn h) (fh_prev_term h) c1 = (r2, c2)" using l by simp
        then show ?thesis using a True False le c1 k d
          by (auto simp: append_raw_frame_def h once heal rot w tails_parts(6,7) Let_def split: if_splits sum.splits option.splits)
      next
        case ge: False
        then have c2: "c2 = c1" using l by simp
        then show ?thesis using a ge False le c1 k d l
          by (auto simp: append_raw_frame_def h once heal rot [unfolded c2] w tails_parts(6,7) Let_def split: if_splits sum.splits option.splits)
      qed
    qed
  qed
qed

lemma reach_durable:
  assumes "log_reach ev c" "ev_de ev [] = None"
  shows "co_durable_lsn c \<le> co_last_lsn c"
  using assms
proof (induction rule: log_reach.induct)
  case (reach_first n lt dl c d)
  then have "co_durable_lsn c = co_last_lsn c" by (auto simp: open_collection_def Let_def split: sum.splits prod.splits if_splits)
  then show ?case by simp
next
  case (reach_step c c')
  note st = reach_steady [OF reach_step.hyps(1) reach_step.prems]
  note inv = steady_inv [OF st] and inv' = steady_inv [OF log_step_keeps [OF reach_step.hyps(2) st reach_step.prems]]
  from reach_step.hyps(2) show ?case
  proof cases
    case (log_append io entry tm r)
    then show ?thesis using durable_append [OF inv inv'] append_keeps(2) [OF st] reach_step by blast
  next
    case (log_frame io bytes r')
    then show ?thesis using durable_frame log_inv_facts(11) [OF inv] reach_step by blast
  next
    case (log_commit b pio watched r'' changes)
    obtain ch n c1 where batch: "apply_batch (ev_f64 ev) watched b c = (ch, n, c1)" by (metis prod.collapse)
    have "co_durable_lsn c1 = co_durable_lsn c \<and> co_last_lsn c1 = co_last_lsn c"
      using batch foldl_staged_form [of "ev_f64 ev" watched "[]" "c\<lparr>co_pending := filter (\<lambda>(l, _). b < l) (co_pending c)\<rparr>" "filter (\<lambda>(l, _). l \<le> b) (co_pending c)"]
      by (auto simp: apply_batch_def Let_def split: prod.splits)
    then show ?thesis using log_commit(2) reach_step
      by (auto simp: apply_committed_def batch persist_watermark_def persist_watermark_full_def split: if_splits sum.splits prod.splits)
  next
    case (log_sync ok s)
    then show ?thesis using reach_step by (auto simp: sync_wal_def note_synced_def split: if_splits)
  next
    case (log_save l)
    then show ?thesis using reach_step by (auto simp: save_index_def Let_def split: prod.splits)
  next
    case (log_restart n lt dl d)
    then show ?thesis using open_recovers [OF log_inv_disk [OF inv], of None True n lt dl] by auto
  qed
qed

section \<open>The whole batch\<close>

definition batch_of :: "row list \<Rightarrow> (append_io \<times> u8 list) list \<Rightarrow> bool" where
  "batch_of L batch = (\<forall>(io, frame)\<in>set batch. sound_io io \<and> (\<exists>r\<in>set L. frame = row_bytes r \<and> torn_within io (fh_len (rw_head r))))"

lemma loop_agrees:
  assumes "log_reach ev c" "ev_de ev [] = None" "leader_log ev L" "batch_of L batch" "one_frame_per_position L (disk_rows ev (co_disk c))"
    "agrees ev L (co_applied_lsn c) c" "\<forall>k. held = Some k \<longrightarrow> agrees ev L k c" "replicate_loop ev highest held previous batch c = ((hi, held', refusal), c')"
  shows "log_reach ev c' \<and> seat c' = seat c \<and> one_frame_per_position L (disk_rows ev (co_disk c')) \<and> (\<forall>n. agrees ev L n c \<longrightarrow> agrees ev L n c') \<and>
    (\<forall>k. held' = Some k \<longrightarrow> agrees ev L k c')"
  using assms
proof (induction batch arbitrary: highest held previous c)
  case (Cons bf batch)
  obtain io frame where bf: "bf = (io, frame)" by fastforce
  note p = Cons.prems [unfolded bf]
  obtain r where r: "r \<in> set L" "frame = row_bytes r" "sound_io io" "torn_within io (fh_len (rw_head r))" "batch_of L batch"
    using p(4) by (auto simp: batch_of_def)
  have parse: "fh_parse frame = Some (rw_head r)" using row_bytes_parse(1) p(3) r(1,2) by (auto simp: leader_log_def)
  obtain res c1 where a: "append_raw_frame ev io frame c = (res, c1)" by fastforce
  note fa = frame_agrees [OF reach_steady [OF p(1,2)] p(2,3) r(1) p(5,6) r(3,4) a [unfolded r(2)]]
  have c1: "log_reach ev c1" "seat c1 = seat c" using reach_step [OF p(1) fa(1)] seat_frame [OF a] by auto
  then have at: "agrees ev L (co_applied_lsn c1) c1" using fa(3) [OF p(6)] by (simp add: seat_def)
  let ?go = "fh_prev_lsn (rw_head r) < fh_lsn (rw_head r) \<and> (case previous of None \<Rightarrow> True | Some p \<Rightarrow> p = (fh_prev_term (rw_head r), fh_prev_lsn (rw_head r)))"
  consider (bad) "\<not> ?go" | (on) l hi1 where ?go "res = Ok (Applied l) \<or> res = Ok (Duplicate l)"
      "replicate_loop ev hi1 (Some (rw_lsn r)) (Some (rw_term r, rw_lsn r)) batch c1 = ((hi, held', refusal), c')"
    | (stop) ?go "c' = c1" "held' = held"
    using p(8) a parse by (cases res; cases "projr res") (auto split: if_splits)
  then show ?case
  proof cases
    case bad
    then show ?thesis using p(1,5,7,8) parse by auto
  next
    case on
    have "\<forall>k. Some (rw_lsn r) = Some k \<longrightarrow> agrees ev L k c1" using fa(4) [OF on(2)] by simp
    from Cons.IH [OF c1(1) p(2,3) r(5) fa(2) at this on(3)] show ?thesis using fa(3) c1(2) by metis
  next
    case stop
    then show ?thesis using c1 fa(2,3) p(7) by auto
  qed
qed auto

section \<open>A follower and its leader\<close>

lemma documents_contents: "contents A = contents B \<Longrightarrow> documents ev A = documents ev B"
proof -
  have "fold (row_change ev) A m = fold (row_change ev) B m" if "contents A = contents B" for m using that
  proof (induction A arbitrary: B m)
    case (Cons x A)
    then obtain y B' where B: "B = y # B'" "rw_head x = rw_head y" "rw_payload x = rw_payload y" "contents A = contents B'" by (cases B) auto
    then have "row_change ev x m = row_change ev y m" by (simp only: row_change_def)
    then show ?case using Cons.IH [OF B(4)] by (simp add: B(1))
  qed (auto simp: contents_def)
  then show "contents A = contents B \<Longrightarrow> documents ev A = documents ev B" by (simp add: documents_def)
qed

text \<open>
  How far a follower has matched its leader of this term, and what it serves: the prefix it recorded and
  the position it applied are the leader's.
\<close>

definition follows :: "'n env \<Rightarrow> row list \<Rightarrow> replicate_request \<Rightarrow> 'n follower \<Rightarrow> bool" where
  "follows ev L req s = (log_reach ev (fo_col s) \<and> one_frame_per_position L (disk_rows ev (co_disk (fo_col s))) \<and>
     agrees ev L (co_applied_lsn (fo_col s)) (fo_col s) \<and>
     (\<forall>n. get_or (rq_term req, 0) (rs_leader_matched (fo_repl s)) (rq_collection req) = (rq_term req, n) \<longrightarrow> agrees ev L n (fo_col s)))"

lemma follows_cong:
  "follows ev L req s \<Longrightarrow> fo_col s' = fo_col s \<Longrightarrow> rs_leader_matched (fo_repl s') = rs_leader_matched (fo_repl s) \<Longrightarrow> follows ev L req s'"
  by (simp add: follows_def)

lemma repl_parts:
  "rs_leader_matched (refresh_configuration own l g) = rs_leader_matched g" "rs_leader_matched (note_replicated io req held g) = rs_leader_matched g"
  "rs_leader_matched (adopt_term t g) = rs_leader_matched g"
  by (auto simp: refresh_configuration_def install_configuration_def note_replicated_def adopt_term_def split: option.splits)

lemma refresh_parts: "fo_col (refresh_if_config io req s) = fo_col s" "rs_leader_matched (fo_repl (refresh_if_config io req s)) = rs_leader_matched (fo_repl s)"
  by (simp_all add: refresh_if_config_def repl_parts)

lemma gate_parts:
  assumes "replicate_gate io req s = (r, s')"
  shows "fo_col s' = fo_col s" "rs_leader_matched (fo_repl s') = rs_leader_matched (fo_repl s)"
proof -
  have "rs_leader_matched g' = rs_leader_matched g" if "apply_demotion now t g = Some (b, g')" for now t b g g'
    using that by (auto simp: apply_demotion_def split: if_splits)
  then have "fo_col s' = fo_col s \<and> rs_leader_matched (fo_repl s') = rs_leader_matched (fo_repl s)"
    using assms unfolding replicate_gate_def Let_def
    by (cases "apply_demotion (hi_now io) (rq_term req) (fo_repl s)")
      (force simp: repl_parts split: if_splits prod.splits)+
  then show "fo_col s' = fo_col s" "rs_leader_matched (fo_repl s') = rs_leader_matched (fo_repl s)" by auto
qed

lemma commit_agrees:
  assumes "log_reach ev c" "ev_de ev [] = None" "one_frame_per_position L (disk_rows ev (co_disk c))" "agrees ev L (co_applied_lsn c) c"
    "b \<le> co_last_lsn c" "agrees ev L b c" "apply_committed ev io w b c = (r, ch, c')"
  shows "log_reach ev c' \<and> co_applied_lsn c \<le> co_applied_lsn c' \<and> co_released c' = co_released c \<and> one_frame_per_position L (disk_rows ev (co_disk c')) \<and>
    agrees ev L (co_applied_lsn c') c' \<and> (\<forall>n. agrees ev L n c \<longrightarrow> agrees ev L n c')"
proof -
  note k = log_inv_commit [OF steady_inv [OF reach_steady [OF assms(1,2)]] assms(5,7)]
  obtain chg n c1 where batch: "apply_batch (ev_f64 ev) w b c = (chg, n, c1)" by (metis prod.collapse)
  have "co_released c1 = co_released c"
    using batch foldl_staged_form [of "ev_f64 ev" w "[]" "c\<lparr>co_pending := filter (\<lambda>(l, _). b < l) (co_pending c)\<rparr>" "filter (\<lambda>(l, _). l \<le> b) (co_pending c)"]
    by (auto simp: apply_batch_def Let_def split: prod.splits)
  then have "co_released c' = co_released c"
    using assms(7) by (auto simp: apply_committed_def batch persist_watermark_def persist_watermark_full_def split: if_splits sum.splits prod.splits)
  moreover have "log_reach ev c'" by (rule reach_step [OF assms(1) log_commit [OF assms(5,7)]])
  ultimately show ?thesis using assms(3,4,6) k(2,3) by (auto simp: agrees_def max_def)
qed

lemma publish_agrees:
  assumes s: "follows ev L req s" and de: "ev_de ev [] = None" and held: "\<forall>k. held = Some k \<longrightarrow> agrees ev L k (fo_col s)"
    and p: "replicate_publish ev io req held s = (r, s')"
  shows "follows ev L req s'" "co_applied_lsn (fo_col s) \<le> co_applied_lsn (fo_col s')" "co_released (fo_col s') = co_released (fo_col s)"
proof -
  let ?d = "co_durable_lsn (fo_col s)" and ?i = "case rq_commit_index req of Some i \<Rightarrow> i | None \<Rightarrow> 0"
  have "follows ev L req s' \<and> co_applied_lsn (fo_col s) \<le> co_applied_lsn (fo_col s') \<and> co_released (fo_col s') = co_released (fo_col s)"
  proof (cases held)
    case None
    then show ?thesis using s p by (simp add: replicate_publish_def)
  next
    case (Some k)
    obtain out g where n: "note_leader_committed ?d (rq_collection req) (rq_term req) ?i held (fo_repl s) = (out, g)" by fastforce
    show ?thesis
    proof (cases out)
      case None
      then have "g = fo_repl s" using n by (auto simp: note_leader_committed_def Let_def split: if_splits)
      then show ?thesis using p n None Some s by (auto simp: replicate_publish_def intro: follows_cong)
    next
      case b: (Some b)
      obtain m where m: "rs_leader_matched g = AList.update (rq_collection req) (rq_term req, m) (rs_leader_matched (fo_repl s))" "agrees ev L m (fo_col s)" "b \<le> m" "b \<le> ?d"
      proof -
        define p0 where "p0 = get_or (rq_term req, 0) (rs_leader_matched (fo_repl s)) (rq_collection req)"
        define p1 where "p1 = (if fst p0 \<noteq> rq_term req then (rq_term req, 0) else p0)"
        have "agrees ev L 0 (fo_col s)" using s by (auto simp: follows_def intro: agrees_below)
        then have "agrees ev L (snd p1) (fo_col s)" "fst p1 = rq_term req"
          using s by (auto simp: p1_def p0_def follows_def prod_eq_iff)
        moreover have "agrees ev L (min k ?d) (fo_col s)" using held Some agrees_below by fastforce
        ultimately have "agrees ev L (max (snd p1) (min k ?d)) (fo_col s)" by (simp add: max_def)
        moreover have "rs_leader_matched g = AList.update (rq_collection req) (rq_term req, max (snd p1) (min k ?d)) (rs_leader_matched (fo_repl s))"
            "b = min (min ?i (max (snd p1) (min k ?d))) ?d"
          using n b Some by (auto simp: note_leader_committed_def p1_def p0_def Let_def split: if_splits)
        ultimately show ?thesis by (intro that) (auto simp: le_max_iff_disj min_le_iff_disj)
      qed
      have after: "follows ev L req s1" if "log_reach ev (fo_col s1)" "one_frame_per_position L (disk_rows ev (co_disk (fo_col s1)))"
          "agrees ev L (co_applied_lsn (fo_col s1)) (fo_col s1)" "agrees ev L m (fo_col s1)" "rs_leader_matched (fo_repl s1) = rs_leader_matched g" for s1
        using that by (auto simp: follows_def m(1) get_or_def update_conv')
      show ?thesis
      proof (cases "b = 0")
        case True
        then have "s' = s\<lparr>fo_repl := g\<rparr>" using p n b Some by (simp add: replicate_publish_def)
        then show ?thesis using after [of s'] s m(2) by (simp add: follows_def)
      next
        case False
        obtain q ch c where a: "apply_committed ev (hi_apply io) (hi_watched io) b (fo_col s) = (q, ch, c)" by (metis prod_cases3)
        have "b \<le> co_last_lsn (fo_col s)" using m(4) reach_durable [OF _ de] s by (fastforce simp: follows_def)
        from commit_agrees [OF _ de _ _ this agrees_below [OF m(2,3)] a, of] s have k:
          "log_reach ev c" "co_applied_lsn (fo_col s) \<le> co_applied_lsn c" "co_released c = co_released (fo_col s)" "one_frame_per_position L (disk_rows ev (co_disk c))"
          "agrees ev L (co_applied_lsn c) c" "agrees ev L m c" using m(2) by (auto simp: follows_def)
        have "fo_col s' = c" "rs_leader_matched (fo_repl s') = rs_leader_matched g"
          using p n b Some False a by (auto simp: replicate_publish_def refresh_parts split: sum.splits)
        then show ?thesis using after [of s'] k by simp
      qed
    qed
  qed
  then show "follows ev L req s'" "co_applied_lsn (fo_col s) \<le> co_applied_lsn (fo_col s')" "co_released (fo_col s') = co_released (fo_col s)" by auto
qed

lemma handler_follows:
  assumes s: "follows ev L req s" and de: "ev_de ev [] = None" and L: "leader_log ev L" "batch_of L (replicate_frames io req)"
    and h: "replicate_handler ev io req s = (reply, s')"
  shows "follows ev L req s' \<and> co_applied_lsn (fo_col s) \<le> co_applied_lsn (fo_col s') \<and> co_released (fo_col s') = co_released (fo_col s)"
proof -
  obtain q s1 where gate: "replicate_gate io req s = (q, s1)" by fastforce
  note g = gate_parts [OF gate]
  have s1: "follows ev L req s1" by (rule follows_cong [OF s g])
  obtain highest held refusal c where loop: "replicate_loop ev 0 None None (replicate_frames io req) (fo_col s1) = ((highest, held, refusal), c)" by (metis prod.collapse)
  have r1: "log_reach ev (fo_col s1)" "one_frame_per_position L (disk_rows ev (co_disk (fo_col s1)))" "agrees ev L (co_applied_lsn (fo_col s1)) (fo_col s1)"
    using s1 by (auto simp: follows_def)
  have c: "log_reach ev c" "seat c = seat (fo_col s1)" "one_frame_per_position L (disk_rows ev (co_disk c))" "\<And>n. agrees ev L n (fo_col s1) \<Longrightarrow> agrees ev L n c"
      "\<forall>k. held = Some k \<longrightarrow> agrees ev L k c"
    using loop_agrees [OF r1(1) de L r1(2,3) _ loop] by auto
  obtain w c1 where sync: "(if highest > 0 then sync_wal (hi_sync io) c else (Ok 0, c)) = (w, c1)" by fastforce
  have c1: "log_reach ev c1" "seat c1 = seat c" "dk_files (co_disk c1) = dk_files (co_disk c)"
  proof -
    show "log_reach ev c1" using sync c(1) reach_step log_sync by (metis Pair_inject)
    show "seat c1 = seat c" "dk_files (co_disk c1) = dk_files (co_disk c)"
      using sync by (auto simp: sync_wal_def note_synced_def seat_def split: if_splits)
  qed
  have ag: "agrees ev L n c1 = agrees ev L n c" for n by (simp add: agrees_def c1(3))
  have col: "follows ev L req x" if "fo_col x = c1" "rs_leader_matched (fo_repl x) = rs_leader_matched (fo_repl s1)" for x
    using that s1 c1(1,2) c(2,3,4) r1(3) by (auto simp: follows_def ag c1(3) seat_def)
  define s2 where "s2 = (if highest > 0 then refresh_if_config io req (s1\<lparr>fo_col := c1\<rparr>) else s1\<lparr>fo_col := c1\<rparr>)"
  have s2: "fo_col s2 = c1" "rs_leader_matched (fo_repl s2) = rs_leader_matched (fo_repl s1)" by (simp_all add: s2_def refresh_parts)
  obtain p s3 where pub: "replicate_publish ev io req held s2 = (p, s3)" by fastforce
  note k = publish_agrees [OF col [OF s2] de _ pub, unfolded s2(1) ag, OF c(5)]
  have "s' = s1 \<or> fo_col s' = c1 \<and> rs_leader_matched (fo_repl s') = rs_leader_matched (fo_repl s1) \<or>
      fo_col s' = fo_col s3 \<and> rs_leader_matched (fo_repl s') = rs_leader_matched (fo_repl s3)"
  proof (cases q)
    case (Inr u)
    have "(reply, s') = (if \<not> hi_opens io then (InternalError, s1)
        else if (case fh_parse (rq_wal_frame req) of Some h \<Rightarrow> fh_lsn h \<noteq> rq_lsn req \<or> fh_prev_lsn h \<noteq> rq_prev_lsn req | None \<Rightarrow> False) then (BadRequest, s1)
        else (case w of
           Err _ \<Rightarrow> (InternalError, s1\<lparr>fo_col := c1\<rparr>)
         | Ok _ \<Rightarrow> (case p of Err r \<Rightarrow> (r, s3)
             | Ok _ \<Rightarrow> (replicate_answer highest refusal (fo_col s3), s3\<lparr>fo_repl := note_replicated io req held (fo_repl s3)\<rparr>))))"
      unfolding h [symmetric] replicate_handler_def gate Inr prod.case sum.case loop sync Let_def s2_def [symmetric] pub ..
    then show ?thesis by (auto simp: repl_parts split: if_splits sum.splits)
  qed (use h in \<open>simp add: replicate_handler_def gate\<close>)
  moreover have "seat c1 = seat (fo_col s)" using c1(2) c(2) g(1) by simp
  ultimately show ?thesis using s1 g(1) col [of s'] follows_cong [OF k(1), of s'] k(2,3) by (elim disjE) (auto simp: seat_def)
qed


section \<open>A run\<close>

text \<open>An empty follower receives the two frames of a leader, the first of them committed.\<close>

definition ex_log :: "row list" where
  "ex_log = disk_rows ex_env (co_disk ex_staged)"

definition ex_request :: replicate_request where
  "ex_request = \<lparr>rq_collection = ''c'', rq_term = 1, rq_lsn = rw_lsn (hd ex_log), rq_prev_lsn = fh_prev_lsn (rw_head (hd ex_log)), rq_commit_index = Some 1,
     rq_wal_frame = row_bytes (hd ex_log), rq_frames = map row_bytes (tl ex_log)\<rparr>"

definition ex_handler_io :: handler_io where
  "ex_handler_io = \<lparr>hi_shard = True, hi_resyncing = False, hi_now = 0, hi_own = ''http://f'', hi_opens = True, hi_appends = (\<lambda>_. ex_io), hi_sync = True,
     hi_apply = \<lparr>pi_pos = Some True, pi_meta = True\<rparr>, hi_watched = False\<rparr>"

definition ex_follower :: "nat follower" where
  "ex_follower = \<lparr>fo_repl = snd (boot_state (demo_cfg ''f'') None 0), fo_owed = [], fo_col = ex_empty\<rparr>"

lemma ex_log_linked: "linked 0 0 ex_log" "ex_log \<noteq> []"
proof -
  note inv = steady_inv [OF reach_steady [OF ex_reach(2) ex_codec]]
  show "linked 0 0 ex_log" using disk_ok_facts(3) [OF log_inv_disk [OF inv]] by (simp add: ex_log_def)
  show "ex_log \<noteq> []" using log_inv_facts(1) [OF inv] ex_next(4) by (auto simp: ex_log_def)
qed

lemma ex_follows: "follows ex_env ex_log ex_request ex_follower"
proof -
  have rows: "disk_rows ex_env (co_disk ex_empty) = []" by (simp add: ex_empty_eval)
  have "rows_to 0 ex_log = []" using linked_above [OF ex_log_linked(1)] by (intro rows_to_all(2)) blast
  then have "agrees ex_env ex_log 0 ex_empty" by (simp add: agrees_def rows)
  moreover have "co_applied_lsn ex_empty = 0" by (simp add: ex_empty_eval)
  ultimately show ?thesis using ex_reach(1) rows
    by (simp add: follows_def ex_follower_def ex_request_def one_frame_per_position_def boot_state_def get_or_def Let_def split: prod.splits)
qed

lemma ex_batch: "batch_of ex_log (replicate_frames ex_handler_io ex_request)"
proof -
  have "set (rq_wal_frame ex_request # rq_frames ex_request) = row_bytes ` set ex_log"
    using arg_cong [OF hd_Cons_tl [OF ex_log_linked(2)], of "\<lambda>xs. row_bytes ` set xs"] by (simp add: ex_request_def)
  then have "set (replicate_frames ex_handler_io ex_request) \<subseteq> {ex_io} \<times> row_bytes ` set ex_log"
    unfolding replicate_frames_def Let_def by (auto simp: ex_handler_io_def dest: set_zip_leftD set_zip_rightD)
  moreover have "sound_io ex_io" "torn_within ex_io n" for n by (simp_all add: ex_io_def sound_io_def torn_within_def)
  ultimately show ?thesis unfolding batch_of_def by fast
qed


end
