(* ===== verification/Backlog.thy ===== *)
theory Backlog
  imports Replicate
begin

text \<open>
  How a leader reads its own log newer for a replica that is behind: \<^verbatim>\<open>read_frames_after\<close> of
  \<^verbatim>\<open>src/src/storage/wal.rs\<close>, which answers from the positions of the newest frames when it can and scans the
  WAL files otherwise. Which files a compaction has retired, before and after the read, and which files
  open are arguments.
\<close>

section \<open>Reading frames back\<close>

record read_io =
  ri_retired :: nat
  ri_retired_after :: nat
  ri_opens :: "nat \<Rightarrow> bool"

definition read_frame_at :: "checksum \<Rightarrow> read_io \<Rightarrow> frame_spot \<Rightarrow> 'n collection \<Rightarrow> (io_error, u8 list) result" where
  "read_frame_at crc io spot c =
     (if fs_wal_id spot \<le> ri_retired io \<or> \<not> ri_opens io (fs_wal_id spot) then Err NotFound
      else (let bytes = drop (fs_offset spot) (file_of (fs_wal_id spot) (dk_files (co_disk c)))
            in case fh_parse bytes of
                 None \<Rightarrow> Err InvalidData
               | Some h \<Rightarrow>
                   if fh_lsn h \<noteq> fs_lsn spot \<or> fh_term h \<noteq> fs_term spot \<or> fh_len h = 0 \<or> fh_len h > MAX_RECORD_SIZE then Err InvalidData
                   else if length bytes < HEADER_LEN + fh_len h then Err IoFailed
                   else (let frame = take (HEADER_LEN + fh_len h) bytes
                         in if payload_valid crc h (drop HEADER_LEN frame) then Ok frame else Err InvalidData)))"

fun read_spots :: "checksum \<Rightarrow> read_io \<Rightarrow> frame_spot list \<Rightarrow> 'n collection \<Rightarrow> (nat \<times> u8 list) list option" where
  "read_spots crc io [] c = Some []"
| "read_spots crc io (spot # spots) c =
     (if fs_wal_id spot \<le> ri_retired io then None
      else (case read_frame_at crc io spot c of
              Err _ \<Rightarrow> None
            | Ok frame \<Rightarrow> map_option (\<lambda>out. (fs_lsn spot, frame) # out) (read_spots crc io spots c)))"

definition read_recent_frames :: "checksum \<Rightarrow> read_io \<Rightarrow> nat \<Rightarrow> nat \<Rightarrow> 'n collection \<Rightarrow> (nat \<times> u8 list) list option" where
  "read_recent_frames crc io after_lsn up_to_lsn c =
     (case rf_range after_lsn up_to_lsn (co_recent c) of
        None \<Rightarrow> None
      | Some spots \<Rightarrow>
          (case read_spots crc io spots c of
             None \<Rightarrow> None
           | Some out \<Rightarrow> if ri_retired_after io = ri_retired io then Some out else None))"

text \<open>One file: the position its last whole frame ends at, and its frames in the range, by sequence number.\<close>

function scan_file :: "checksum \<Rightarrow> nat \<Rightarrow> nat \<Rightarrow> nat \<Rightarrow> u8 list \<Rightarrow> (nat \<times> u8 list) list \<Rightarrow> nat \<times> (nat \<times> u8 list) list" where
  "scan_file crc after_lsn up_to_lsn offset bytes out =
     (case next_frame crc bytes of
        None \<Rightarrow> (offset, out)
      | Some (h, payload, rest) \<Rightarrow>
          scan_file crc after_lsn up_to_lsn (offset + HEADER_LEN + fh_len h) rest
            (if after_lsn < fh_lsn h \<and> fh_lsn h \<le> up_to_lsn then bm_insert cmp_lin (fh_lsn h) (take HEADER_LEN bytes @ payload) out else out))"
  by pat_completeness auto
termination by (relation "measure (\<lambda>(_, _, _, _, bytes, _). length bytes)") (auto dest: next_frame_shorter)

declare scan_file.simps [simp del]

fun scan_files ::
  "checksum \<Rightarrow> read_io \<Rightarrow> nat \<Rightarrow> nat \<Rightarrow> nat \<Rightarrow> (nat \<times> u8 list) list \<Rightarrow> (nat \<times> u8 list) list \<Rightarrow> (io_error, (nat \<times> u8 list) list) result" where
  "scan_files crc io after_lsn up_to_lsn active [] out = Ok out"
| "scan_files crc io after_lsn up_to_lsn active ((wid, bytes) # files) out =
     (if \<not> ri_opens io wid then Err InvalidData
      else (case scan_file crc after_lsn up_to_lsn 0 bytes out of
              (offset, out') \<Rightarrow>
                if offset < length bytes \<and> wid \<noteq> active then Err InvalidData
                else scan_files crc io after_lsn up_to_lsn active files out'))"

definition scan_frames_after :: "checksum \<Rightarrow> read_io \<Rightarrow> nat \<Rightarrow> nat \<Rightarrow> 'n collection \<Rightarrow> (io_error, (nat \<times> u8 list) list) result" where
  "scan_frames_after crc io after_lsn up_to_lsn c =
     (let wal_files = filter (\<lambda>(wid, _). ri_retired io < wid) (dk_files (co_disk c));
          active = (if wal_files = [] then 0 else fst (last wal_files))
      in case scan_files crc io after_lsn up_to_lsn active wal_files [] of
           Err e \<Rightarrow> Err e
         | Ok out \<Rightarrow> if ri_retired_after io \<noteq> ri_retired io then Err InvalidData else Ok out)"

definition read_frames_after :: "checksum \<Rightarrow> read_io \<Rightarrow> nat \<Rightarrow> nat \<Rightarrow> 'n collection \<Rightarrow> (io_error, (nat \<times> u8 list) list) result" where
  "read_frames_after crc io after_lsn up_to_lsn c =
     (case read_recent_frames crc io after_lsn up_to_lsn c of
        Some frames \<Rightarrow> Ok frames
      | None \<Rightarrow> scan_frames_after crc io after_lsn up_to_lsn c)"

section \<open>The full scan\<close>

definition sent_rows :: "nat \<Rightarrow> nat \<Rightarrow> row list \<Rightarrow> (nat \<times> u8 list) list" where
  "sent_rows after_lsn up_to_lsn rs = map (\<lambda>r. (rw_lsn r, row_bytes r)) (filter (\<lambda>r. after_lsn < rw_lsn r \<and> rw_lsn r \<le> up_to_lsn) rs)"

lemma sent_rows_simps [simp]:
  "sent_rows a b [] = []" "sent_rows a b (rs @ rs') = sent_rows a b rs @ sent_rows a b rs'"
  "sent_rows a b (r # rs) = (if a < rw_lsn r \<and> rw_lsn r \<le> b then (rw_lsn r, row_bytes r) # sent_rows a b rs else sent_rows a b rs)"
  by (simp_all add: sent_rows_def)

lemma sent_rows_below: "(l, f) \<in> set (sent_rows a b rs) \<Longrightarrow> \<exists>r\<in>set rs. l = rw_lsn r \<and> f = row_bytes r"
  by (auto simp: sent_rows_def)

lemma frame_taken:
  assumes "next_frame crc bytes = Some (h, p, rest)"
  shows "take HEADER_LEN bytes @ p = frame_bytes (h, p)" "take (HEADER_LEN + fh_len h) bytes = frame_bytes (h, p)"
proof -
  have nf: "fh_parse bytes = Some h" "HEADER_LEN + fh_len h \<le> length bytes" "p = slice HEADER_LEN (HEADER_LEN + fh_len h) bytes"
    using assms by (simp_all add: next_frame_Some_iff)
  show a: "take HEADER_LEN bytes @ p = frame_bytes (h, p)" using parse_fits(2) [OF nf(1)] by (simp add: frame_bytes_def)
  have "take (HEADER_LEN + fh_len h) bytes = take HEADER_LEN bytes @ p" by (simp add: nf(3) slice_def take_add)
  then show "take (HEADER_LEN + fh_len h) bytes = frame_bytes (h, p)" using a by simp
qed

lemma scan_file_rows:
  assumes "sorted_wrt (\<lambda>a b. rw_lsn a < rw_lsn b) (seen @ wal_rows crc wid off bytes)"
  shows "scan_file crc a b off bytes (sent_rows a b seen) =
    (case wal_rows crc wid off bytes of [] \<Rightarrow> off | rs \<Rightarrow> rw_end (last rs), sent_rows a b (seen @ wal_rows crc wid off bytes))"
  using assms
proof (induction crc wid off bytes arbitrary: seen rule: wal_rows.induct)
  case (1 crc wid off bytes)
  show ?case
  proof (cases "next_frame crc bytes")
    case None
    then show ?thesis by (simp add: scan_file.simps wal_rows_None)
  next
    case (Some x)
    then obtain h p rest where nf: "next_frame crc bytes = Some (h, p, rest)" by (cases x) auto
    let ?r = "\<lparr>rw_wal_id = wid, rw_offset = off, rw_head = h, rw_payload = p\<rparr>"
    have srt: "sorted_wrt (\<lambda>a b. rw_lsn a < rw_lsn b) ((seen @ [?r]) @ wal_rows crc wid (off + HEADER_LEN + fh_len h) rest)"
      using 1(2) nf by (simp add: wal_rows_Some)
    have ins: "(if a < fh_lsn h \<and> fh_lsn h \<le> b then bm_insert cmp_lin (fh_lsn h) (take HEADER_LEN bytes @ p) (sent_rows a b seen) else sent_rows a b seen)
        = sent_rows a b (seen @ [?r])"
      using srt bm_insert_top [of "sent_rows a b seen" "fh_lsn h"] sent_rows_below [of _ _ a b seen] frame_taken(1) [OF nf]
      by (fastforce simp: row_bytes_def sorted_wrt_append)
    show ?thesis using 1(1) [OF nf refl refl srt] nf ins
      by (subst scan_file.simps) (auto simp: wal_rows_Some rw_end_def wal_rows_None split: list.splits)
  qed
qed

lemma rows_end: "(case wal_rows crc wid 0 bytes of [] \<Rightarrow> 0 | rs \<Rightarrow> rw_end (last rs)) = valid_len crc bytes"
  using rows_shift [of crc wid 0 0 bytes 0] by (auto simp: valid_len_def rw_end_def last_map split: list.splits)

lemma scan_files_rows:
  assumes "sorted_wrt (\<lambda>a b. rw_lsn a < rw_lsn b) (seen @ log_rows crc files)"
    "scan_files crc io a b active files (sent_rows a b seen) = Ok out"
  shows "out = sent_rows a b (seen @ log_rows crc files)"
  using assms
proof (induction files arbitrary: seen)
  case (Cons fl files)
  obtain wid bytes where fl: "fl = (wid, bytes)" by fastforce
  have srt: "sorted_wrt (\<lambda>a b. rw_lsn a < rw_lsn b) (seen @ wal_rows crc wid 0 bytes)"
    "sorted_wrt (\<lambda>a b. rw_lsn a < rw_lsn b) ((seen @ wal_rows crc wid 0 bytes) @ log_rows crc files)"
    using Cons.prems(1) by (auto simp: fl log_rows_def sorted_wrt_append)
  then show ?case using Cons.prems(2) Cons.IH [OF srt(2)] scan_file_rows [OF srt(1), of a b]
    by (auto simp: fl log_rows_def split: if_splits)
qed (simp add: log_rows_def)

section \<open>The newest frames\<close>

definition spot_of :: "row \<Rightarrow> frame_spot" where
  "spot_of r = \<lparr>fs_lsn = rw_lsn r, fs_term = rw_term r, fs_wal_id = rw_wal_id r, fs_offset = rw_offset r\<rparr>"

lemma spot_of_lsn [simp]: "fs_lsn (spot_of r) = rw_lsn r"
  by (simp add: spot_of_def)

text \<open>Every frame above the floor, through the tail, is held with its position.\<close>

definition recent_ok :: "row list \<Rightarrow> recent_frames \<Rightarrow> bool" where
  "recent_ok rs f = (rf_spots f = map spot_of (rows_past (rf_floor f) rs) \<and> rf_floor f \<le> fst (tail_of (0, 0) rs))"

lemma recent_pushed:
  assumes "linked 0 0 (rs @ [x])" "recent_ok rs f"
  shows "recent_ok (rs @ [x]) (rf_push (spot_of x) f)"
proof -
  let ?ps = "rows_past (rf_floor f) rs"
  have srt: "sorted_wrt (\<lambda>a b. rw_lsn a < rw_lsn b) rs" "\<forall>r\<in>set rs. rw_lsn r < rw_lsn x" "fst (tail_of (0, 0) rs) < rw_lsn x"
    using sorted_rows [OF assms(1)] assms(1) by (auto simp: sorted_wrt_append linked_append)
  have ps: "set ?ps \<subseteq> set rs" "sorted_wrt (\<lambda>a b. rw_lsn a < rw_lsn b) ?ps" using srt(1) by (auto simp: rows_past_def sorted_wrt_filter)
  have fl: "rf_floor f < rw_lsn x" using assms(2) srt(3) by (simp add: recent_ok_def)
  have newer: "\<not> (?ps \<noteq> [] \<and> rw_lsn x \<le> rw_lsn (last ?ps))" using ps(1) srt(2) by (metis last_in_set not_less subsetD)
  show ?thesis
  proof (cases "length ?ps = RECENT_FRAMES")
    case True
    then obtain y ys where ys: "?ps = y # ys" by (cases ?ps) (auto simp: RECENT_FRAMES_def)
    have "rows_past (rw_lsn y) ?ps = ys" using ps(2) unfolding ys by (auto simp: rows_past_def filter_id_conv)
    moreover have "rf_floor f < rw_lsn y" "rw_lsn y < rw_lsn x" using ys ps(1) srt(2) by (auto simp: rows_past_def filter_eq_Cons_iff)
    ultimately have "rows_past (rw_lsn y) rs = ys" by (auto simp: rows_past_def intro: filter_cong)
    then show ?thesis using assms(2) newer True ys \<open>rw_lsn y < rw_lsn x\<close>
      by (auto simp: recent_ok_def rf_push_def rows_past_def last_map)
  next
    case False
    then show ?thesis using assms(2) newer fl by (auto simp: recent_ok_def rf_push_def rows_past_def last_map)
  qed
qed

lemma cut_spots:
  "sorted_wrt (\<lambda>a b. rw_lsn a < rw_lsn b) ps \<Longrightarrow> rev (dropWhile (\<lambda>s. l < fs_lsn s) (rev (map spot_of ps))) = map spot_of (rows_to l ps)"
proof (induction ps rule: rev_induct)
  case (snoc x ps)
  show ?case
  proof (cases "l < rw_lsn x")
    case False
    then have "\<forall>r\<in>set ps. rw_lsn r \<le> l" using snoc.prems by (force simp: sorted_wrt_append)
    then show ?thesis using False by (simp add: rows_to_def filter_id_conv)
  qed (use snoc in \<open>simp add: sorted_wrt_append rows_to_def\<close>)
qed simp

lemma recent_cut:
  assumes "linked 0 0 rs" "recent_ok rs f" "fst (tail_of (0, 0) (rows_to l rs)) = l"
  shows "recent_ok (rows_to l rs) (rf_cut l f)"
proof -
  have "sorted_wrt (\<lambda>a b. rw_lsn a < rw_lsn b) (rows_past (rf_floor f) rs)" using sorted_rows [OF assms(1)] by (simp add: rows_past_def sorted_wrt_filter)
  note k = cut_spots [OF this, of l]
  have "rows_to l (rows_past (rf_floor f) rs) = rows_past (min (rf_floor f) l) (rows_to l rs)" by (auto simp: rows_to_def rows_past_def intro: filter_cong)
  then show ?thesis using assms(2,3) k by (simp add: recent_ok_def rf_cut_def)
qed

lemma recent_parts:
  "record_watermark_once pio c = (r0, c') \<Longrightarrow> co_recent c' = co_recent c" "rewind_index_tail ok l t c = (r2, c') \<Longrightarrow> co_recent c' = co_recent c"
  "rotate_if_full io c = (r3, c') \<Longrightarrow> co_recent c' = co_recent c" "write_frame io bytes c = (r4, c') \<Longrightarrow> co_recent c' = co_recent c"
  "co_recent (drop_pending_above n c) = co_recent c"
proof -
  show "record_watermark_once pio c = (r0, c') \<Longrightarrow> co_recent c' = co_recent c" "rewind_index_tail ok l t c = (r2, c') \<Longrightarrow> co_recent c' = co_recent c"
    "rotate_if_full io c = (r3, c') \<Longrightarrow> co_recent c' = co_recent c" "write_frame io bytes c = (r4, c') \<Longrightarrow> co_recent c' = co_recent c"
    by (auto simp: record_watermark_once_def persist_watermark_full_def rewind_index_tail_def
        rotate_if_full_def write_frame_def open_next_wal_def write_file_def note_synced_def Let_def split: if_splits option.splits sum.splits prod.splits)
  have "co_recent (foldl (\<lambda>c (lsn, staged). release_staged (sa_effect staged) (c\<lparr>co_pending := bm_remove cmp_lin lsn (co_pending c)\<rparr>)) c xs) = co_recent c"
    for xs and c :: "'a collection" by (induction xs arbitrary: c) (simp_all add: release_staged_def split_beta)
  then show "co_recent (drop_pending_above n c) = co_recent c" by (simp add: drop_pending_above_def)
qed

lemma recent_appended:
  "co_recent (note_appended ev h e p w off c) = rf_push \<lparr>fs_lsn = fh_lsn h, fs_term = fh_term h, fs_wal_id = w, fs_offset = off\<rparr> (co_recent c)"
  "co_wal_id (note_appended ev h e p w off c) = co_wal_id c" "co_wal_size (note_appended ev h e p w off c) = off + HEADER_LEN + length p"
  "co_last_lsn (note_appended ev h e p w off c) = fh_lsn h" "co_last_term (note_appended ev h e p w off c) = fh_term h"
proof -
  have "co_recent (stage_appended ev l t e w off p x) = co_recent x \<and> co_wal_id (stage_appended ev l t e w off p x) = co_wal_id x \<and>
      co_wal_size (stage_appended ev l t e w off p x) = co_wal_size x \<and> co_last_lsn (stage_appended ev l t e w off p x) = co_last_lsn x \<and>
      co_last_term (stage_appended ev l t e w off p x) = co_last_term x" for l t and x :: "'a collection"
    using staged_of_state [of ev l t e w off p x] by (auto simp: stage_appended_def Let_def release_staged_def split: prod.splits option.splits)
  then show "co_recent (note_appended ev h e p w off c) = rf_push \<lparr>fs_lsn = fh_lsn h, fs_term = fh_term h, fs_wal_id = w, fs_offset = off\<rparr> (co_recent c)"
    "co_wal_id (note_appended ev h e p w off c) = co_wal_id c" "co_wal_size (note_appended ev h e p w off c) = off + HEADER_LEN + length p"
    "co_last_lsn (note_appended ev h e p w off c) = fh_lsn h" "co_last_term (note_appended ev h e p w off c) = fh_term h"
    by (simp_all add: note_appended_def)
qed

text \<open>The last row of a log ends where the current file does.\<close>

lemma tail_position:
  assumes "log_inv ev c" "0 < co_wal_size c" "disk_rows ev (co_disk c) = rs @ [x]"
  shows "rw_wal_id x = co_wal_id c" "rw_end x = co_wal_size c" "length (rw_payload x) = fh_len (rw_head x)"
proof -
  obtain b where b: "head_file (ev_crc ev) (co_wal_id c) b (dk_files (co_disk c))" "co_wal_size c = length b" using log_inv_head [OF assms(1)] by blast
  let ?ws = "wal_rows (ev_crc ev) (co_wal_id c) 0 b"
  have "log_rows (ev_crc ev) (upper (co_wal_id c) (dk_files (co_disk c))) = []"
    using head_split(2) [OF b(1)] by (fastforce simp: log_rows_def)
  then have tail: "disk_rows ev (co_disk c) = log_rows (ev_crc ev) (lower (co_wal_id c) (dk_files (co_disk c))) @ ?ws"
    by (subst head_split(1) [OF b(1)]) simp
  have ends: "(case ?ws of [] \<Rightarrow> 0 | rs \<Rightarrow> rw_end (last rs)) = length b" using rows_end [of "ev_crc ev" "co_wal_id c" b] b(1) by (simp add: head_file_def)
  then have ne: "?ws \<noteq> []" using b(2) assms(2) by auto
  then have "last ?ws = x" using tail assms(3) by (metis last_appendR last_snoc)
  then have x: "x \<in> set ?ws" "rw_end x = length b" using ne ends by (auto split: list.splits)
  then show "rw_end x = co_wal_size c" using b(2) by simp
  show "rw_wal_id x = co_wal_id c" using wal_rows_id [OF x(1)] by simp
  show "length (rw_payload x) = fh_len (rw_head x)" using rows_valid [OF x(1)] by (simp add: frame_ok_def)
qed

text \<open>A collection whose last step was to append the row \<open>x\<close> to the log \<open>rs\<close>.\<close>

lemma recent_grown:
  assumes inv: "log_inv ev c'" and rows: "disk_rows ev (co_disk c') = rs @ [x]" "rw_payload x = p" and ok: "recent_ok rs (co_recent b)"
    and new: "c' = note_appended ev h e p (co_wal_id b) (co_wal_size b) b"
  shows "recent_ok (disk_rows ev (co_disk c')) (co_recent c')"
proof -
  have pos: "0 < co_wal_size c'" by (simp add: new recent_appended(3) HEADER_LEN_def)
  note t = tail_position [OF inv pos rows(1)]
  have "fh_lsn h = rw_lsn x" "fh_term h = rw_term x" using log_inv_facts(1) [OF inv] rows(1) by (simp_all add: new recent_appended)
  then have "co_recent c' = rf_push (spot_of x) (co_recent b)" using t rows(2) by (simp add: new recent_appended spot_of_def rw_end_def)
  then show ?thesis using recent_pushed [OF _ ok, of x] disk_ok_facts(3) [OF log_inv_disk [OF inv]] rows(1) by simp
qed

lemma append_placed:
  assumes "co_fence c = None" "wal_append ev io entry term c = (r, c')"
  shows "isl r \<and> co_recent c' = co_recent c \<or>
    \<not> isl r \<and> (\<exists>h b. c' = note_appended ev h entry (ev_ser ev entry) (co_wal_id b) (co_wal_size b) b \<and> co_recent b = co_recent c)"
proof -
  obtain r1 c1 where once: "record_watermark_once (ap_meta io) c = (r1, c1)" by fastforce
  have heal: "heal_fenced_cut (ap_cut io) c1 = (Ok (), c1)"
    using once assms(1) by (auto simp: heal_fenced_cut_def record_watermark_once_def persist_watermark_full_def split: if_splits sum.splits)
  obtain r3 c3 where rot: "rotate_if_full io c1 = (r3, c3)" by fastforce
  note rc = recent_parts(1) [OF once] recent_parts(3) [OF rot]
  have w: "co_recent c4 = co_recent c" if "write_frame io bytes (c3\<lparr>co_db_next_lsn := n\<rparr>) = (r4, c4)" for bytes n r4 c4
    using recent_parts(4) [OF that] rc by simp
  show ?thesis using assms(2) rc
    by (fastforce simp: wal_append_def once heal rot Let_def split: if_splits sum.splits prod.splits dest: w)
qed

lemma recent_append:
  assumes inv: "log_inv ev c" "log_inv ev c'" and ok: "recent_ok (disk_rows ev (co_disk c)) (co_recent c)"
    and g: "grows ev r c c' (\<lambda>x. rw_payload x = ev_ser ev entry \<and> rw_term x = term)" and a: "wal_append ev io entry term c = (r, c')"
  shows "recent_ok (disk_rows ev (co_disk c')) (co_recent c')"
  using append_placed [OF log_inv_facts(11) [OF inv(1)] a]
proof (elim disjE conjE exE)
  assume "isl r" "co_recent c' = co_recent c"
  then show ?thesis using g ok by (cases r) (simp_all add: grows_def)
next
  fix h b assume b: "\<not> isl r" "c' = note_appended ev h entry (ev_ser ev entry) (co_wal_id b) (co_wal_size b) b" "co_recent b = co_recent c"
  then obtain x where x: "disk_rows ev (co_disk c') = disk_rows ev (co_disk c) @ [x]" "rw_payload x = ev_ser ev entry"
    using g by (cases r) (auto simp: grows_def)
  show ?thesis by (rule recent_grown [OF inv(2) x _ b(2)]) (simp add: b(3) ok)
qed

lemma recent_rewound:
  assumes "wal_rewind_to cio l t c = (r, c')"
  shows "co_recent c' = (if r = Ok (Some ()) then rf_cut l (co_recent c) else co_recent c)"
proof -
  obtain r1 c1 where tail: "rewind_index_tail (ct_rewind_index cio) l t c = (r1, c1)" by fastforce
  have cut: "co_recent c2 = (if r2 = Ok () then rf_cut (wc_prev_lsn wc) (co_recent x) else co_recent x)" if "apply_cut cio wc x = (r2, c2)" for wc r2 c2 and x :: "'a collection"
    using that by (auto simp: apply_cut_def shrink_wal_to_def split: if_splits option.splits sum.splits prod.splits)
  have "co_recent c2 = (if r2 = Ok () then rf_cut (wc_prev_lsn wc) (co_recent c) else co_recent c)"
    if "apply_cut cio wc (drop_pending_above n (c1\<lparr>co_disk := d\<rparr>)) = (r2, c2)" for wc n d r2 c2
    using cut [OF that] recent_parts(2) [OF tail] recent_parts(5) [of n "c1\<lparr>co_disk := d\<rparr>"] by simp
  then show ?thesis using assms tail recent_parts(2) [OF tail]
    by (fastforce simp: wal_rewind_to_def Let_def split: if_splits list.splits sum.splits prod.splits option.splits)
qed

lemma recent_placed:
  assumes inv: "log_inv ev c'" and ok: "recent_ok (disk_rows ev (co_disk c)) (co_recent c)" and rot: "rotate_if_full io c = (Ok (), b)"
    and place: "place_frame ev io h e p b = (r, c')" and g: "grows ev r c c' (\<lambda>x. rw_head x = h \<and> rw_payload x = p)"
  shows "recent_ok (disk_rows ev (co_disk c')) (co_recent c')"
proof -
  obtain r4 b' where w: "write_frame io (frame_bytes (h, p)) b = (r4, b')" by fastforce
  have rb: "co_recent b' = co_recent c" using recent_parts(4) [OF w] recent_parts(3) [OF rot] by simp
  show ?thesis
  proof (cases r4)
    case (Inl e)
    then have "r = Err e" "c' = b'" using place w by (auto simp: place_frame_def)
    then show ?thesis using g ok rb by (simp add: grows_def)
  next
    case (Inr u)
    then have c': "c' = note_appended ev h e p (co_wal_id b') (co_wal_size b') b'" "r = Ok ()" using place w by (auto simp: place_frame_def)
    then obtain x where x: "disk_rows ev (co_disk c') = disk_rows ev (co_disk c) @ [x]" "rw_payload x = p" using g by (auto simp: grows_def)
    show ?thesis by (rule recent_grown [OF inv x _ c'(1)]) (simp add: rb ok)
  qed
qed

lemma recent_linked:
  assumes inv: "steady ev m c" and io: "sound_io io" and ok: "recent_ok (disk_rows ev (co_disk c)) (co_recent c)"
    and agree: "l = co_applied_lsn c \<longrightarrow> tail_of (0, 0) (rows_to (co_applied_lsn c) (disk_rows ev (co_disk c))) = (l, t)"
    and le: "l \<le> co_last_lsn c"
    and link: "(if l < co_last_lsn c then wal_rewind_to (ap_cut io) l t c else (Ok (if t \<noteq> co_last_term c then None else Some ()), c)) = (r, c')"
  shows "recent_ok (disk_rows ev (co_disk c')) (co_recent c')"
  using link_found [OF inv io agree le link]
proof (elim disjE conjE)
  assume k: "r = Ok (Some ())" "disk_rows ev (co_disk c') = rows_to l (disk_rows ev (co_disk c))" "tail_of (0, 0) (rows_to l (disk_rows ev (co_disk c))) = (l, t)"
  show ?thesis
  proof (cases "l < co_last_lsn c")
    case True
    then have "co_recent c' = rf_cut l (co_recent c)" using recent_rewound [of "ap_cut io" l t c r c'] link k(1) by simp
    then show ?thesis using recent_cut [OF disk_ok_facts(3) [OF log_inv_disk [OF steady_inv [OF inv]]] ok] k by simp
  qed (use link ok in auto)
qed (use ok in simp)

lemma recent_frame:
  assumes inv: "steady ev m c" and ok: "recent_ok (disk_rows ev (co_disk c)) (co_recent c)"
    and io: "sound_io io" "\<forall>h. fh_parse bytes = Some h \<longrightarrow> torn_within io (fh_len h)"
    and guard: "frame_guard ev c bytes" and codec: "ev_de ev [] = None"
    and raw: "append_raw_frame ev io bytes c = (r, c')"
  shows "recent_ok (disk_rows ev (co_disk c')) (co_recent c')"
proof (cases "fh_parse bytes")
  case None
  then show ?thesis using raw ok by (auto simp: append_raw_frame_def)
next
  case h: (Some h)
  define p where "p = slice HEADER_LEN (HEADER_LEN + fh_len h) bytes"
  show ?thesis
  proof (cases "length bytes < HEADER_LEN + fh_len h \<or> \<not> payload_valid (ev_crc ev) h p \<or> ev_de ev p = None")
    case True
    then show ?thesis using raw ok h by (auto simp: append_raw_frame_def Let_def p_def [symmetric] split: if_splits)
  next
    case False
    then obtain entry where e: "HEADER_LEN + fh_len h \<le> length bytes" "payload_valid (ev_crc ev) h p" "ev_de ev p = Some entry" by auto
    obtain r1 c1 where once: "record_watermark_once (ap_meta io) c = (r1, c1)" by fastforce
    note o = once_kept [OF inv once] and fence = log_inv_facts(11) [OF steady_inv [OF steady_once [OF inv once]]]
    have ok1: "recent_ok (disk_rows ev (co_disk c1)) (co_recent c1)" using ok o(3) recent_parts(1) [OF once] by simp
    let ?stop = "r1 \<noteq> Ok () \<or> co_released c1 \<or> fh_lsn h \<le> co_last_lsn c1 \<and> (fh_lsn h \<le> co_applied_lsn c1 \<or> staged_term c1 (fh_lsn h) = Some (fh_term h)) \<or>
      co_last_lsn c1 < fh_prev_lsn h"
    show ?thesis
    proof (cases ?stop)
      case True
      from raw_quiet [OF h e(1) p_def e(2,3) once fence this raw] show ?thesis using ok1 by blast
    next
      case False
      then have go: "r1 = Ok ()" "\<not> co_released c1" "fh_prev_lsn h \<le> co_last_lsn c1" and news: "\<not> (fh_lsn h \<le> co_last_lsn c1 \<and> (fh_lsn h \<le> co_applied_lsn c1 \<or> staged_term c1 (fh_lsn h) = Some (fh_term h)))" by auto
      obtain r2 c2 where link: "(if fh_prev_lsn h < co_last_lsn c1 then wal_rewind_to (ap_cut io) (fh_prev_lsn h) (fh_prev_term h) c1
          else (Ok (if fh_prev_term h \<noteq> co_last_term c1 then None else Some ()), c1)) = (r2, c2)" by (metis prod.collapse)
      have agree: "fh_prev_lsn h = co_applied_lsn c1 \<longrightarrow>
          tail_of (0, 0) (rows_to (co_applied_lsn c1) (disk_rows ev (co_disk c1))) = (fh_prev_lsn h, fh_prev_term h)"
        using guard h o(3,4) by (simp add: frame_guard_def)
      note ok2 = recent_linked [OF o(1) io(1) ok1 agree go(3) link]
      note body = raw_body [where ev = ev and entry = entry, OF h e(1) p_def e(2,3) once [unfolded go(1)] go(2) fence news go(3) link, unfolded raw]
      show ?thesis
      proof (cases "r2 = Ok (Some ())")
        case False
        then show ?thesis using body ok2 link_found [OF o(1) io(1) agree go(3) link] by auto
      next
        case True
        then have k: "steady ev m c2" "co_last_lsn c2 = fh_prev_lsn h" "co_last_term c2 = fh_prev_term h" "dk_meta (co_disk c2) \<noteq> None"
          using link_found [OF o(1) io(1) agree go(3) link] o(2) go(1) by auto
        obtain r3 c3 where rot: "rotate_if_full io c2 = (r3, c3)" by fastforce
        show ?thesis
        proof (cases "r3 = Ok ()")
          case False
          then have "c3 = c2" using rotate_result [OF k(1) io(1) rot] by blast
          then show ?thesis using body True rot False ok2 by (cases r3) auto
        next
          case r3: True
          obtain r4 c4 where place: "place_frame ev io h entry p c3 = (r4, c4)" by fastforce
          have "steady ev m c4" "grows ev r4 c2 c4 (\<lambda>x. rw_head x = h \<and> rw_payload x = p)"
            using frame_placed [OF k(1) io(1) _ k(4) h e(1) p_def e(2,3) _ codec _ _ _ rot [unfolded r3] place] io(2) h guard k
            by (auto simp: frame_guard_def)
          then have "recent_ok (disk_rows ev (co_disk c4)) (co_recent c4)" using recent_placed [OF steady_inv ok2 rot [unfolded r3] place] by blast
          then show ?thesis using body True rot r3 place by (cases r4) auto
        qed
      qed
    qed
  qed
qed

lemma recent_opened:
  assumes "log_inv ev c" "open_collection ev fails clears n lt dl d0 = (Ok c, d)"
  shows "recent_ok (disk_rows ev (co_disk c)) (co_recent c)"
proof -
  have new: "co_recent c = rf_new (co_last_lsn c)" using assms(2) by (auto simp: open_collection_def Let_def split: sum.splits prod.splits if_splits)
  have "rows_past (co_last_lsn c) (disk_rows ev (co_disk c)) = []"
    using linked_tail [OF disk_ok_facts(3) [OF log_inv_disk [OF assms(1)]]] log_inv_facts(1) [OF assms(1)] by (intro rows_past_all(2)) (metis fst_conv)
  then show ?thesis using log_inv_facts(1) [OF assms(1)] by (metis recent_ok_def new rf_new_def recent_frames.select_convs fst_conv list.simps(8) order_refl)
qed

lemma recent_commit:
  assumes "apply_committed ev pio watched b c = (r, changes, c')"
  shows "co_recent c' = co_recent c"
proof -
  obtain ch n c1 where batch: "apply_batch (ev_f64 ev) watched b c = (ch, n, c1)" by (metis prod.collapse)
  have "co_recent c1 = co_recent c"
    using batch foldl_staged_form [of "ev_f64 ev" watched "[]" "c\<lparr>co_pending := filter (\<lambda>(l, _). b < l) (co_pending c)\<rparr>" "filter (\<lambda>(l, _). l \<le> b) (co_pending c)"]
    by (auto simp: apply_batch_def Let_def split: prod.splits)
  then show ?thesis using assms
    by (auto simp: apply_committed_def batch persist_watermark_def persist_watermark_full_def split: if_splits sum.splits prod.splits)
qed

lemma reach_recent:
  assumes "log_reach ev c" "ev_de ev [] = None"
  shows "recent_ok (disk_rows ev (co_disk c)) (co_recent c)"
  using assms
proof (induction rule: log_reach.induct)
  case (reach_first n lt dl c d)
  then show ?case using recent_opened [OF steady_inv [OF empty_directory [OF reach_first(1)]]] by blast
next
  case (reach_step c c')
  note st = reach_steady [OF reach_step.hyps(1) reach_step.prems]
  note inv = steady_inv [OF st] and inv' = steady_inv [OF log_step_keeps [OF reach_step.hyps(2) st reach_step.prems]]
  note ok = reach_step.IH [OF reach_step.prems]
  from reach_step.hyps(2) show ?case
  proof cases
    case (log_append io entry tm r)
    then show ?thesis using recent_append [OF inv inv' ok] append_keeps(2) [OF st] by blast
  next
    case (log_frame io bytes r')
    then show ?thesis using recent_frame [OF st ok] reach_step.prems by blast
  next
    case (log_commit b pio watched r'' changes)
    then show ?thesis using ok recent_commit [OF log_commit(2)] log_inv_commit(3) [OF inv log_commit] by simp
  next
    case (log_sync ok s)
    then show ?thesis using ok by (auto simp: sync_wal_def note_synced_def split: if_splits)
  next
    case (log_save l)
    then show ?thesis using ok by (auto simp: save_index_def Let_def split: prod.splits)
  next
    case (log_restart n lt dl d)
    then show ?thesis using recent_opened [OF inv'] by blast
  qed
qed

section \<open>Both readers\<close>

lemma range_rows:
  assumes "sorted_wrt (\<lambda>a b. rw_lsn a < rw_lsn b) rs"
  shows "takeWhile (\<lambda>s. fs_lsn s \<le> b) (dropWhile (\<lambda>s. fs_lsn s \<le> a) (map spot_of rs)) = map spot_of (filter (\<lambda>r. a < rw_lsn r \<and> rw_lsn r \<le> b) rs)"
  using assms
proof (induction rs)
  case (Cons r rs)
  have "takeWhile (\<lambda>s. fs_lsn s \<le> b) (map spot_of rs) = map spot_of (filter (\<lambda>r. rw_lsn r \<le> b) rs)"
    using Cons.prems by (induction rs) (force simp: filter_empty_conv)+
  moreover have "filter (\<lambda>r. a < rw_lsn r \<and> rw_lsn r \<le> b) rs = filter (\<lambda>r. rw_lsn r \<le> b) rs" if "a < rw_lsn r"
    using that Cons.prems by (intro filter_cong) auto
  moreover have "filter (\<lambda>r. a < rw_lsn r \<and> rw_lsn r \<le> b) rs = []" if "b < rw_lsn r"
    using that Cons.prems by (auto simp: filter_empty_conv)
  ultimately show ?case using Cons by (auto simp: not_le)
qed simp

lemma spot_read:
  assumes "log_inv ev c" "r \<in> set (disk_rows ev (co_disk c))"
  shows "read_frame_at (ev_crc ev) io (spot_of r) c = (if rw_wal_id r \<le> ri_retired io \<or> \<not> ri_opens io (rw_wal_id r) then Err NotFound else Ok (row_bytes r))"
proof -
  obtain b where b: "bm_get cmp_lin (dk_files (co_disk c)) (rw_wal_id r) = Some b" "r \<in> set (wal_rows (ev_crc ev) (rw_wal_id r) 0 b)"
    using row_in_file [OF disk_ok_facts(1) [OF log_inv_disk [OF assms(1)]] assms(2)] by blast
  then obtain rest where nf: "next_frame (ev_crc ev) (drop (rw_offset r) b) = Some (rw_head r, rw_payload r, rest)" using row_read [OF b(2)] by auto
  moreover have "drop HEADER_LEN (frame_bytes (rw_head r, p)) = p" for p by (simp add: frame_bytes_def HEADER_LEN_def)
  ultimately show ?thesis using b(1) frame_taken(2) [OF nf]
    by (auto simp: read_frame_at_def spot_of_def file_of_def next_frame_Some_iff slice_def row_bytes_def drop_take Let_def)
qed

lemma spots_read:
  assumes "log_inv ev c" "set rs \<subseteq> set (disk_rows ev (co_disk c))"
  shows "read_spots (ev_crc ev) io (map spot_of rs) c =
    (if \<forall>r\<in>set rs. ri_retired io < rw_wal_id r \<and> ri_opens io (rw_wal_id r) then Some (map (\<lambda>r. (rw_lsn r, row_bytes r)) rs) else None)"
  using assms(2)
proof (induction rs)
  case (Cons r rs)
  then show ?case using spot_read [OF assms(1), of r io] by (auto simp: spot_of_def)
qed simp

lemma recent_read:
  assumes "log_reach ev c" "ev_de ev [] = None"
  shows "read_recent_frames (ev_crc ev) io a b c = Some frames \<Longrightarrow> frames = sent_rows a b (disk_rows ev (co_disk c))"
    "rf_floor (co_recent c) \<le> a \<Longrightarrow> ri_retired_after io = ri_retired io \<Longrightarrow>
      (\<And>r. r \<in> set (disk_rows ev (co_disk c)) \<Longrightarrow> ri_retired io < rw_wal_id r \<and> ri_opens io (rw_wal_id r)) \<Longrightarrow> \<exists>frames. read_recent_frames (ev_crc ev) io a b c = Some frames"
proof -
  note inv = steady_inv [OF reach_steady [OF assms]] and ok = reach_recent [OF assms]
  let ?rs = "disk_rows ev (co_disk c)" and ?in = "\<lambda>r. a < rw_lsn r \<and> rw_lsn r \<le> b"
  have "sorted_wrt (\<lambda>a b. rw_lsn a < rw_lsn b) (rows_past (rf_floor (co_recent c)) ?rs)"
    using sorted_rows [OF disk_ok_facts(3) [OF log_inv_disk [OF inv]]] by (simp add: rows_past_def sorted_wrt_filter)
  moreover have "filter ?in (rows_past (rf_floor (co_recent c)) ?rs) = filter ?in ?rs" if "rf_floor (co_recent c) \<le> a"
    using that by (auto simp: rows_past_def intro!: filter_cong)
  ultimately have "rf_range a b (co_recent c) = (if a < rf_floor (co_recent c) then None else Some (map spot_of (filter ?in ?rs)))"
    using ok range_rows by (simp add: rf_range_def recent_ok_def)
  then have "read_recent_frames (ev_crc ev) io a b c =
    (if rf_floor (co_recent c) \<le> a \<and> (\<forall>r\<in>set (filter ?in ?rs). ri_retired io < rw_wal_id r \<and> ri_opens io (rw_wal_id r)) \<and> ri_retired_after io = ri_retired io
     then Some (sent_rows a b ?rs) else None)"
    using spots_read [OF inv, of "filter ?in ?rs" io] by (auto simp: read_recent_frames_def sent_rows_def)
  then show "read_recent_frames (ev_crc ev) io a b c = Some frames \<Longrightarrow> frames = sent_rows a b ?rs"
    "rf_floor (co_recent c) \<le> a \<Longrightarrow> ri_retired_after io = ri_retired io \<Longrightarrow>
      (\<And>r. r \<in> set ?rs \<Longrightarrow> ri_retired io < rw_wal_id r \<and> ri_opens io (rw_wal_id r)) \<Longrightarrow> \<exists>frames. read_recent_frames (ev_crc ev) io a b c = Some frames"
    by (auto split: if_splits)
qed

lemma scanned_read:
  assumes "log_reach ev c" "ev_de ev [] = None" "\<forall>(wid, _)\<in>set (dk_files (co_disk c)). ri_retired io < wid"
    "scan_frames_after (ev_crc ev) io a b c = Ok frames"
  shows "frames = sent_rows a b (disk_rows ev (co_disk c))"
proof -
  have all: "filter (\<lambda>(wid, _). ri_retired io < wid) (dk_files (co_disk c)) = dk_files (co_disk c)" using assms(3) by (auto simp: filter_id_conv)
  have srt: "sorted_wrt (\<lambda>a b. rw_lsn a < rw_lsn b) ([] @ disk_rows ev (co_disk c))"
    using sorted_rows [OF disk_ok_facts(3) [OF log_inv_disk [OF steady_inv [OF reach_steady [OF assms(1,2)]]]]] by simp
  show ?thesis using assms(4) scan_files_rows [OF srt] by (auto simp: scan_frames_after_def all Let_def split: sum.splits if_splits)
qed



end
