(* ===== verification/Precondition.thy ===== *)
theory Precondition
  imports Frame
begin

text \<open>
  \<^verbatim>\<open>src/src/api/precondition.rs\<close>: \<^verbatim>\<open>If-Match\<close> and \<^verbatim>\<open>If-None-Match\<close> on single-document writes. An entity tag is
  the version of a document in print, so a header names versions; a header that cannot be read is
  refused and never taken for no condition.
\<close>

section \<open>Conditions\<close>

record entity_tag =
  et_weak :: bool
  et_opaque :: string

datatype tags = AnyTag | TagList "entity_tag list"

record preconditions =
  pc_if_match :: "tags option"
  pc_if_none_match :: "tags option"

definition pc_none :: preconditions where
  "pc_none = \<lparr>pc_if_match = None, pc_if_none_match = None\<rparr>"

definition pc_is_empty :: "preconditions \<Rightarrow> bool" where
  "pc_is_empty p = (pc_if_match p = None \<and> pc_if_none_match p = None)"

text \<open>The tag of a version without its quotes.\<close>

definition opaque_of :: "version \<Rightarrow> string" where
  "opaque_of v = butlast (tl (etag v))"

definition pc_holds :: "preconditions \<Rightarrow> version option \<Rightarrow> bool" where
  "pc_holds p current =
     (let tag = map_option opaque_of current
      in (case pc_if_match p of
            None \<Rightarrow> True
          | Some ts \<Rightarrow> (case (ts, tag) of
                          (_, None) \<Rightarrow> False
                        | (AnyTag, Some _) \<Rightarrow> True
                        | (TagList xs, Some cur) \<Rightarrow> list_ex (\<lambda>t. \<not> et_weak t \<and> et_opaque t = cur) xs)) \<and>
         (case pc_if_none_match p of
            None \<Rightarrow> True
          | Some ts \<Rightarrow> \<not> (case (ts, tag) of
                            (_, None) \<Rightarrow> False
                          | (AnyTag, Some _) \<Rightarrow> True
                          | (TagList xs, Some cur) \<Rightarrow> list_ex (\<lambda>t. et_opaque t = cur) xs)))"

section \<open>Parsing\<close>

datatype tag_error = NotVisibleAscii | ExpectedTag | Unterminated | OutsideEtagc | NotSeparated | NoTag

definition blank :: "char \<Rightarrow> bool" where
  "blank c = (c = CHR '' '' \<or> c = CHR 0x09)"

definition quote :: char where "quote = CHR 0x22"

definition etagc :: "char \<Rightarrow> bool" where
  "etagc c = (let n = (of_char c :: nat) in n = 0x21 \<or> 0x23 \<le> n \<and> n \<le> 0x7E)"

function tags_loop :: "string \<Rightarrow> entity_tag list \<Rightarrow> (tag_error, entity_tag list) result" where
  "tags_loop text tags =
     (let rest = dropWhile (\<lambda>c. blank c \<or> c = CHR '','') text
      in if rest = [] then Ok tags
         else (let weak = starts_with rest ''W/'';
                   quoted = (if weak then drop 2 rest else rest)
               in case quoted of
                    [] \<Rightarrow> Err ExpectedTag
                  | q # body \<Rightarrow>
                      if q \<noteq> quote then Err ExpectedTag
                      else (let opaque = takeWhile (\<lambda>c. c \<noteq> quote) body
                            in if opaque = body then Err Unterminated
                               else if \<not> list_all etagc opaque then Err OutsideEtagc
                               else (let after = dropWhile blank (drop (length opaque + 1) body)
                                     in if after \<noteq> [] \<and> hd after \<noteq> CHR '','' then Err NotSeparated
                                        else tags_loop after (tags @ [\<lparr>et_weak = weak, et_opaque = opaque\<rparr>])))))"
  by pat_completeness auto
termination
proof (relation "measure (\<lambda>(text, _). length text)", goal_cases)
  case (2 s tags rest weak quoted q body opaque after)
  have "length rest \<le> length s" using 2(1) by (simp add: length_dropWhile_le)
  moreover have "length quoted \<le> length rest" using 2(4) by simp
  moreover have "length after \<le> length body" using length_dropWhile_le [of blank "drop (length opaque + 1) body"] by (simp add: \<open>after = dropWhile blank (drop (length opaque + 1) body)\<close>)
  ultimately show ?case using 2(5) by simp
qed simp

declare tags_loop.simps [simp del]

definition parse_tags :: "string \<Rightarrow> (tag_error, tags) result" where
  "parse_tags text =
     (if trim text = ''*'' then Ok AnyTag
      else (case tags_loop text [] of
              Err e \<Rightarrow> Err e
            | Ok tags \<Rightarrow> if tags = [] then Err NoTag else Ok (TagList tags)))"

definition visible_ascii :: "string \<Rightarrow> bool" where
  "visible_ascii s = list_all (\<lambda>c. let n = (of_char c :: nat) in 32 \<le> n \<and> n < 127 \<or> n = 9) s"

definition parse_header :: "string list \<Rightarrow> (tag_error, tags option) result" where
  "parse_header values =
     (if values = [] then Ok None
      else if \<not> list_all visible_ascii values then Err NotVisibleAscii
      else (case parse_tags (foldl (\<lambda>joined text. if joined = [] then text else joined @ '','' @ text) [] values) of
              Ok ts \<Rightarrow> Ok (Some ts)
            | Err e \<Rightarrow> Err e))"

definition from_headers :: "string list \<Rightarrow> string list \<Rightarrow> (tag_error, preconditions) result" where
  "from_headers if_match if_none_match =
     (case parse_header if_match of
        Err e \<Rightarrow> Err e
      | Ok m \<Rightarrow> (case parse_header if_none_match of
                   Err e \<Rightarrow> Err e
                 | Ok n \<Rightarrow> Ok \<lparr>pc_if_match = m, pc_if_none_match = n\<rparr>))"

section \<open>Versions in print\<close>

definition digit :: "char \<Rightarrow> bool" where
  "digit c = (48 \<le> (of_char c :: nat) \<and> (of_char c :: nat) \<le> 57)"

definition decimal :: "string \<Rightarrow> nat" where
  "decimal s = foldl (\<lambda>n c. n * 10 + (of_char c - 48)) 0 s"

lemma show_nat_decimal: "decimal (show_nat n) = n \<and> list_all digit (show_nat n) \<and> show_nat n \<noteq> []"
proof (induction n rule: show_nat.induct)
  case (1 n)
  have code: "of_char (char_of (48 + k) :: char) = 48 + k" if "k < 10" for k :: nat using that by (simp add: of_char_of)
  show ?case
  proof (cases "n < 10")
    case True
    then show ?thesis using code [of n] by (simp add: show_nat.simps [of n] decimal_def digit_def)
  next
    case False
    then show ?thesis using 1 code [of "n mod 10"] by (simp add: show_nat.simps [of n] decimal_def digit_def)
  qed
qed

lemma show_nat_inj: "show_nat a = show_nat b \<longleftrightarrow> a = b"
  by (metis show_nat_decimal)

lemma dotted_inj:
  assumes "list_all digit a" "list_all digit a'" "a @ ''.'' @ b = a' @ ''.'' @ b'"
  shows "a = a' \<and> b = b'"
proof -
  have dot: "takeWhile digit (x @ ''.'' @ y) = x" "dropWhile digit (x @ ''.'' @ y) = CHR ''.'' # y" if "list_all digit x" for x y
    using that by (auto simp: takeWhile_append dropWhile_append list_all_iff digit_def)
  show ?thesis using dot [OF assms(1)] dot [OF assms(2)] assms(3) by (metis list.inject)
qed

lemma opaque_eq: "opaque_of v = show_nat (v_term v) @ ''.'' @ show_nat (v_lsn v)"
  by (simp add: opaque_of_def etag_def butlast_append)

lemma opaque_inj: "opaque_of v = opaque_of w \<longleftrightarrow> v = w"
proof
  assume "opaque_of v = opaque_of w"
  then have "v_term v = v_term w \<and> v_lsn v = v_lsn w"
    using dotted_inj [of "show_nat (v_term v)" "show_nat (v_term w)"] show_nat_decimal show_nat_inj unfolding opaque_eq by blast
  then show "v = w" by (simp add: version.equality)
qed simp

lemma opaque_chars: "c \<in> set (opaque_of v) \<Longrightarrow> etagc c \<and> c \<noteq> quote \<and> graphic c"
proof -
  assume "c \<in> set (opaque_of v)"
  then have "digit c \<or> c = CHR ''.''" using show_nat_decimal by (auto simp: opaque_eq list_all_iff)
  then show ?thesis by (auto simp: digit_def etagc_def quote_def graphic_def Let_def)
qed

lemma etag_quoted: "etag v = quote # opaque_of v @ [quote]"
  by (simp add: opaque_eq etag_def quote_def)

lemma parse_etag: "parse_header [etag v] = Ok (Some (TagList [\<lparr>et_weak = False, et_opaque = opaque_of v\<rparr>]))"
proof -
  have gr: "\<forall>c\<in>set (etag v). graphic c" using opaque_chars by (auto simp: etag_quoted quote_def graphic_def)
  then have "visible_ascii (etag v)" by (auto simp: visible_ascii_def list_all_iff graphic_def Let_def)
  moreover have "trim (etag v) \<noteq> ''*''" using trim_graphic [OF gr] by (simp add: etag_quoted quote_def)
  moreover have "tags_loop (etag v) [] = Ok [\<lparr>et_weak = False, et_opaque = opaque_of v\<rparr>]"
  proof -
    have tw: "takeWhile (\<lambda>c. c \<noteq> quote) (opaque_of v @ [quote]) = opaque_of v" using opaque_chars by (simp add: takeWhile_append)
    have "list_all etagc (opaque_of v)" using opaque_chars by (auto simp: list_all_iff)
    moreover have "quote \<noteq> CHR '' ''" "quote \<noteq> CHR 0x09" "quote \<noteq> CHR '',''" "quote \<noteq> CHR ''W''" by (simp_all add: quote_def)
    ultimately show ?thesis
      by (simp add: tags_loop.simps [of "quote # opaque_of v @ [quote]"] tags_loop.simps [of "[]"] etag_quoted tw Let_def blank_def starts_with_def)
  qed
  ultimately show ?thesis by (simp add: parse_header_def parse_tags_def)
qed

lemma etag_condition:
  "\<exists>p. from_headers [etag v] [] = Ok p \<and> \<not> pc_is_empty p \<and> (\<forall>current. pc_holds p current \<longleftrightarrow> current = Some v)"
  "\<exists>p. from_headers [] [etag v] = Ok p \<and> \<not> pc_is_empty p \<and> (\<forall>current. pc_holds p current \<longleftrightarrow> current \<noteq> Some v)"
proof -
  have none: "parse_header [] = Ok None" by (simp add: parse_header_def)
  have "pc_holds \<lparr>pc_if_match = Some (TagList [\<lparr>et_weak = False, et_opaque = opaque_of v\<rparr>]), pc_if_none_match = None\<rparr> c \<longleftrightarrow> c = Some v"
    "pc_holds \<lparr>pc_if_match = None, pc_if_none_match = Some (TagList [\<lparr>et_weak = False, et_opaque = opaque_of v\<rparr>])\<rparr> c \<longleftrightarrow> c \<noteq> Some v" for c
    using opaque_inj by (cases c; auto simp: pc_holds_def)+
  then show "\<exists>p. from_headers [etag v] [] = Ok p \<and> \<not> pc_is_empty p \<and> (\<forall>current. pc_holds p current \<longleftrightarrow> current = Some v)"
    "\<exists>p. from_headers [] [etag v] = Ok p \<and> \<not> pc_is_empty p \<and> (\<forall>current. pc_holds p current \<longleftrightarrow> current \<noteq> Some v)"
    unfolding from_headers_def parse_etag none by (auto simp: pc_is_empty_def)
qed

text \<open>
  C40. The entity tag a client was given names that version and no other: sent back in \<^verbatim>\<open>If-Match\<close> it parses
  and holds exactly while the document is at that version, and in \<^verbatim>\<open>If-None-Match\<close> exactly while it is not.
\<close>

theorem etag_names_one_version:
  "(\<exists>p. from_headers [etag v] [] = Ok p \<and> (\<forall>current. pc_holds p current \<longleftrightarrow> current = Some v)) \<and>
   (\<exists>p. from_headers [] [etag v] = Ok p \<and> (\<forall>current. pc_holds p current \<longleftrightarrow> current \<noteq> Some v))"
  using etag_condition by blast

end
