(* ===== verification/Write.thy ===== *)
theory Write
  imports Replicate Precondition
begin

text \<open>
  The append half of \<^verbatim>\<open>src/src/api/write.rs\<close>, with the write operations of \<^verbatim>\<open>src/src/storage/collection.rs\<close>. What a
  write does under its key's lock is one step: the version it is judged by, the document a patch merges
  into and the append cannot be separated by another write to the key. Waiting for the sync and the
  replicas afterwards changes nothing of what was appended.
\<close>

section \<open>Operations\<close>

record write_io =
  wi_ts :: nat
  wi_append :: append_io

type_synonym appended = "u8 list \<times> nat \<times> nat \<times> nat"

definition put_with_expiry ::
  "'n env \<Rightarrow> write_io \<Rightarrow> string \<Rightarrow> 'n jvalue \<Rightarrow> nat option \<Rightarrow> nat \<Rightarrow> 'n collection \<Rightarrow> (io_error, appended) result \<times> 'n collection" where
  "put_with_expiry ev io key val expire_at term c = wal_append ev (wi_append io) (Put False key val (wi_ts io) expire_at) term c"

definition col_delete :: "'n env \<Rightarrow> write_io \<Rightarrow> string \<Rightarrow> nat \<Rightarrow> 'n collection \<Rightarrow> (io_error, appended) result \<times> 'n collection" where
  "col_delete ev io key term c = wal_append ev (wi_append io) (Del False key (wi_ts io)) term c"

definition migration_write ::
  "'n env \<Rightarrow> write_io \<Rightarrow> string \<Rightarrow> 'n jvalue option \<Rightarrow> nat \<Rightarrow> 'n collection \<Rightarrow> (io_error, appended) result \<times> 'n collection" where
  "migration_write ev io key val term c =
     wal_append ev (wi_append io)
       (case val of Some v \<Rightarrow> Put True key v (wi_ts io) None | None \<Rightarrow> Del True key (wi_ts io)) term c"

definition drop_marker :: "'n env \<Rightarrow> write_io \<Rightarrow> nat \<Rightarrow> 'n collection \<Rightarrow> (io_error, appended) result \<times> 'n collection" where
  "drop_marker ev io term c = wal_append ev (wi_append io) (Drop (wi_ts io)) term c"

definition col_configure :: "'n env \<Rightarrow> write_io \<Rightarrow> configuration \<Rightarrow> nat \<Rightarrow> 'n collection \<Rightarrow> (io_error, appended) result \<times> 'n collection" where
  "col_configure ev io config term c = wal_append ev (wi_append io) (Config config (wi_ts io)) term c"

definition record_handover :: "'n env \<Rightarrow> write_io \<Rightarrow> handover_record \<Rightarrow> nat \<Rightarrow> 'n collection \<Rightarrow> (io_error, appended) result \<times> 'n collection" where
  "record_handover ev io handover term c = wal_append ev (wi_append io) (Handover handover (wi_ts io)) term c"

definition define_index :: "'n env \<Rightarrow> write_io \<Rightarrow> index_change \<Rightarrow> nat \<Rightarrow> 'n collection \<Rightarrow> (io_error, appended) result \<times> 'n collection" where
  "define_index ev io change term c = wal_append ev (wi_append io) (Index change (wi_ts io)) term c"

definition set_ttl :: "'n env \<Rightarrow> write_io \<Rightarrow> nat option \<Rightarrow> nat \<Rightarrow> 'n collection \<Rightarrow> (io_error, appended) result \<times> 'n collection" where
  "set_ttl ev io ttl_secs term c = wal_append ev (wi_append io) (Ttl ttl_secs (wi_ts io)) term c"

section \<open>Writes under the key lock\<close>

datatype write_error = WriteFailed io_error | NotLeading | PreconditionFailed "version option"

record pending_write =
  pw_frame :: "u8 list"
  pw_term :: nat
  pw_lsn :: nat
  pw_existed :: bool

text \<open>A node without replication has no term to lose and appends under term 0.\<close>

record 'n writer =
  wr_repl :: "replication_state option"
  wr_col :: "'n collection"

definition append_term :: "replication_state option \<Rightarrow> (write_error, nat) result" where
  "append_term repl =
     (case repl of
        None \<Rightarrow> Ok 0
      | Some g \<Rightarrow> (case leader_term g of Some term \<Rightarrow> Ok term | None \<Rightarrow> Err NotLeading))"

definition kept_authority :: "replication_state option \<Rightarrow> nat \<Rightarrow> bool" where
  "kept_authority repl term = (case repl of None \<Rightarrow> True | Some g \<Rightarrow> still_leading g term)"

definition note_written ::
  "string \<Rightarrow> nat \<Rightarrow> bool \<Rightarrow> (io_error, appended) result \<times> 'n collection \<Rightarrow> 'n writer \<Rightarrow> (write_error, pending_write) result \<times> 'n writer" where
  "note_written col_name term existed res w =
     (case res of
        (Err e, c) \<Rightarrow> (Err (WriteFailed e), w\<lparr>wr_col := c\<rparr>)
      | (Ok (frame, _, _, lsn), c) \<Rightarrow>
          (Ok \<lparr>pw_frame = frame, pw_term = term, pw_lsn = lsn, pw_existed = existed\<rparr>,
           w\<lparr>wr_repl := map_option (st_note_leader_append col_name lsn) (wr_repl w), wr_col := c\<rparr>))"

definition local_write_inner ::
  "'n env \<Rightarrow> write_io \<Rightarrow> string \<Rightarrow> string \<Rightarrow> 'n jvalue option \<Rightarrow> nat option \<Rightarrow> bool \<Rightarrow> 'n writer \<Rightarrow> (write_error, pending_write) result \<times> 'n writer" where
  "local_write_inner ev io col_name key val expire_at migration w =
     (case append_term (wr_repl w) of
        Err e \<Rightarrow> (Err e, w)
      | Ok term \<Rightarrow>
          (let existed = exists_including_staged key (wr_col w);
               res = (if migration then migration_write ev io key val term (wr_col w)
                      else (case val of
                              Some v \<Rightarrow> put_with_expiry ev io key v expire_at term (wr_col w)
                            | None \<Rightarrow> col_delete ev io key term (wr_col w)))
           in note_written col_name term existed res w))"

definition local_write_with_origin ::
  "'n env \<Rightarrow> write_io \<Rightarrow> string \<Rightarrow> string \<Rightarrow> 'n jvalue option \<Rightarrow> nat option \<Rightarrow> bool \<Rightarrow> preconditions \<Rightarrow> 'n writer \<Rightarrow>
     (write_error, pending_write) result \<times> 'n writer" where
  "local_write_with_origin ev io col_name key val expire_at migration pre w =
     (let current = version_including_staged key (wr_col w)
      in if \<not> pc_is_empty pre \<and> \<not> pc_holds pre current then (Err (PreconditionFailed current), w)
         else local_write_inner ev io col_name key val expire_at migration w)"

definition effective_expiry :: "nat option \<Rightarrow> string \<Rightarrow> 'n collection \<Rightarrow> nat option" where
  "effective_expiry expire_at key c = (case expire_at of Some t \<Rightarrow> Some t | None \<Rightarrow> expire_at_including_staged key c)"

definition local_patch ::
  "'n env \<Rightarrow> write_io \<Rightarrow> string \<Rightarrow> string \<Rightarrow> 'n jvalue \<Rightarrow> nat option \<Rightarrow> preconditions \<Rightarrow> 'n writer \<Rightarrow>
     (write_error, pending_write option) result \<times> 'n writer" where
  "local_patch ev io col_name key patch expire_at pre w =
     (case get_including_staged_versioned ev key (wr_col w) of
        Err e \<Rightarrow> (Err (WriteFailed e), w)
      | Ok current \<Rightarrow>
          (let version = map_option snd current
           in if \<not> pc_is_empty pre \<and> \<not> pc_holds pre version then (Err (PreconditionFailed version), w)
              else (case current of
                      None \<Rightarrow> (Ok None, w)
                    | Some (doc, _) \<Rightarrow>
                        (case local_write_inner ev io col_name key (Some (merge_patch doc patch)) (effective_expiry expire_at key (wr_col w)) False w of
                           (Err e, w') \<Rightarrow> (Err e, w')
                         | (Ok p, w') \<Rightarrow> (Ok (Some p), w')))))"

text \<open>Drops, index definitions and expiry rules: one entry each, none of them conditional.\<close>

definition local_entry ::
  "(nat \<Rightarrow> 'n collection \<Rightarrow> (io_error, appended) result \<times> 'n collection) \<Rightarrow> string \<Rightarrow> 'n writer \<Rightarrow> (write_error, pending_write) result \<times> 'n writer" where
  "local_entry op col_name w =
     (case append_term (wr_repl w) of
        Err e \<Rightarrow> (Err e, w)
      | Ok term \<Rightarrow> note_written col_name term True (op term (wr_col w)) w)"

definition local_drop :: "'n env \<Rightarrow> write_io \<Rightarrow> string \<Rightarrow> 'n writer \<Rightarrow> (write_error, pending_write) result \<times> 'n writer" where
  "local_drop ev io = local_entry (drop_marker ev io)"

definition local_index_change :: "'n env \<Rightarrow> write_io \<Rightarrow> index_change \<Rightarrow> string \<Rightarrow> 'n writer \<Rightarrow> (write_error, pending_write) result \<times> 'n writer" where
  "local_index_change ev io change = local_entry (define_index ev io change)"

definition local_ttl_change :: "'n env \<Rightarrow> write_io \<Rightarrow> nat option \<Rightarrow> string \<Rightarrow> 'n writer \<Rightarrow> (write_error, pending_write) result \<times> 'n writer" where
  "local_ttl_change ev io ttl_secs = local_entry (set_ttl ev io ttl_secs)"

section \<open>What a write appends\<close>

text \<open>A node that can write: a reached collection, file operations that answer, room for one more sequence number.\<close>

definition writable :: "'n env \<Rightarrow> write_io \<Rightarrow> 'n writer \<Rightarrow> bool" where
  "writable ev io w = (log_reach ev (wr_col w) \<and> \<not> co_released (wr_col w) \<and> sound_io (wi_append io) \<and> co_db_next_lsn (wr_col w) + 1 < 2 ^ 64 \<and>
     (\<forall>g. wr_repl w = Some g \<longrightarrow> rs_term g < 2 ^ 64))"

definition codec_ok :: "'n env \<Rightarrow> 'n log_entry \<Rightarrow> bool" where
  "codec_ok ev e = (ev_de ev [] = None \<and> ev_de ev (ev_ser ev e) = Some e)"

definition write_entry :: "write_io \<Rightarrow> string \<Rightarrow> 'n jvalue option \<Rightarrow> nat option \<Rightarrow> bool \<Rightarrow> 'n log_entry" where
  "write_entry io key val ex mig =
     (case val of Some v \<Rightarrow> Put mig key v (wi_ts io) (if mig then None else ex) | None \<Rightarrow> Del mig key (wi_ts io))"

lemma append_logged:
  assumes c: "log_reach ev c" "codec_ok ev entry" and io: "sound_io io" "term < 2 ^ 64" "co_db_next_lsn c + 1 < 2 ^ 64"
    and a: "wal_append ev io entry term c = (Ok (frame, wid, off, lsn), c')"
  shows "log_reach ev c'" "co_released c' = co_released c" "co_last_lsn c < lsn"
    "documents ev (disk_rows ev (co_disk c')) = doc_change \<lparr>v_term = term, v_lsn = lsn\<rparr> entry (documents ev (disk_rows ev (co_disk c)))"
proof -
  have de: "ev_de ev [] = None" "ev_de ev (ev_ser ev entry) = Some entry" "ev_ser ev entry \<noteq> []" using c(2) by (auto simp: codec_ok_def)
  have last: "co_last_lsn c' = lsn" "ap_write io = None"
    using a by (auto simp: wal_append_def write_frame_def tails_parts(7) Let_def split: if_splits sum.splits prod.splits option.splits)
  have torn: "torn_within io (length (ev_ser ev entry))" by (simp add: torn_within_def last(2))
  note st = reach_steady [OF c(1) de(1)]
  show r: "log_reach ev c'" by (rule reach_step [OF c(1) log_append [OF io(1) torn de(2,3) io(2,3) a]])
  show "co_released c' = co_released c" by (rule append_quiet(2) [OF a log_inv_facts(11) [OF steady_inv [OF st]]])
  obtain x where x: "disk_rows ev (co_disk c') = disk_rows ev (co_disk c) @ [x]" "rw_payload x = ev_ser ev entry" "rw_term x = term"
    using append_keeps(2) [OF st io(1) torn de(2,3) io(2,3) a] by (auto simp: grows_def)
  note inv' = steady_inv [OF reach_steady [OF r de(1)]]
  have "rw_lsn x = lsn" using log_inv_facts(1) [OF inv'] last(1) x(1) by simp
  moreover have "linked 0 0 (disk_rows ev (co_disk c) @ [x])" using disk_ok_facts(3) [OF log_inv_disk [OF inv']] x(1) by simp
  ultimately show "co_last_lsn c < lsn" using log_inv_facts(1) [OF steady_inv [OF st]] by (auto simp: linked_append dest: arg_cong [of _ _ fst])
  show "documents ev (disk_rows ev (co_disk c')) = doc_change \<lparr>v_term = term, v_lsn = lsn\<rparr> entry (documents ev (disk_rows ev (co_disk c)))"
    using x \<open>rw_lsn x = lsn\<close> de(2) by (simp add: documents_snoc row_change_def)
qed

lemma staged_version:
  assumes "log_inv ev c"
  shows "version_including_staged key c = map_option snd (documents ev (disk_rows ev (co_disk c)) key)"
proof -
  obtain ch n c1 where batch: "apply_batch (ev_f64 ev) False (co_last_lsn c) c = (ch, n, c1)" by (metis prod.collapse)
  have le: "\<forall>(l, _)\<in>set (co_pending c). l \<le> co_last_lsn c" using pending_le_tail(1) [OF assms] by auto
  note i = log_inv_batch [OF assms le_refl batch]
  have all: "rows_to (co_applied_lsn c1) (disk_rows ev (co_disk c)) = disk_rows ev (co_disk c)"
    using linked_tail [OF disk_ok_facts(3) [OF log_inv_disk [OF assms]]] log_inv_facts(1) [OF assms] i(2)
    by (intro rows_to_all(1)) (metis fst_conv max.cobounded2 order_trans)
  have "lg_docs (logical ev (disk_rows ev (co_disk c))) key = map_option strip (bm_get str_cmp (cs_index (co_com c1)) key)"
    using arg_cong [OF log_inv_facts(6) [OF i(1)], of lg_docs] unfolding i(3) all by (simp add: cview_def docs_at_def fun_eq_iff)
  then have loc: "located ev (disk_rows ev (co_disk c)) key (map_option strip (bm_get str_cmp (cs_index (co_com c1)) key)) (documents ev (disk_rows ev (co_disk c)) key)"
    using documents_located [of ev "disk_rows ev (co_disk c)" key] by simp
  have "version_including_staged key c = map_option ie_version (bm_get str_cmp (cs_index (co_com c1)) key)"
    using staged_lookup(1) [OF le, where f = "ev_f64 ev" and w = False and key = key] batch
    by (auto simp: version_including_staged_def split: option.splits)
  moreover have "ie_version e = \<lparr>v_term = rw_term r, v_lsn = rw_lsn r\<rparr>" if "strip e = row_entry r ts ex" for e r ts ex
    using that by (cases e) (simp add: strip_def row_entry_def ie_version_def)
  ultimately show ?thesis using loc by (auto simp: located_def split: option.splits)
qed

lemma version_in_log:
  assumes "log_inv ev c" "version_including_staged key c = Some v"
  shows "v_lsn v \<le> co_last_lsn c"
proof -
  have "documents ev rs key = Some (val, v) \<Longrightarrow> \<exists>r\<in>set rs. rw_lsn r = v_lsn v" for rs val
    using documents_located [of ev rs key] by (auto simp: located_def split: option.splits)
  then show ?thesis using assms(2) held_staged(1) [OF assms(1)] unfolding staged_version [OF assms(1)] by fastforce
qed

lemma inner_logged:
  assumes w: "writable ev io w" "codec_ok ev (write_entry io key val ex mig)" and a: "local_write_inner ev io col_name key val ex mig w = (Ok p, w')"
  shows "log_reach ev (wr_col w')" "\<not> co_released (wr_col w')" "co_last_lsn (wr_col w) < pw_lsn p"
    "documents ev (disk_rows ev (co_disk (wr_col w'))) key = map_option (\<lambda>v. (v, \<lparr>v_term = pw_term p, v_lsn = pw_lsn p\<rparr>)) val"
proof -
  obtain trm where t: "append_term (wr_repl w) = Ok trm" using a by (auto simp: local_write_inner_def split: sum.splits)
  then have b: "trm < 2 ^ 64" using w(1) by (auto simp: append_term_def leader_term_def writable_def split: option.splits if_splits)
  obtain res c where ap: "wal_append ev (wi_append io) (write_entry io key val ex mig) trm (wr_col w) = (res, c)" by fastforce
  have "(if mig then migration_write ev io key val trm (wr_col w)
      else (case val of Some v \<Rightarrow> put_with_expiry ev io key v ex trm (wr_col w) | None \<Rightarrow> col_delete ev io key trm (wr_col w))) = (res, c)"
    using ap by (auto simp: migration_write_def put_with_expiry_def col_delete_def write_entry_def split: option.splits)
  then have n: "note_written col_name trm (exists_including_staged key (wr_col w)) (res, c) w = (Ok p, w')"
    using a t by (simp add: local_write_inner_def Let_def)
  then obtain frame wid off lsn where r: "res = Ok (frame, wid, off, lsn)" "pw_term p = trm" "pw_lsn p = lsn" "wr_col w' = c"
    by (auto simp: note_written_def split: sum.splits)
  have k: "log_reach ev (wr_col w)" "sound_io (wi_append io)" "co_db_next_lsn (wr_col w) + 1 < 2 ^ 64" "\<not> co_released (wr_col w)" using w(1) by (auto simp: writable_def)
  note l = append_logged [OF k(1) w(2) k(2) b k(3) ap [unfolded r(1)]]
  show "log_reach ev (wr_col w')" "\<not> co_released (wr_col w')" "co_last_lsn (wr_col w) < pw_lsn p" using l k(4) r by simp_all
  show "documents ev (disk_rows ev (co_disk (wr_col w'))) key = map_option (\<lambda>v. (v, \<lparr>v_term = pw_term p, v_lsn = pw_lsn p\<rparr>)) val"
    unfolding r(2,3,4) l(4) write_entry_def by (cases val) simp_all
qed

text \<open>
  C10. Optimistic concurrency loses no update: a write sent with the entity tag the client read succeeds only
  if the key's latest version, uncommitted writes included, is still that one, and once it has
  succeeded every other write that names the same tag is refused with the version now current.
\<close>

theorem conditional_writes_lose_no_update:
  assumes "writable ev io w" "codec_ok ev (write_entry io key val ex mig)" "from_headers [etag v] [] = Ok pre"
    "local_write_with_origin ev io col_name key val ex mig pre w = (Ok p, w')"
  shows "version_including_staged key (wr_col w) = Some v \<and>
    local_write_with_origin ev io' col_name key val' ex' mig' pre w' =
      (Err (PreconditionFailed (map_option (\<lambda>_. \<lparr>v_term = pw_term p, v_lsn = pw_lsn p\<rparr>) val)), w')"
proof -
  have pre: "\<not> pc_is_empty pre" "pc_holds pre current \<longleftrightarrow> current = Some v" for current using etag_condition(1) [of v] assms(3) by auto
  have before: "version_including_staged key (wr_col w) = Some v" "local_write_inner ev io col_name key val ex mig w = (Ok p, w')"
    using assms(4) pre by (auto simp: local_write_with_origin_def Let_def split: if_splits)
  note l = inner_logged [OF assms(1,2) before(2)]
  have de: "ev_de ev [] = None" "log_reach ev (wr_col w)" using assms(1,2) by (auto simp: codec_ok_def writable_def)
  have after: "version_including_staged key (wr_col w') = map_option (\<lambda>_. \<lparr>v_term = pw_term p, v_lsn = pw_lsn p\<rparr>) val"
    unfolding staged_version [OF steady_inv [OF reach_steady [OF l(1) de(1)]]] l(4) by (cases val) simp_all
  have "v_lsn v < pw_lsn p" using version_in_log [OF steady_inv [OF reach_steady [OF de(2,1)]] before(1)] l(3) by simp
  then have "map_option (\<lambda>_. \<lparr>v_term = pw_term p, v_lsn = pw_lsn p\<rparr>) val \<noteq> Some v" by (cases val) auto
  then show ?thesis using before(1) after pre by (simp add: local_write_with_origin_def Let_def)
qed

text \<open>
  C21. A patch is an atomic read-modify-write: when it answers, the new document is the patch merged into the
  latest one, uncommitted writes included, at the version the answer names; on a key with no document
  it appends nothing.
\<close>

theorem patch_merges_the_latest_document:
  assumes "writable ev io w" "\<forall>doc. codec_ok ev (write_entry io key (Some (merge_patch doc patch)) (effective_expiry ex key (wr_col w)) False)"
    "local_patch ev io col_name key patch ex pre w = (Ok out, w')"
  shows "case out of
      None \<Rightarrow> documents ev (disk_rows ev (co_disk (wr_col w))) key = None \<and> w' = w
    | Some p \<Rightarrow> \<exists>doc ver. documents ev (disk_rows ev (co_disk (wr_col w))) key = Some (doc, ver) \<and>
        documents ev (disk_rows ev (co_disk (wr_col w'))) key = Some (merge_patch doc patch, \<lparr>v_term = pw_term p, v_lsn = pw_lsn p\<rparr>)"
proof -
  have k: "log_reach ev (wr_col w)" "\<not> co_released (wr_col w)" "ev_de ev [] = None" using assms(1,2) by (auto simp: writable_def codec_ok_def)
  note st = reach_steady [OF k(1,3)]
  have get: "get_including_staged_versioned ev key (wr_col w) = Ok (documents ev (disk_rows ev (co_disk (wr_col w))) key)"
    using get_staged_documents [OF _ _ k(2)] st by (simp add: steady_def)
  show ?thesis
  proof (cases "documents ev (disk_rows ev (co_disk (wr_col w))) key")
    case None
    then show ?thesis using assms(3) get by (auto simp: local_patch_def Let_def split: if_splits)
  next
    case (Some dv)
    obtain doc ver where dv: "dv = (doc, ver)" by fastforce
    obtain p where p: "out = Some p" "local_write_inner ev io col_name key (Some (merge_patch doc patch)) (effective_expiry ex key (wr_col w)) False w = (Ok p, w')"
      using assms(3) get Some dv by (auto simp: local_patch_def Let_def split: if_splits sum.splits prod.splits)
    then show ?thesis using inner_logged(4) [OF assms(1) _ p(2)] assms(2) Some dv by simp
  qed
qed

section \<open>A run\<close>

text \<open>A client replaces document a, which it read at version 1.1; another patches it.\<close>

definition ex_writer :: "nat writer" where
  "ex_writer = \<lparr>wr_repl = None, wr_col = ex_staged\<rparr>"

definition ex_write_io :: write_io where
  "ex_write_io = \<lparr>wi_ts = 0, wi_append = ex_io\<rparr>"

lemma ex_writable: "writable ex_env ex_write_io ex_writer"
  using ex_reach(2) ex_next by (simp add: writable_def ex_writer_def ex_write_io_def sound_io_def ex_io_def)

lemma ex_writes:
  "version_including_staged ''a'' ex_staged = Some \<lparr>v_term = 1, v_lsn = 1\<rparr>" "expire_at_including_staged ''a'' ex_staged = None"
  "\<exists>f w off c. wal_append ex_env ex_io (Put False ''a'' (JNumber 9) 0 None) 0 ex_staged = (Ok (f, w, off, 3), c)"
  unfolding ex_staged_def ex_empty_eval
  by (simp_all add: ex_defs store_defs inline_bytes_def version_including_staged_def expire_at_including_staged_def staged_resolution_def ie_version_def)

lemma ex_inner: "\<exists>p w. local_write_inner ex_env ex_write_io ''c'' ''a'' (Some (JNumber 9)) None False ex_writer = (Ok p, w) \<and> pw_term p = 0 \<and> pw_lsn p = 3"
  using ex_writes(3) by (auto simp: local_write_inner_def append_term_def ex_writer_def ex_write_io_def put_with_expiry_def note_written_def Let_def)

lemma ex_write_codec: "codec_ok ex_env (write_entry ex_write_io ''a'' (Some (JNumber 9)) None False)"
  by (simp add: codec_ok_def write_entry_def ex_env_def ex_write_io_def ex_chars)

theorem conditional_writes_lose_no_update_witness:
  "\<exists>pre w. from_headers [etag \<lparr>v_term = 1, v_lsn = 1\<rparr>] [] = Ok pre \<and>
     snd (local_write_with_origin ex_env ex_write_io ''c'' ''a'' (Some (JNumber 9)) None False pre ex_writer) = w \<and>
     local_write_with_origin ex_env ex_write_io ''c'' ''a'' None None False pre w = (Err (PreconditionFailed (Some \<lparr>v_term = 0, v_lsn = 3\<rparr>)), w)"
proof -
  obtain pre where pre: "from_headers [etag \<lparr>v_term = 1, v_lsn = 1\<rparr>] [] = Ok pre" "\<forall>c. pc_holds pre c \<longleftrightarrow> c = Some \<lparr>v_term = 1, v_lsn = 1\<rparr>"
    using etag_condition(1) by blast
  obtain p w where p: "local_write_inner ex_env ex_write_io ''c'' ''a'' (Some (JNumber 9)) None False ex_writer = (Ok p, w)" "pw_term p = 0" "pw_lsn p = 3"
    using ex_inner by blast
  have w: "local_write_with_origin ex_env ex_write_io ''c'' ''a'' (Some (JNumber 9)) None False pre ex_writer = (Ok p, w)"
    using p(1) pre(2) ex_writes(1) by (simp add: local_write_with_origin_def ex_writer_def)
  show ?thesis using conditional_writes_lose_no_update [OF ex_writable ex_write_codec pre(1) w, of ex_write_io None None False] w pre(1) p(2,3) by auto
qed

theorem patch_merges_the_latest_document_witness:
  "\<exists>p w. local_patch ex_env ex_write_io ''c'' ''a'' (JNumber 9) None pc_none ex_writer = (Ok (Some p), w) \<and>
     documents ex_env (disk_rows ex_env (co_disk (wr_col w))) ''a'' = Some (JNumber 9, \<lparr>v_term = 0, v_lsn = 3\<rparr>)"
proof -
  obtain p w where p: "local_write_inner ex_env ex_write_io ''c'' ''a'' (Some (JNumber 9)) None False ex_writer = (Ok p, w)" "pw_term p = 0" "pw_lsn p = 3"
    using ex_inner by blast
  have eff: "effective_expiry None ''a'' (wr_col ex_writer) = None" using ex_writes(2) by (simp add: effective_expiry_def ex_writer_def)
  have l: "local_patch ex_env ex_write_io ''c'' ''a'' (JNumber 9) None pc_none ex_writer = (Ok (Some p), w)"
    using p(1) ex_read eff by (simp add: local_patch_def pc_none_def pc_is_empty_def ex_writer_def)
  have "\<forall>doc. codec_ok ex_env (write_entry ex_write_io ''a'' (Some (merge_patch doc (JNumber 9))) (effective_expiry None ''a'' (wr_col ex_writer)) False)"
    unfolding eff using ex_write_codec by simp
  from patch_merges_the_latest_document [OF ex_writable this l] show ?thesis using l p(2,3) by auto
qed

end
