(* ===== verification/Stream.thy ===== *)
theory Stream
  imports Backlog Write
begin

text \<open>
  The leader's side of replication: \<^verbatim>\<open>src/src/replication/stream.rs\<close> and \<^verbatim>\<open>src/src/replication/protocol.rs\<close>. A replica
  that is behind is sent the run of frames it misses, in batches; its answers move the cursor the next
  send starts from and the acknowledgement the commit index counts. What a peer answers to each
  request, and whether it accepts a snapshot, are arguments; a peer that is known to be down answers
  nothing.
\<close>

section \<open>Answers on the wire\<close>

datatype conflict_kind = StaleConflict nat | GapConflict nat nat | DivergentConflict nat "nat option"

definition u64_value :: "('n \<Rightarrow> nat option) \<Rightarrow> 'n jvalue \<Rightarrow> nat option" where
  "u64_value as_u64 v = (case v of JNumber n \<Rightarrow> as_u64 n | _ \<Rightarrow> None)"

definition u64_member :: "('n \<Rightarrow> nat option) \<Rightarrow> 'n jvalue \<Rightarrow> string \<Rightarrow> nat option" where
  "u64_member as_u64 b key = Option.bind (value_get b key) (u64_value as_u64)"

definition or_zero :: "nat option \<Rightarrow> nat" where
  "or_zero x = (case x of Some n \<Rightarrow> n | None \<Rightarrow> 0)"

definition classify_conflict :: "('n \<Rightarrow> nat option) \<Rightarrow> 'n jvalue option \<Rightarrow> conflict_kind" where
  "classify_conflict as_u64 body =
     (case body of
        None \<Rightarrow> GapConflict 0 0
      | Some b \<Rightarrow>
          (let last_lsn = or_zero (u64_member as_u64 b ''last_lsn'');
               last_term = or_zero (u64_member as_u64 b ''last_term'');
               status = Option.bind (value_get b ''status'') as_str
           in if status = Some ''stale_term'' then StaleConflict (or_zero (u64_member as_u64 b ''term''))
              else if status = Some ''divergent'' then DivergentConflict last_lsn (u64_member as_u64 b ''applied'')
              else GapConflict last_lsn last_term))"

definition applied_through :: "('n \<Rightarrow> nat option) \<Rightarrow> 'n jvalue option \<Rightarrow> nat option" where
  "applied_through as_u64 body =
     (case body of
        None \<Rightarrow> None
      | Some b \<Rightarrow> (case value_get b ''lsn'' of
                     Some v \<Rightarrow> u64_value as_u64 v
                   | None \<Rightarrow> u64_member as_u64 b ''last_lsn''))"

definition forbidden_term :: "('n \<Rightarrow> nat option) \<Rightarrow> 'n jvalue option \<Rightarrow> nat" where
  "forbidden_term as_u64 body = (case body of Some b \<Rightarrow> or_zero (u64_member as_u64 b ''term'') | None \<Rightarrow> 0)"

text \<open>What a send comes back with. A body that does not parse is None.\<close>

datatype 'n http_reply =
    RSuccess "'n jvalue option"
  | RConflict "'n jvalue option"
  | RForbidden "'n jvalue option"
  | RRefused bool
  | RUnreachable
  | RNoSlot

text \<open>The answer of \<open>replicate_handler\<close> as it crosses the wire; \<open>num\<close> writes a number.\<close>

definition reply_body :: "(nat \<Rightarrow> 'n) \<Rightarrow> replicate_reply \<Rightarrow> 'n http_reply" where
  "reply_body num r =
     (case r of
        NotAReplica our_term \<Rightarrow> RForbidden (Some (JObject [(''status'', JString ''not_a_replica''), (''term'', JNumber (num our_term))]))
      | ResyncInProgress \<Rightarrow> RRefused True
      | StaleTerm our_term \<Rightarrow> RConflict (Some (JObject [(''status'', JString ''stale_term''), (''term'', JNumber (num our_term))]))
      | BadRequest \<Rightarrow> RRefused False
      | InternalError \<Rightarrow> RRefused False
      | DuplicateReply last_lsn \<Rightarrow> RSuccess (Some (JObject [(''last_lsn'', JNumber (num last_lsn)), (''status'', JString ''duplicate'')]))
      | AppliedReply lsn \<Rightarrow> RSuccess (Some (JObject [(''lsn'', JNumber (num lsn)), (''status'', JString ''applied'')]))
      | GapReply last_lsn last_term \<Rightarrow>
          RConflict (Some (JObject [(''last_lsn'', JNumber (num last_lsn)), (''last_term'', JNumber (num last_term)), (''status'', JString ''gap'')]))
      | DivergentReply last_lsn last_term applied \<Rightarrow>
          RConflict (Some (JObject [(''applied'', JNumber (num applied)), (''last_lsn'', JNumber (num last_lsn)),
                                    (''last_term'', JNumber (num last_term)), (''status'', JString ''divergent'')])))"

fun body_of :: "'n http_reply \<Rightarrow> 'n jvalue option" where
  "body_of (RSuccess b) = b" | "body_of (RConflict b) = b" | "body_of (RForbidden b) = b" | "body_of _ = None"

lemma reply_read:
  assumes "\<And>n. as_u64 (num n) = Some n"
  shows "applied_through as_u64 (body_of (reply_body num (DuplicateReply l))) = Some l"
    "applied_through as_u64 (body_of (reply_body num (AppliedReply l))) = Some l"
    "classify_conflict as_u64 (body_of (reply_body num (GapReply l t))) = GapConflict l t"
    "classify_conflict as_u64 (body_of (reply_body num (DivergentReply l t k))) = DivergentConflict l (Some k)"
    "classify_conflict as_u64 (body_of (reply_body num (StaleTerm t))) = StaleConflict t"
    "forbidden_term as_u64 (body_of (reply_body num (NotAReplica t))) = t"
proof -
  have get: "value_get (JObject m) key = map_of m key" for m :: "'a members" and key by (simp add: value_get_def)
  note defs = reply_body_def applied_through_def classify_conflict_def forbidden_term_def u64_member_def u64_value_def get or_zero_def assms
  show "applied_through as_u64 (body_of (reply_body num (DuplicateReply l))) = Some l"
    "applied_through as_u64 (body_of (reply_body num (AppliedReply l))) = Some l"
    "classify_conflict as_u64 (body_of (reply_body num (GapReply l t))) = GapConflict l t"
    "classify_conflict as_u64 (body_of (reply_body num (DivergentReply l t k))) = DivergentConflict l (Some k)"
    "classify_conflict as_u64 (body_of (reply_body num (StaleTerm t))) = StaleConflict t"
    "forbidden_term as_u64 (body_of (reply_body num (NotAReplica t))) = t"
    by (simp_all add: defs)
qed

section \<open>Rounds\<close>

definition DRIVE_MISSES_BEFORE_BACKOFF :: nat where "DRIVE_MISSES_BEFORE_BACKOFF = 2"
definition DRIVE_BACKOFF_SHIFT_CAP :: nat where "DRIVE_BACKOFF_SHIFT_CAP = 4"

definition note_outcome :: "string \<times> bool \<Rightarrow> (string \<times> bool) list \<Rightarrow> (string \<times> bool) list" where
  "note_outcome o' by_replica =
     (case o' of (replica, moved) \<Rightarrow>
        if replica \<in> fst ` set by_replica then map (\<lambda>(r, seen). if r = replica then (r, seen \<or> moved) else (r, seen)) by_replica
        else by_replica @ [(replica, moved)])"

definition score_replicas :: "(string \<times> bool) list \<Rightarrow> (string \<times> bool) list" where
  "score_replicas outcomes = fold note_outcome outcomes []"

definition drive_backoff_ticks :: "nat \<Rightarrow> nat" where
  "drive_backoff_ticks misses =
     (if misses < DRIVE_MISSES_BEFORE_BACKOFF then 0
      else 2 ^ min (misses - DRIVE_MISSES_BEFORE_BACKOFF) DRIVE_BACKOFF_SHIFT_CAP)"

section \<open>What is sent\<close>

definition REPLICATION_BATCH_FRAMES :: nat where "REPLICATION_BATCH_FRAMES = 64"
definition REPLICATION_BATCH_BYTES :: nat where "REPLICATION_BATCH_BYTES = MAX_FRAME_SIZE"

type_synonym sent = "nat \<times> u8 list"

fun chain_loop :: "nat \<Rightarrow> nat \<Rightarrow> sent list \<Rightarrow> sent list" where
  "chain_loop prev_lsn prev_term [] = []"
| "chain_loop prev_lsn prev_term ((lsn, frame) # frames) =
     (case fh_parse frame of
        None \<Rightarrow> []
      | Some h \<Rightarrow>
          if fh_prev_lsn h \<noteq> prev_lsn \<or> fh_prev_term h \<noteq> prev_term then []
          else (lsn, frame) # chain_loop lsn (fh_term h) frames)"

definition chain_prefix :: "nat \<Rightarrow> nat \<Rightarrow> sent list \<Rightarrow> sent list" where
  "chain_prefix after_lsn after_term frames = chain_loop after_lsn after_term (sort_key fst frames)"

text \<open>How many of the frames that follow join a batch of \<open>held\<close> frames and \<open>bytes\<close> bytes.\<close>

fun batch_more :: "nat \<Rightarrow> nat \<Rightarrow> sent list \<Rightarrow> nat" where
  "batch_more held bytes [] = 0"
| "batch_more held bytes ((_, frame) # frames) =
     (if held < REPLICATION_BATCH_FRAMES \<and> bytes + length frame \<le> REPLICATION_BATCH_BYTES
      then Suc (batch_more (Suc held) (bytes + length frame) frames) else 0)"

function size_bounded_batches :: "sent list \<Rightarrow> sent list list" where
  "size_bounded_batches [] = []"
| "size_bounded_batches (f # frames) =
     (let n = batch_more 1 (length (snd f)) frames
      in (f # take n frames) # size_bounded_batches (drop n frames))"
  by pat_completeness auto
termination by (relation "measure length") auto

declare size_bounded_batches.simps(2) [simp del]

definition batch_request :: "string \<Rightarrow> nat \<Rightarrow> nat \<Rightarrow> nat \<Rightarrow> sent list \<Rightarrow> replicate_request" where
  "batch_request collection term commit_index prev batch =
     \<lparr>rq_collection = collection, rq_term = term, rq_lsn = fst (hd batch),
      rq_prev_lsn = (case fh_parse (snd (hd batch)) of Some h \<Rightarrow> fh_prev_lsn h | None \<Rightarrow> prev),
      rq_commit_index = Some commit_index, rq_wal_frame = snd (hd batch), rq_frames = map snd (tl batch)\<rparr>"

section \<open>The leader's books\<close>

text \<open>A leader and one of its collections, as a send to one replica sees them.\<close>

record 'n sender =
  se_repl :: replication_state
  se_owed :: "replication_meta list"
  se_col :: "'n collection"

record 'n send_io =
  si_u64 :: "'n \<Rightarrow> nat option"
  si_own :: string
  si_now :: nat
  si_read :: read_io
  si_apply :: persist_io
  si_watched :: bool
  si_replies :: "nat \<Rightarrow> 'n http_reply"
  si_resynced :: bool

definition demote :: "nat \<Rightarrow> nat \<Rightarrow> 'n sender \<Rightarrow> 'n sender" where
  "demote now new_term s =
     (case apply_demotion now new_term (se_repl s) of
        None \<Rightarrow> s
      | Some (_, g) \<Rightarrow> s\<lparr>se_repl := g, se_owed := replica_meta new_term # se_owed s\<rparr>)"

definition st_apply_committed :: "'n env \<Rightarrow> 'n send_io \<Rightarrow> string \<Rightarrow> nat \<Rightarrow> 'n sender \<Rightarrow> (io_error, unit) result \<times> 'n sender" where
  "st_apply_committed ev io collection b s =
     (if b = 0 then (Ok (), s)
      else (case apply_committed ev (si_apply io) (si_watched io) b (se_col s) of
              (Err e, _, c) \<Rightarrow> (Err e, s\<lparr>se_col := c\<rparr>)
            | (Ok _, _, c) \<Rightarrow>
                (Ok (), s\<lparr>se_col := c,
                         se_repl := (if collection = CONFIG_LOG then refresh_configuration (si_own io) (latest_config c) (se_repl s)
                                     else se_repl s)\<rparr>)))"

definition st_note_ack :: "'n env \<Rightarrow> 'n send_io \<Rightarrow> string \<Rightarrow> string \<Rightarrow> nat \<Rightarrow> nat \<Rightarrow> 'n sender \<Rightarrow> (io_error, nat) result \<times> 'n sender" where
  "st_note_ack ev io replica collection lsn ack_term s =
     (case note_ack (si_own io) (si_now io) (co_durable_lsn (se_col s)) replica collection lsn ack_term (se_repl s) of
        (b, g) \<Rightarrow> (case st_apply_committed ev io collection b (s\<lparr>se_repl := g\<rparr>) of
                      (Err e, s') \<Rightarrow> (Err e, s')
                    | (Ok _, s') \<Rightarrow> (Ok b, s')))"

definition sent_mark :: "string \<Rightarrow> string \<Rightarrow> nat \<Rightarrow> 'n sender \<Rightarrow> 'n sender" where
  "sent_mark replica collection lsn s = s\<lparr>se_repl := st_note_sent replica collection lsn (se_repl s)\<rparr>"

text \<open>A replica told to take a snapshot of our log; an accepted one moves the cursor with it.\<close>

definition resynced_to :: "'n send_io \<Rightarrow> string \<Rightarrow> string \<Rightarrow> nat \<Rightarrow> 'n sender \<Rightarrow> 'n sender" where
  "resynced_to io replica collection target s = (if si_resynced io then sent_mark replica collection target s else s)"

section \<open>One pass\<close>

text \<open>The batches of a pass, each with the answer to it. None ends the repair.\<close>

fun stream_batches ::
  "'n send_io \<Rightarrow> string \<Rightarrow> string \<Rightarrow> nat \<Rightarrow> nat \<Rightarrow> nat \<Rightarrow> (sent list \<times> 'n http_reply) list \<Rightarrow> 'n sender \<Rightarrow> nat option \<times> 'n sender" where
  "stream_batches io replica collection term target prev [] s = (Some prev, s)"
| "stream_batches io replica collection term target prev ((batch, reply) # batches) s =
     (case reply of
        RSuccess body \<Rightarrow>
          (let batch_last = fst (last batch);
               acked = (case applied_through (si_u64 io) body of Some a \<Rightarrow> a | None \<Rightarrow> batch_last);
               prev' = max prev acked;
               s' = sent_mark replica collection prev' s
           in if acked < batch_last then (Some prev', s')
              else stream_batches io replica collection term target prev' batches s')
      | RConflict body \<Rightarrow>
          (case classify_conflict (si_u64 io) body of
             StaleConflict t \<Rightarrow> (None, demote (si_now io) t s)
           | DivergentConflict last_lsn _ \<Rightarrow>
               (None, resynced_to io replica collection target (s\<lparr>se_repl := rewind_replica replica collection last_lsn (se_repl s)\<rparr>))
           | GapConflict last_lsn _ \<Rightarrow>
               (None, resynced_to io replica collection target (s\<lparr>se_repl := rewind_replica replica collection last_lsn (se_repl s)\<rparr>)))
      | RForbidden body \<Rightarrow>
          (let their_term = forbidden_term (si_u64 io) body
           in (None, if their_term > term then demote (si_now io) their_term s else s))
      | RRefused _ \<Rightarrow> (None, s)
      | RUnreachable \<Rightarrow> (None, s)
      | RNoSlot \<Rightarrow> (None, s))"

definition first_prev_term :: "sent list \<Rightarrow> nat" where
  "first_prev_term frames =
     (case sort_key fst frames of
        [] \<Rightarrow> 0
      | (_, f) # _ \<Rightarrow> (case fh_parse f of Some h \<Rightarrow> fh_prev_term h | None \<Rightarrow> 0))"

definition stream_plan :: "nat \<Rightarrow> nat option \<Rightarrow> sent list \<Rightarrow> sent list" where
  "stream_plan reported_last_lsn reported_last_term frames =
     chain_prefix reported_last_lsn (case reported_last_term of Some t \<Rightarrow> t | None \<Rightarrow> first_prev_term frames) frames"

definition with_replies :: "(nat \<Rightarrow> 'n http_reply) \<Rightarrow> sent list list \<Rightarrow> (sent list \<times> 'n http_reply) list" where
  "with_replies replies batches = zip batches (map replies [0..<length batches])"

definition stream_chain_once ::
  "'n env \<Rightarrow> 'n send_io \<Rightarrow> string \<Rightarrow> string \<Rightarrow> nat \<Rightarrow> nat option \<Rightarrow> 'n sender \<Rightarrow> nat option \<times> 'n sender" where
  "stream_chain_once ev io replica collection reported_last_lsn reported_last_term s =
     (let target = co_last_lsn (se_col s)
      in if reported_last_lsn \<ge> target then (Some reported_last_lsn, s)
         else (case read_frames_after (ev_crc ev) (si_read io) reported_last_lsn target (se_col s) of
                 Err _ \<Rightarrow> (None, s)
               | Ok frames \<Rightarrow>
                   (let chained = stream_plan reported_last_lsn reported_last_term frames
                    in if \<not> (chained \<noteq> [] \<and> fst (last chained) \<ge> target) then (None, resynced_to io replica collection target s)
                       else (let term = rs_term (se_repl s)
                             in case stream_batches io replica collection term target reported_last_lsn
                                       (with_replies (si_replies io) (size_bounded_batches chained)) s of
                                  (None, s') \<Rightarrow> (None, s')
                                | (Some prev, s') \<Rightarrow> (Some prev, snd (st_note_ack ev io replica collection prev term s'))))))"

definition REPAIR_PASSES :: nat where "REPAIR_PASSES = 8"

text \<open>The passes of \<^verbatim>\<open>repair_replica\<close> under its lock, and whether the replica reached the frame asked about.\<close>

fun repair_passes ::
  "'n env \<Rightarrow> string \<Rightarrow> string \<Rightarrow> 'n send_io list \<Rightarrow> nat \<Rightarrow> nat option \<Rightarrow> 'n sender \<Rightarrow> nat option \<times> 'n sender" where
  "repair_passes ev replica collection [] after_lsn after_term s = (Some after_lsn, s)"
| "repair_passes ev replica collection (io # ios) after_lsn after_term s =
     (case stream_chain_once ev io replica collection after_lsn after_term s of
        (None, s') \<Rightarrow> (None, s')
      | (Some reached, s') \<Rightarrow>
          if reached > after_lsn then repair_passes ev replica collection ios reached None s' else (Some after_lsn, s'))"

definition repair_replica ::
  "'n env \<Rightarrow> string \<Rightarrow> string \<Rightarrow> (nat \<Rightarrow> 'n send_io) \<Rightarrow> nat \<Rightarrow> nat option \<Rightarrow> nat \<Rightarrow> 'n sender \<Rightarrow> bool \<times> 'n sender" where
  "repair_replica ev replica collection ios reported_last_lsn reported_last_term needed_lsn s =
     (case repair_passes ev replica collection (map ios [0..<REPAIR_PASSES]) reported_last_lsn reported_last_term s of
        (None, s') \<Rightarrow> (False, s')
      | (Some after_lsn, s') \<Rightarrow> (after_lsn \<ge> needed_lsn, s'))"

definition confirm_tail :: "'n env \<Rightarrow> 'n send_io \<Rightarrow> string \<Rightarrow> string \<Rightarrow> 'n sender \<Rightarrow> bool \<times> 'n sender" where
  "confirm_tail ev io replica collection s =
     (let tail = co_last_lsn (se_col s)
      in if tail = 0 then (False, s)
         else (case read_frames_after (ev_crc ev) (si_read io) (tail - 1) tail (se_col s) of
                 Err _ \<Rightarrow> (False, s)
               | Ok frames \<Rightarrow>
                   if frames = [] then (False, s)
                   else (let (lsn, frame) = last frames
                         in if fh_parse frame = None then (False, s)
                            else (let term = rs_term (se_repl s)
                                  in case si_replies io 0 of
                                       RSuccess body \<Rightarrow>
                                         (let held = min (case applied_through (si_u64 io) body of Some a \<Rightarrow> a | None \<Rightarrow> lsn) lsn
                                          in (True, snd (st_note_ack ev io replica collection held term (sent_mark replica collection held s))))
                                     | RConflict body \<Rightarrow>
                                         (case classify_conflict (si_u64 io) body of
                                            StaleConflict t \<Rightarrow> (False, demote (si_now io) t s)
                                          | DivergentConflict last_lsn applied \<Rightarrow>
                                              (False, s\<lparr>se_repl := rewind_replica replica collection (case applied of Some a \<Rightarrow> a | None \<Rightarrow> last_lsn) (se_repl s)\<rparr>)
                                          | GapConflict last_lsn _ \<Rightarrow> (False, s\<lparr>se_repl := rewind_replica replica collection last_lsn (se_repl s)\<rparr>))
                                     | RForbidden body \<Rightarrow>
                                         (let their_term = forbidden_term (si_u64 io) body
                                          in (False, if their_term > term then demote (si_now io) their_term s else s))
                                     | _ \<Rightarrow> (False, s)))))"

section \<open>Batches\<close>

lemma batch_more_bounds:
  assumes "h \<le> REPLICATION_BATCH_FRAMES" "b \<le> REPLICATION_BATCH_BYTES"
  shows "h + batch_more h b fs \<le> REPLICATION_BATCH_FRAMES \<and> b + sum_list (map (length \<circ> snd) (take (batch_more h b fs) fs)) \<le> REPLICATION_BATCH_BYTES \<and>
    batch_more h b fs \<le> length fs"
  using assms by (induction h b fs rule: batch_more.induct) auto

lemma oversized_alone: "REPLICATION_BATCH_BYTES < b \<Longrightarrow> batch_more h b fs = 0"
  by (cases fs) auto

definition batch_fits :: "sent list \<Rightarrow> bool" where
  "batch_fits b = (b \<noteq> [] \<and> length b \<le> REPLICATION_BATCH_FRAMES \<and>
     (length b = 1 \<or> sum_list (map (length \<circ> snd) b) \<le> REPLICATION_BATCH_BYTES))"

lemma batches_fit: "concat (size_bounded_batches fs) = fs \<and> (\<forall>b\<in>set (size_bounded_batches fs). batch_fits b)"
proof (induction fs rule: size_bounded_batches.induct)
  case (2 f fs)
  define n where "n = batch_more 1 (length (snd f)) fs"
  have "batch_fits (f # take n fs)"
  proof (cases "length (snd f) \<le> REPLICATION_BATCH_BYTES")
    case True
    then show ?thesis using batch_more_bounds [of 1 "length (snd f)" fs] by (auto simp: batch_fits_def n_def REPLICATION_BATCH_FRAMES_def)
  next
    case False
    then show ?thesis using oversized_alone [of "length (snd f)" 1 fs] by (auto simp: batch_fits_def n_def REPLICATION_BATCH_FRAMES_def)
  qed
  then show ?case using 2 [OF n_def] unfolding size_bounded_batches.simps(2) n_def [symmetric] Let_def by simp
qed simp

lemma base64_sum: "3 * sum_list (map (\<lambda>(_, f). length (base64_encode f) + 3) b) \<le> 4 * sum_list (map (length \<circ> snd) b) + 17 * length b"
proof (induction b)
  case (Cons x b)
  have "length (base64_encode (snd x)) = 4 * ((length (snd x) + 2) div 3)" by (simp add: base64_encode_def length_encode_with)
  then have "3 * length (base64_encode (snd x)) \<le> 4 * length (snd x) + 8" by linarith
  then show ?case using Cons by (simp add: split_beta)
qed simp

text \<open>The frames of a batch, each a quoted base64 string and a comma, leave 60 KiB of an internal body for the rest of the request.\<close>

lemma batch_body:
  assumes "batch_fits b" "\<forall>f\<in>set b. length (snd f) \<le> MAX_FRAME_SIZE"
  shows "sum_list (map (\<lambda>(_, f). length (base64_encode f) + 3) b) + 60 * 1024 \<le> MAX_INTERNAL_BODY"
proof -
  have "sum_list (map (length \<circ> snd) b) \<le> MAX_FRAME_SIZE" "length b \<le> 64"
    using assms by (auto simp: batch_fits_def REPLICATION_BATCH_BYTES_def REPLICATION_BATCH_FRAMES_def length_Suc_conv)
  then show ?thesis using base64_sum [of b] by (simp add: MAX_INTERNAL_BODY_def base64_len_def MAX_FRAME_SIZE_def MAX_RECORD_SIZE_def HEADER_LEN_def)
qed

section \<open>The chain\<close>

lemma chain_rows:
  assumes "linked l t rs" "\<forall>r\<in>set rs. frame_ok crc (rw_head r, rw_payload r)"
  shows "chain_loop l t (map (\<lambda>r. (rw_lsn r, row_bytes r)) rs) = map (\<lambda>r. (rw_lsn r, row_bytes r)) rs"
  using assms by (induction rs arbitrary: l t) (auto simp: row_bytes_parse(1))

lemma sent_to_tail:
  assumes "linked 0 0 rs" "tail_of (0, 0) rs = (n, m)"
  shows "sent_rows l n rs = map (\<lambda>r. (rw_lsn r, row_bytes r)) (rows_past l rs)"
  using linked_tail [OF assms(1)] assms(2) by (auto simp: sent_rows_def rows_past_def intro!: arg_cong [where f = "map _"] filter_cong)

lemma past_linked:
  assumes "linked 0 0 rs" "tail_of (0, 0) (rows_to l rs) = (l, t)"
  shows "linked l t (rows_past l rs)"
proof -
  have "linked 0 0 (rows_to l rs @ rows_past l rs)" using rows_to_past [OF sorted_rows [OF assms(1)], of l] assms(1) by simp
  then show ?thesis using assms(2) by (auto simp: linked_append)
qed

lemma plan_rows:
  assumes rs: "linked 0 0 rs" "tail_of (0, 0) rs = (n, m)" "\<forall>r\<in>set rs. frame_ok crc (rw_head r, rw_payload r)"
    and at: "tail_of (0, 0) (rows_to l rs) = (l, t)" "reported = Some t \<or> reported = None" "l < n"
  shows "stream_plan l reported (sent_rows l n rs) = sent_rows l n rs" "sent_rows l n rs \<noteq> []" "fst (last (sent_rows l n rs)) = n"
proof -
  let ?ps = "rows_past l rs"
  have eq: "sent_rows l n rs = map (\<lambda>r. (rw_lsn r, row_bytes r)) ?ps" by (rule sent_to_tail [OF rs(1,2)])
  have ln: "linked l t ?ps" by (rule past_linked [OF rs(1) at(1)])
  have rows: "rs \<noteq> []" "n = rw_lsn (last rs)" using rs(2) at(3) by (auto simp: tail_of_def split: if_splits)
  then have "last rs \<in> set ?ps" using at(3) by (simp add: rows_past_def)
  then have ne: "?ps \<noteq> []" by auto
  have "rs = rows_to l rs @ ?ps" by (rule rows_to_past [OF sorted_rows [OF rs(1)]])
  then have "last ?ps = last rs" using ne by (metis last_appendR)
  then show "sent_rows l n rs \<noteq> []" "fst (last (sent_rows l n rs)) = n" using eq ne rows by (simp_all add: last_map)
  have srt: "sort_key fst (sent_rows l n rs) = sent_rows l n rs"
    using sorted_rows [OF ln] unfolding eq by (intro sort_key_id_if_sorted) (simp add: sorted_wrt_map strict_sorted_iff [symmetric] comp_def sorted_wrt_mono_rel [of _ "\<lambda>a b. rw_lsn a < rw_lsn b"])
  have ok: "\<forall>r\<in>set ?ps. frame_ok crc (rw_head r, rw_payload r)" using rs(3) by (simp add: rows_past_def)
  obtain y ys where ys: "?ps = y # ys" using ne by (cases ?ps) auto
  have "fh_parse (row_bytes y) = Some (rw_head y)" using ok ys by (auto intro: row_bytes_parse(1))
  then have "first_prev_term (sent_rows l n rs) = t" using ln unfolding first_prev_term_def srt unfolding eq ys by simp
  then have "(case reported of Some t \<Rightarrow> t | None \<Rightarrow> first_prev_term (sent_rows l n rs)) = t" using at(2) by auto
  then show "stream_plan l reported (sent_rows l n rs) = sent_rows l n rs"
    unfolding stream_plan_def chain_prefix_def srt using chain_rows [OF ln ok] eq by simp
qed


section \<open>What an answer proves\<close>

lemma loop_refusal: "replicate_loop ev hi held previous batch c = ((hi', held', Some (Ok x)), c') \<Longrightarrow> (\<forall>l. x \<noteq> Applied l \<and> x \<noteq> Duplicate l)"
  by (induction ev hi held previous batch c rule: replicate_loop.induct)
    (auto split: option.splits if_splits prod.splits sum.splits replica_apply.splits)

lemma loop_holds:
  assumes "log_reach ev c" "ev_de ev [] = None" "leader_log ev L" "batch_of L batch" "one_frame_per_position L (disk_rows ev (co_disk c))"
    "agrees ev L (co_applied_lsn c) c" "\<forall>k. held = Some k \<longrightarrow> agrees ev L k c" "replicate_loop ev highest held previous batch c = ((hi, held', None), c')"
    "r \<in> set L" "row_bytes r \<in> snd ` set batch"
  shows "agrees ev L (rw_lsn r) c'"
  using assms
proof (induction batch arbitrary: highest held previous c)
  case (Cons bf batch)
  obtain io frame where bf: "bf = (io, frame)" by fastforce
  note p = Cons.prems [unfolded bf]
  obtain x where x: "x \<in> set L" "frame = row_bytes x" "sound_io io" "torn_within io (fh_len (rw_head x))" "batch_of L batch"
    using p(4) by (auto simp: batch_of_def)
  have parse: "fh_parse (row_bytes y) = Some (rw_head y)" if "y \<in> set L" for y using row_bytes_parse(1) p(3) that by (auto simp: leader_log_def)
  obtain res c1 where a: "append_raw_frame ev io frame c = (res, c1)" by fastforce
  note fa = frame_agrees [OF reach_steady [OF p(1,2)] p(2,3) x(1) p(5,6) x(3,4) a [unfolded x(2)]]
  have c1: "log_reach ev c1" "seat c1 = seat c" using reach_step [OF p(1) fa(1)] seat_frame [OF a] by auto
  then have at: "agrees ev L (co_applied_lsn c1) c1" using fa(3) [OF p(6)] by (simp add: seat_def)
  obtain l hi1 where on: "res = Ok (Applied l) \<or> res = Ok (Duplicate l)"
      "replicate_loop ev hi1 (Some (rw_lsn x)) (Some (rw_term x, rw_lsn x)) batch c1 = ((hi, held', None), c')"
    using p(8) a parse [OF x(1)] x(2) by (cases res; cases "projr res") (auto split: if_splits)
  have held: "\<forall>k. Some (rw_lsn x) = Some k \<longrightarrow> agrees ev L k c1" using fa(4) [OF on(1)] by simp
  show ?case
  proof (cases "row_bytes r \<in> snd ` set batch")
    case True
    from Cons.IH [OF c1(1) p(2,3) x(5) fa(2) at held on(2) p(9) True] show ?thesis .
  next
    case False
    then have "rw_lsn r = rw_lsn x" using p(10) x(2) parse [OF x(1)] parse [OF p(9)] by auto
    then show ?thesis using loop_agrees [OF c1(1) p(2,3) x(5) fa(2) at held on(2)] fa(4) [OF on(1)] by auto
  qed
qed simp

lemma commit_files:
  assumes "apply_committed ev pio watched b c = (r, changes, c')"
  shows "dk_files (co_disk c') = dk_files (co_disk c)" "co_durable_lsn c' = co_durable_lsn c"
proof -
  obtain ch n c1 where batch: "apply_batch (ev_f64 ev) watched b c = (ch, n, c1)" by (metis prod.collapse)
  have "co_disk c1 = co_disk c \<and> co_durable_lsn c1 = co_durable_lsn c"
    using batch foldl_staged_form [of "ev_f64 ev" watched "[]" "c\<lparr>co_pending := filter (\<lambda>(l, _). b < l) (co_pending c)\<rparr>" "filter (\<lambda>(l, _). l \<le> b) (co_pending c)"]
    by (auto simp: apply_batch_def Let_def split: prod.splits)
  then show "dk_files (co_disk c') = dk_files (co_disk c)" "co_durable_lsn c' = co_durable_lsn c" using assms
    by (auto simp: apply_committed_def batch persist_watermark_def persist_watermark_full_def split: if_splits sum.splits prod.splits)
qed

lemma publish_files:
  assumes "replicate_publish ev io req held s = (r, s')"
  shows "dk_files (co_disk (fo_col s')) = dk_files (co_disk (fo_col s))" "co_durable_lsn (fo_col s') = co_durable_lsn (fo_col s)" "isl r \<Longrightarrow> r = Err InternalError"
  using assms commit_files by (fastforce simp: replicate_publish_def refresh_parts split: if_splits option.splits prod.splits sum.splits)+

lemma gate_refusals: "replicate_gate io req s = (Err r, s') \<Longrightarrow> r \<noteq> AppliedReply n \<and> r \<noteq> DuplicateReply n"
  by (auto simp: replicate_gate_def Let_def split: if_splits)

lemma accepted_run:
  assumes h: "replicate_handler ev io req s = (reply, s')" and reply: "reply = AppliedReply n \<or> reply = DuplicateReply n"
  shows "\<exists>s1 highest held c c1. replicate_gate io req s = (Ok (), s1) \<and> replicate_loop ev 0 None None (replicate_frames io req) (fo_col s1) = ((highest, held, None), c) \<and>
    (if highest > 0 then \<exists>x. sync_wal (hi_sync io) c = (Ok x, c1) else c1 = c) \<and> dk_files (co_disk (fo_col s')) = dk_files (co_disk c1) \<and>
    co_durable_lsn (fo_col s') = co_durable_lsn c1 \<and> (reply = AppliedReply n \<longrightarrow> highest > 0)"
proof -
  obtain q s1 where gate: "replicate_gate io req s = (q, s1)" by fastforce
  then have q: "q = Ok ()" using h reply gate_refusals [of io req s] by (cases q) (auto simp: replicate_handler_def)
  obtain highest held refusal c where loop: "replicate_loop ev 0 None None (replicate_frames io req) (fo_col s1) = ((highest, held, refusal), c)" by (metis prod.collapse)
  obtain w c1 where sync: "(if highest > 0 then sync_wal (hi_sync io) c else (Ok 0, c)) = (w, c1)" by fastforce
  define s2 where "s2 = (if highest > 0 then refresh_if_config io req (s1\<lparr>fo_col := c1\<rparr>) else s1\<lparr>fo_col := c1\<rparr>)"
  have s2: "fo_col s2 = c1" by (simp add: s2_def refresh_parts)
  obtain p s3 where pub: "replicate_publish ev io req held s2 = (p, s3)" by fastforce
  have out: "(reply, s') = (if \<not> hi_opens io then (InternalError, s1)
      else if (case fh_parse (rq_wal_frame req) of Some h \<Rightarrow> fh_lsn h \<noteq> rq_lsn req \<or> fh_prev_lsn h \<noteq> rq_prev_lsn req | None \<Rightarrow> False) then (BadRequest, s1)
      else (case w of
         Err _ \<Rightarrow> (InternalError, s1\<lparr>fo_col := c1\<rparr>)
       | Ok _ \<Rightarrow> (case p of Err r \<Rightarrow> (r, s3)
           | Ok _ \<Rightarrow> (replicate_answer highest refusal (fo_col s3), s3\<lparr>fo_repl := note_replicated io req held (fo_repl s3)\<rparr>))))"
    unfolding h [symmetric] replicate_handler_def gate q prod.case sum.case loop sync Let_def s2_def [symmetric] pub ..
  then have k: "\<not> isl w" "reply = replicate_answer highest refusal (fo_col s3)" "fo_col s' = fo_col s3"
    using reply publish_files(3) [OF pub] by (auto split: if_splits sum.splits)
  have "refusal = None" using k(2) reply loop_refusal [of ev 0 None None "replicate_frames io req" "fo_col s1"] loop
    by (auto simp: replicate_answer_def split: option.splits sum.splits replica_apply.splits)
  moreover have "reply = AppliedReply n \<longrightarrow> highest > 0" using k(2) \<open>refusal = None\<close> by (auto simp: replicate_answer_def split: if_splits)
  ultimately show ?thesis using gate q loop sync k publish_files(1,2) [OF pub] s2 by (cases w) (auto split: if_splits)
qed


section \<open>A run\<close>

text \<open>
  The leader's two frames, and a follower that is sent the first of them. A retry after a failed sync is
  answered as a duplicate and not synced, so the leader counts a frame a power loss can still take.
\<close>

definition ex_head :: "nat \<Rightarrow> nat \<Rightarrow> frame_header" where
  "ex_head lsn crc = \<lparr>fh_len = 3, fh_crc = crc, fh_term = 1, fh_lsn = lsn, fh_prev_lsn = lsn - 1, fh_prev_term = lsn - 1\<rparr>"

definition ex_row :: "nat \<Rightarrow> nat \<Rightarrow> u8 list \<Rightarrow> row" where
  "ex_row lsn crc p = \<lparr>rw_wal_id = 1, rw_offset = (lsn - 1) * 43, rw_head = ex_head lsn crc, rw_payload = p\<rparr>"

lemma ex_frames: "dk_files (co_disk ex_staged) = [(1, frame_bytes (ex_head 1 105, [1, 7, 97]) @ frame_bytes (ex_head 2 107, [1, 8, 98]))]"
  unfolding ex_staged_def ex_empty_eval by (simp add: ex_defs store_defs inline_bytes_def frame_bytes_def ex_head_def file_of_def) (simp add: numeral_3_eq_3 numeral_2_eq_2)

lemma ex_frame_ok: "frame_ok (ev_crc ex_env) (ex_head 1 105, [1, 7, 97])" "frame_ok (ev_crc ex_env) (ex_head 2 107, [1, 8, 98])"
  by (simp_all add: frame_ok_def ex_head_def header_fits_def ex_env_def payload_valid_def MAX_RECORD_SIZE_def)

lemma ex_logged_rows: "disk_rows ex_env (co_disk ex_staged) = [ex_row 1 105 [1, 7, 97], ex_row 2 107 [1, 8, 98]]"
proof -
  let ?f = "(ex_head 1 105, [1, 7, 97])" and ?g = "(ex_head 2 107, [1, 8, 98])"
  have "wal_rows (ev_crc ex_env) 1 0 (frame_bytes ?f @ frame_bytes ?g) = ex_row 1 105 [1, 7, 97] # wal_rows (ev_crc ex_env) 1 43 (frame_bytes ?g)"
    unfolding wal_rows_Some [OF next_frame_frame [OF ex_frame_ok(1)]] by (simp add: ex_row_def ex_head_def HEADER_LEN_def)
  moreover have "wal_rows (ev_crc ex_env) 1 43 (frame_bytes ?g @ []) = [ex_row 2 107 [1, 8, 98]]"
    unfolding wal_rows_Some [OF next_frame_frame [OF ex_frame_ok(2)]] by (simp add: ex_row_def ex_head_def HEADER_LEN_def)
  ultimately show ?thesis unfolding ex_frames by simp
qed

definition ex_first :: "u8 list" where
  "ex_first = frame_bytes (ex_head 1 105, [1, 7, 97])"

lemma ex_first_row: "ex_first = row_bytes (ex_row 1 105 [1, 7, 97])"
  by (simp add: ex_first_def row_bytes_def ex_row_def)

lemma ex_first_parse: "fh_parse ex_first = Some (ex_head 1 105)" "slice 40 43 ex_first = [1, 7, 97]" "length ex_first = 43"
  using row_bytes_parse [of "ev_crc ex_env" "ex_row 1 105 [1, 7, 97]"] ex_frame_ok(1) by (simp_all add: ex_first_row ex_row_def ex_head_def HEADER_LEN_def)

definition ex_one_request :: replicate_request where
  "ex_one_request = \<lparr>rq_collection = ''c'', rq_term = 1, rq_lsn = 1, rq_prev_lsn = 0, rq_commit_index = None, rq_wal_frame = ex_first, rq_frames = []\<rparr>"

lemma ex_append:
  "\<exists>c. append_raw_frame ex_env ex_io ex_first ex_empty = (Ok (Applied 1), c) \<and> co_last_lsn c = 1 \<and> co_durable_lsn c = 0 \<and>
     append_raw_frame ex_env ex_io ex_first c = (Ok (Duplicate 1), c)"
  unfolding ex_empty_eval
  by (simp add: append_raw_frame_def ex_first_parse [unfolded One_nat_def] ex_defs store_defs ex_head_def payload_valid_def staged_term_def inline_bytes_def)

lemmas ex_handler_defs = replicate_handler_def replicate_gate_def ex_handler_io_def ex_one_request_def ex_follower_def demo_cfg_def boot_state_def
  runs_as_primary_def replicate_frames_def ex_first_parse ex_head_def sync_wal_def note_synced_def refresh_if_config_def CONFIG_LOG_def
  replicate_publish_def note_leader_committed_def adopt_term_def replicate_answer_def note_replicated_def get_or_def Let_def

lemma ex_handled: "\<exists>s. replicate_handler ex_env ex_handler_io ex_one_request ex_follower = (AppliedReply 1, s)"
proof -
  obtain c where "append_raw_frame ex_env ex_io ex_first ex_empty = (Ok (Applied 1), c)" "co_last_lsn c = 1" using ex_append by blast
  then show ?thesis by (simp add: ex_handler_defs)
qed

text \<open>A sync that fails leaves the frame written; the leader's retry finds it there and is answered as a duplicate, with nothing synced.\<close>

lemma duplicate_acknowledged_unsynced:
  "\<exists>s t. replicate_handler ex_env (ex_handler_io\<lparr>hi_sync := False\<rparr>) ex_one_request ex_follower = (InternalError, s) \<and>
     replicate_handler ex_env ex_handler_io ex_one_request s = (DuplicateReply 1, t) \<and> co_durable_lsn (fo_col t) = 0"
proof -
  obtain c where "append_raw_frame ex_env ex_io ex_first ex_empty = (Ok (Applied 1), c)" "co_last_lsn c = 1" "co_durable_lsn c = 0"
      "append_raw_frame ex_env ex_io ex_first c = (Ok (Duplicate 1), c)" using ex_append by blast
  then show ?thesis by (simp add: ex_handler_defs)
qed


definition ex_read_io :: read_io where
  "ex_read_io = \<lparr>ri_retired = 0, ri_retired_after = 0, ri_opens = (\<lambda>_. True)\<rparr>"

lemma ex_backlog: "\<exists>frames. read_frames_after (ev_crc ex_env) ex_read_io 0 (co_last_lsn ex_staged) ex_staged = Ok frames"
proof -
  have ids: "0 < rw_wal_id r" if "r \<in> set (disk_rows ex_env (co_disk ex_staged))" for r using that by (auto simp: ex_logged_rows ex_row_def)
  have "rf_floor (co_recent ex_staged) = 0"
    unfolding ex_staged_def ex_empty_eval by (simp_all add: ex_defs store_defs inline_bytes_def rf_push_def rf_new_def RECENT_FRAMES_def)
  then obtain frames where "read_recent_frames (ev_crc ex_env) ex_read_io 0 (co_last_lsn ex_staged) ex_staged = Some frames"
    using recent_read(2) [OF ex_reach(2) ex_codec, of 0 ex_read_io] ids by (auto simp: ex_read_io_def)
  then show ?thesis by (simp add: read_frames_after_def)
qed

lemma ex_tail: "tail_of (0, 0) (rows_to 0 (disk_rows ex_env (co_disk ex_staged))) = (0, 0)" "\<forall>(wid, _)\<in>set (dk_files (co_disk ex_staged)). ri_retired ex_read_io < wid"
    "0 < co_last_lsn ex_staged"
proof -
  show "tail_of (0, 0) (rows_to 0 (disk_rows ex_env (co_disk ex_staged))) = (0, 0)" by (simp add: ex_logged_rows ex_row_def ex_head_def rows_to_def)
qed (simp_all add: ex_frames ex_read_io_def ex_next(4))


text \<open>
  A replica whose own log runs past the run it was sent, with entries the leader does not have, answers a
  duplicate with its own tail, and the pass records all of it as acknowledged: 50 where the leader's log
  ends at 2. \<^verbatim>\<open>confirm_tail\<close> caps the same answer at the frame it sent.
\<close>

definition ex_send_io :: "nat send_io" where
  "ex_send_io = \<lparr>si_u64 = Some, si_own = ''http://a'', si_now = 0, si_read = ex_read_io,
     si_apply = \<lparr>pi_pos = Some True, pi_meta = True\<rparr>, si_watched = False, si_replies = (\<lambda>_. reply_body id (DuplicateReply 50)), si_resynced = False\<rparr>"

definition ex_sender :: "nat sender" where
  "ex_sender = \<lparr>se_repl = (snd (boot_state (demo_cfg ''a'') None 0))\<lparr>rs_is_leader := True, rs_term := 1\<rparr>, se_owed = [], se_col = ex_staged\<rparr>"

lemma duplicate_reply_overcounts:
  "\<exists>s. stream_chain_once ex_env ex_send_io ''http://b'' ''c'' 0 None ex_sender = (Some 50, s) \<and>
     matched (rs_progress (se_repl s)) ''http://b'' ''c'' = 50 \<and> co_last_lsn (se_col s) = 2"
proof -
  obtain frames where rd: "read_frames_after (ev_crc ex_env) ex_read_io 0 (co_last_lsn ex_staged) ex_staged = Ok frames" using ex_backlog by blast
  note inv = steady_inv [OF reach_steady [OF ex_reach(2) ex_codec]]
  have fr: "frames = sent_rows 0 (co_last_lsn ex_staged) (disk_rows ex_env (co_disk ex_staged))"
    using recent_read(1) [OF ex_reach(2) ex_codec] scanned_read [OF ex_reach(2) ex_codec ex_tail(2)] rd by (auto simp: read_frames_after_def split: option.splits)
  have ok: "\<forall>r\<in>set (disk_rows ex_env (co_disk ex_staged)). frame_ok (ev_crc ex_env) (rw_head r, rw_payload r)"
    using leader_log_reach [OF ex_reach(2) ex_codec] by (simp add: leader_log_def)
  note plan = plan_rows [OF disk_ok_facts(3) [OF log_inv_disk [OF inv]] log_inv_facts(1) [OF inv, symmetric] ok ex_tail(1) disjI2 [OF refl] ex_tail(3), folded fr]
  let ?f = "row_bytes (ex_row 1 105 [1, 7, 97])" and ?g = "row_bytes (ex_row 2 107 [1, 8, 98])"
  have two: "frames = [(1, ?f), (2, ?g)]" unfolding fr by (simp add: ex_logged_rows ex_next(4)) (simp add: ex_row_def ex_head_def)
  have "length ?f = 43" "length ?g = 43"
    using row_bytes_parse(3) [of "ev_crc ex_env"] ok by (simp_all add: ex_logged_rows) (simp_all add: ex_row_def ex_head_def HEADER_LEN_def)
  then have batches: "size_bounded_batches frames = [frames]"
    unfolding two by (simp add: size_bounded_batches.simps(2) REPLICATION_BATCH_FRAMES_def REPLICATION_BATCH_BYTES_def MAX_FRAME_SIZE_def MAX_RECORD_SIZE_def)
  obtain b where reply: "reply_body id (DuplicateReply 50) = RSuccess b" "applied_through Some b = Some 50"
    using reply_read(1) [of Some id 50] by (simp add: reply_body_def)
  show ?thesis using rd plan batches reply
    by (simp add: stream_chain_once_def ex_sender_def ex_send_io_def ex_next(4) with_replies_def sent_mark_def st_note_ack_def Let_def
        boot_state_def demo_cfg_def st_note_sent_def note_sent_def note_ack_def observe_ack_def note_contact_def advance_def committed_def get_or_def
        matched_def new_progress_def st_apply_committed_def raise_cell_def set_cell_def cell_def)
qed

end
