(* ===== verification/Lease_Safety.thy ===== *)
theory Lease_Safety
  imports Election
begin

text \<open>
  What a vote and a read lease establish together with the quorum arithmetic: a candidate that a
  voter grants is behind it on no log, an entry a quorum holds is held by whoever wins, and while a
  leader's lease is held every electing set contains a voter that refuses or the leader itself.
\<close>

section \<open>Freshness\<close>

text \<open>
  The pre-vote asks exactly the vote's question: it says yes if and only if the request is for a
  later term and the real vote would be granted, whatever the voter has already voted.
\<close>

theorem pre_vote_predicts_vote:
  "decide_pre_vote t logs summary config req withhold \<longleftrightarrow>
     t < vr_term req \<and> vd_granted (decide_vote t voted logs summary config req withhold)"
  by (auto simp: decide_pre_vote_def decide_vote_def grants_def Let_def split: option.splits)

lemma tail_le_trans: "tail_le a b \<Longrightarrow> tail_le b c \<Longrightarrow> tail_le a c"
  by (auto simp: tail_le_def)

lemma granted_current:
  assumes "vd_granted (decide_vote t v logs summary config req withhold)" "vr_logs req \<noteq> []" "(name, mine) \<in> set logs"
  shows "tail_le mine (get_or no_tail (vr_logs req) name)"
  using assms by (auto simp: decide_vote_def grants_def candidate_is_current_def list_all_iff Let_def split: if_splits)

text \<open>
  An entry that reached a quorum survives the next election: if every node of a deciding set of one
  configuration has a log of the collection at least as far as the entry, and the votes a candidate
  gathered decide for a configuration that overlaps it, each granted by the voter's own log tails,
  then the candidate's log of that collection is at least as far too.
\<close>

lemma quorum_survives:
  assumes "cfg_overlap q r" "vr_logs req \<noteq> []" "has_quorum q replicated" "has_quorum r granted"
    and "\<And>v. v \<in> nodes replicated \<Longrightarrow> \<exists>mine. (name, mine) \<in> set (logs v) \<and> tail_le entry mine"
    and "\<And>v. v \<in> nodes granted \<Longrightarrow> vd_granted (decide_vote (trm v) (voted v) (logs v) (summary v) (config v) req (withhold v))"
  shows "tail_le entry (get_or no_tail (vr_logs req) name)"
proof -
  obtain v where v: "v \<in> nodes replicated" "v \<in> nodes granted"
    using cfg.meet [OF assms(1)] assms(3,4) unfolding has_quorum_iff by blast
  obtain mine where "(name, mine) \<in> set (logs v)" "tail_le entry mine" using assms(5) [OF v(1)] by blast
  then show ?thesis using granted_current [OF assms(6) [OF v(2)] assms(2)] tail_le_trans by blast
qed

section \<open>Promised silence\<close>

definition refuses :: "nat \<Rightarrow> nat \<Rightarrow> replication_state \<Rightarrow> bool" where
  "refuses timeout now g =
     withholds_vote (contact_age (rs_last_heartbeat g) (rs_last_replication g) now)
       (rs_novote_until g) (now - rs_booted_at g) timeout now"

text \<open>
  A voter from one moment to a later one: time passes, it grants further silence, it does anything that
  leaves the promise and the boot time alone, or it restarts and forgets the promise.
\<close>

inductive voter_life :: "nat \<Rightarrow> nat \<Rightarrow> replication_state \<Rightarrow> nat \<Rightarrow> replication_state \<Rightarrow> bool" for timeout now0 g0 where
  now: "voter_life timeout now0 g0 now0 g0"
| later: "voter_life timeout now0 g0 now g \<Longrightarrow> now \<le> now' \<Longrightarrow> voter_life timeout now0 g0 now' g"
| grant: "voter_life timeout now0 g0 now g \<Longrightarrow> voter_life timeout now0 g0 now (snd (grant_novote timeout now trm asked g))"
| other: "voter_life timeout now0 g0 now g \<Longrightarrow> rs_novote_until g' = rs_novote_until g \<Longrightarrow>
    rs_booted_at g' = rs_booted_at g \<Longrightarrow> voter_life timeout now0 g0 now g'"
| boot: "voter_life timeout now0 g0 now g \<Longrightarrow> voter_life timeout now0 g0 now (snd (boot_state cfg meta now))"

text \<open>The operations that move a term, a vote or the contact clocks are all of the third kind.\<close>

lemma promise_untouched:
  "apply_demotion now t g = Some (b, g') \<Longrightarrow> rs_novote_until g' = rs_novote_until g \<and> rs_booted_at g' = rs_booted_at g"
  "relinquish_leadership g = Some (b, g') \<Longrightarrow> rs_novote_until g' = rs_novote_until g \<and> rs_booted_at g' = rs_booted_at g"
  "cast_vote ser de unreadable io now s req n = (resp, b, n') \<Longrightarrow>
     rs_novote_until (nd_repl n') = rs_novote_until (nd_repl n) \<and> rs_booted_at (nd_repl n') = rs_booted_at (nd_repl n)"
  "rs_novote_until (snd (note_ack own now d r c l t g)) = rs_novote_until g \<and>
     rs_booted_at (snd (note_ack own now d r c l t g)) = rs_booted_at g"
  by (auto simp: apply_demotion_def relinquish_leadership_def cast_vote_def note_ack_def Let_def
      split: if_splits prod.splits)

definition silent_until :: "nat \<Rightarrow> nat \<Rightarrow> nat \<Rightarrow> replication_state \<Rightarrow> bool" where
  "silent_until timeout deadline now g =
     ((\<exists>u. rs_novote_until g = Some u \<and> deadline \<le> u) \<or>
      rs_booted_at g \<le> now \<and> deadline \<le> rs_booted_at g + refusal_window timeout)"

lemma grant_within_window:
  "fst (grant_novote timeout now trm asked g) \<le> refusal_window timeout"
  by (auto simp: grant_novote_def grantable_def Let_def split: option.splits)

lemma grant_promises:
  assumes "grant_novote timeout now trm asked g = (granted, g')" "0 < granted"
  shows "\<exists>u. rs_novote_until g' = Some u \<and> now + granted \<le> u"
  using assms by (auto simp: grant_novote_def Let_def split: if_splits option.splits)

lemma grant_keeps:
  assumes "silent_until timeout deadline now g"
  shows "silent_until timeout deadline now (snd (grant_novote timeout now trm asked g))"
  using assms by (auto simp: silent_until_def grant_novote_def Let_def split: option.splits)

lemma life_silent:
  assumes "voter_life timeout now0 g0 now g" "silent_until timeout deadline now0 g0" "deadline \<le> now0 + refusal_window timeout"
  shows "silent_until timeout deadline now g \<and> now0 \<le> now"
  using assms
proof (induction rule: voter_life.induct)
  case (boot now g cfg meta)
  then have "rs_booted_at (snd (boot_state cfg meta now)) = now" by (auto simp: boot_state_def Let_def split: option.splits)
  with boot show ?case by (auto simp: silent_until_def)
qed (auto intro: grant_keeps, auto simp: silent_until_def)

lemma silent_refuses: "silent_until timeout deadline now g \<Longrightarrow> now < deadline \<Longrightarrow> refuses timeout now g"
  unfolding silent_until_def refuses_def withholds_vote_def Let_def by (cases "rs_novote_until g") auto

lemma granted_silence_kept:
  assumes "grant_novote timeout now0 trm asked g = (granted, g')" "0 < granted"
    and "voter_life timeout now0 g' now g''" "now < now0 + granted"
  shows "refuses timeout now g''"
proof -
  have "silent_until timeout (now0 + granted) now0 g'" using grant_promises [OF assms(1,2)] by (auto simp: silent_until_def)
  moreover have "now0 + granted \<le> now0 + refusal_window timeout" using grant_within_window [of timeout now0 trm asked g] assms(1) by simp
  ultimately have "silent_until timeout (now0 + granted) now g''" using life_silent [OF assms(3)] by blast
  then show ?thesis using silent_refuses assms(4) by blast
qed

text \<open>
  A promise in the leader's table is backed: it rests on a grant the voter made no earlier than the
  probe was sent, and the voter has lived on from there to its present state. Times are the
  leader's; a voter's own clock is ahead of it by a constant.
\<close>

definition backed :: "nat \<Rightarrow> (string \<Rightarrow> nat) \<Rightarrow> (string \<Rightarrow> replication_state) \<Rightarrow> nat \<Rightarrow> string \<Rightarrow> nat \<Rightarrow> bool" where
  "backed timeout ahead state now voter until =
     (\<exists>t0 trm asked g granted g'. grant_novote timeout (t0 + ahead voter) trm asked g = (granted, g') \<and> 0 < granted \<and>
        until \<le> t0 + granted \<and> voter_life timeout (t0 + ahead voter) g' (now + ahead voter) (state voter))"

lemma backed_refuses: "backed timeout ahead state now voter until \<Longrightarrow> now < until \<Longrightarrow> refuses timeout (now + ahead voter) (state voter)"
  unfolding backed_def using granted_silence_kept by fastforce

text \<open>Recording an answer keeps the table backed: the deadline counts from before the probe was sent.\<close>

lemma note_promise_backed:
  assumes "\<forall>(v, p)\<in>set ls. backed timeout ahead state now v (pr_until p)" "distinct (map fst ls)"
    and "grant_novote timeout (t0 + ahead voter) trm asked g = (granted, g')" "0 < granted" "sent \<le> t0"
    and "voter_life timeout (t0 + ahead voter) g' (now + ahead voter) (state voter)"
  shows "\<forall>(v, p)\<in>set (note_promise ls voter sent wall (accept_promise granted timeout)).
           backed timeout ahead state now v (pr_until p)"
proof -
  have new: "backed timeout ahead state now voter (sent + accept_promise granted timeout)"
    using assms(3-6) unfolding backed_def accept_promise_def by (intro exI conjI) auto
  have old: "backed timeout ahead state now voter (pr_until p)" if "map_of ls voter = Some p" for p
    using map_of_SomeD [OF that] assms(1) by auto
  let ?u = "case map_of ls voter of Some held \<Rightarrow> max (pr_until held) (sent + accept_promise granted timeout)
    | None \<Rightarrow> sent + accept_promise granted timeout"
  have "backed timeout ahead state now voter ?u" using new old by (auto split: option.split simp: max_def)
  moreover have "set (AList.update voter x ls) \<subseteq> insert (voter, x) (set ls)" for x
    by (induction ls) auto
  ultimately show ?thesis using assms(1) unfolding note_promise_def Let_def by fastforce
qed



end
