(* ===== verification/Acknowledge.thy ===== *)
theory Acknowledge
  imports Stream Lease_Safety
begin

text \<open>
  What a client is told, and when: the waiting half of \<^verbatim>\<open>src/src/api/write.rs\<close> with \<^verbatim>\<open>replicate_and_await\<close> of
  \<^verbatim>\<open>src/src/replication/stream.rs\<close>, and the batches of \<^verbatim>\<open>write.rs\<close>. The answers of the replicas arrive in some order and
  stop when the client's patience does; the configuration is the one in force when the wait started,
  and leadership is looked at again when it ends.
\<close>

section \<open>Waiting\<close>

record write_outcome =
  wo_met :: bool
  wo_acks :: nat
  wo_required :: nat
  wo_existed :: bool
  wo_version :: version

fun collect_holders :: "write_quorum \<Rightarrow> string list \<Rightarrow> string option list \<Rightarrow> string list" where
  "collect_holders quorum hs [] = hs"
| "collect_holders quorum hs (arrival # arrivals) =
     (if wq_met quorum hs then hs
      else (case arrival of
              Some replica \<Rightarrow> collect_holders quorum (hs @ [replica]) arrivals
            | None \<Rightarrow> collect_holders quorum hs arrivals))"

text \<open>\<open>arrivals\<close>: each replica with whether it took the frame, in the order the answers came. Learners do not count.\<close>

definition replicate_and_await :: "string \<Rightarrow> string list \<Rightarrow> (string \<Rightarrow> bool) \<Rightarrow> write_quorum \<Rightarrow> (string \<times> bool) list \<Rightarrow> string list" where
  "replicate_and_await own replicas is_voting_replica quorum arrivals =
     (if replicas = [] \<or> wq_met quorum [own] then [own]
      else collect_holders quorum [own] (map (\<lambda>(replica_url, ok). if ok \<and> is_voting_replica replica_url then Some replica_url else None) arrivals))"

record finish_io =
  fi_own :: string
  fi_synced :: bool
  fi_apply :: persist_io
  fi_watched :: bool
  fi_config :: configuration
  fi_replicas :: "string list"
  fi_voting :: "string \<Rightarrow> bool"
  fi_arrivals :: "(string \<times> bool) list"
  fi_seen :: "replication_state option"

definition commit_through :: "'n env \<Rightarrow> finish_io \<Rightarrow> string \<Rightarrow> nat \<Rightarrow> 'n writer \<Rightarrow> (write_error, unit) result \<times> 'n writer" where
  "commit_through ev io col_name b w =
     (if b = 0 then (Ok (), w)
      else (case apply_committed ev (fi_apply io) (fi_watched io) b (wr_col w) of
              (Err e, _, c) \<Rightarrow> (Err (WriteFailed e), w\<lparr>wr_col := c\<rparr>)
            | (Ok _, _, c) \<Rightarrow>
                (Ok (), w\<lparr>wr_col := c,
                         wr_repl := (if col_name = CONFIG_LOG then map_option (refresh_configuration (fi_own io) (latest_config c)) (wr_repl w)
                                     else wr_repl w)\<rparr>)))"

definition advance_and_commit :: "'n env \<Rightarrow> finish_io \<Rightarrow> string \<Rightarrow> 'n writer \<Rightarrow> (write_error, unit) result \<times> 'n writer" where
  "advance_and_commit ev io col_name w =
     (case wr_repl w of
        None \<Rightarrow> (Ok (), w)
      | Some g \<Rightarrow> (case advance_own_commit (fi_own io) col_name (co_durable_lsn (wr_col w)) g of
                     (b, g') \<Rightarrow> commit_through ev io col_name b (w\<lparr>wr_repl := Some g'\<rparr>)))"

definition await_holders :: "finish_io \<Rightarrow> write_quorum \<Rightarrow> string list" where
  "await_holders io quorum =
     (if wq_met quorum [fi_own io] then [fi_own io]
      else replicate_and_await (fi_own io) (fi_replicas io) (fi_voting io) quorum (fi_arrivals io))"

definition finish_write ::
  "'n env \<Rightarrow> finish_io \<Rightarrow> string \<Rightarrow> pending_write \<Rightarrow> write_concern \<Rightarrow> 'n writer \<Rightarrow> (write_error, write_outcome) result \<times> 'n writer" where
  "finish_write ev io col_name p wc w =
     (if wr_repl w = None
      then (if \<not> fi_synced io then (Err (WriteFailed IoFailed), w)
            else (case commit_through ev io col_name (pw_lsn p) w of
                    (Err e, w') \<Rightarrow> (Err e, w')
                  | (Ok _, w') \<Rightarrow>
                      (Ok \<lparr>wo_met = True, wo_acks = 1, wo_required = 1, wo_existed = pw_existed p,
                           wo_version = \<lparr>v_term = pw_term p, v_lsn = pw_lsn p\<rparr>\<rparr>, w')))
      else (let quorum = write_quorum_of wc (fi_config io);
                hs = await_holders io quorum
            in if \<not> fi_synced io then (Err (WriteFailed IoFailed), w)
               else if \<not> kept_authority (fi_seen io) (pw_term p) then (Err NotLeading, w)
               else (case advance_and_commit ev io col_name w of
                       (Err e, w') \<Rightarrow> (Err e, w')
                     | (Ok _, w') \<Rightarrow>
                         (Ok \<lparr>wo_met = wq_met quorum hs, wo_acks = length hs, wo_required = wq_required quorum, wo_existed = pw_existed p,
                              wo_version = \<lparr>v_term = pw_term p, v_lsn = pw_lsn p\<rparr>\<rparr>, w'))))"

section \<open>Batches\<close>

definition migration_put ::
  "'n env \<Rightarrow> write_io \<Rightarrow> string \<Rightarrow> 'n jvalue \<Rightarrow> nat option \<Rightarrow> nat option \<Rightarrow> nat \<Rightarrow> 'n collection \<Rightarrow> (io_error, appended) result \<times> 'n collection" where
  "migration_put ev io key val ts expire_at term c =
     wal_append ev (wi_append io) (Put True key val (case ts of Some t \<Rightarrow> t | None \<Rightarrow> wi_ts io) expire_at) term c"

text \<open>Appends one after another, to the first that fails; what came before stays in the log.\<close>

fun append_all :: "('n collection \<Rightarrow> (io_error, appended) result \<times> 'n collection) list \<Rightarrow> 'n collection \<Rightarrow> (io_error, appended list) result \<times> 'n collection" where
  "append_all [] c = (Ok [], c)"
| "append_all (op # ops) c =
     (case op c of
        (Err e, c1) \<Rightarrow> (Err e, c1)
      | (Ok a, c1) \<Rightarrow> (case append_all ops c1 of
                         (Err e, c2) \<Rightarrow> (Err e, c2)
                       | (Ok as, c2) \<Rightarrow> (Ok (a # as), c2)))"

fun batch_existed :: "string set \<Rightarrow> string list \<Rightarrow> 'n collection \<Rightarrow> bool list" where
  "batch_existed batched [] c = []"
| "batch_existed batched (key # keys) c = (key \<in> batched \<or> exists_including_staged key c) # batch_existed (insert key batched) keys c"

definition note_batch ::
  "string \<Rightarrow> bool \<Rightarrow> nat \<Rightarrow> bool list \<Rightarrow> (io_error, appended list) result \<times> 'n collection \<Rightarrow> 'n writer \<Rightarrow> (write_error, pending_write list) result \<times> 'n writer" where
  "note_batch col_name syncs term existed res w =
     (case res of
        (Err e, c) \<Rightarrow> (Err (WriteFailed e), w\<lparr>wr_col := c\<rparr>)
      | (Ok frames, c) \<Rightarrow>
          (case sync_wal syncs c of
             (Err e, c1) \<Rightarrow> (Err (WriteFailed e), w\<lparr>wr_col := c1\<rparr>)
           | (Ok _, c1) \<Rightarrow>
               (Ok (map2 (\<lambda>(frame, _, _, lsn) ex. \<lparr>pw_frame = frame, pw_term = term, pw_lsn = lsn, pw_existed = ex\<rparr>) frames existed),
                w\<lparr>wr_col := c1,
                  wr_repl := (case frames of
                                (_, _, _, lsn) # _ \<Rightarrow> map_option (st_note_leader_append col_name lsn) (wr_repl w)
                              | [] \<Rightarrow> wr_repl w)\<rparr>)))"

type_synonym 'n batch_item = "string \<times> 'n jvalue \<times> nat option \<times> nat option"

definition local_write_batch_inner ::
  "'n env \<Rightarrow> (nat \<Rightarrow> write_io) \<Rightarrow> bool \<Rightarrow> string \<Rightarrow> 'n batch_item list \<Rightarrow> bool \<Rightarrow> 'n writer \<Rightarrow> (write_error, pending_write list) result \<times> 'n writer" where
  "local_write_batch_inner ev ios syncs col_name items migration w =
     (case append_term (wr_repl w) of
        Err e \<Rightarrow> (Err e, w)
      | Ok term \<Rightarrow>
          (let existed = batch_existed {} (map fst items) (wr_col w);
               ops = map2 (\<lambda>i (key, val, ts, expire_at).
                       if migration then migration_put ev (ios i) key val ts expire_at term
                       else put_with_expiry ev (ios i) key val expire_at term) [0..<length items] items
           in note_batch col_name syncs term existed (append_all ops (wr_col w)) w))"

text \<open>The sweep of expired documents: only a key whose latest version is still the one that expired.\<close>

definition local_sweep_expired_batch ::
  "'n env \<Rightarrow> (nat \<Rightarrow> write_io) \<Rightarrow> bool \<Rightarrow> string \<Rightarrow> (string \<times> version) list \<Rightarrow> 'n writer \<Rightarrow> (write_error, pending_write list) result \<times> 'n writer" where
  "local_sweep_expired_batch ev ios syncs col_name candidates w =
     (if candidates = [] then (Ok [], w)
      else (case append_term (wr_repl w) of
              Err e \<Rightarrow> (Err e, w)
            | Ok term \<Rightarrow>
                (let to_delete = map fst (filter (\<lambda>(key, expected). version_including_staged key (wr_col w) = Some expected) candidates)
                 in if to_delete = [] then (Ok [], w)
                    else (let ops = map2 (\<lambda>i key. col_delete ev (ios i) key term) [0..<length to_delete] to_delete
                          in note_batch col_name syncs term (replicate (length to_delete) True) (append_all ops (wr_col w)) w))))"

definition finish_write_batch ::
  "'n env \<Rightarrow> finish_io \<Rightarrow> string \<Rightarrow> pending_write list \<Rightarrow> write_concern \<Rightarrow> 'n writer \<Rightarrow> (write_error, write_outcome list) result \<times> 'n writer" where
  "finish_write_batch ev io col_name pending wc w =
     (if pending = [] then (Ok [], w)
      else (let spread = (\<lambda>met acks required. map (\<lambda>p. \<lparr>wo_met = met, wo_acks = acks, wo_required = required, wo_existed = pw_existed p,
                                                        wo_version = \<lparr>v_term = pw_term p, v_lsn = pw_lsn p\<rparr>\<rparr>) pending)
            in if wr_repl w = None
               then (case commit_through ev io col_name (pw_lsn (last pending)) w of
                       (Err e, w') \<Rightarrow> (Err e, w')
                     | (Ok _, w') \<Rightarrow> (Ok (spread True 1 1), w'))
               else (let quorum = write_quorum_of wc (fi_config io);
                         hs = await_holders io quorum
                     in if \<not> kept_authority (fi_seen io) (pw_term (last pending)) then (Err NotLeading, w)
                        else (case advance_and_commit ev io col_name w of
                                (Err e, w') \<Rightarrow> (Err e, w')
                              | (Ok _, w') \<Rightarrow> (Ok (spread (wq_met quorum hs) (length hs) (wq_required quorum)), w')))))"

section \<open>What an acknowledgement means\<close>

lemma collected: "set (collect_holders q hs as) \<subseteq> set hs \<union> {r. Some r \<in> set as}"
  by (induction q hs as rule: collect_holders.induct) (auto split: option.splits)

lemma awaited: "set (await_holders io q) \<subseteq> insert (fi_own io) {r. (r, True) \<in> set (fi_arrivals io)}"
  using collected [of q "[fi_own io]" "map (\<lambda>(replica_url, ok). if ok \<and> fi_voting io replica_url then Some replica_url else None) (fi_arrivals io)"]
  by (auto simp: await_holders_def replicate_and_await_def image_iff split: if_splits)


section \<open>Sweeping\<close>

lemma append_next:
  assumes "co_fence c = None" "wal_append ev io entry term c = (Ok a, c')"
  shows "co_db_next_lsn c' = co_db_next_lsn c + 1"
proof -
  obtain r1 c1 where once: "record_watermark_once (ap_meta io) c = (r1, c1)" by fastforce
  have c1: "co_fence c1 = None" "co_db_next_lsn c1 = co_db_next_lsn c"
    using once assms(1) by (auto simp: record_watermark_once_def persist_watermark_full_def split: if_splits sum.splits)
  have heal: "heal_fenced_cut (ap_cut io) c1 = (Ok (), c1)" using c1(1) by (simp add: heal_fenced_cut_def)
  obtain r3 c3 where rot: "rotate_if_full io c1 = (r3, c3)" by fastforce
  then have c3: "co_db_next_lsn c3 = co_db_next_lsn c"
    using c1(2) by (auto simp: rotate_if_full_def open_next_wal_def write_file_def note_synced_def Let_def split: if_splits)
  have placed: "co_db_next_lsn (note_appended ev h e p w off x) = max (co_db_next_lsn x) (fh_lsn h)" for h e p w off and x :: "'a collection"
  proof -
    have "co_db_next_lsn (stage_appended ev l t e w off p y) = co_db_next_lsn y" for l t and y :: "'a collection"
      using staged_of_state [of ev l t e w off p y] by (auto simp: stage_appended_def Let_def release_staged_def split: prod.splits option.splits)
    then show ?thesis by (simp add: note_appended_def)
  qed
  show ?thesis using assms(2) c3
    by (auto simp: wal_append_def once heal rot write_frame_def write_file_def placed Let_def split: if_splits sum.splits prod.splits option.splits)
qed

text \<open>One deletion, whether or not the append succeeds, touches no other key.\<close>

lemma delete_logged:
  assumes c: "log_reach ev c" "codec_ok ev (Del False k ts)" and io: "sound_io io" "\<And>n. torn_within io n" "term < 2 ^ 64" "co_db_next_lsn c + 1 < 2 ^ 64"
    and a: "wal_append ev io (Del False k ts) term c = (r, c')"
  shows "log_reach ev c'" "key \<noteq> k \<Longrightarrow> documents ev (disk_rows ev (co_disk c')) key = documents ev (disk_rows ev (co_disk c)) key"
    "r = Ok x \<Longrightarrow> co_db_next_lsn c' = co_db_next_lsn c + 1"
proof -
  have de: "ev_de ev [] = None" "ev_de ev (ev_ser ev (Del False k ts)) = Some (Del False k ts)" "ev_ser ev (Del False k ts) \<noteq> []"
    using c(2) by (auto simp: codec_ok_def)
  note st = reach_steady [OF c(1) de(1)]
  show "log_reach ev c'" by (rule reach_step [OF c(1) log_append [OF io(1,2) de(2,3) io(3,4) a]])
  show "r = Ok x \<Longrightarrow> co_db_next_lsn c' = co_db_next_lsn c + 1" using append_next [OF log_inv_facts(11) [OF steady_inv [OF st]]] a by blast
  have "grows ev r c c' (\<lambda>x. rw_payload x = ev_ser ev (Del False k ts) \<and> rw_term x = term)" by (rule append_keeps(2) [OF st io(1,2) de(2,3) io(3,4) a])
  then show "key \<noteq> k \<Longrightarrow> documents ev (disk_rows ev (co_disk c')) key = documents ev (disk_rows ev (co_disk c)) key"
    using de(2) by (cases r) (auto simp: grows_def documents_snoc row_change_def)
qed

lemma deletes_logged:
  assumes "log_reach ev c" "\<And>key i. key \<in> set keys \<Longrightarrow> codec_ok ev (Del False key (wi_ts (ios i)))"
    "\<And>i. sound_io (wi_append (ios i))" "\<And>i n. torn_within (wi_append (ios i)) n" "term < 2 ^ 64" "co_db_next_lsn c + length keys < 2 ^ 64"
    "append_all (map2 (\<lambda>i key. col_delete ev (ios i) key term) js keys) c = (r, c')"
  shows "log_reach ev c'" "key \<notin> set keys \<Longrightarrow> documents ev (disk_rows ev (co_disk c')) key = documents ev (disk_rows ev (co_disk c)) key"
proof -
  have "log_reach ev c' \<and> (key \<notin> set keys \<longrightarrow> documents ev (disk_rows ev (co_disk c')) key = documents ev (disk_rows ev (co_disk c)) key)"
    using assms(1,2,6,7)
  proof (induction keys arbitrary: c js r)
    case (Cons k keys)
    show ?case
    proof (cases js)
      case js: (Cons j js')
      obtain r1 c1 where a: "wal_append ev (wi_append (ios j)) (Del False k (wi_ts (ios j))) term c = (r1, c1)" by fastforce
      then have del: "col_delete ev (ios j) k term c = (r1, c1)" by (simp add: col_delete_def)
      have "co_db_next_lsn c + 1 < 2 ^ 64" "codec_ok ev (Del False k (wi_ts (ios j)))" using Cons.prems(2,3) by simp_all
      note d = delete_logged [OF Cons.prems(1) this(2) assms(3,4,5) this(1) a]
      show ?thesis
      proof (cases r1)
        case (Inl e)
        then show ?thesis using Cons.prems(4) js del d(1,2) by auto
      next
        case (Inr x)
        then obtain r2 where rest: "append_all (map2 (\<lambda>i key. col_delete ev (ios i) key term) js' keys) c1 = (r2, c')"
          using Cons.prems(4) js del by (auto split: prod.splits sum.splits)
        have "co_db_next_lsn c1 + length keys < 2 ^ 64" using d(3) [OF Inr] Cons.prems(3) by simp
        from Cons.IH [OF d(1) _ this rest] show ?thesis using Cons.prems(2) d(2) by auto
      qed
    qed (use Cons.prems in simp)
  qed simp
  then show "log_reach ev c'" "key \<notin> set keys \<Longrightarrow> documents ev (disk_rows ev (co_disk c')) key = documents ev (disk_rows ev (co_disk c)) key" by auto
qed

lemma batch_noted:
  assumes "note_batch col_name syncs term ex (q, c) w = (r, w')" "log_reach ev c"
  shows "log_reach ev (wr_col w')" "dk_files (co_disk (wr_col w')) = dk_files (co_disk c)"
proof -
  obtain x c1 where sync: "sync_wal syncs c = (x, c1)" by fastforce
  then have "log_reach ev c1" "dk_files (co_disk c1) = dk_files (co_disk c)"
    using reach_step [OF assms(2) log_sync [OF sync]] by (auto simp: sync_wal_def note_synced_def split: if_splits)
  moreover have "wr_col w' = c \<or> wr_col w' = c1" using assms(1) sync by (auto simp: note_batch_def split: sum.splits)
  ultimately show "log_reach ev (wr_col w')" "dk_files (co_disk (wr_col w')) = dk_files (co_disk c)" using assms(2) by auto
qed


section \<open>A run\<close>

text \<open>Document a was found expired at version 1.1 and b at an older version than the one it has now.\<close>

lemma ex_del_codec: "key \<in> {''a'', ''b''} \<Longrightarrow> codec_ok ex_env (Del False key (wi_ts ex_write_io))"
  by (auto simp: codec_ok_def ex_env_def ex_write_io_def ex_chars)


text \<open>Three nodes; b acknowledges a write of a, and c stands with the votes of b and itself.\<close>

definition ex_finish_io :: finish_io where
  "ex_finish_io = \<lparr>fi_own = ''a'', fi_synced = True, fi_apply = \<lparr>pi_pos = Some True, pi_meta = True\<rparr>, fi_watched = False, fi_config = cfg_simple [''a'', ''b'', ''c''],
     fi_replicas = [''b'', ''c''], fi_voting = (\<lambda>_. True), fi_arrivals = [(''b'', True)], fi_seen = None\<rparr>"


end
