(* ===== verification/Spec2Isabelle.thy ===== *)
theory Spec2Isabelle
  imports Index_Build Election_Safety View_Durability Acknowledge
begin

text \<open>
  DewDB is a sharded, replicated document store. A node is a shard or a router. A shard keeps
  collections -- an ordered map of JSON documents over a write-ahead log, with secondary indexes -- and
  belongs to a group that elects a leader, replicates the leader's log and commits an entry once a
  quorum holds it. Every node holds a versioned view of the cluster: its members, the ring that assigns
  keys to groups, a migration in flight and the catalogue of index definitions. Routers and shards use
  the ring to send a request to the group that owns its key, and merge pages from several groups.

  The program is \<^verbatim>\<open>src/src\<close>. Each theory models the file or part of a file its opening text names, in
  the order the code has it: structs are records, enums datatypes, a function one definition, an early
  return or an error a branch. A critical section is one definition: what the code samples outside the
  lock -- the clock, a URL, a file's answer -- is an argument, and interleavings are sequences of such
  steps. Errors are values of \<open>result\<close>; message texts are left out.

  \<^bold>\<open>Data.\<close> \<open>Prelude\<close> has the orders, the B-tree maps as sorted lists, sorting, text handling and the locale
  \<open>cmp_order\<close> of total orders that every ordered container is used through. \<open>Json\<close> is \<^verbatim>\<open>json.rs\<close>: paths,
  merge patch, projection and the order of values (numbers are a type parameter with the order their
  \<^verbatim>\<open>as_f64\<close> gives). \<open>Utf8\<close> and \<open>Util\<close> are strings as bytes and \<^verbatim>\<open>util.rs\<close>: endpoints, base64, escaping.

  \<^bold>\<open>Queries.\<close> \<open>Query\<close> is \<^verbatim>\<open>query.rs\<close>: filters and their parser, sort orders, cursors and the k-way merge of
  sorted pages. \<open>Secondary\<close> is \<^verbatim>\<open>storage/secondary.rs\<close>: postings and the planner, which never loses a
  matching row. \<open>Index_Build\<close> runs a build against concurrent writes. \<open>Scan\<close> is the read side of
  \<^verbatim>\<open>storage/collection.rs\<close>: range walks, candidate walks, pages and their cursors.

  \<^bold>\<open>Storage.\<close> \<open>Frame\<close> is \<^verbatim>\<open>storage/frame.rs\<close> and the entries of \<^verbatim>\<open>storage/index.rs\<close>; \<open>Store\<close> the state of a
  collection with the commit half of \<^verbatim>\<open>storage/collection.rs\<close>; \<open>Wal\<close> is \<^verbatim>\<open>storage/wal.rs\<close> with the opening and
  the reads of a collection. A directory is a value: WAL files as bytes, the recorded cut, the index
  snapshot and the watermark files; whether each file operation succeeds, and after how many bytes a
  write stops, are arguments. \<open>Commit\<close> shows how commits batch, what staged reads predict and that
  inlined memory is accounted for. \<open>Log\<close> reads files back as rows and \<open>Logical\<close> gives the rows their
  meaning; \<open>Recovery\<close> shows what an open recovers, \<open>Log_files\<close> and \<open>Live\<close> that every operation keeps the
  directory recoverable, \<open>Reads\<close> that memory and disk agree. \<open>Crash\<close> is the life of a collection as a
  step relation, and \<open>Crash_Safety\<close> states what it promises: reads answer from the log, crashes lose
  nothing, commits stay, failed writes leave no trace. A crash there is a process that dies; the loss of
  unsynced pages is outside these theorems.

  \<^bold>\<open>Consensus.\<close> \<open>Quorum\<close> is \<^verbatim>\<open>consensus/config.rs\<close> and \<^verbatim>\<open>replication/write_concern.rs\<close>; \<open>Progress\<close> the
  leader's commit index; \<open>Lease\<close> read leases; \<open>Meta_Store\<close> the durable vote over a file system whose
  every step can fail; \<open>Consensus\<close> the replication state with the operations of \<^verbatim>\<open>state.rs\<close> and the boot
  decision of \<^verbatim>\<open>main.rs\<close>; \<open>Election\<close> voting and campaigning. \<open>Election_Safety\<close> runs a cluster of such
  nodes, with crashes and restarts, and shows one winner per term and one leader at a time;
  \<open>Lease_Safety\<close> that a committed entry survives elections and that a lease excludes rivals.

  \<^bold>\<open>Replication and writes.\<close> \<open>Replicate\<close> is the follower's handler of \<^verbatim>\<open>api/internal.rs\<close>: a follower that takes its
  leader's frames serves its leader's log. \<open>Backlog\<close> is how a leader reads its log back for a replica that
  is behind; the reader that uses remembered positions and the full scan agree. \<open>Stream\<close> is
  \<^verbatim>\<open>replication/stream.rs\<close> and \<^verbatim>\<open>replication/protocol.rs\<close>: what a repair sends, how each answer moves the leader's
  books, and what a success answer proves of the follower. \<open>Precondition\<close> is \<^verbatim>\<open>api/precondition.rs\<close>, \<open>Write\<close> the
  append half of \<^verbatim>\<open>api/write.rs\<close> and \<open>Acknowledge\<close> its waiting half with the batches: conditional writes lose
  no update, the expiry sweep spares newer documents, and a write acknowledged by a majority survives
  elections. Answers of peers and their order are arguments. Runs under \<open>Stream\<close> exhibit two defects of
  the acknowledgements: a duplicate answer counted past the frames sent, and one given before a sync.

  \<^bold>\<open>Topology.\<close> \<open>Ring\<close> is \<^verbatim>\<open>ring.rs\<close>; \<open>Metadata\<close> is \<^verbatim>\<open>cluster/metadata.rs\<close>; \<open>Ownership\<close> is \<^verbatim>\<open>cluster/ownership.rs\<close>
  and the topology half of \<^verbatim>\<open>state.rs\<close>. \<open>Ownership_Safety\<close> shows that one group answers for a key and
  that a handover never gives it two writers; \<open>View_Durability\<close> that a restart finds the topology the
  node served.

  \<^bold>\<open>Parameters.\<close> The 64-bit hash, CRC-32, serde encodings and JSON numbers are arguments; what the proofs
  use of them -- that decoding undoes encoding, that a torn encoding does not decode -- are hypotheses
  of the theorems that need them, with instances in the witnesses. LSNs, terms and versions are natural
  numbers, except where a width decides something: hashes are 64-bit words, base64 works on bytes, and
  saturating arithmetic is written out. Loops recurse on their data; those that are not structural
  (the merge, the ring's binary search, paging, batching, scans of a file) have termination proofs, so no fuel is used.

  \<^bold>\<open>Not modelled.\<close> Compaction, the opening and dropping of collections by the database, snapshot
  transfer and the drivers of reconfiguration and migration, which are file and network I/O around the
  decisions modelled here; HTTP handlers other than voting and replication, routing fan-out, asynchronous tasks, TLS and credentials, webhooks
  and change feeds, metrics, the command line and the test harnesses; floating-point reports
  (\<^verbatim>\<open>keyspace_movement\<close>, aggregation).
\<close>

end
